(* ===== verification/Prelude.thy ===== *)
theory Prelude
  imports Main "HOL-Library.Word"
begin

text \<open>
  Shared vocabulary of the development: the C integer types of the target
  (32-bit little-endian ARM, where plain \<open>char\<close> is unsigned and \<open>long\<close> has 32
  bits), byte order conversions, bounded buffer accesses, and the generic
  transition-system contract that the state machines of the repository share.

  An access that is undefined in C (a copy past the end of an array, a shift by
  the width of the type) makes the operation return \<open>None\<close>.
\<close>

unbundle bit_operations_syntax

type_synonym u8 = "8 word"
type_synonym u16 = "16 word"
type_synonym u32 = "32 word"
type_synonym u64 = "64 word"

named_theorems buf_simps "bounded reads and writes of byte buffers"

subsection \<open>Bytes of a word\<close>

text \<open>Little-endian stores and loads of \<open>uint16\<close> and \<open>uint32\<close>, as a cast pointer does on the target.\<close>

definition le16 :: "u16 \<Rightarrow> u8 list" where
  "le16 w = [ucast w, ucast (drop_bit 8 w)]"

definition be16 :: "u16 \<Rightarrow> u8 list" where
  "be16 w = [ucast (drop_bit 8 w), ucast w]"

definition le32 :: "u32 \<Rightarrow> u8 list" where
  "le32 w = [ucast w, ucast (drop_bit 8 w), ucast (drop_bit 16 w), ucast (drop_bit 24 w)]"

fun from_le16 :: "u8 list \<Rightarrow> u16" where
  "from_le16 (a # b # _) = ucast a OR push_bit 8 (ucast b)"
| "from_le16 _ = 0"

fun from_le32 :: "u8 list \<Rightarrow> u32" where
  "from_le32 (a # b # c # d # _) =
     ucast a OR push_bit 8 (ucast b) OR push_bit 16 (ucast c) OR push_bit 24 (ucast d)"
| "from_le32 _ = 0"

lemma length_le16 [simp]: "length (le16 w) = 2"
  by (simp add: le16_def)

lemma length_be16 [simp]: "length (be16 w) = 2"
  by (simp add: be16_def)

lemma length_le32 [simp]: "length (le32 w) = 4"
  by (simp add: le32_def)

lemma from_le16_le16 [simp]: "from_le16 (le16 w @ xs) = w"
  by (rule bit_word_eqI) (auto simp: le16_def bit_simps)

lemma from_le32_le32 [simp]: "from_le32 (le32 w @ xs) = w"
proof (rule bit_word_eqI)
  fix n assume "n < LENGTH(32)"
  then show "bit (from_le32 (le32 w @ xs)) n = bit w n"
    by (cases "n < 8"; cases "n < 16"; cases "n < 24") (auto simp: le32_def bit_simps)
qed

subsection \<open>Words as natural numbers\<close>

lemma unat_u8_lt: "unat (w :: u8) < 256"
  using unsigned_less [of w, where ?'a = nat] by simp

lemma unat_u16_lt: "unat (w :: u16) < 65536"
  using unsigned_less [of w, where ?'a = nat] by simp

lemma unat_u32_lt: "unat (w :: u32) < 4294967296"
  using unsigned_less [of w, where ?'a = nat] by simp

lemma unat_ucast_mod: "unat (ucast w :: 'b::len word) = unat w mod 2 ^ LENGTH('b)"
  by (simp add: unsigned_ucast_eq take_bit_eq_mod)

lemma unat_drop_bit: "unat (drop_bit n w) = unat w div 2 ^ n"
  unfolding unat_drop_bit_eq by (rule drop_bit_eq_div)

lemma unat_take_bit: "unat (take_bit n w) = unat w mod 2 ^ n"
  unfolding unsigned_take_bit_eq by (rule take_bit_eq_mod)

lemmas unat_simps = unat_word_ariths unat_ucast_mod unat_drop_bit unat_take_bit

lemma unat_min: "unat (min a b) = min (unat a) (unat b)"
  by (simp add: min_def word_le_nat_alt)

lemma sint_of_nat: "n < 2 ^ 31 \<Longrightarrow> sint (of_nat n :: u32) = int n"
  by (simp add: sint_uint uint_nat unat_of_nat signed_take_bit_eq_take_bit_minus bit_iff_odd take_bit_eq_mod)

lemma sint_small:
  fixes x :: u32
  assumes "unat x < 2 ^ 31"
  shows "sint x = int (unat x)"
  using sint_of_nat [OF assms] by simp

subsection \<open>Bounded buffer accesses\<close>

text \<open>\<open>memcpy(&buf[i], data, len)\<close>: defined only when the whole range lies inside the object.\<close>

definition put_bytes :: "nat \<Rightarrow> 'a list \<Rightarrow> 'a list \<Rightarrow> 'a list option" where
  "put_bytes i xs buf =
     (if i + length xs \<le> length buf
      then Some (take i buf @ xs @ drop (i + length xs) buf) else None)"

text \<open>Reading \<open>n\<close> elements from index \<open>i\<close>.\<close>

definition get_bytes :: "nat \<Rightarrow> nat \<Rightarrow> 'a list \<Rightarrow> 'a list option" where
  "get_bytes i n buf = (if i + n \<le> length buf then Some (take n (drop i buf)) else None)"

text \<open>Reading the element at index \<open>i\<close>.\<close>

definition byte_at :: "nat \<Rightarrow> 'a list \<Rightarrow> 'a option" where
  "byte_at i buf = (if i < length buf then Some (buf ! i) else None)"

lemma put_bytes_length [buf_simps]: "put_bytes i xs buf = Some buf' \<Longrightarrow> length buf' = length buf"
  by (auto simp: put_bytes_def split: if_splits)

lemma put_bytes_eq_None [buf_simps]: "put_bytes i xs buf = None \<longleftrightarrow> length buf < i + length xs"
  by (auto simp: put_bytes_def)

lemma put_bytes_nth:
  assumes "put_bytes i xs buf = Some buf'" and "k < length buf"
  shows "buf' ! k = (if i \<le> k \<and> k < i + length xs then xs ! (k - i) else buf ! k)"
  using assms by (auto simp: put_bytes_def nth_append min_def split: if_splits)

lemma get_put_same [buf_simps]:
  "put_bytes i xs buf = Some buf' \<Longrightarrow> get_bytes i (length xs) buf' = Some xs"
  by (auto simp: put_bytes_def get_bytes_def split: if_splits)

lemma get_bytes_length [buf_simps]: "get_bytes i n buf = Some xs \<Longrightarrow> length xs = n"
  by (auto simp: get_bytes_def split: if_splits)

lemma get_put_before:
  "put_bytes i xs buf = Some buf' \<Longrightarrow> j + n \<le> i \<Longrightarrow> get_bytes j n buf' = get_bytes j n buf"
  by (auto simp: put_bytes_def get_bytes_def drop_take min_def split: if_splits)

lemma get_put_after:
  assumes "put_bytes i xs buf = Some buf'" and "i + length xs \<le> j"
  shows "get_bytes j n buf' = get_bytes j n buf"
proof -
  from assms(1) have len: "i + length xs \<le> length buf"
    and buf': "buf' = take i buf @ xs @ drop (i + length xs) buf"
    by (auto simp: put_bytes_def split: if_splits)
  with assms(2) have "drop j buf' = drop j buf"
    by (simp add: min_def)
  with len buf' show ?thesis by (simp add: get_bytes_def)
qed

subsection \<open>Transition systems\<close>

text \<open>
  Every event-driven component of the repository (a connectivity manager, a
  synchronisation server, a message queue) is a deterministic step function over
  a state and an event. An invariant kept by the step holds after every run.
\<close>

fun run_steps :: "('s \<Rightarrow> 'e \<Rightarrow> 's) \<Rightarrow> 's \<Rightarrow> 'e list \<Rightarrow> 's" where
  "run_steps stp s [] = s"
| "run_steps stp s (e # es) = run_steps stp (stp s e) es"

lemma run_steps_append: "run_steps stp s (xs @ ys) = run_steps stp (run_steps stp s xs) ys"
  by (induction xs arbitrary: s) auto

locale transition_system =
  fixes start :: "'s \<Rightarrow> bool"
    and stp :: "'s \<Rightarrow> 'e \<Rightarrow> 's"
    and inv :: "'s \<Rightarrow> bool"
  assumes inv_start: "start s \<Longrightarrow> inv s"
    and inv_stp: "inv s \<Longrightarrow> inv (stp s e)"
begin

lemma inv_run: "inv s \<Longrightarrow> inv (run_steps stp s es)"
  by (induction es arbitrary: s) (auto intro: inv_stp)

lemma inv_reachable: "start s \<Longrightarrow> inv (run_steps stp s es)"
  by (auto intro: inv_run inv_start)

end

subsection \<open>First-in first-out queues\<close>

text \<open>
  The contract a message queue of the repository offers its threads: \<open>enq\<close> may refuse,
  \<open>deq\<close> answers nothing exactly when the queue is empty. Whatever the interleaving of
  the two, what comes out is what went in, in order.
\<close>

datatype 'a qop = Put 'a | Get

text \<open>A run collects what was accepted and what was delivered.\<close>

fun qrun :: "('a \<Rightarrow> 'q \<Rightarrow> 'q option) \<Rightarrow> ('q \<Rightarrow> ('a \<times> 'q) option) \<Rightarrow> 'q \<Rightarrow> 'a qop list
    \<Rightarrow> 'a list \<times> 'a list \<times> 'q" where
  "qrun put get q [] = ([], [], q)"
| "qrun put get q (Put x # ops) =
     (case put x q of
        None \<Rightarrow> qrun put get q ops
      | Some q' \<Rightarrow> (case qrun put get q' ops of (ins, outs, q'') \<Rightarrow> (x # ins, outs, q'')))"
| "qrun put get q (Get # ops) =
     (case get q of
        None \<Rightarrow> qrun put get q ops
      | Some (x, q') \<Rightarrow> (case qrun put get q' ops of (ins, outs, q'') \<Rightarrow> (ins, x # outs, q'')))"

locale fifo =
  fixes enq :: "'a \<Rightarrow> 'q \<Rightarrow> 'q option"
    and deq :: "'q \<Rightarrow> ('a \<times> 'q) option"
    and contents :: "'q \<Rightarrow> 'a list"
    and wf :: "'q \<Rightarrow> bool"
  assumes enq_law: "wf q \<Longrightarrow> enq x q = Some q' \<Longrightarrow> wf q' \<and> contents q' = contents q @ [x]"
    and deq_empty: "wf q \<Longrightarrow> deq q = None \<longleftrightarrow> contents q = []"
    and deq_law: "wf q \<Longrightarrow> deq q = Some (x, q') \<Longrightarrow> wf q' \<and> contents q = x # contents q'"
begin

lemma qrun_conserves:
  "wf q \<Longrightarrow> qrun enq deq q ops = (ins, outs, q') \<Longrightarrow> wf q' \<and> contents q @ ins = outs @ contents q'"
proof (induction ops arbitrary: q ins outs q')
  case (Cons op ops)
  note IH = Cons.IH and prems = Cons.prems
  show ?case
  proof (cases op)
    case (Put x)
    show ?thesis
    proof (cases "enq x q")
      case None
      with IH [OF prems(1)] prems(2) Put show ?thesis by simp
    next
      case (Some q1)
      obtain i o' q2 where r: "qrun enq deq q1 ops = (i, o', q2)" using prod_cases3 by blast
      from enq_law [OF prems(1) Some] have "wf q1" "contents q1 = contents q @ [x]" by simp_all
      with IH [OF _ r] prems(2) Put Some r show ?thesis by simp
    qed
  next
    case Get
    show ?thesis
    proof (cases "deq q")
      case None
      with IH [OF prems(1)] prems(2) Get show ?thesis by simp
    next
      case (Some d)
      obtain x q1 where d: "d = (x, q1)" by fastforce
      obtain i o' q2 where r: "qrun enq deq q1 ops = (i, o', q2)" using prod_cases3 by blast
      from deq_law [OF prems(1)] Some d have "wf q1" "contents q = x # contents q1" by simp_all
      with IH [OF _ r] prems(2) Get Some d r show ?thesis by simp
    qed
  qed
qed auto

lemma qrun_from_empty:
  "wf q \<Longrightarrow> contents q = [] \<Longrightarrow> qrun enq deq q ops = (ins, outs, q') \<Longrightarrow> ins = outs @ contents q'"
  using qrun_conserves by fastforce

end

subsection \<open>Ring buffers\<close>

text \<open>
  A ring of \<open>n\<close> slots between a read index and a write index, one slot always unused: the
  slots in use, oldest first. The index after the last slot is the first one.
\<close>

definition ring_slots :: "nat \<Rightarrow> nat \<Rightarrow> nat \<Rightarrow> nat list" where
  "ring_slots n rd wt = map (\<lambda>k. (rd + k) mod n) [0..<(wt + n - rd) mod n]"

definition ring_next :: "nat \<Rightarrow> nat \<Rightarrow> nat" where
  "ring_next n i = (if i + 1 < n then i + 1 else 0)"

lemma ring_offset_inj:
  fixes n :: nat
  assumes "(r + a) mod n = (r + b) mod n" and "a < n" and "b < n"
  shows "a = b"
proof -
  have le: "x = y" if "x \<le> y" "y < n" "(r + x) mod n = (r + y) mod n" for x y
  proof -
    have "n dvd (r + y) - (r + x)"
      using that mod_eq_dvd_iff_nat [of "r + x" "r + y" n] by simp
    then show ?thesis using that by (auto dest: dvd_imp_le)
  qed
  show ?thesis
    using assms le [of a b] le [of b a] by (metis nat_le_linear)
qed

lemma ring_next_mod: "i < n \<Longrightarrow> ring_next n i = (i + 1) mod n"
  by (cases "i + 1 = n") (auto simp: ring_next_def)

lemma ring_next_less: "i < n \<Longrightarrow> ring_next n i < n"
  by (auto simp: ring_next_def)

lemma ring_distance:
  fixes n :: nat
  assumes "rd < n" and "wt < n"
  shows "(wt + n - rd) mod n = (if rd \<le> wt then wt - rd else wt + n - rd)"
  using assms by (simp add: mod_if)

lemma ring_slots_empty: "rd < n \<Longrightarrow> wt < n \<Longrightarrow> ring_slots n rd wt = [] \<longleftrightarrow> rd = wt"
  by (auto simp: ring_slots_def ring_distance)

lemma ring_slots_less: "rd < n \<Longrightarrow> i \<in> set (ring_slots n rd wt) \<Longrightarrow> i < n"
  by (auto simp: ring_slots_def)

lemma ring_slots_free:
  assumes "rd < n" and "wt < n"
  shows "wt \<notin> set (ring_slots n rd wt)"
proof
  assume "wt \<in> set (ring_slots n rd wt)"
  then obtain k where k: "k < (wt + n - rd) mod n" "wt = (rd + k) mod n" by (auto simp: ring_slots_def)
  then have "(rd + k) mod n = (rd + (wt + n - rd) mod n) mod n"
    using assms by (simp add: mod_add_right_eq)
  moreover have "(wt + n - rd) mod n < n" using assms by simp
  ultimately have "k = (wt + n - rd) mod n"
    using ring_offset_inj [of rd k n] k(1) by (meson less_trans)
  with k(1) show False by (metis less_irrefl)
qed

lemma ring_slots_distinct:
  assumes "rd < n"
  shows "distinct (ring_slots n rd wt)"
proof -
  have "(wt + n - rd) mod n < n" using assms by simp
  then have "inj_on (\<lambda>k. (rd + k) mod n) {0..<(wt + n - rd) mod n}"
    by (auto simp: inj_on_def dest!: ring_offset_inj)
  then show ?thesis by (simp add: ring_slots_def distinct_map)
qed

lemma ring_slots_put:
  assumes "rd < n" and "wt < n" and "ring_next n wt \<noteq> rd"
  shows "ring_slots n rd (ring_next n wt) = ring_slots n rd wt @ [wt]"
proof -
  let ?d = "(wt + n - rd) mod n"
  have "(ring_next n wt + n - rd) mod n = ?d + 1"
    using assms by (auto simp: ring_next_def ring_distance split: if_splits)
  moreover have "(rd + ?d) mod n = wt" using assms by (simp add: mod_add_right_eq)
  ultimately show ?thesis by (simp add: ring_slots_def)
qed

lemma ring_slots_get:
  assumes "rd < n" and "wt < n" and "rd \<noteq> wt"
  shows "ring_slots n rd wt = rd # ring_slots n (ring_next n rd) wt"
proof -
  let ?d = "(wt + n - ring_next n rd) mod n"
  have d: "(wt + n - rd) mod n = Suc ?d"
    using assms by (auto simp: ring_next_def ring_distance)
  have "(ring_next n rd + k) mod n = (rd + Suc k) mod n" for k
    using assms(1) by (simp add: ring_next_mod mod_add_left_eq)
  then show ?thesis
    using assms(1) by (simp add: ring_slots_def d upt_conv_Cons map_Suc_upt [symmetric] del: upt_Suc)
qed

end
