(* ===== verification/Checksums.thy ===== *)
theory Checksums
  imports Prelude
begin

text \<open>
  The integrity checks of the download and NV protocols, from
  \<open>wcn/platform/download/crc16.c\<close> (the HDLC CRC \<open>crc_16_l_calc\<close>, the frame check
  \<open>frm_chk\<close> and the boot checksum \<open>boot_checksum\<close>) and \<open>open-source/apps/nvitem/nvitem_fs.c\<close> (\<open>calc_checksum\<close>).
  The buffers are byte lists whose length is the \<open>len\<close> argument.
\<close>

subsection \<open>Definitions\<close>

text \<open>One round of the inner \<open>for\<close> loop of \<open>crc_16_l_calc\<close>, for the bit selected by \<open>i\<close>.\<close>

definition crc_l_step :: "u8 \<Rightarrow> u32 \<Rightarrow> u16 \<Rightarrow> u16" where
  "crc_l_step b i crc =
     (let crc1 = (if crc AND 0x8000 \<noteq> 0 then push_bit 1 crc XOR 0x1021 else push_bit 1 crc)
      in if (ucast b :: u32) AND i \<noteq> 0 then crc1 XOR 0x1021 else crc1)"

text \<open>The inner loop: \<open>i\<close> runs from the seed down to 0 by right shifts.\<close>

function crc_l_bits :: "u8 \<Rightarrow> u32 \<Rightarrow> u16 \<Rightarrow> u16" where
  "crc_l_bits b i crc = (if i = 0 then crc else crc_l_bits b (drop_bit 1 i) (crc_l_step b i crc))"
  by pat_completeness auto
termination
proof (relation "measure (\<lambda>(b, i, crc). unat i)")
  fix b :: u8 and i :: u32 and crc :: u16
  assume "i \<noteq> 0"
  then have "unat (i div 2) < unat i" by (simp add: unat_div_distrib unat_gt_0)
  then show "((b, drop_bit 1 i, crc_l_step b i crc), b, i, crc) \<in> measure (\<lambda>(b, i, crc). unat i)"
    by (simp add: drop_bit_Suc)
qed simp

declare crc_l_bits.simps [simp del]

definition crc_l_byte :: "u16 \<Rightarrow> u8 \<Rightarrow> u16" where
  "crc_l_byte crc b = crc_l_bits b 0x80 crc"

definition crc_16_l_calc :: "u8 list \<Rightarrow> u16" where
  "crc_16_l_calc bs = foldl crc_l_byte 0 bs"

text \<open>A 16-bit load from two adjacent bytes.\<close>

definition hword :: "u8 \<Rightarrow> u8 \<Rightarrow> u16" where
  "hword a b = ucast a OR push_bit 8 (ucast b)"

text \<open>The common tail of the three sums: fold the carries twice and complement.\<close>

definition sum_fold :: "u32 \<Rightarrow> u16" where
  "sum_fold acc = (let s1 = drop_bit 16 acc + (acc AND 0xFFFF); s2 = s1 + drop_bit 16 s1 in ucast (NOT s2))"

fun frm_chk_sum :: "u8 list \<Rightarrow> u32 \<Rightarrow> u32" where
  "frm_chk_sum (a # b # c # d # xs) acc =
     frm_chk_sum xs (acc + ucast (hword a b) + ucast (hword c d))"
| "frm_chk_sum [a, b] acc = acc + ucast (hword a b)"
| "frm_chk_sum [a, b, c] acc = acc + ucast (hword a b) + ucast c"
| "frm_chk_sum [a] acc = acc + ucast a"
| "frm_chk_sum [] acc = acc"

definition frm_chk :: "u8 list \<Rightarrow> u16" where
  "frm_chk src = sum_fold (frm_chk_sum src 0)"

fun boot_words :: "nat \<Rightarrow> u8 list \<Rightarrow> u32 \<Rightarrow> u32" where
  "boot_words (Suc n) (a # b # xs) acc = boot_words n xs (acc + ucast (hword a b))"
| "boot_words _ _ acc = acc"

definition boot_checksum :: "u8 list \<Rightarrow> u16" where
  "boot_checksum src =
     (let len = length src; size1 = len div 2; size2 = len mod 2;
          acc = (if len \<noteq> 0
                 then (let s = boot_words size1 src 0
                       in if size2 \<noteq> 0 then s + ucast (src ! (len - 1)) else s)
                 else 0)
      in sum_fold acc)"

fun calc_checksum_sum :: "u8 list \<Rightarrow> u32 \<Rightarrow> u32" where
  "calc_checksum_sum (a # b # xs) acc = calc_checksum_sum xs (acc + ucast (hword a b))"
| "calc_checksum_sum [a] acc = acc + ucast a"
| "calc_checksum_sum [] acc = acc"

definition calc_checksum :: "u8 list \<Rightarrow> u16" where
  "calc_checksum dat = sum_fold (calc_checksum_sum dat 0)"

subsection \<open>The three sums agree\<close>

lemma frm_chk_sum_eq: "frm_chk_sum xs s = calc_checksum_sum xs s"
  by (induction xs s rule: frm_chk_sum.induct) auto

lemma boot_words_eq:
  "calc_checksum_sum xs s =
     (if odd (length xs) then boot_words (length xs div 2) xs s + ucast (xs ! (length xs - 1))
      else boot_words (length xs div 2) xs s)"
  by (induction xs s rule: calc_checksum_sum.induct) (auto simp: nth_Cons' split: if_splits)

lemma boot_checksum_eq: "boot_checksum xs = calc_checksum xs"
  by (auto simp: boot_checksum_def calc_checksum_def boot_words_eq Let_def odd_iff_mod_2_eq_one)


subsection \<open>The HDLC CRC as a shift register\<close>

text \<open>One clock of the register: the feedback is the top bit combined with the input bit.\<close>

definition crc_next :: "u16 \<Rightarrow> bool \<Rightarrow> u16" where
  "crc_next c x = (if bit c 15 \<noteq> x then push_bit 1 c XOR 0x1021 else push_bit 1 c)"

definition byte_bits :: "u8 \<Rightarrow> bool list" where
  "byte_bits b = map (bit b) (rev [0..<8])"

lemma length_byte_bits [simp]: "length (byte_bits b) = 8"
  by (simp add: byte_bits_def)

lemma byte_bits_inject: "byte_bits a = byte_bits b \<Longrightarrow> a = b"
  by (rule bit_word_eqI) (auto simp: byte_bits_def)

lemma crc_l_step_next:
  "crc_l_step b (2 ^ n) c = crc_next c (bit (ucast b :: u32) n)"
proof -
  have "(0x8000 :: u16) = 2 ^ 15" by simp
  then have "(c AND 0x8000 \<noteq> 0) = bit c 15"
    by (metis and_exp_eq_0_iff_not_bit)
  moreover have "((ucast b :: u32) AND 2 ^ n \<noteq> 0) = bit (ucast b :: u32) n"
    by (simp add: and_exp_eq_0_iff_not_bit)
  ultimately show ?thesis
    by (auto simp: crc_l_step_def crc_next_def Let_def xor.assoc)
qed

lemma crc_l_bits_pow:
  "n < 32 \<Longrightarrow> crc_l_bits b (2 ^ n) c
     = foldl crc_next c (map (bit (ucast b :: u32)) (rev [0..<Suc n]))"
proof (induction n arbitrary: c)
  case 0
  have "crc_l_bits b 1 c = crc_l_step b (2 ^ 0) c"
    by (subst crc_l_bits.simps) (simp add: crc_l_bits.simps [of _ 0])
  then show ?case by (simp only: crc_l_step_next) simp
next
  case (Suc n)
  then have "(2 :: u32) ^ Suc n \<noteq> 0"
    by (simp add: exp_eq_zero_iff del: power_Suc)
  moreover have "drop_bit 1 ((2 :: u32) ^ Suc n) = 2 ^ n"
    using Suc.prems by (intro bit_word_eqI) (auto simp: bit_simps simp del: power_Suc)
  ultimately have "crc_l_bits b (2 ^ Suc n) c = crc_l_bits b (2 ^ n) (crc_l_step b (2 ^ Suc n) c)"
    by (subst crc_l_bits.simps) (simp del: power_Suc)
  with Suc show ?case by (simp only: crc_l_step_next) simp
qed

lemma crc_l_byte_next: "crc_l_byte c b = foldl crc_next c (byte_bits b)"
proof -
  have "crc_l_byte c b = crc_l_bits b (2 ^ 7) c" by (simp add: crc_l_byte_def)
  then show ?thesis
    by (simp only: crc_l_bits_pow) (simp add: byte_bits_def bit_ucast_iff upt_rec)
qed

lemma crc_calc_foldl: "foldl crc_l_byte c bs = foldl crc_next c (concat (map byte_bits bs))"
  by (induction bs arbitrary: c) (simp_all add: crc_l_byte_next)


subsection \<open>Residue and burst detection of the HDLC CRC\<close>

lemma crc_next_own_bit: "bit c 15 = x \<Longrightarrow> crc_next c x = push_bit 1 c"
  by (simp add: crc_next_def)

lemma crc_shift_out:
  "n \<le> 16 \<Longrightarrow> foldl crc_next (push_bit (16 - n) c) (map (bit c) (rev [0..<n])) = push_bit 16 c"
proof (induction n)
  case (Suc n)
  have "bit (push_bit (16 - Suc n) c) 15 = bit c n"
    using Suc.prems by (auto simp: bit_simps)
  then have "crc_next (push_bit (16 - Suc n) c) (bit c n) = push_bit 1 (push_bit (16 - Suc n) c)"
    by (rule crc_next_own_bit)
  also have "\<dots> = push_bit (16 - n) c"
    using Suc.prems by (simp only: push_bit_push_bit) (simp add: numeral_eq_Suc Suc_diff_le)
  finally show ?case using Suc by simp
qed simp

lemma be16_bits: "concat (map byte_bits (be16 c)) = map (bit c) (rev [0..<16])"
  by (simp add: be16_def byte_bits_def bit_simps upt_rec) (simp add: eval_nat_numeral)

lemma push_bit_16_u16 [simp]: "push_bit 16 (c :: u16) = 0"
  by (rule bit_word_eqI) (auto simp: bit_simps)

lemma crc_feed_own: "foldl crc_l_byte c (be16 c) = 0"
  using crc_shift_out [of 16 c] by (simp add: crc_calc_foldl be16_bits)

text \<open>Linearity over GF(2): two streams from two states combine by exclusive or.\<close>

lemma crc_next_xor: "crc_next (c XOR d) (x = (\<not> y)) = crc_next c x XOR crc_next d y"
  by (auto simp: crc_next_def bit_xor_iff push_bit_xor ac_simps)

lemma crc_foldl_xor:
  "length xs = length ys \<Longrightarrow>
   foldl crc_next (c XOR d) (map2 (\<lambda>x y. x = (\<not> y)) xs ys)
     = foldl crc_next c xs XOR foldl crc_next d ys"
  by (induction xs ys arbitrary: c d rule: list_induct2) (simp_all add: crc_next_xor)

lemma crc_next_bit0: "bit (crc_next c x) 0 = (bit c 15 = (\<not> x))"
proof -
  have "\<not> bit (push_bit 1 c) 0" by (simp only: bit_push_bit_iff) simp
  then show ?thesis by (auto simp: crc_next_def bit_xor_iff)
qed

lemma crc_zero_stream:
  assumes "foldl crc_next c zs = 0" and "length zs \<le> 16" and "j < 16"
  shows "bit c j = (16 - length zs \<le> j \<and> zs ! (15 - j))"
  using assms
proof (induction zs arbitrary: c j)
  case (Cons z zs)
  let ?c1 = "crc_next c z"
  have IH: "bit ?c1 k = (16 - length zs \<le> k \<and> zs ! (15 - k))" if "k < 16" for k
    using Cons.IH [of ?c1 k] Cons.prems that by simp
  from IH [of 0] Cons.prems(2) have "\<not> bit ?c1 0" by simp
  then have fb: "bit c 15 = z" by (simp add: crc_next_bit0)
  then have c1: "?c1 = push_bit 1 c" by (rule crc_next_own_bit)
  show ?case
  proof (cases "j = 15")
    case True
    with fb Cons.prems show ?thesis by simp
  next
    case False
    then have "bit c j = bit ?c1 (Suc j)"
      using Cons.prems(3) by (simp only: c1 bit_push_bit_iff) simp
    also have "\<dots> = (16 - length zs \<le> Suc j \<and> zs ! (15 - Suc j))"
      using False Cons.prems(3) by (intro IH) simp
    also have "\<dots> = (16 - length (z # zs) \<le> j \<and> (z # zs) ! (15 - j))"
      using False Cons.prems(2,3) by (auto simp: nth_Cons' Suc_diff_Suc)
    finally show ?thesis .
  qed
qed simp

lemma crc_burst:
  assumes "length xs = length ys" and "length xs \<le> 16"
    and "foldl crc_next c xs = foldl crc_next c ys"
  shows "xs = ys"
proof (rule nth_equalityI)
  fix k assume k: "k < length xs"
  let ?zs = "map2 (\<lambda>x y. x = (\<not> y)) xs ys"
  have "foldl crc_next 0 ?zs = 0"
    using crc_foldl_xor [OF assms(1), of c c] assms(3) by simp
  then have "\<not> ?zs ! k"
    using crc_zero_stream [of 0 ?zs "15 - k"] assms k by auto
  with k assms(1) show "xs ! k = ys ! k" by simp
qed (fact assms(1))

lemma crc_next_inject: "crc_next c x = crc_next d x \<Longrightarrow> c = d"
proof -
  assume "crc_next c x = crc_next d x"
  then have "foldl crc_next (c XOR d) [False] = 0"
    using crc_next_xor [of c d x x] by simp
  then have "bit (c XOR d) j = False" if "j < 16" for j
    using crc_zero_stream [of "c XOR d" "[False]" j] that by (cases "j = 15") auto
  then show "c = d"
    by (intro bit_word_eqI) (auto simp: bit_xor_iff)
qed

lemma crc_foldl_inject: "foldl crc_next c xs = foldl crc_next d xs \<Longrightarrow> c = d"
  by (induction xs arbitrary: c d) (auto dest: crc_next_inject)

lemma crc_own_residue: "crc_16_l_calc (bs @ be16 (crc_16_l_calc bs)) = 0"
  by (simp add: crc_16_l_calc_def crc_feed_own)

text \<open>A frame followed by its own CRC, high byte first, always checks to zero.\<close>

lemma crc_16_residue: "crc_16_l_calc (bs @ be16 (crc_16_l_calc bs)) = 0"
  by (rule crc_own_residue)

text \<open>C2. Any corruption confined to two consecutive bytes of a frame changes its CRC.\<close>

theorem crc_16_detects_two_byte_burst:
  assumes "[a, b] \<noteq> [a', b']"
  shows "crc_16_l_calc (p @ [a, b] @ q) \<noteq> crc_16_l_calc (p @ [a', b'] @ q)"
proof
  let ?c = "foldl crc_next 0 (concat (map byte_bits p))"
  assume "crc_16_l_calc (p @ [a, b] @ q) = crc_16_l_calc (p @ [a', b'] @ q)"
  then have "foldl crc_next ?c (byte_bits a @ byte_bits b)
      = foldl crc_next ?c (byte_bits a' @ byte_bits b')"
    by (auto simp: crc_16_l_calc_def crc_calc_foldl crc_l_byte_next dest: crc_foldl_inject)
  then have "byte_bits a @ byte_bits b = byte_bits a' @ byte_bits b'"
    by (rule crc_burst [rotated 2]) simp_all
  then show False using assms by (auto dest: byte_bits_inject)
qed

theorem crc_16_detects_two_byte_burst_witness:
  "[1, 2] \<noteq> [1, 3 :: u8] \<and> crc_16_l_calc ([0] @ [1, 2] @ [5]) \<noteq> crc_16_l_calc ([0] @ [1, 3] @ [5])"
  using crc_16_detects_two_byte_burst [of 1 2 1 3 "[0]" "[5]"] by simp


subsection \<open>The ones-complement sums\<close>

fun hword_sum :: "u8 list \<Rightarrow> nat" where
  "hword_sum (a # b # xs) = unat (hword a b) + hword_sum xs"
| "hword_sum [a] = unat a"
| "hword_sum [] = 0"

lemma hword_sum_bound: "hword_sum xs \<le> 65535 * ((length xs + 1) div 2)"
proof (induction xs rule: hword_sum.induct)
  case (1 a b xs)
  with unat_u16_lt [of "hword a b"] show ?case by simp
next
  case (2 a)
  with unat_u8_lt [of a] show ?case by simp
qed simp

lemma unat_calc_checksum_sum:
  "unat s + hword_sum xs < 2 ^ 32 \<Longrightarrow> unat (calc_checksum_sum xs s) = unat s + hword_sum xs"
proof (induction xs s rule: calc_checksum_sum.induct)
  case (1 a b xs s)
  then have "unat (s + ucast (hword a b)) = unat s + unat (hword a b)"
    using unat_u16_lt [of "hword a b"] by (simp add: unat_simps)
  with 1 show ?case by simp
next
  case (2 a s)
  with unat_u8_lt [of a] show ?case by (simp add: unat_simps)
qed simp

lemma hword_sum_append: "even (length xs) \<Longrightarrow> hword_sum (xs @ ys) = hword_sum xs + hword_sum ys"
  by (induction xs rule: hword_sum.induct) auto

lemma hword_le16: "hword_sum (le16 w) = unat w"
proof -
  have "hword (ucast w) (ucast (drop_bit 8 w)) = w"
    by (rule bit_word_eqI) (auto simp: hword_def bit_simps)
  then show ?thesis by (simp add: le16_def)
qed

definition fold_nat :: "nat \<Rightarrow> nat" where
  "fold_nat S = (let s1 = S div 65536 + S mod 65536 in (s1 + s1 div 65536) mod 65536)"

lemma unat_and_FFFF: "unat ((s :: u32) AND 0xFFFF) = unat s mod 65536"
proof -
  have "s AND 0xFFFF = take_bit 16 s"
    by (simp add: take_bit_eq_mask mask_eq_exp_minus_1)
  then show ?thesis by (simp add: unat_take_bit)
qed

lemma unat_sum_fold: "unat (sum_fold s) = 65535 - fold_nat (unat s)"
proof -
  define s1 where "s1 = drop_bit 16 s + (s AND 0xFFFF)"
  have "unat s div 65536 < 65536" using unat_u32_lt [of s] by simp
  moreover have "unat s mod 65536 < 65536" by simp
  ultimately have s1: "unat s1 = unat s div 65536 + unat s mod 65536" and "unat s1 < 131072"
    by (simp_all add: s1_def unat_word_ariths unat_drop_bit unat_and_FFFF)
  then have s2: "unat (s1 + drop_bit 16 s1) = unat s1 + unat s1 div 65536"
    by (simp add: unat_word_ariths unat_drop_bit)
  let ?s2 = "s1 + drop_bit 16 s1"
  have "sum_fold s = NOT (ucast ?s2 :: u16)"
    unfolding sum_fold_def Let_def s1_def [symmetric]
    by (rule bit_word_eqI) (simp add: bit_simps)
  also have "\<dots> = 65535 - ucast ?s2"
    by (simp add: not_eq_complement)
  finally have "unat (sum_fold s) = 65535 - unat (ucast ?s2 :: u16)"
    using unat_u16_lt [of "ucast ?s2"] by (simp add: unat_sub word_le_nat_alt)
  then show ?thesis
    by (simp add: unat_ucast_mod s2 s1 fold_nat_def Let_def)
qed


lemma fold_nat_split:
  assumes "h < 65536" and "l < 65536"
  shows "fold_nat (65536 * h + l) = (if h + l < 65536 then h + l else h + l - 65535)"
proof (cases "h + l < 65536")
  case True
  with assms show ?thesis by (simp add: fold_nat_def)
next
  case False
  then obtain t where t: "h + l = 65536 + t" by (metis le_Suc_ex not_less)
  then have "Suc t < 65536" using assms by linarith
  then have "(65536 + t) div 65536 = 1" by simp
  moreover have "(65536 + Suc t) mod 65536 = Suc t"
    using \<open>Suc t < 65536\<close> by (simp only: mod_add_self1 mod_less)
  ultimately have "(65536 + t) div 65536 = 1" "(65536 + t + 1) mod 65536 = Suc t" by simp_all
  with t assms show ?thesis by (simp add: fold_nat_def Let_def)
qed

lemma fold_nat_complement:
  assumes "S < 4294967296"
  shows "fold_nat (S + (65535 - fold_nat S)) = 65535"
proof -
  define h l where "h = S div 65536" and "l = S mod 65536"
  have hl: "h < 65536" "l < 65536" and S: "S = 65536 * h + l"
    using assms by (simp_all add: h_def l_def)
  have f: "fold_nat S = (if h + l < 65536 then h + l else h + l - 65535)"
    unfolding S by (rule fold_nat_split [OF hl])
  consider "h + l < 65536" | "65536 \<le> h + l" "h < 65535" | "65536 \<le> h + l" "h = 65535"
    using hl by linarith
  then show ?thesis
  proof cases
    case 1
    with f S have "S + (65535 - fold_nat S) = 65536 * h + (65535 - h)" by simp
    then show ?thesis using hl by (simp only: fold_nat_split [of h "65535 - h"]) simp
  next
    case 2
    with f S hl have "S + (65535 - fold_nat S) = 65536 * (h + 1) + (65534 - h)" by simp
    then show ?thesis using 2 by (simp only: fold_nat_split [of "h + 1" "65534 - h"]) simp
  next
    case 3
    with f S hl have "S + (65535 - fold_nat S) = 65536 * 65535 + 65535" by simp
    then show ?thesis by (simp only: fold_nat_split [of 65535 65535]) simp
  qed
qed

lemma calc_checksum_nat:
  "hword_sum xs < 4294967296 \<Longrightarrow> unat (calc_checksum xs) = 65535 - fold_nat (hword_sum xs)"
  using unat_calc_checksum_sum [of 0 xs] by (simp add: calc_checksum_def unat_sum_fold)

lemma calc_checksum_verifies:
  assumes "even (length bs)" and "length bs < 131072"
  shows "calc_checksum (bs @ le16 (calc_checksum bs)) = 0"
proof -
  let ?S = "hword_sum bs"
  have "?S \<le> 65535 * ((length bs + 1) div 2)" by (rule hword_sum_bound)
  also have "\<dots> \<le> 65535 * 65535" using assms by (intro mult_left_mono) auto
  finally have S: "?S < 4294836226" by simp
  then have sum: "hword_sum (bs @ le16 (calc_checksum bs)) = ?S + (65535 - fold_nat ?S)"
    using assms by (simp add: hword_sum_append hword_le16 calc_checksum_nat)
  then have "unat (calc_checksum (bs @ le16 (calc_checksum bs))) = 0"
    using S by (simp add: calc_checksum_nat fold_nat_complement)
  then show ?thesis by (simp add: unat_eq_0)
qed

text \<open>The three hand-written variants of the sum compute the same function on every buffer.\<close>

lemma checksum_variants_agree:
  "frm_chk bs = boot_checksum bs \<and> calc_checksum bs = boot_checksum bs"
  by (simp add: frm_chk_def frm_chk_sum_eq boot_checksum_eq calc_checksum_def)

text \<open>A buffer of even length (up to 128 KiB) followed by its boot checksum sums to zero.\<close>

lemma boot_checksum_verifies:
  assumes "even (length bs)" and "length bs < 131072"
  shows "boot_checksum (bs @ le16 (boot_checksum bs)) = 0"
  using calc_checksum_verifies [OF assms] by (simp add: boot_checksum_eq)

subsection \<open>The contract of an appended check word\<close>

text \<open>
  What the packet builders rely on: a check word stored right behind the bytes it
  covers makes the covered range, check word included, check to zero.
\<close>

locale integrity_code =
  fixes chk :: "u8 list \<Rightarrow> u16"
    and enc :: "u16 \<Rightarrow> u8 list"
    and covers :: "u8 list \<Rightarrow> bool"
  assumes enc_length: "length (enc w) = 2"
    and residue: "covers bs \<Longrightarrow> chk (bs @ enc (chk bs)) = 0"
begin

lemma seal_at:
  assumes "get_bytes i n buf = Some bs" and "covers bs"
    and "put_bytes (i + n) (enc (chk bs)) buf = Some buf'"
  shows "get_bytes i (n + 2) buf' = Some (bs @ enc (chk bs))" and "chk (bs @ enc (chk bs)) = 0"
proof -
  from assms(1) have bs: "bs = take n (drop i buf)" and "i + n \<le> length buf"
    by (auto simp: get_bytes_def split: if_splits)
  moreover from assms(3) have "buf' = take (i + n) buf @ enc (chk bs) @ drop (i + n + 2) buf"
    and "i + n + 2 \<le> length buf"
    by (auto simp: put_bytes_def enc_length split: if_splits)
  ultimately show "get_bytes i (n + 2) buf' = Some (bs @ enc (chk bs))"
    by (simp add: get_bytes_def drop_take enc_length)
  show "chk (bs @ enc (chk bs)) = 0"
    by (rule residue) (fact assms(2))
qed

end

interpretation hdlc_crc: integrity_code crc_16_l_calc be16 "\<lambda>_. True"
  by unfold_locales (simp_all add: crc_own_residue)

interpretation boot_sum: integrity_code boot_checksum le16 "\<lambda>bs. even (length bs) \<and> length bs < 131072"
  by unfold_locales (simp_all add: boot_checksum_eq calc_checksum_verifies)

end
