(* ===== verification/Crc_Table.thy ===== *)
theory Crc_Table
  imports Prelude
begin

text \<open>
  The table-driven CRC-16 of \<open>wcn/platform/download/crc16.c\<close> (\<open>calculate_crc\<close> over
  \<open>crc16_table\<close>), against the bit-at-a-time division by the reflected polynomial.
\<close>

subsection \<open>Definitions\<close>

definition crc16_table :: "u16 list" where
  "crc16_table =
    [0x0000, 0xC0C1, 0xC181, 0x0140, 0xC301, 0x03C0, 0x0280, 0xC241,
     0xC601, 0x06C0, 0x0780, 0xC741, 0x0500, 0xC5C1, 0xC481, 0x0440,
     0xCC01, 0x0CC0, 0x0D80, 0xCD41, 0x0F00, 0xCFC1, 0xCE81, 0x0E40,
     0x0A00, 0xCAC1, 0xCB81, 0x0B40, 0xC901, 0x09C0, 0x0880, 0xC841,
     0xD801, 0x18C0, 0x1980, 0xD941, 0x1B00, 0xDBC1, 0xDA81, 0x1A40,
     0x1E00, 0xDEC1, 0xDF81, 0x1F40, 0xDD01, 0x1DC0, 0x1C80, 0xDC41,
     0x1400, 0xD4C1, 0xD581, 0x1540, 0xD701, 0x17C0, 0x1680, 0xD641,
     0xD201, 0x12C0, 0x1380, 0xD341, 0x1100, 0xD1C1, 0xD081, 0x1040,
     0xF001, 0x30C0, 0x3180, 0xF141, 0x3300, 0xF3C1, 0xF281, 0x3240,
     0x3600, 0xF6C1, 0xF781, 0x3740, 0xF501, 0x35C0, 0x3480, 0xF441,
     0x3C00, 0xFCC1, 0xFD81, 0x3D40, 0xFF01, 0x3FC0, 0x3E80, 0xFE41,
     0xFA01, 0x3AC0, 0x3B80, 0xFB41, 0x3900, 0xF9C1, 0xF881, 0x3840,
     0x2800, 0xE8C1, 0xE981, 0x2940, 0xEB01, 0x2BC0, 0x2A80, 0xEA41,
     0xEE01, 0x2EC0, 0x2F80, 0xEF41, 0x2D00, 0xEDC1, 0xEC81, 0x2C40,
     0xE401, 0x24C0, 0x2580, 0xE541, 0x2700, 0xE7C1, 0xE681, 0x2640,
     0x2200, 0xE2C1, 0xE381, 0x2340, 0xE101, 0x21C0, 0x2080, 0xE041,
     0xA001, 0x60C0, 0x6180, 0xA141, 0x6300, 0xA3C1, 0xA281, 0x6240,
     0x6600, 0xA6C1, 0xA781, 0x6740, 0xA501, 0x65C0, 0x6480, 0xA441,
     0x6C00, 0xACC1, 0xAD81, 0x6D40, 0xAF01, 0x6FC0, 0x6E80, 0xAE41,
     0xAA01, 0x6AC0, 0x6B80, 0xAB41, 0x6900, 0xA9C1, 0xA881, 0x6840,
     0x7800, 0xB8C1, 0xB981, 0x7940, 0xBB01, 0x7BC0, 0x7A80, 0xBA41,
     0xBE01, 0x7EC0, 0x7F80, 0xBF41, 0x7D00, 0xBDC1, 0xBC81, 0x7C40,
     0xB401, 0x74C0, 0x7580, 0xB541, 0x7700, 0xB7C1, 0xB681, 0x7640,
     0x7200, 0xB2C1, 0xB381, 0x7340, 0xB101, 0x71C0, 0x7080, 0xB041,
     0x5000, 0x90C1, 0x9181, 0x5140, 0x9301, 0x53C0, 0x5280, 0x9241,
     0x9601, 0x56C0, 0x5780, 0x9741, 0x5500, 0x95C1, 0x9481, 0x5440,
     0x9C01, 0x5CC0, 0x5D80, 0x9D41, 0x5F00, 0x9FC1, 0x9E81, 0x5E40,
     0x5A00, 0x9AC1, 0x9B81, 0x5B40, 0x9901, 0x59C0, 0x5880, 0x9841,
     0x8801, 0x48C0, 0x4980, 0x8941, 0x4B00, 0x8BC1, 0x8A81, 0x4A40,
     0x4E00, 0x8EC1, 0x8F81, 0x4F40, 0x8D01, 0x4DC0, 0x4C80, 0x8C41,
     0x4400, 0x84C1, 0x8581, 0x4540, 0x8701, 0x47C0, 0x4680, 0x8641,
     0x8201, 0x42C0, 0x4380, 0x8341, 0x4100, 0x81C1, 0x8081, 0x4040]"

fun calculate_crc :: "u16 \<Rightarrow> u8 list \<Rightarrow> u16" where
  "calculate_crc crc [] = crc"
| "calculate_crc crc (b # bs) =
     calculate_crc (drop_bit 8 crc XOR crc16_table ! unat ((crc XOR ucast b) AND 0xFF)) bs"

text \<open>The reference for the table: the reflected polynomial \<open>0xA001\<close>, one bit at a time.\<close>

definition crc16_shift :: "u16 \<Rightarrow> u16" where
  "crc16_shift c = (if bit c 0 then drop_bit 1 c XOR 0xA001 else drop_bit 1 c)"

fun crc16_bits :: "nat \<Rightarrow> u16 \<Rightarrow> u16" where
  "crc16_bits 0 c = c"
| "crc16_bits (Suc n) c = crc16_bits n (crc16_shift c)"

fun crc16_bitwise :: "u16 \<Rightarrow> u8 list \<Rightarrow> u16" where
  "crc16_bitwise crc [] = crc"
| "crc16_bitwise crc (b # bs) = crc16_bitwise (crc16_bits 8 (crc XOR ucast b)) bs"

subsection \<open>The CRC-16 table\<close>

lemma crc16_shift_xor: "crc16_shift (x XOR y) = crc16_shift x XOR crc16_shift y"
proof -
  have "bit (x XOR y) 0 = (bit x 0 \<noteq> bit y 0)" by (simp only: bit_xor_iff)
  then show ?thesis
    by (cases "bit x 0"; cases "bit y 0") (simp_all only: crc16_shift_def drop_bit_xor, simp_all add: ac_simps)
qed

lemma crc16_bits_xor: "crc16_bits n (x XOR y) = crc16_bits n x XOR crc16_bits n y"
  by (induction n arbitrary: x y) (auto simp: crc16_shift_xor)

lemma crc16_bits_high:
  "(\<And>k. k < n \<Longrightarrow> \<not> bit x k) \<Longrightarrow> crc16_bits n x = drop_bit n x"
proof (induction n arbitrary: x)
  case (Suc n)
  have "\<not> bit x 0" using Suc.prems by blast
  then have "crc16_shift x = drop_bit 1 x" by (simp only: crc16_shift_def if_False)
  moreover have "crc16_bits n (drop_bit 1 x) = drop_bit n (drop_bit 1 x)"
    using Suc.prems by (intro Suc.IH) (simp only: bit_drop_bit_eq o_apply, simp)
  ultimately show ?case by (simp only: crc16_bits.simps drop_bit_drop_bit) simp
qed simp

lemma crc16_bits_8:
  "crc16_bits 8 c = crc16_shift (crc16_shift (crc16_shift (crc16_shift
     (crc16_shift (crc16_shift (crc16_shift (crc16_shift c)))))))"
  by (simp add: eval_nat_numeral)

lemma crc16_shift_even: "\<not> bit c 0 \<Longrightarrow> crc16_shift c = drop_bit 1 c"
  and crc16_shift_odd: "bit c 0 \<Longrightarrow> crc16_shift c = drop_bit 1 c XOR 0xA001"
  by (simp_all only: crc16_shift_def if_True if_False)

lemma crc16_table_bitwise: "crc16_table = map (\<lambda>k. crc16_bits 8 (of_nat k)) [0..<256]"
  by (simp add: crc16_table_def crc16_bits_8 crc16_shift_even crc16_shift_odd upt_conv_Cons)

lemma crc16_table_nth: "unat i < 256 \<Longrightarrow> crc16_table ! unat i = crc16_bits 8 i"
  by (simp add: crc16_table_bitwise)


lemma crc16_bits_split: "crc16_bits 8 x = drop_bit 8 x XOR crc16_bits 8 (x AND 0xFF)"
proof -
  have FF: "(0xFF :: u16) = mask 8" by (simp add: mask_eq_exp_minus_1)
  have "x = (x AND NOT (mask 8)) XOR (x AND mask 8)"
    by (rule bit_word_eqI) (auto simp: bit_simps)
  then have "crc16_bits 8 x = crc16_bits 8 (x AND NOT (mask 8)) XOR crc16_bits 8 (x AND mask 8)"
    by (metis crc16_bits_xor)
  also have "crc16_bits 8 (x AND NOT (mask 8)) = drop_bit 8 (x AND NOT (mask 8))"
    by (rule crc16_bits_high) (auto simp: bit_simps)
  also have "\<dots> = drop_bit 8 x"
    by (rule bit_word_eqI) (auto simp: bit_simps dest: bit_imp_le_length)
  finally show ?thesis by (simp only: FF)
qed

lemma unat_low_byte: "unat ((x :: u16) AND 0xFF) < 256"
proof -
  have "x AND 0xFF = take_bit 8 x" by (simp add: take_bit_eq_mask mask_eq_exp_minus_1)
  then show ?thesis by (simp add: unat_take_bit)
qed

lemma calculate_crc_byte:
  "drop_bit 8 crc XOR crc16_table ! unat ((crc XOR ucast b) AND 0xFF)
     = crc16_bits 8 (crc XOR ucast (b :: u8))"
proof -
  have "drop_bit 8 (crc XOR ucast b) = drop_bit 8 crc"
    by (rule bit_word_eqI) (auto simp: bit_simps dest: bit_imp_le_length)
  moreover have "crc16_table ! unat ((crc XOR ucast b) AND 0xFF)
      = crc16_bits 8 ((crc XOR ucast b) AND 0xFF)"
    by (rule crc16_table_nth [OF unat_low_byte])
  ultimately show ?thesis
    by (simp only: crc16_bits_split [of "crc XOR ucast b"])
qed

text \<open>The table-driven CRC equals the bit-serial division, from every start value.\<close>

lemma calculate_crc_bitwise: "calculate_crc crc bs = crc16_bitwise crc bs"
  by (induction bs arbitrary: crc)
    (simp_all only: calculate_crc.simps crc16_bitwise.simps calculate_crc_byte)

end
