(* ===== verification/Hdlc.thy ===== *)
theory Hdlc
  imports Checksums
begin

text \<open>
  The byte stuffing of the download link: \<open>translate_packet\<close> and
  \<open>untranslate_packet\<close> of \<open>wcn/platform/download/packet.c\<close>. The destination buffer
  is the list of the bytes stored so far, so its length is \<open>translated_size\<close>.
\<close>

subsection \<open>Definitions\<close>

fun translate_loop :: "u8 list \<Rightarrow> u8 list \<Rightarrow> u8 list" where
  "translate_loop dest [] = dest"
| "translate_loop dest (x # src) =
     (if x = 0x7E then translate_loop (dest @ [0x7D, 0x5E]) src
      else if x = 0x7D then translate_loop (dest @ [0x7D, 0x5D]) src
      else translate_loop (dest @ [x]) src)"

definition translate_packet :: "u8 list \<Rightarrow> u8 list" where
  "translate_packet src = translate_loop [0x7E] src @ [0x7E]"

text \<open>
  The receiver's three states: 0 hunts for the opening flag, 1 skips flags, 2 collects.
  At the closing flag the code computes the CRC of the first \<open>translated_size - 2\<close>
  bytes (and ignores it); with fewer than two bytes collected the unsigned length
  wraps around and the read runs out of the buffer, so the result is \<open>None\<close>.
\<close>

fun untranslate_loop :: "nat \<Rightarrow> u8 list \<Rightarrow> u8 list \<Rightarrow> u8 list option" where
  "untranslate_loop status dest [] = Some dest"
| "untranslate_loop status dest (x # src) =
     (if status = 0 then untranslate_loop (if x = 0x7E then 1 else 0) dest src
      else if status = 1 then
        (if x \<noteq> 0x7E then untranslate_loop 2 (dest @ [x]) src else untranslate_loop 1 dest src)
      else if x = 0x7E then (if length dest < 2 then None else Some dest)
      else if last dest = 0x7D then
        untranslate_loop 2
          (if x = 0x5E then butlast dest @ [0x7E]
           else if x = 0x5D then butlast dest @ [0x7D] else dest) src
      else untranslate_loop 2 (dest @ [x]) src)"

definition untranslate_packet :: "u8 list \<Rightarrow> u8 list option" where
  "untranslate_packet src = untranslate_loop 0 [] src"

subsection \<open>Stuffing\<close>

definition stuff :: "u8 \<Rightarrow> u8 list" where
  "stuff x = (if x = 0x7E then [0x7D, 0x5E] else if x = 0x7D then [0x7D, 0x5D] else [x])"

lemma stuff_simps [simp]:
  "stuff 0x7E = [0x7D, 0x5E]" "stuff 0x7D = [0x7D, 0x5D]"
  "x \<noteq> 0x7E \<Longrightarrow> x \<noteq> 0x7D \<Longrightarrow> stuff x = [x]"
  by (simp_all add: stuff_def)

lemma translate_loop_stuff: "translate_loop dest xs = dest @ concat (map stuff xs)"
  by (induction dest xs rule: translate_loop.induct) (auto simp: stuff_def)

lemma translate_packet_stuff: "translate_packet xs = 0x7E # concat (map stuff xs) @ [0x7E]"
  by (simp add: translate_packet_def translate_loop_stuff)

lemma stuff_no_flag: "0x7E \<notin> set (stuff x)"
  by (simp add: stuff_def)

lemma length_stuff: "1 \<le> length (stuff x)" "length (stuff x) \<le> 2"
  by (simp_all add: stuff_def)

lemma length_stuffed: "length xs \<le> length (concat (map stuff xs))"
  "length (concat (map stuff xs)) \<le> 2 * length xs"
proof -
  show "length xs \<le> length (concat (map stuff xs))"
  proof (induction xs)
    case (Cons x xs)
    with length_stuff(1) [of x] show ?case by simp
  qed simp
  show "length (concat (map stuff xs)) \<le> 2 * length xs"
  proof (induction xs)
    case (Cons x xs)
    with length_stuff(2) [of x] show ?case by simp
  qed simp
qed

subsection \<open>What the receiver recovers\<close>

text \<open>
  After an escaped \<open>0x7D\<close> has been undone, the collected \<open>0x7D\<close> is taken for an
  escape again: every following byte is swallowed until one decodes to \<open>0x7E\<close>.
  \<open>hdlc_view\<close> is that behaviour on the payload itself.
\<close>

fun hdlc_view :: "u8 list \<Rightarrow> u8 list" and hdlc_stuck :: "u8 list \<Rightarrow> u8 list" where
  "hdlc_view [] = []"
| "hdlc_view (x # xs) = (if x = 0x7D then hdlc_stuck xs else x # hdlc_view xs)"
| "hdlc_stuck [] = [0x7D]"
| "hdlc_stuck (y # ys) = (if y = 0x7E \<or> y = 0x5E then 0x7E # hdlc_view ys else hdlc_stuck ys)"

abbreviation closed :: "u8 list \<Rightarrow> u8 list option" where
  "closed d \<equiv> (if length d < 2 then None else Some d)"

lemma untranslate_collect:
  "d \<noteq> [] \<Longrightarrow> last d \<noteq> 0x7D \<Longrightarrow>
     untranslate_loop 2 d (concat (map stuff xs) @ [0x7E]) = closed (d @ hdlc_view xs)"
  "untranslate_loop 2 (d @ [0x7D]) (concat (map stuff xs) @ [0x7E]) = closed (d @ hdlc_stuck xs)"
proof (induction xs and xs arbitrary: d and d rule: hdlc_view_hdlc_stuck.induct)
  case (2 x xs)
  show ?case
  proof (cases "x = 0x7D")
    case True
    with 2 show ?thesis by (cases "x = 0x7E") simp_all
  next
    case False
    with 2(2) [of "d @ [x]"] 2(3,4) show ?thesis by (cases "x = 0x7E") simp_all
  qed
next
  case (4 y ys)
  show ?case
  proof (cases "y = 0x7E \<or> y = 0x5E")
    case True
    with 4(1) [of "d @ [0x7E]"] show ?thesis by auto
  next
    case False
    with 4(2) show ?thesis by (cases "y = 0x7D") auto
  qed
qed simp_all

lemma untranslate_translate:
  "untranslate_packet (translate_packet xs) = (if xs = [] then Some [] else closed (hdlc_view xs))"
proof (cases xs)
  case Nil
  then show ?thesis by (simp add: untranslate_packet_def translate_packet_stuff)
next
  case (Cons y ys)
  have "untranslate_loop 1 [] (concat (map stuff (y # ys)) @ [0x7E]) = closed (hdlc_view (y # ys))"
  proof (cases "y = 0x7D \<or> y = 0x7E")
    case True
    then show ?thesis
      using untranslate_collect(1) [of "[0x7E]" ys] untranslate_collect(2) [of "[]" ys]
      by auto
  next
    case False
    with untranslate_collect(1) [of "[y]" ys] show ?thesis by simp
  qed
  with Cons show ?thesis
    by (simp only: untranslate_packet_def translate_packet_stuff untranslate_loop.simps) simp
qed

lemma hdlc_view_clean: "0x7D \<notin> set xs \<Longrightarrow> hdlc_view xs = xs"
  by (induction xs) auto

lemma length_hdlc_stuck: "length (hdlc_view xs) \<le> length xs" "length (hdlc_stuck xs) \<le> Suc (length xs)"
  by (induction xs and xs rule: hdlc_view_hdlc_stuck.induct) auto

lemma hdlc_stuck_short: "xs \<noteq> [] \<Longrightarrow> length (hdlc_stuck xs) \<le> length xs"
proof (induction xs)
  case (Cons y ys)
  with length_hdlc_stuck(1) [of ys] show ?case by (cases "ys = []") auto
qed simp

lemma hdlc_view_id_iff: "hdlc_view xs = xs \<longleftrightarrow> 0x7D \<notin> set (butlast xs)"
proof (induction xs)
  case (Cons x xs)
  show ?case
  proof (cases "x = 0x7D \<and> xs \<noteq> []")
    case True
    then have "length (hdlc_view (x # xs)) < length (x # xs)"
      using hdlc_stuck_short [of xs] by simp
    then have "hdlc_view (x # xs) \<noteq> x # xs" by (metis less_irrefl)
    with True show ?thesis by simp
  next
    case False
    with Cons show ?thesis by auto
  qed
qed simp

text \<open>A stuffed frame is delimited by flags, has none inside, and at most doubles the payload.\<close>

lemma translate_packet_frame:
  "\<exists>body. translate_packet xs = 0x7E # body @ [0x7E] \<and> 0x7E \<notin> set body
     \<and> length xs \<le> length body \<and> length body \<le> 2 * length xs"
  using stuff_no_flag length_stuffed [of xs] by (auto simp: translate_packet_stuff)

text \<open>
  The decoding of a frame body without flags: \<open>0x7D\<close> opens an escape that \<open>0x5E\<close> closes;
  every other byte in an open escape is swallowed, and \<open>0x5D\<close> leaves it open.
\<close>

fun unstuff :: "u8 list \<Rightarrow> u8 list" and unstuff_open :: "u8 list \<Rightarrow> u8 list" where
  "unstuff [] = []"
| "unstuff (x # xs) = (if x = 0x7D then unstuff_open xs else x # unstuff xs)"
| "unstuff_open [] = [0x7D]"
| "unstuff_open (y # ys) = (if y = 0x5E then 0x7E # unstuff ys else unstuff_open ys)"

text \<open>What lies between the first flags of a stream and the next one, or the end.\<close>

definition frame_start :: "u8 list \<Rightarrow> u8 list" where
  "frame_start src = dropWhile (\<lambda>x. x = 0x7E) (dropWhile (\<lambda>x. x \<noteq> 0x7E) src)"

lemma untranslate_collect_raw:
  "d \<noteq> [] \<Longrightarrow> last d \<noteq> 0x7D \<Longrightarrow> untranslate_loop 2 d src =
     (let r = d @ unstuff (takeWhile (\<lambda>x. x \<noteq> 0x7E) src) in if 0x7E \<in> set src then closed r else Some r)"
  "untranslate_loop 2 (d @ [0x7D]) src =
     (let r = d @ unstuff_open (takeWhile (\<lambda>x. x \<noteq> 0x7E) src) in if 0x7E \<in> set src then closed r else Some r)"
proof (induction src and src arbitrary: d and d rule: unstuff_unstuff_open.induct)
  case (2 x xs)
  show ?case
  proof (cases "x = 0x7D")
    case True
    with 2 show ?thesis by simp
  next
    case False
    with 2(2) [of "d @ [x]"] 2(3,4) show ?thesis by (cases "x = 0x7E") simp_all
  qed
next
  case (4 y ys)
  show ?case
  proof (cases "y = 0x5E")
    case True
    with 4(1) [of "d @ [0x7E]"] show ?thesis by simp
  next
    case False
    with 4(2) show ?thesis by (cases "y = 0x7E"; cases "y = 0x5D") simp_all
  qed
qed simp_all

lemma untranslate_flags:
  "untranslate_loop (Suc 0) [] (dropWhile (\<lambda>x. x = 0x7E) src) = untranslate_loop (Suc 0) [] src"
  by (induction src) auto

lemma untranslate_idle: "untranslate_loop 0 [] src = untranslate_loop 1 [] (frame_start src)"
  by (induction src) (auto simp: frame_start_def untranslate_flags)

text \<open>
  C7. What the receiver makes of any byte stream: everything up to the first flag and all flags
  there are skipped, the bytes up to the next flag or the end of the stream are decoded, the rest is
  ignored, and there is no answer when a flag closes the frame and fewer than two bytes came out.
\<close>

theorem hdlc_receiver_view:
  "untranslate_packet src =
     (let body = takeWhile (\<lambda>x. x \<noteq> 0x7E) (frame_start src) in
      if 0x7E \<in> set (frame_start src) \<and> length (unstuff body) < 2 then None else Some (unstuff body))"
proof (cases "frame_start src")
  case Nil
  then show ?thesis by (simp add: untranslate_packet_def untranslate_idle)
next
  case (Cons y ys)
  then have y: "y \<noteq> 0x7E" by (metis (mono_tags) dropWhile_eq_Cons_conv frame_start_def)
  have "untranslate_packet src = untranslate_loop 2 [y] ys"
    using y by (simp add: untranslate_packet_def untranslate_idle Cons)
  also have "\<dots> = (let r = unstuff (takeWhile (\<lambda>x. x \<noteq> 0x7E) (y # ys)) in if 0x7E \<in> set ys then closed r else Some r)"
    using y untranslate_collect_raw(1) [of "[y]" ys] untranslate_collect_raw(2) [of "[]" ys] by (cases "y = 0x7D") simp_all
  finally show ?thesis using y by (auto simp: Cons Let_def)
qed

text \<open>On a frame that the sender built.\<close>

lemma hdlc_own_frame:
  "untranslate_packet (translate_packet xs) =
     (if xs = [] then Some []
      else if length (hdlc_view xs) < 2 then None else Some (hdlc_view xs))"
  by (rule untranslate_translate)

text \<open>
  C8. Unstuffing inverts stuffing exactly for the payloads with no \<open>0x7D\<close> before the
  last byte: the framing is not transparent.
\<close>

theorem hdlc_roundtrip_iff:
  assumes "2 \<le> length xs"
  shows "untranslate_packet (translate_packet xs) = Some xs \<longleftrightarrow> 0x7D \<notin> set (butlast xs)"
proof -
  have "xs \<noteq> []" using assms by auto
  then show ?thesis
    using assms by (auto simp: untranslate_translate simp flip: hdlc_view_id_iff)
qed

theorem hdlc_roundtrip_iff_witness:
  "untranslate_packet (translate_packet [0x7E, 1, 0x7E, 0x7D]) = Some [0x7E, 1, 0x7E, 0x7D]
   \<and> untranslate_packet (translate_packet [1, 0x7D, 2]) \<noteq> Some [1, 0x7D, 2]"
  using hdlc_roundtrip_iff [of "[0x7E, 1, 0x7E, 0x7D]"] hdlc_roundtrip_iff [of "[1, 0x7D, 2]"]
  by simp

end
