(* ===== verification/Packet.thy ===== *)
theory Packet
  imports Hdlc "HOL-Library.Monad_Syntax"
begin

text \<open>
  Building the packets of the download protocol: \<open>setup_packet\<close> of
  \<open>wcn/platform/download/packet.c\<close>, with the command numbers of \<open>cmd_def.h\<close>. The
  caller's buffer is a byte list; every 16-bit store goes through \<open>put16\<close>, which
  is undefined outside the buffer.
\<close>

subsection \<open>Definitions\<close>

text \<open>The commands the phone sends (\<open>GET_MARLIN_CHIPID\<close> is set by the build).\<close>

datatype cmd_type =
  BSL_CMD_CONNECT | BSL_CMD_START_DATA | BSL_CMD_MIDST_DATA | BSL_CMD_END_DATA
| BSL_CMD_EXEC_DATA | BSL_CMD_NORMAL_RESET | BSL_CMD_READ_FLASH | BSL_CMD_READ_CHIP_TYPE
| BSL_CMD_LOOKUP_NVITEM | BSL_SET_BAUDRATE | BSL_ERASE_FLASH | BSL_REPARTITION
| BSL_CMD_READ_CHIPID | BSL_CMD_SWITCH_MODE | BSL_CMD_DUMP_MEM

fun cmd_code :: "cmd_type \<Rightarrow> u16" where
  "cmd_code BSL_CMD_CONNECT = 0x0"
| "cmd_code BSL_CMD_START_DATA = 0x1"
| "cmd_code BSL_CMD_MIDST_DATA = 0x2"
| "cmd_code BSL_CMD_END_DATA = 0x3"
| "cmd_code BSL_CMD_EXEC_DATA = 0x4"
| "cmd_code BSL_CMD_NORMAL_RESET = 0x5"
| "cmd_code BSL_CMD_READ_FLASH = 0x6"
| "cmd_code BSL_CMD_READ_CHIP_TYPE = 0x7"
| "cmd_code BSL_CMD_LOOKUP_NVITEM = 0x8"
| "cmd_code BSL_SET_BAUDRATE = 0x9"
| "cmd_code BSL_ERASE_FLASH = 0xA"
| "cmd_code BSL_REPARTITION = 0xB"
| "cmd_code BSL_CMD_READ_CHIPID = 0xC"
| "cmd_code BSL_CMD_SWITCH_MODE = 0xD"
| "cmd_code BSL_CMD_DUMP_MEM = 0xE"

definition cpu2be16 :: "u16 \<Rightarrow> u16" where
  "cpu2be16 w = push_bit 8 (w AND 0xFF) OR (drop_bit 8 w AND 0xFF)"

definition cpu2be32 :: "u32 \<Rightarrow> u32" where
  "cpu2be32 w = push_bit 24 (w AND 0xFF) OR push_bit 16 (drop_bit 8 w AND 0xFF)
     OR push_bit 8 (drop_bit 16 w AND 0xFF) OR drop_bit 24 w"

abbreviation put16 :: "nat \<Rightarrow> u16 \<Rightarrow> u8 list \<Rightarrow> u8 list option" where
  "put16 i v buf \<equiv> put_bytes i (le16 v) buf"

abbreviation put32 :: "nat \<Rightarrow> u32 \<Rightarrow> u8 list \<Rightarrow> u8 list option" where
  "put32 i v buf \<equiv> put_bytes i (le32 v) buf"

text \<open>The branch every UART command but CONNECT and SWITCH\_MODE takes.\<close>

definition uart_crc_packet :: "cmd_type \<Rightarrow> nat \<Rightarrow> u8 list \<Rightarrow> (nat \<times> u8 list) option" where
  "uart_crc_packet msg data_size buffer = do {
     let len = 4 + data_size;
     buffer \<leftarrow> put16 4 (cpu2be16 (cmd_code msg)) buffer;
     buffer \<leftarrow> put16 6 (cpu2be16 (of_nat data_size)) buffer;
     head \<leftarrow> get_bytes 4 len buffer;
     buffer \<leftarrow> put16 (len + 4) (cpu2be16 (crc_16_l_calc head)) buffer;
     Some (len + 2, buffer) }"

text \<open>The last store of the SDIO header: the checksum of its first six bytes.\<close>

definition put_header_sum :: "u8 list \<Rightarrow> u8 list option" where
  "put_header_sum buffer = do {
     h \<leftarrow> get_bytes 0 6 buffer;
     put16 6 (boot_checksum h) buffer }"

text \<open>Size, command and body checksum in front of it.\<close>

definition sdio_header :: "u16 \<Rightarrow> u16 \<Rightarrow> nat \<Rightarrow> nat \<Rightarrow> u8 list \<Rightarrow> u8 list option" where
  "sdio_header hsize msg offset data_size buffer = do {
     buffer \<leftarrow> put16 0 hsize buffer;
     buffer \<leftarrow> put16 2 msg buffer;
     body \<leftarrow> get_bytes offset data_size buffer;
     buffer \<leftarrow> put16 4 (boot_checksum body) buffer;
     put_header_sum buffer }"

definition setup_packet ::
  "cmd_type \<Rightarrow> u8 list \<Rightarrow> nat \<Rightarrow> nat \<Rightarrow> int \<Rightarrow> u32 \<Rightarrow> (nat \<times> u8 list) option" where
  "setup_packet msg buffer offset data_size flag image_size =
    (let len = 4 + data_size; code = cmd_code msg; dsz = of_nat data_size :: u16 in
     if msg = BSL_CMD_CONNECT then
       (if flag = 0 then do {
          buffer \<leftarrow> put16 4 (cpu2be16 code) buffer;
          buffer \<leftarrow> put16 6 (cpu2be16 dsz) buffer;
          buffer \<leftarrow> put16 (len + 4) 0 buffer;
          Some (len + 2, buffer) }
        else do {
          buffer \<leftarrow> put16 0 dsz buffer;
          buffer \<leftarrow> put16 2 code buffer;
          buffer \<leftarrow> put16 8 0 buffer;
          body \<leftarrow> get_bytes offset data_size buffer;
          buffer \<leftarrow> put16 4 (boot_checksum body) buffer;
          buffer \<leftarrow> put_header_sum buffer;
          Some (12, buffer) })
     else if msg \<in> {BSL_CMD_START_DATA, BSL_CMD_DUMP_MEM, BSL_CMD_EXEC_DATA, BSL_CMD_NORMAL_RESET} then
       (if flag = 0 then uart_crc_packet msg data_size buffer
        else do {
          buffer \<leftarrow> sdio_header dsz code offset data_size buffer;
          Some (data_size + 8, buffer) })
     else if msg = BSL_CMD_MIDST_DATA then
       (if flag = 0 then uart_crc_packet msg data_size buffer
        else do {
          buffer \<leftarrow> put16 0 (if data_size = 0 then 4 else ucast (image_size AND 0xFFFF)) buffer;
          buffer \<leftarrow> put16 2 (code OR ucast (drop_bit 8 (image_size AND 0xFF0000))) buffer;
          buffer \<leftarrow> put16 4 0 buffer;
          buffer \<leftarrow> put_header_sum buffer;
          Some (data_size + 8, buffer) })
     else if msg \<in> {BSL_CMD_END_DATA, BSL_CMD_READ_CHIPID} then
       (if flag = 0 then uart_crc_packet msg data_size buffer
        else do {
          buffer \<leftarrow> sdio_header 4 code offset data_size buffer;
          buffer \<leftarrow> put32 8 0 buffer;
          Some (12, buffer) })
     else if msg = BSL_CMD_SWITCH_MODE then
       (if flag = 0 then do {
          buffer \<leftarrow> put16 4 (cpu2be16 code) buffer;
          buffer \<leftarrow> put16 6 (cpu2be16 dsz) buffer;
          head \<leftarrow> get_bytes 4 len buffer;
          buffer \<leftarrow> put16 (len + 4) (frm_chk head) buffer;
          Some (len + 2, buffer) }
        else do {
          buffer \<leftarrow> sdio_header 4 code offset data_size buffer;
          buffer \<leftarrow> put32 8 0 buffer;
          Some (12, buffer) })
     else Some (0, buffer))"

subsection \<open>Lemmas\<close>

lemma le16_cpu2be16: "le16 (cpu2be16 w) = be16 w"
proof -
  have FF: "(0xFF :: u16) = mask 8" by (simp add: mask_eq_exp_minus_1)
  have "ucast (cpu2be16 w) = (ucast (drop_bit 8 w) :: u8)"
    by (rule bit_word_eqI) (auto simp: cpu2be16_def FF bit_simps)
  moreover have "ucast (drop_bit 8 (cpu2be16 w)) = (ucast w :: u8)"
    by (rule bit_word_eqI) (auto simp: cpu2be16_def FF bit_simps)
  ultimately show ?thesis by (simp add: le16_def be16_def)
qed


definition be32 :: "u32 \<Rightarrow> u8 list" where
  "be32 w = [ucast (drop_bit 24 w), ucast (drop_bit 16 w), ucast (drop_bit 8 w), ucast w]"

lemma length_be32 [simp]: "length (be32 w) = 4"
  by (simp add: be32_def)

lemma le32_cpu2be32: "le32 (cpu2be32 w) = be32 w"
proof -
  have FF: "(0xFF :: u32) = mask 8" by (simp add: mask_eq_exp_minus_1)
  have "ucast (cpu2be32 w) = (ucast (drop_bit 24 w) :: u8)"
    by (rule bit_word_eqI) (simp add: cpu2be32_def FF bit_simps)
  moreover have "ucast (drop_bit 8 (cpu2be32 w)) = (ucast (drop_bit 16 w) :: u8)"
    by (rule bit_word_eqI) (simp add: cpu2be32_def FF bit_simps)
  moreover have "ucast (drop_bit 16 (cpu2be32 w)) = (ucast (drop_bit 8 w) :: u8)"
    by (rule bit_word_eqI) (simp add: cpu2be32_def FF bit_simps)
  moreover have "ucast (drop_bit 24 (cpu2be32 w)) = (ucast w :: u8)"
    by (rule bit_word_eqI) (simp add: cpu2be32_def FF bit_simps)
  ultimately show ?thesis by (simp add: le32_def be32_def)
qed

lemma put_bytes_mid:
  "buf = a @ ys @ b \<Longrightarrow> length a = i \<Longrightarrow> length ys = length xs \<Longrightarrow> put_bytes i xs buf = Some (a @ xs @ b)"
  by (auto simp: put_bytes_def)

lemma get_bytes_mid:
  "buf = a @ ys @ b \<Longrightarrow> length a = i \<Longrightarrow> length ys = n \<Longrightarrow> get_bytes i n buf = Some ys"
  by (auto simp: get_bytes_def)

lemma uart_crc_packet_frame:
  fixes msg :: cmd_type
  assumes "buf = p @ t @ l @ d @ c @ r"
    and "length p = 4" "length t = 2" "length l = 2" "length c = 2" "length d = n"
  defines "h \<equiv> be16 (cmd_code msg) @ be16 (of_nat n) @ d"
  shows "uart_crc_packet msg n buf = Some (n + 6, p @ h @ be16 (crc_16_l_calc h) @ r)"
proof -
  let ?m = "be16 (cmd_code msg)" and ?n = "be16 (of_nat n :: u16)"
  have "put_bytes 4 ?m buf = Some (p @ ?m @ l @ d @ c @ r)"
    using assms by (intro put_bytes_mid) simp_all
  moreover have "put_bytes 6 ?n (p @ ?m @ l @ d @ c @ r) = Some ((p @ ?m) @ ?n @ d @ c @ r)"
    using assms by (intro put_bytes_mid [where ys = l]) simp_all
  moreover have "get_bytes 4 (4 + n) ((p @ ?m) @ ?n @ d @ c @ r) = Some h"
    using assms by (intro get_bytes_mid [where b = "c @ r"]) simp_all
  moreover have "put_bytes (n + 8) (be16 (crc_16_l_calc h)) ((p @ ?m) @ ?n @ d @ c @ r)
      = Some ((p @ h) @ be16 (crc_16_l_calc h) @ r)"
    using assms by (intro put_bytes_mid [where ys = c]) simp_all
  ultimately show ?thesis
    by (simp add: uart_crc_packet_def le16_cpu2be16 Let_def add.commute)
qed

lemma buffer_split:
  assumes "n + 10 \<le> length buf"
  obtains p t l d c r where "buf = p @ t @ l @ d @ c @ r" "length p = 4" "length t = 2"
    "length l = 2" "length c = 2" "length d = n"
proof
  show "buf = take 4 buf @ take 2 (drop 4 buf) @ take 2 (drop 6 buf) @ take n (drop 8 buf)
      @ take 2 (drop (n + 8) buf) @ drop (n + 10) buf"
    using append_take_drop_id [of 4 buf] append_take_drop_id [of 2 "drop 4 buf"]
      append_take_drop_id [of 2 "drop 6 buf"] append_take_drop_id [of n "drop 8 buf"]
      append_take_drop_id [of 2 "drop (n + 8) buf"]
    by (simp add: add.commute)
qed (use assms in simp_all)

definition uart_crc_cmds :: "cmd_type set" where
  "uart_crc_cmds = {BSL_CMD_START_DATA, BSL_CMD_MIDST_DATA, BSL_CMD_END_DATA, BSL_CMD_EXEC_DATA,
     BSL_CMD_NORMAL_RESET, BSL_CMD_READ_CHIPID, BSL_CMD_DUMP_MEM}"

lemma setup_packet_uart:
  "msg \<in> uart_crc_cmds \<Longrightarrow>
     setup_packet msg buf off n 0 img = uart_crc_packet msg n buf"
  by (auto simp: setup_packet_def uart_crc_cmds_def Let_def)


definition sdio_cmds :: "cmd_type set" where
  "sdio_cmds = insert BSL_CMD_CONNECT (insert BSL_CMD_SWITCH_MODE uart_crc_cmds)"

lemma put_header_sum_sealed:
  assumes "put_header_sum buf = Some buf'"
  shows "\<exists>h. get_bytes 0 8 buf' = Some h \<and> boot_checksum h = 0"
proof -
  from assms obtain h where h: "get_bytes 0 6 buf = Some h" "put16 6 (boot_checksum h) buf = Some buf'"
    by (auto simp: put_header_sum_def bind_eq_Some_conv)
  moreover from h(1) have "length h = 6" by (rule get_bytes_length)
  ultimately show ?thesis
    using boot_sum.seal_at [of 0 6 buf h buf'] by auto
qed

lemma put32_keeps_header: "put32 8 v buf = Some buf' \<Longrightarrow> get_bytes 0 8 buf' = get_bytes 0 8 buf"
  by (erule get_put_before) simp

lemmas header_sum_dest = put_header_sum_sealed put32_keeps_header

text \<open>
  Every CRC-protected UART command leaves in the buffer, from byte 4 on, the
  command and the length in network order, the body that was there, and a CRC under
  which the whole frame checks to zero; the size returned is the size of that frame.
\<close>

lemma setup_packet_uart_frame:
  assumes "msg \<in> uart_crc_cmds" and "n + 10 \<le> length buf"
  shows "\<exists>buf' frame. setup_packet msg buf off n 0 img = Some (n + 6, buf')
     \<and> length buf' = length buf \<and> get_bytes 4 (n + 6) buf' = Some frame
     \<and> take (n + 4) frame = be16 (cmd_code msg) @ be16 (of_nat n) @ take n (drop 8 buf)
     \<and> crc_16_l_calc frame = 0"
proof -
  obtain p t l d c r where buf: "buf = p @ t @ l @ d @ c @ r" "length p = 4" "length t = 2"
    "length l = 2" "length c = 2" "length d = n"
    using buffer_split [OF assms(2)] .
  let ?h = "be16 (cmd_code msg) @ be16 (of_nat n) @ d"
  let ?frame = "?h @ be16 (crc_16_l_calc ?h)"
  have "setup_packet msg buf off n 0 img = Some (n + 6, p @ ?frame @ r)"
    using uart_crc_packet_frame [OF buf] assms(1) by (simp add: setup_packet_uart)
  moreover have "get_bytes 4 (n + 6) (p @ ?frame @ r) = Some ?frame"
    using buf by (intro get_bytes_mid) simp_all
  moreover have "take n (drop 8 buf) = d" using buf by simp
  moreover have "take (n + 4) ?frame = ?h" using buf by simp
  moreover have "length (p @ ?frame @ r) = length buf" using buf by simp
  ultimately show ?thesis using crc_own_residue [of ?h] by (simp only:) blast
qed

text \<open>
  In SDIO mode every supported command builds an eight-byte header that sums to
  zero, so the receiver can verify it.
\<close>

lemma setup_packet_sdio_header:
  assumes "msg \<in> sdio_cmds" and "flag \<noteq> 0"
    and "setup_packet msg buf off n flag img = Some (tot, buf')"
  shows "\<exists>h. get_bytes 0 8 buf' = Some h \<and> boot_checksum h = 0"
  using assms
  by (auto simp: setup_packet_def sdio_cmds_def uart_crc_cmds_def sdio_header_def Let_def
      bind_eq_Some_conv dest!: header_sum_dest split: if_splits)

lemma setup_packet_sdio_header_witness:
  "\<exists>buf' h. setup_packet BSL_CMD_END_DATA (replicate 32 7) 8 0 1 0 = Some (12, buf')
     \<and> get_bytes 0 8 buf' = Some h \<and> boot_checksum h = 0"
proof -
  have "\<exists>buf'. setup_packet BSL_CMD_END_DATA (replicate 32 7) 8 0 1 0 = Some (12, buf')"
    by (simp add: setup_packet_def sdio_header_def put_header_sum_def put_bytes_def get_bytes_def)
  with setup_packet_sdio_header [of BSL_CMD_END_DATA 1 "replicate 32 7" 8 0 0 12]
  show ?thesis by (auto simp: sdio_cmds_def uart_crc_cmds_def)
qed

end
