(* ===== verification/Send.thy ===== *)
theory Send
  imports Packet
begin

text \<open>
  The request/acknowledge exchanges of \<open>wcn/platform/download/packet.c\<close>: every
  \<open>send_*_message\<close> builds a packet, writes it (stuffed on a UART, raw on SDIO),
  reads the answer and checks its type.

  The device is a script: the results of the successive \<open>write\<close> calls and of the
  successive \<open>read\<close> calls, each with the outcome of the deadline check that
  follows it (\<open>True\<close>: the deadline has passed). A call past the end of the script
  blocks for ever, so the operation returns \<open>None\<close>; so does an access outside a
  buffer. A \<open>write\<close> or \<open>read\<close> never transfers more than it was asked to.
  \<open>clock_gettime\<close> on the monotonic clock is taken not to fail.
\<close>

subsection \<open>Definitions\<close>

record port =
  wr :: "(int \<times> bool) list"
  rd :: "(u8 list option \<times> bool) list"
  sbuf :: "u8 list"        \<comment> \<open>\<open>send_buffer\<close>, 1000 longs\<close>
  wire :: "u8 list"        \<comment> \<open>what the device has received\<close>
  baud :: "u32 option"     \<comment> \<open>the speed last set by \<open>set_raw_data_speed\<close>\<close>

text \<open>
  The UART write loop. After a short write the loop asks for the remaining number of
  bytes, from the start of \<open>send_buffer\<close> again. \<open>timed\<close> says whether the loop has
  the deadline check.
\<close>

fun uart_write ::
  "bool \<Rightarrow> u8 list \<Rightarrow> int \<Rightarrow> u8 list \<Rightarrow> (int \<times> bool) list \<Rightarrow> (int \<times> u8 list \<times> (int \<times> bool) list) option" where
  "uart_write timed sb sz w [] = None"
| "uart_write timed sb sz w ((r, late) # ws) =
     (let w' = (if r > 0 then w @ take (nat r) (take (nat sz) sb) else w);
          sz' = (if r > 0 then sz - r else sz)
      in if timed \<and> late then Some (r, w', ws)
         else if sz' > 0 then uart_write timed sb sz' w' ws else Some (r, w', ws))"

text \<open>The acknowledge loop: it stops when \<open>size\<close> bytes have come or the deadline has passed.\<close>

fun wait_ack ::
  "nat \<Rightarrow> nat \<Rightarrow> u8 list \<Rightarrow> (u8 list option \<times> bool) list
     \<Rightarrow> (int \<times> nat \<times> u8 list \<times> (u8 list option \<times> bool) list) option" where
  "wait_ack sz off raw [] = None"
| "wait_ack sz off raw ((res, late) # rs) =
     (case res of
        None \<Rightarrow> if late then Some (-1, off, raw, rs)
                else if sz \<noteq> 0 then wait_ack sz off raw rs else Some (-1, off, raw, rs)
      | Some bs \<Rightarrow> (let n = length (take sz bs) in do {
          raw \<leftarrow> put_bytes off (take sz bs) raw;
          if late \<or> sz - n = 0 then Some (int n, off + n, raw, rs)
          else wait_ack (sz - n) (off + n) raw rs }))"

text \<open>
  The common body of the senders: \<open>fbuf\<close> holds the packet of \<open>size\<close> bytes (from byte
  4 on a UART), \<open>raw\<close> receives the answer. The result is the answer's bytes
  (\<open>data\<close> of the code) when the last \<open>read\<close> returned some.
\<close>

definition send_packet :: "bool \<Rightarrow> int \<Rightarrow> u8 list \<Rightarrow> nat \<Rightarrow> port \<Rightarrow> (int \<times> port) option" where
  "send_packet timed flag fbuf sz p =
    (if flag = 0 then do {
       src \<leftarrow> get_bytes 4 sz fbuf;
       sb \<leftarrow> put_bytes 0 (translate_packet src) (sbuf p);
       (r, w, ws) \<leftarrow> uart_write timed sb (int (length (translate_packet src))) (wire p) (wr p);
       Some (r, p\<lparr>wr := ws, sbuf := sb, wire := w\<rparr>) }
     else do {
       src \<leftarrow> get_bytes 0 sz fbuf;
       (case wr p of [] \<Rightarrow> None
        | (r, _) # ws \<Rightarrow> Some (r, p\<lparr>wr := ws, wire := wire p @ take (nat r) src\<rparr>)) })"

definition read_answer :: "int \<Rightarrow> u8 list \<Rightarrow> int \<Rightarrow> port \<Rightarrow> (u8 list option \<times> port) option" where
  "read_answer flag raw retval p =
    (if retval > 0 then do {
       (r, off, raw, rs) \<leftarrow> wait_ack (if flag = 0 then 8 else 6) 0 raw (rd p);
       (if r > 0 then
          (if flag = 0 then do {
             d \<leftarrow> untranslate_packet (take off raw);
             sb \<leftarrow> put_bytes 0 d (sbuf p);
             Some (Some sb, p\<lparr>rd := rs, sbuf := sb\<rparr>) }
           else Some (Some raw, p\<lparr>rd := rs\<rparr>))
        else Some (None, p\<lparr>rd := rs\<rparr>)) }
     else Some (None, p))"

definition head_type :: "u8 list \<Rightarrow> u16" where
  "head_type data = push_bit 8 (ucast (data ! 0)) OR ucast (data ! 1)"

abbreviation (input) raw_buffer0 :: "u8 list" where
  "raw_buffer0 \<equiv> replicate 32 0"

definition ack_result :: "u16 set \<Rightarrow> u8 list option \<times> port \<Rightarrow> int \<times> port" where
  "ack_result good a =
    (case a of (Some data, p) \<Rightarrow> ((if head_type data \<in> good then 0 else -1), p)
     | (None, p) \<Rightarrow> (-1, p))"

abbreviation (input) BSL_REP_ACK :: u16 where "BSL_REP_ACK \<equiv> 0x80"

definition send_connect_message :: "int \<Rightarrow> port \<Rightarrow> (int \<times> port) option" where
  "send_connect_message flag p = do {
     (sz, raw) \<leftarrow> setup_packet BSL_CMD_CONNECT raw_buffer0 8 0 flag 0;
     (r, p) \<leftarrow> send_packet True flag raw sz p;
     a \<leftarrow> read_answer flag raw r p;
     Some (ack_result {BSL_REP_ACK} a) }"

definition send_start_message :: "u32 \<Rightarrow> u32 \<Rightarrow> int \<Rightarrow> port \<Rightarrow> (int \<times> port) option" where
  "send_start_message isize addr flag p = do {
     raw \<leftarrow> put32 8 (cpu2be32 addr) raw_buffer0;
     raw \<leftarrow> put32 12 (cpu2be32 isize) raw;
     (sz, raw) \<leftarrow> setup_packet BSL_CMD_START_DATA raw 8 8 flag 0;
     (r, p) \<leftarrow> send_packet True flag raw sz p;
     a \<leftarrow> read_answer flag raw r p;
     Some (ack_result {BSL_REP_ACK, 0} a) }"

definition send_end_message :: "int \<Rightarrow> port \<Rightarrow> (int \<times> port) option" where
  "send_end_message flag p = do {
     (sz, raw) \<leftarrow> setup_packet BSL_CMD_END_DATA raw_buffer0 8 0 flag 0;
     (r, p) \<leftarrow> send_packet True flag raw sz p;
     a \<leftarrow> read_answer flag raw r p;
     Some (ack_result {BSL_REP_ACK, 0} a) }"

definition send_getchipid_message :: "int \<Rightarrow> port \<Rightarrow> (u32 \<times> port) option" where
  "send_getchipid_message flag p = do {
     (sz, raw) \<leftarrow> setup_packet BSL_CMD_READ_CHIPID raw_buffer0 8 0 flag 0;
     (r, p) \<leftarrow> send_packet True flag raw sz p;
     (a, p) \<leftarrow> read_answer flag raw r p;
     Some (case a of None \<Rightarrow> (0, p)
       | Some data \<Rightarrow> (push_bit 24 (ucast (data ! 0)) OR push_bit 16 (ucast (data ! 1))
           OR push_bit 8 (ucast (data ! 2)) OR ucast (data ! 3), p)) }"

text \<open>
  The SDIO data path: after the first packet, \<open>count - 1\<close> further blocks are copied from
  the image file through the caller's buffer. \<open>img\<close> is what the reads of the image
  return.
\<close>

fun sdio_copy :: "nat \<Rightarrow> nat \<Rightarrow> u8 list list \<Rightarrow> u8 list \<Rightarrow> int \<Rightarrow> port \<Rightarrow> (int \<times> port) option" where
  "sdio_copy 0 n img buffer r p = Some (r, p)"
| "sdio_copy (Suc k) n [] buffer r p = None"
| "sdio_copy (Suc k) n (blk # img) buffer r p = do {
     buffer \<leftarrow> put_bytes 0 (take n blk) buffer;
     (r, p) \<leftarrow> send_packet True 1 buffer n p;
     sdio_copy k n img buffer r p }"

definition send_data_message ::
  "u8 list \<Rightarrow> nat \<Rightarrow> int \<Rightarrow> u32 \<Rightarrow> u8 list list \<Rightarrow> port \<Rightarrow> (int \<times> port) option" where
  "send_data_message buffer data_size flag image_size img p = do {
     (r, p) \<leftarrow>
       (if flag = 0 then do {
          body \<leftarrow> get_bytes 0 data_size buffer;
          ub \<leftarrow> put_bytes 8 body (replicate 1500 0);
          (sz, ub) \<leftarrow> setup_packet BSL_CMD_MIDST_DATA ub 8 data_size flag 0;
          send_packet True flag ub sz p }
        else do {
          (sz, buffer) \<leftarrow> setup_packet BSL_CMD_MIDST_DATA buffer 8 data_size flag image_size;
          (r, p) \<leftarrow> send_packet True flag buffer sz p;
          (if data_size = 0 then None
           else sdio_copy (nat (sint image_size) div data_size - 1) data_size img buffer r p) });
     a \<leftarrow> read_answer flag raw_buffer0 r p;
     Some (ack_result {BSL_REP_ACK, 0} a) }"

definition send_exec_message :: "u32 \<Rightarrow> int \<Rightarrow> port \<Rightarrow> (int \<times> port) option" where
  "send_exec_message addr flag p = do {
     raw \<leftarrow> put32 8 (cpu2be32 addr) raw_buffer0;
     (sz, raw) \<leftarrow> setup_packet BSL_CMD_EXEC_DATA raw 8 4 flag 0;
     (r, p) \<leftarrow> send_packet True flag raw sz p;
     a \<leftarrow> read_answer flag raw r p;
     Some (ack_result {BSL_REP_ACK, 0} a) }"

text \<open>The dump request is written without stuffing in both modes and always reports \<open>-1\<close>.\<close>

definition send_dump_mem_message :: "u32 \<Rightarrow> u32 \<Rightarrow> int \<Rightarrow> port \<Rightarrow> (int \<times> port) option" where
  "send_dump_mem_message isize addr flag p = do {
     raw \<leftarrow> put32 8 (cpu2be32 addr) raw_buffer0;
     raw \<leftarrow> put32 12 (cpu2be32 isize) raw;
     (sz, raw) \<leftarrow> setup_packet BSL_CMD_DUMP_MEM raw 8 8 flag 0;
     (r, p) \<leftarrow> send_packet True 1 raw sz p;
     Some (-1, p) }"

text \<open>
  The speed change writes without a deadline, then switches the local UART and returns
  without waiting for an answer; the acknowledge code behind the return is dead.
\<close>

definition send_uart_speed_message :: "u32 \<Rightarrow> int \<Rightarrow> port \<Rightarrow> (int \<times> port) option" where
  "send_uart_speed_message speed flag p = do {
     raw \<leftarrow> put32 8 (cpu2be32 speed) raw_buffer0;
     (sz, raw) \<leftarrow> setup_packet BSL_CMD_NORMAL_RESET raw 8 4 flag 0;
     (r, p) \<leftarrow> send_packet False flag raw sz p;
     Some (if r > 0 then (0, p\<lparr>baud := Some speed\<rparr>) else (-1, p)) }"

subsection \<open>Lemmas\<close>

lemma uart_write_whole:
  assumes "f \<noteq> []" and "take (length f) sb = f"
  shows "uart_write timed sb (int (length f)) w ((int (length f), late) # ws)
           = Some (int (length f), w @ f, ws)"
  using assms by (simp add: Let_def)

lemma translate_packet_length: "translate_packet xs \<noteq> []"
  "2 \<le> length (translate_packet xs)" "length (translate_packet xs) \<le> 2 * length xs + 2"
  using length_stuffed [of xs] by (auto simp: translate_packet_stuff)

lemma put_bytes_prefix: "put_bytes 0 f sb = Some sb' \<Longrightarrow> take (length f) sb' = f"
  by (auto simp: put_bytes_def split: if_splits)

lemma put_bytes_Some: "i + length xs \<le> length buf \<Longrightarrow> \<exists>buf'. put_bytes i xs buf = Some buf'"
  by (simp add: put_bytes_def)

lemma put_bytes_append:
  assumes "off + length (xs @ ys) \<le> length raw"
  shows "put_bytes off (xs @ ys) raw
      = Option.bind (put_bytes off xs raw) (put_bytes (off + length xs) ys)"
  using assms by (cases xs) (auto simp: put_bytes_def min_def ac_simps)

text \<open>However the answer is cut into reads, the acknowledge loop puts it together.\<close>

lemma wait_ack_chunks:
  assumes "bss \<noteq> []" and "[] \<notin> set bss" and "off + length (concat bss) \<le> length raw"
  shows "\<exists>raw'. put_bytes off (concat bss) raw = Some raw' \<and>
    wait_ack (length (concat bss)) off raw (map (\<lambda>b. (Some b, False)) bss @ rs)
      = Some (int (length (last bss)), off + length (concat bss), raw', rs)"
  using assms
proof (induction bss arbitrary: off raw)
  case (Cons b bss)
  let ?c = "concat bss"
  from Cons.prems(3) obtain raw1 where raw1: "put_bytes off b raw = Some raw1"
    using put_bytes_Some [of off b raw] by auto
  then have len1: "length raw1 = length raw" by (rule put_bytes_length)
  show ?case
  proof (cases "bss = []")
    case True
    with raw1 show ?thesis by (simp add: Let_def)
  next
    case False
    moreover from Cons.prems False have "0 < length ?c" by (cases bss) auto
    moreover from Cons.prems(3) len1 have "(off + length b) + length ?c \<le> length raw1" by simp
    ultimately obtain raw2 where "put_bytes (off + length b) ?c raw1 = Some raw2"
      "wait_ack (length ?c) (off + length b) raw1 (map (\<lambda>b. (Some b, False)) bss @ rs)
         = Some (int (length (last bss)), off + length b + length ?c, raw2, rs)"
      using Cons.IH [of "off + length b" raw1] Cons.prems(2) by auto
    moreover have "put_bytes off (b @ ?c) raw = Some raw2"
      using put_bytes_append [of off b ?c raw] Cons.prems(3) raw1 calculation(1) by simp
    ultimately show ?thesis
      using raw1 False \<open>0 < length ?c\<close> by (simp add: Let_def add.assoc)
  qed
qed simp

lemma send_packet_uart:
  assumes "get_bytes 4 sz fbuf = Some frame"
    and "length (translate_packet frame) \<le> length (sbuf p)"
    and "wr p = (int (length (translate_packet frame)), late) # ws"
  obtains sb where "length sb = length (sbuf p)"
    "send_packet timed 0 fbuf sz p = Some (int (length (translate_packet frame)),
       p\<lparr>wr := ws, sbuf := sb, wire := wire p @ translate_packet frame\<rparr>)"
proof -
  obtain sb where sb: "put_bytes 0 (translate_packet frame) (sbuf p) = Some sb"
    using put_bytes_Some [of 0 "translate_packet frame" "sbuf p"] assms(2) by auto
  moreover from put_bytes_prefix [OF sb] have
    "uart_write timed sb (int (length (translate_packet frame))) (wire p) (wr p)
       = Some (int (length (translate_packet frame)), wire p @ translate_packet frame, ws)"
    unfolding assms(3) by (rule uart_write_whole [OF translate_packet_length(1)])
  ultimately show thesis
    using that [of sb] assms(1) put_bytes_length [OF sb] by (simp add: send_packet_def)
qed

lemma untranslate_loop_length:
  "untranslate_loop st d src = Some d' \<Longrightarrow> length d' \<le> length d + length src"
proof (induction st d src rule: untranslate_loop.induct)
  case (2 st d x src)
  then show ?case
    by (auto split: if_splits)
qed simp

lemma untranslate_packet_length: "untranslate_packet src = Some d \<Longrightarrow> length d \<le> length src"
  unfolding untranslate_packet_def by (drule untranslate_loop_length) simp

text \<open>
  A well-behaved UART: the request leaves in one write and the eight answer bytes come
  in any number of reads, decoding to \<open>d\<close>.
\<close>

definition answered :: "u8 list \<Rightarrow> u8 list list \<Rightarrow> u8 list
    \<Rightarrow> (int \<times> bool) list \<Rightarrow> (u8 list option \<times> bool) list \<Rightarrow> port \<Rightarrow> bool" where
  "answered frame bss d ws rs p \<longleftrightarrow> length (sbuf p) = 4000
     \<and> wr p = (int (length (translate_packet frame)), False) # ws
     \<and> rd p = map (\<lambda>b. (Some b, False)) bss @ rs
     \<and> [] \<notin> set bss \<and> length (concat bss) = 8
     \<and> untranslate_packet (concat bss) = Some d \<and> 2 \<le> length d"

lemma read_answer_uart:
  assumes "rd p = map (\<lambda>b. (Some b, False)) bss @ rs" and "[] \<notin> set bss" and "length (concat bss) = 8"
    and "untranslate_packet (concat bss) = Some d" and "2 \<le> length d"
    and "length (sbuf p) = 4000" and "8 \<le> length raw" and "0 < r"
  obtains sb where "head_type sb = head_type d" "length sb = 4000"
    "read_answer 0 raw r p = Some (Some sb, p\<lparr>rd := rs, sbuf := sb\<rparr>)"
proof -
  have "bss \<noteq> []" using assms(3) by auto
  with assms(2,3,7) obtain raw' where raw': "put_bytes 0 (concat bss) raw = Some raw'"
    "wait_ack 8 0 raw (rd p) = Some (int (length (last bss)), 8, raw', rs)"
    using wait_ack_chunks [of bss 0 raw rs] unfolding assms(1) by auto
  have last: "0 < length (last bss)"
    using \<open>bss \<noteq> []\<close> assms(2) by (metis last_in_set length_greater_0_conv)
  obtain sb where sb: "put_bytes 0 d (sbuf p) = Some sb"
    using put_bytes_Some [of 0 d "sbuf p"] untranslate_packet_length [OF assms(4)] assms(3,6) by auto
  then have "head_type sb = head_type d"
    using assms(5) by (auto simp: head_type_def put_bytes_def nth_append split: if_splits)
  moreover have "take 8 raw' = concat bss"
    using put_bytes_prefix [OF raw'(1)] assms(3) by simp
  ultimately show thesis
    using that [of sb] raw'(2) sb assms(4,6,8) last put_bytes_length [OF sb]
    by (simp add: read_answer_def)
qed

lemma uart_exchange:
  assumes "answered frame bss d ws rs p" and "get_bytes 4 sz fbuf = Some frame"
    and "length frame \<le> 1999" and "8 \<le> length raw"
  obtains p1 p2 sb where
    "send_packet timed 0 fbuf sz p = Some (int (length (translate_packet frame)), p1)"
    "read_answer 0 raw (int (length (translate_packet frame))) p1 = Some (Some sb, p2)"
    "head_type sb = head_type d" "wire p2 = wire p @ translate_packet frame"
    "wr p2 = ws" "rd p2 = rs" "length (sbuf p2) = 4000"
proof -
  have fit: "length (translate_packet frame) \<le> length (sbuf p)"
    and pos: "0 < int (length (translate_packet frame))"
    using translate_packet_length [of frame] assms(1,3) by (auto simp: answered_def)
  obtain sb1 where sb1: "length sb1 = length (sbuf p)"
    "send_packet timed 0 fbuf sz p = Some (int (length (translate_packet frame)),
       p\<lparr>wr := ws, sbuf := sb1, wire := wire p @ translate_packet frame\<rparr>)"
    using send_packet_uart [OF assms(2) fit, of False ws timed] assms(1)
    by (auto simp: answered_def)
  let ?p1 = "p\<lparr>wr := ws, sbuf := sb1, wire := wire p @ translate_packet frame\<rparr>"
  obtain sb where "head_type sb = head_type d" "length sb = 4000"
    "read_answer 0 raw (int (length (translate_packet frame))) ?p1
       = Some (Some sb, ?p1\<lparr>rd := rs, sbuf := sb\<rparr>)"
    using read_answer_uart [of ?p1 bss rs d raw, OF _ _ _ _ _ _ assms(4) pos] assms(1) sb1(1)
    by (auto simp: answered_def)
  with that [OF sb1(2) this(3)] show thesis by simp
qed

text \<open>The frame of a command with a body, as it should look on the wire before stuffing.\<close>

definition uart_frame :: "u16 \<Rightarrow> u8 list \<Rightarrow> u8 list" where
  "uart_frame code body =
    (let h = be16 code @ be16 (of_nat (length body)) @ body in h @ be16 (crc_16_l_calc h))"

lemma length_uart_frame [simp]: "length (uart_frame code body) = length body + 6"
  by (simp add: uart_frame_def Let_def)

lemma setup_packet_uart_build:
  assumes "msg \<in> uart_crc_cmds" and "n + 10 \<le> length buf"
  obtains buf' where "setup_packet msg buf off n 0 img = Some (n + 6, buf')"
    "length buf' = length buf"
    "get_bytes 4 (n + 6) buf' = Some (uart_frame (cmd_code msg) (take n (drop 8 buf)))"
proof -
  obtain p t l d c r where buf: "buf = p @ t @ l @ d @ c @ r" "length p = 4" "length t = 2"
    "length l = 2" "length c = 2" "length d = n"
    using buffer_split [OF assms(2)] .
  let ?f = "uart_frame (cmd_code msg) d"
  have "setup_packet msg buf off n 0 img = Some (n + 6, p @ ?f @ r)"
    using uart_crc_packet_frame [OF buf] assms(1) buf(6)
    by (simp add: setup_packet_uart uart_frame_def Let_def)
  moreover have "get_bytes 4 (n + 6) (p @ ?f @ r) = Some ?f"
    using buf by (intro get_bytes_mid) simp_all
  moreover have "take n (drop 8 buf) = d" using buf by simp
  moreover have "length (p @ ?f @ r) = length buf" using buf by simp
  ultimately show thesis using that by simp
qed

text \<open>
  C11. On a well-behaved UART \<open>send_start_message\<close> puts exactly the stuffed START frame
  with address and size in network order on the wire, and returns 0 exactly when the
  answer, in however many pieces it arrives, is an ACK (or type 0).
\<close>

theorem send_start_message_uart:
  assumes "answered (uart_frame 1 (be32 addr @ be32 isize)) bss d ws rs p"
  shows "\<exists>p'. send_start_message isize addr 0 p = Some (if head_type d \<in> {0x80, 0} then 0 else -1, p')
     \<and> wire p' = wire p @ translate_packet (uart_frame 1 (be32 addr @ be32 isize))
     \<and> wr p' = ws \<and> rd p' = rs"
proof -
  let ?raw = "replicate 8 0 @ be32 addr @ be32 isize @ replicate 16 0 :: u8 list"
  let ?raw1 = "replicate 8 0 @ be32 addr @ replicate 20 0 :: u8 list"
  have raw: "put32 8 (cpu2be32 addr) raw_buffer0 = Some ?raw1"
    "put32 12 (cpu2be32 isize) ?raw1 = Some ?raw"
    by (simp_all add: put_bytes_def le32_cpu2be32 be32_def numeral_eq_Suc)
  obtain buf where buf: "setup_packet BSL_CMD_START_DATA ?raw 8 8 0 0 = Some (14, buf)"
    "length buf = 32" "get_bytes 4 14 buf = Some (uart_frame 1 (be32 addr @ be32 isize))"
    using setup_packet_uart_build [of BSL_CMD_START_DATA 8 ?raw 8 0] by (auto simp: uart_crc_cmds_def)
  have len: "length (uart_frame 1 (be32 addr @ be32 isize)) \<le> 1999" "8 \<le> length buf"
    using buf(2) by simp_all
  obtain p1 p2 sb where "send_packet True 0 buf 14 p = Some (int (length (translate_packet (uart_frame 1 (be32 addr @ be32 isize)))), p1)"
    "read_answer 0 buf (int (length (translate_packet (uart_frame 1 (be32 addr @ be32 isize))))) p1 = Some (Some sb, p2)"
    "head_type sb = head_type d" "wire p2 = wire p @ translate_packet (uart_frame 1 (be32 addr @ be32 isize))"
    "wr p2 = ws" "rd p2 = rs"
    by (rule uart_exchange [OF assms buf(3) len, of True]) 
  then show ?thesis
    by (simp add: send_start_message_def raw buf(1) ack_result_def)
qed

definition ack_port :: "u8 list \<Rightarrow> port" where
  "ack_port frame = \<lparr>wr = [(int (length (translate_packet frame)), False)],
     rd = [(Some [0x7E, 0, 0x80], False), (Some [0, 0, 1, 2, 0x7E], False)],
     sbuf = replicate 4000 0, wire = [], baud = None\<rparr>"

lemma answered_ack_port:
  "answered frame [[0x7E, 0, 0x80], [0, 0, 1, 2, 0x7E]] [0, 0x80, 0, 0, 1, 2] [] [] (ack_port frame)"
  by (simp add: answered_def ack_port_def untranslate_packet_def)

theorem send_start_message_uart_witness:
  "\<exists>p'. send_start_message 16 32 0 (ack_port (uart_frame 1 (be32 32 @ be32 16)))
       = Some (if head_type [0, 0x80, 0, 0, 1, 2] \<in> {0x80, 0} then 0 else -1, p')
     \<and> wire p' = wire (ack_port (uart_frame 1 (be32 32 @ be32 16)))
         @ translate_packet (uart_frame 1 (be32 32 @ be32 16)) \<and> wr p' = [] \<and> rd p' = []"
  by (rule send_start_message_uart [OF answered_ack_port])

text \<open>
  A block of image data of up to 1490 bytes fits the UART buffers: it leaves as one
  stuffed DATA frame, and the result tells whether the answer was an ACK (or type 0).
\<close>

lemma send_data_message_uart:
  assumes "length body \<le> 1490" and "answered (uart_frame 2 body) bss d ws rs p"
  shows "\<exists>p'. send_data_message (body @ rest) (length body) 0 img blks p
       = Some (if head_type d \<in> {0x80, 0} then 0 else -1, p')
     \<and> wire p' = wire p @ translate_packet (uart_frame 2 body) \<and> wr p' = ws \<and> rd p' = rs"
proof -
  obtain ub where ub: "put_bytes 8 body (replicate 1500 0) = Some ub"
    using put_bytes_Some [of 8 body "replicate 1500 0"] assms(1) by auto
  have ub': "length ub = 1500" "take (length body) (drop 8 ub) = body"
    using ub by (auto simp: put_bytes_def split: if_splits)
  obtain buf where buf: "setup_packet BSL_CMD_MIDST_DATA ub 8 (length body) 0 0 = Some (length body + 6, buf)"
    "get_bytes 4 (length body + 6) buf = Some (uart_frame 2 body)"
    using setup_packet_uart_build [of BSL_CMD_MIDST_DATA "length body" ub 8 0] assms(1) ub'
    by (auto simp: uart_crc_cmds_def)
  have len: "length (uart_frame 2 body) \<le> 1999" "8 \<le> length raw_buffer0"
    using assms(1) by simp_all
  obtain p1 p2 sb where
    "send_packet True 0 buf (length body + 6) p
       = Some (int (length (translate_packet (uart_frame 2 body))), p1)"
    "read_answer 0 raw_buffer0 (int (length (translate_packet (uart_frame 2 body)))) p1 = Some (Some sb, p2)"
    "head_type sb = head_type d" "wire p2 = wire p @ translate_packet (uart_frame 2 body)"
    "wr p2 = ws" "rd p2 = rs"
    by (rule uart_exchange [OF assms(2) buf(2) len, of True])
  moreover have "get_bytes 0 (length body) (body @ rest) = Some body"
    by (simp add: get_bytes_def)
  ultimately show ?thesis
    by (simp add: send_data_message_def ub buf(1) ack_result_def)
qed

text \<open>
  A short write is not resumed but restarted: when the driver takes only \<open>r\<close> of the
  \<open>n\<close> stuffed bytes, the second write sends the first \<open>n - r\<close> bytes again, so the device
  never receives the frame.
\<close>

lemma short_write_corrupts:
  assumes "get_bytes 4 sz fbuf = Some frame" and "f = translate_packet frame"
    and "length f \<le> length (sbuf p)" and "0 < r" and "r + 1 < length f"
    and "wr p = (int r, False) # (int (length f - r), late) # ws"
  shows "\<exists>p'. send_packet timed 0 fbuf sz p = Some (int (length f - r), p')
     \<and> wire p' = wire p @ take r f @ take (length f - r) f
     \<and> take r f @ take (length f - r) f \<noteq> f"
proof -
  obtain sb where sb: "put_bytes 0 f (sbuf p) = Some sb"
    using put_bytes_Some [of 0 f "sbuf p"] assms(3) by auto
  have pre: "take k sb = take k f" if "k \<le> length f" for k
    using put_bytes_prefix [OF sb] that by (metis min.absorb1 take_take)
  have nat: "nat (int (length f) - int r) = length f - r" by simp
  have "uart_write timed sb (int (length f)) (wire p) (wr p)
      = Some (int (length f - r), wire p @ take r f @ take (length f - r) f, ws)"
    using assms(4,5) unfolding assms(6) by (simp add: Let_def pre min_def nat)
  moreover have "take r f @ take (length f - r) f \<noteq> f"
  proof
    assume eq: "take r f @ take (length f - r) f = f"
    obtain body where body: "f = 0x7E # body @ [0x7E]" "0x7E \<notin> set body"
      using stuff_no_flag by (auto simp: assms(2) translate_packet_stuff)
    have "f ! r = (take r f @ take (length f - r) f) ! r" by (simp only: eq)
    also have "\<dots> = 0x7E" using assms(4,5) body(1) by (simp add: nth_append)
    finally have "body ! (r - 1) = 0x7E"
      using assms(4,5) body(1) by (simp add: nth_Cons' nth_append split: if_splits)
    moreover have "r - 1 < length body" using assms(4,5) body(1) by simp
    ultimately show False using body(2) by (metis nth_mem)
  qed
  ultimately show ?thesis
    using assms(1,2) sb by (simp add: send_packet_def)
qed

lemma short_write_corrupts_witness:
  "\<exists>p'. send_packet True 0 [0, 0, 0, 0, 1, 2] 2
         \<lparr>wr = [(int 1, False), (int (length [0x7E, 1, 2, 0x7E :: u8] - 1), False)], rd = [],
          sbuf = replicate 8 0, wire = [], baud = None\<rparr>
       = Some (int (length [0x7E, 1, 2, 0x7E :: u8] - 1), p')
     \<and> wire p' = [] @ take 1 [0x7E, 1, 2, 0x7E] @ take (length [0x7E, 1, 2, 0x7E :: u8] - 1) [0x7E, 1, 2, 0x7E]
     \<and> take 1 [0x7E, 1, 2, 0x7E :: u8] @ take (length [0x7E, 1, 2, 0x7E :: u8] - 1) [0x7E, 1, 2, 0x7E]
         \<noteq> [0x7E, 1, 2, 0x7E]"
  using short_write_corrupts [of 2 "[0, 0, 0, 0, 1, 2]" "[1, 2]" "[0x7E, 1, 2, 0x7E]"
      "\<lparr>wr = [(int 1, False), (int (length [0x7E, 1, 2, 0x7E :: u8] - 1), False)], rd = [],
        sbuf = replicate 8 0, wire = [], baud = None\<rparr>" 1 False "[]" True]
  by (simp add: get_bytes_def translate_packet_stuff)

end
