(* ===== verification/WcndSm.thy ===== *)
theory WcndSm
  imports Prelude
begin

text \<open>
  The state machine of the connectivity daemon: \<open>wcn/platform/wcnd/wcnd_sm.c\<close>, with the
  notification of clients (\<open>wcnd.c\<close>), the AT command path (\<open>wcnd_cmd.c\<close>) its handlers
  reach, and the open/close/reset processes that feed it.

  The manager is a record; what the daemon writes (to clients, to its own command
  socket, to the AT port) is appended to \<open>outp\<close>. The results of system calls are an
  environment \<open>wenv\<close>. The build is the one of \<open>wcnd_config.h\<close> with the state machine,
  the CP2 power control and \<open>USE_MARLIN\<close> enabled. \<open>notify_count\<close>, which nothing reads, and
  the mutexes are left out: every handler runs on the one listening thread.
\<close>

subsection \<open>Definitions\<close>

datatype wcnd_state = CP2_STARTED | CP2_STARTING | CP2_STOPPED | CP2_STOPPING | CP2_ASSERT

datatype wcnd_event =
  BT_OPEN | WIFI_OPEN | BT_CLOSE | WIFI_CLOSE | EV_CP2_OK | EV_CP2_ASSERT | EV_CP2_DOWN
| PENGING_EVENT | CP2POWERON_REQ | CP2POWEROFF_REQ | FM_OPEN | FM_CLOSE
| MARLIN2_CLOSED | MARLIN2_OPENED | NO_EVENT

fun event_code :: "wcnd_event \<Rightarrow> u32" where
  "event_code BT_OPEN = 0x0001"
| "event_code WIFI_OPEN = 0x0002"
| "event_code BT_CLOSE = 0x0004"
| "event_code WIFI_CLOSE = 0x0008"
| "event_code EV_CP2_OK = 0x0010"
| "event_code EV_CP2_ASSERT = 0x0020"
| "event_code EV_CP2_DOWN = 0x0040"
| "event_code PENGING_EVENT = 0x0080"
| "event_code CP2POWERON_REQ = 0x0100"
| "event_code CP2POWEROFF_REQ = 0x0200"
| "event_code FM_OPEN = 0x0400"
| "event_code FM_CLOSE = 0x0800"
| "event_code MARLIN2_CLOSED = 0x1000"
| "event_code MARLIN2_OPENED = 0x2000"
| "event_code NO_EVENT = 0"

abbreviation (input) BT_ON :: u32 where "BT_ON \<equiv> 0x01"
abbreviation (input) WIFI_ON :: u32 where "WIFI_ON \<equiv> 0x02"
abbreviation (input) FM_ON :: u32 where "FM_ON \<equiv> 0x04"
abbreviation (input) MARLIN2_ON :: u32 where "MARLIN2_ON \<equiv> 0x08"

abbreviation (input) T_SLEEP :: u32 where "T_SLEEP \<equiv> 0x30"
abbreviation (input) T_NOTIFY :: u32 where "T_NOTIFY \<equiv> 0x00"
abbreviation (input) T_CMD :: u32 where "T_CMD \<equiv> 0x10"
abbreviation (input) T_CMD_PENDING :: u32 where "T_CMD_PENDING \<equiv> 0x20"
abbreviation (input) T_CMD_CLOSE :: u32 where "T_CMD_CLOSE \<equiv> 0x11"
abbreviation (input) T_CMD_OPEN :: u32 where "T_CMD_OPEN \<equiv> 0x12"
abbreviation (input) T_CMD_MASK :: u32 where "T_CMD_MASK \<equiv> 0xF0"

record wcnd_client =
  sockfd :: int
  ctype :: u32

record wcnd_message =
  event :: wcnd_event
  replyto_fd :: int

datatype wcnd_out = Sent int string | Closed int | SelfCmd string | AtCmd string | SetProp string string

record wcnd =
  clients :: "wcnd_client list"
  state :: wcnd_state
  btwifi_state :: u32
  saved_btwifi_state :: u32
  pending_events :: u32
  notify_enabled :: bool
  doing_reset :: bool
  is_cp2_error :: bool
  is_wcn_modem_enabled :: bool
  is_eng_mode_only :: bool
  is_in_userdebug :: bool
  is_marlin2 :: bool
  store_cp2_version_done :: bool
  is_cp2log_opened :: bool
  dumpmem_on :: bool
  cp2_version_info :: string
  outp :: "wcnd_out list"

datatype at_result = At_fail | At_silent | At_answer string

record wenv =
  wr_ok :: "int \<Rightarrow> bool"            \<comment> \<open>a \<open>write\<close> to this descriptor succeeds\<close>
  at_port :: "string \<Rightarrow> at_result"   \<comment> \<open>opening/writing fails, no answer in six reads, or an answer\<close>
  start_ok :: "nat \<Rightarrow> bool"          \<comment> \<open>attempt \<open>n\<close> of starting (rebooting) CP2 and polling it succeeds\<close>
  reset_enable :: bool               \<comment> \<open>\<open>persist.sys.sprd.wcnreset\<close>\<close>

definition emit :: "wcnd_out list \<Rightarrow> wcnd \<Rightarrow> wcnd" where
  "emit os m = m\<lparr>outp := outp m @ os\<rparr>"

definition wcnd_send_selfcmd :: "string \<Rightarrow> wcnd \<Rightarrow> wcnd" where
  "wcnd_send_selfcmd cmd m = emit [SelfCmd cmd] m"

definition type_matches :: "u32 \<Rightarrow> u32 \<Rightarrow> bool" where
  "type_matches notify_type t \<longleftrightarrow>
     t = notify_type \<or> (notify_type = T_CMD \<and> t AND T_CMD_MASK = notify_type)"

definition notify_one :: "wenv \<Rightarrow> string \<Rightarrow> u32 \<Rightarrow> wcnd_client \<Rightarrow> wcnd_client \<times> wcnd_out list" where
  "notify_one env info notify_type c =
     (if wr_ok env (sockfd c) then
        ((if notify_type = T_CMD \<or> notify_type = T_CMD_PENDING
             \<or> notify_type AND T_CMD_MASK = T_CMD then c\<lparr>ctype := T_SLEEP\<rparr> else c),
         [Sent (sockfd c) info])
      else (c\<lparr>sockfd := -1, ctype := T_NOTIFY\<rparr>, [Closed (sockfd c)]))"

fun notify_list ::
  "wenv \<Rightarrow> string \<Rightarrow> u32 \<Rightarrow> (wcnd_client \<Rightarrow> bool) \<Rightarrow> wcnd_client list \<Rightarrow> wcnd_client list \<times> wcnd_out list" where
  "notify_list env info nt sel [] = ([], [])"
| "notify_list env info nt sel (c # cs) =
     (let (c', o1) = (if sel c then notify_one env info nt c else (c, []));
          (cs', o2) = notify_list env info nt sel cs
      in (c' # cs', o1 @ o2))"

definition wcnd_send_notify_to_client :: "wenv \<Rightarrow> string \<Rightarrow> u32 \<Rightarrow> wcnd \<Rightarrow> wcnd" where
  "wcnd_send_notify_to_client env info nt m =
     (if nt = T_NOTIFY \<and> \<not> notify_enabled m then m
      else (let (cs, os) = notify_list env info nt
                  (\<lambda>c. sockfd c \<ge> 0 \<and> type_matches nt (ctype c)) (clients m)
            in emit os (m\<lparr>clients := cs\<rparr>)))"

definition wcnd_notify_client :: "wenv \<Rightarrow> string \<Rightarrow> int \<Rightarrow> u32 \<Rightarrow> wcnd \<Rightarrow> wcnd" where
  "wcnd_notify_client env info fd nt m =
     (let (cs, os) = notify_list env info nt
            (\<lambda>c. sockfd c \<ge> 0 \<and> sockfd c = fd \<and> type_matches nt (ctype c)) (clients m)
      in emit os (m\<lparr>clients := cs\<rparr>))"

abbreviation (input) RESP_OK :: string where "RESP_OK \<equiv> ''WCNBTWIFI-CMD OK''"
abbreviation (input) RESP_FAIL :: string where "RESP_FAIL \<equiv> ''WCNBTWIFI-CMD FAIL''"

text \<open>Setting the type of the first client with a given socket, as five loops of the code do.\<close>

fun set_client_type :: "int \<Rightarrow> u32 \<Rightarrow> wcnd_client list \<Rightarrow> wcnd_client list" where
  "set_client_type fd t [] = []"
| "set_client_type fd t (c # cs) =
     (if sockfd c = fd then c\<lparr>ctype := t\<rparr> # cs else c # set_client_type fd t cs)"

paragraph \<open>AT commands\<close>

definition send_back_cmd_result :: "wenv \<Rightarrow> int \<Rightarrow> string option \<Rightarrow> bool \<Rightarrow> wcnd \<Rightarrow> wcnd" where
  "send_back_cmd_result env fd str isOK m =
     (let h = (if isOK then ''OK'' else ''FAIL'');
          buffer = take 254 (case str of None \<Rightarrow> h | Some s \<Rightarrow> h @ '' '' @ s)
      in if fd < 0 \<or> \<not> wr_ok env fd then m else emit [Sent fd buffer] m)"

fun strstr :: "string \<Rightarrow> string \<Rightarrow> bool" where
  "strstr [] n = (n = [])"
| "strstr (c # cs) n = (take (length n) (c # cs) = n \<or> strstr cs n)"

definition to_lower :: "char \<Rightarrow> char" where
  "to_lower c = (let n = of_char c :: nat in if 65 \<le> n \<and> n \<le> 90 then char_of (n + 32) else c)"

definition strcasestr :: "string \<Rightarrow> string \<Rightarrow> bool" where
  "strcasestr h n = strstr (map to_lower h) (map to_lower n)"

abbreviation (input) CR :: char where "CR \<equiv> CHR 0x0D"

definition before_send_atcmd :: "wenv \<Rightarrow> int \<Rightarrow> string \<Rightarrow> wcnd \<Rightarrow> bool \<times> wcnd" where
  "before_send_atcmd env fd cmd m =
    (let get_version = strcasestr cmd ''spatgetcp2info'';
         tell_sleep = (\<not> get_version \<and> cmd = ''at+cp2sleep'' @ [CR]);
         m = (if strcasestr cmd ''at+armlog=0'' then m\<lparr>is_cp2log_opened := False\<rparr>
              else if strcasestr cmd ''at+armlog=1'' then m\<lparr>is_cp2log_opened := True\<rparr> else m)
     in if state m \<noteq> CP2_STARTED then
          (if get_version then
             (False, if fd > 0 \<and> wr_ok env fd then emit [Sent fd (take 253 (cp2_version_info m))] m else m)
           else if \<not> tell_sleep then
             (False, send_back_cmd_result env fd (Some ''WCN-CP2-CLOSED'') False m)
           else (True, m))
        else if is_cp2_error m then
          (False, send_back_cmd_result env fd (Some ''WCN-CP2-EXCEPTION'') False m)
        else (True, m))"

text \<open>What \<open>wcnd_process_atcmd\<close> makes of the answer (or of six reads without one).\<close>

definition at_reply :: "bool \<Rightarrow> at_result \<Rightarrow> wcnd \<Rightarrow> int \<times> string \<times> wcnd" where
  "at_reply get_version r m =
    (case r of
       At_answer s \<Rightarrow>
         (if strstr s ''fail'' \<or> strstr s ''FAIL'' then (-1, s, m)
          else (0, s, if get_version then m\<lparr>cp2_version_info := s\<rparr> else m))
     | _ \<Rightarrow> (if get_version then (0, take 253 (cp2_version_info m), m)
            else (-1, ''Fail: No data available'', m)))"

text \<open>
  The strings that reach \<open>wcnd_process_atcmd\<close> are constants or tokens of a command, so
  they have at most 254 characters and fit the local buffer.
\<close>

definition at_command :: "string \<Rightarrow> string" where
  "at_command cmd = (if length cmd < 254 \<and> last cmd \<noteq> CR then cmd @ [CR] else cmd)"

definition wcnd_process_atcmd :: "wenv \<Rightarrow> int \<Rightarrow> string \<Rightarrow> wcnd \<Rightarrow> int \<times> wcnd" where
  "wcnd_process_atcmd env fd cmd m =
    (if \<not> is_wcn_modem_enabled m then (-1, send_back_cmd_result env fd (Some ''WCN Disabled'') False m)
     else
       (case before_send_atcmd env fd cmd m of (go, m) \<Rightarrow>
          if \<not> go then (-1, m)
          else if at_port env (at_command cmd) = At_fail
          then (-1, send_back_cmd_result env fd (Some ''Send atcmd fail'') False m)
          else (case at_reply (strcasestr cmd ''spatgetcp2info'') (at_port env (at_command cmd)) m of
              (ret, text, m) \<Rightarrow>
                (let m = emit [AtCmd (at_command cmd)] m
                 in if fd \<le> 0 then (ret, m)
                    else if wr_ok env fd then (ret, emit [Sent fd text] m) else (-1, m)))))"

paragraph \<open>The handlers\<close>

definition on_marlin2_poweron :: "wenv \<Rightarrow> wcnd \<Rightarrow> wcnd" where
  "on_marlin2_poweron env m =
    (if is_eng_mode_only m \<or> \<not> is_wcn_modem_enabled m \<or> \<not> is_marlin2 m then m
     else
       (let m = (if \<not> store_cp2_version_done m
                 then (snd (wcnd_process_atcmd env (-1) (''at+spatgetcp2info'' @ [CR]) m))
                        \<lparr>store_cp2_version_done := True\<rparr>
                 else m)
        in snd (wcnd_process_atcmd env (-1)
             ((if is_cp2log_opened m then ''AT+ARMLOG=1'' else ''AT+ARMLOG=0'') @ [CR]) m)))"

definition wcn_state_handle_default :: "wenv \<Rightarrow> wcnd_message \<Rightarrow> wcnd \<Rightarrow> wcnd" where
  "wcn_state_handle_default env msg m =
    (case event msg of
       MARLIN2_CLOSED \<Rightarrow>
         (if \<not> is_marlin2 m then m
          else (let m = (if state m \<noteq> CP2_STOPPED
                         then m\<lparr>state := CP2_STOPPED, notify_enabled := False\<rparr> else m)
                in m\<lparr>btwifi_state := 0\<rparr>))
     | MARLIN2_OPENED \<Rightarrow>
         (if \<not> is_marlin2 m then m
          else (let m = (if state m \<noteq> CP2_STARTED
                         then m\<lparr>state := CP2_STARTED, notify_enabled := True\<rparr> else m)
                in on_marlin2_poweron env (m\<lparr>btwifi_state := btwifi_state m OR MARLIN2_ON\<rparr>)))
     | _ \<Rightarrow> m)"

fun open_flag :: "wcnd_event \<Rightarrow> u32" where
  "open_flag BT_OPEN = BT_ON"
| "open_flag WIFI_OPEN = WIFI_ON"
| "open_flag FM_OPEN = FM_ON"
| "open_flag _ = 0"

fun close_flag :: "wcnd_event \<Rightarrow> u32" where
  "close_flag BT_CLOSE = BT_ON"
| "close_flag WIFI_CLOSE = WIFI_ON"
| "close_flag FM_CLOSE = FM_ON"
| "close_flag _ = 0"

definition wcn_state_cp2_stopped :: "wenv \<Rightarrow> wcnd_message \<Rightarrow> wcnd \<Rightarrow> wcnd" where
  "wcn_state_cp2_stopped env msg m =
    (let m = m\<lparr>notify_enabled := False\<rparr>; e = event msg in
     if e \<in> {BT_OPEN, WIFI_OPEN, FM_OPEN} then
       wcnd_send_selfcmd ''wcn startcp2''
         (m\<lparr>btwifi_state := btwifi_state m OR open_flag e, state := CP2_STARTING\<rparr>)
     else if e \<in> {BT_CLOSE, WIFI_CLOSE, CP2POWEROFF_REQ, FM_CLOSE} then
       wcnd_send_notify_to_client env RESP_OK T_CMD m
     else if e = PENGING_EVENT then
       (let p = pending_events m;
            m = (if p AND event_code BT_OPEN \<noteq> 0 then m\<lparr>btwifi_state := btwifi_state m OR BT_ON\<rparr> else m);
            m = (if p AND event_code WIFI_OPEN \<noteq> 0 then m\<lparr>btwifi_state := btwifi_state m OR WIFI_ON\<rparr> else m);
            m = (if p AND event_code FM_OPEN \<noteq> 0 then m\<lparr>btwifi_state := btwifi_state m OR FM_ON\<rparr> else m)
        in if btwifi_state m \<noteq> 0 \<or> p AND event_code CP2POWERON_REQ \<noteq> 0
           then wcnd_send_selfcmd ''wcn startcp2'' (m\<lparr>state := CP2_STARTING\<rparr>) else m)
     else if e = CP2POWERON_REQ then
       wcnd_send_selfcmd ''wcn startcp2'' (m\<lparr>state := CP2_STARTING\<rparr>)
     else if e = EV_CP2_OK then m\<lparr>state := CP2_STARTED, notify_enabled := True\<rparr>
     else wcn_state_handle_default env msg m)"

definition wcn_state_cp2_starting :: "wenv \<Rightarrow> wcnd_message \<Rightarrow> wcnd \<Rightarrow> wcnd" where
  "wcn_state_cp2_starting env msg m =
    (let m = m\<lparr>notify_enabled := False\<rparr>; e = event msg in
     if e \<in> {BT_CLOSE, WIFI_CLOSE, FM_CLOSE} then wcnd_send_notify_to_client env RESP_OK T_CMD m
     else if e \<in> {BT_OPEN, WIFI_OPEN, FM_OPEN} then
       m\<lparr>btwifi_state := btwifi_state m OR open_flag e\<rparr>
     else if e = EV_CP2_OK then
       (let m = m\<lparr>state := CP2_STARTED\<rparr>;
            m = wcnd_send_notify_to_client env RESP_OK T_CMD m;
            m = wcnd_send_notify_to_client env RESP_OK T_CMD_PENDING m
        in m\<lparr>notify_enabled := True\<rparr>)
     else if e = EV_CP2_DOWN then
       (let m = m\<lparr>state := CP2_STOPPED\<rparr>;
            m = wcnd_send_notify_to_client env RESP_FAIL T_CMD m
        in wcnd_send_notify_to_client env RESP_FAIL T_CMD_PENDING m)
     else if e = CP2POWEROFF_REQ then wcnd_send_notify_to_client env RESP_OK T_CMD m
     else wcn_state_handle_default env msg m)"

definition wcn_state_cp2_started :: "wenv \<Rightarrow> wcnd_message \<Rightarrow> wcnd \<Rightarrow> wcnd" where
  "wcn_state_cp2_started env msg m =
    (let m = m\<lparr>notify_enabled := True\<rparr>; e = event msg in
     if e \<in> {BT_CLOSE, WIFI_CLOSE, CP2POWEROFF_REQ, FM_CLOSE} then
       (if saved_btwifi_state m \<noteq> 0 then
          wcnd_send_notify_to_client env RESP_OK T_CMD
            (m\<lparr>saved_btwifi_state := saved_btwifi_state m AND NOT (close_flag e)\<rparr>)
        else
          (let m = m\<lparr>btwifi_state := btwifi_state m AND NOT (close_flag e)\<rparr>
           in if btwifi_state m = 0
              then wcnd_send_selfcmd ''wcn stopcp2'' (m\<lparr>state := CP2_STOPPING\<rparr>)
              else wcnd_send_notify_to_client env RESP_OK T_CMD m))
     else if e \<in> {BT_OPEN, WIFI_OPEN, CP2POWERON_REQ, FM_OPEN} then
       wcnd_send_notify_to_client env RESP_OK T_CMD
         (m\<lparr>btwifi_state := btwifi_state m OR open_flag e\<rparr>)
     else if e = EV_CP2_ASSERT then
       wcnd_send_selfcmd ''wcn reset''
         (m\<lparr>saved_btwifi_state := btwifi_state m, state := CP2_ASSERT\<rparr>)
     else if e = EV_CP2_DOWN then m\<lparr>state := CP2_STOPPED\<rparr>
     else wcn_state_handle_default env msg m)"

definition wcn_state_cp2_assert :: "wenv \<Rightarrow> wcnd_message \<Rightarrow> wcnd \<Rightarrow> wcnd" where
  "wcn_state_cp2_assert env msg m =
    (let m = m\<lparr>notify_enabled := True\<rparr>; e = event msg in
     if e \<in> {BT_CLOSE, WIFI_CLOSE, FM_CLOSE} then
       (let m = (if saved_btwifi_state m \<noteq> 0
                 then m\<lparr>saved_btwifi_state := saved_btwifi_state m AND NOT (close_flag e)\<rparr> else m);
            m = m\<lparr>clients := set_client_type (replyto_fd msg) T_CMD_CLOSE (clients m)\<rparr>
        in wcnd_send_notify_to_client env RESP_OK T_CMD_CLOSE m)
     else if e \<in> {BT_OPEN, WIFI_OPEN, FM_OPEN} then
       m\<lparr>btwifi_state := btwifi_state m OR open_flag e,
         clients := set_client_type (replyto_fd msg) T_CMD_OPEN (clients m)\<rparr>
     else if e = EV_CP2_OK then
       wcnd_send_notify_to_client env RESP_OK T_CMD (m\<lparr>state := CP2_STARTED\<rparr>)
     else if e = EV_CP2_DOWN then
       wcnd_send_notify_to_client env RESP_FAIL T_CMD (m\<lparr>state := CP2_STOPPED\<rparr>)
     else if e \<in> {CP2POWERON_REQ, CP2POWEROFF_REQ} then
       (if \<not> doing_reset m \<and> replyto_fd msg > 0
        then wcnd_notify_client env RESP_FAIL (replyto_fd msg) T_CMD m else m)
     else wcn_state_handle_default env msg m)"

definition wcn_state_cp2_stopping :: "wenv \<Rightarrow> wcnd_message \<Rightarrow> wcnd \<Rightarrow> wcnd" where
  "wcn_state_cp2_stopping env msg m =
    (let m = m\<lparr>notify_enabled := False\<rparr>; e = event msg in
     if e \<in> {BT_CLOSE, WIFI_CLOSE, CP2POWEROFF_REQ, FM_CLOSE} then m
     else if e \<in> {BT_OPEN, WIFI_OPEN, CP2POWERON_REQ, FM_OPEN} then
       m\<lparr>clients := set_client_type (replyto_fd msg) T_CMD_PENDING (clients m),
         pending_events := pending_events m OR event_code e\<rparr>
     else if e = EV_CP2_DOWN then
       (let m = wcnd_send_notify_to_client env RESP_OK T_CMD (m\<lparr>state := CP2_STOPPED\<rparr>)
        in if pending_events m \<noteq> 0 then wcnd_send_selfcmd ''wcn pendingevent'' m else m)
     else wcn_state_handle_default env msg m)"

definition wcnd_sm_step :: "wenv \<Rightarrow> wcnd \<Rightarrow> wcnd_message \<Rightarrow> wcnd" where
  "wcnd_sm_step env m msg =
    (if \<not> is_wcn_modem_enabled m then m
     else case state m of
       CP2_STOPPED \<Rightarrow> wcn_state_cp2_stopped env msg m
     | CP2_STARTING \<Rightarrow> wcn_state_cp2_starting env msg m
     | CP2_STARTED \<Rightarrow> wcn_state_cp2_started env msg m
     | CP2_ASSERT \<Rightarrow> wcn_state_cp2_assert env msg m
     | CP2_STOPPING \<Rightarrow> wcn_state_cp2_stopping env msg m)"

definition wcnd_sm_init :: "wcnd \<Rightarrow> wcnd" where
  "wcnd_sm_init m =
    (if \<not> is_wcn_modem_enabled m
     then m\<lparr>state := CP2_STARTED, notify_enabled := True,
            btwifi_state := btwifi_state m OR (BT_ON OR WIFI_ON OR FM_ON)\<rparr>
     else m\<lparr>state := CP2_STOPPED, notify_enabled := False\<rparr>)"

subsection \<open>Frame lemmas\<close>

named_theorems wcnd_frame "fields an auxiliary operation leaves alone"

lemma emit_frame [wcnd_frame]:
  "clients (emit os m) = clients m" "state (emit os m) = state m"
  "btwifi_state (emit os m) = btwifi_state m" "saved_btwifi_state (emit os m) = saved_btwifi_state m"
  "pending_events (emit os m) = pending_events m" "notify_enabled (emit os m) = notify_enabled m"
  "is_wcn_modem_enabled (emit os m) = is_wcn_modem_enabled m" "doing_reset (emit os m) = doing_reset m"
  "outp (emit os m) = outp m @ os" "is_marlin2 (emit os m) = is_marlin2 m"
  by (simp_all add: emit_def)

lemma selfcmd_frame [wcnd_frame]:
  "clients (wcnd_send_selfcmd c m) = clients m" "state (wcnd_send_selfcmd c m) = state m"
  "btwifi_state (wcnd_send_selfcmd c m) = btwifi_state m"
  "saved_btwifi_state (wcnd_send_selfcmd c m) = saved_btwifi_state m"
  "pending_events (wcnd_send_selfcmd c m) = pending_events m"
  "notify_enabled (wcnd_send_selfcmd c m) = notify_enabled m"
  "is_wcn_modem_enabled (wcnd_send_selfcmd c m) = is_wcn_modem_enabled m"
  "outp (wcnd_send_selfcmd c m) = outp m @ [SelfCmd c]"
  by (simp_all add: wcnd_send_selfcmd_def wcnd_frame)

lemma notify_list_eq:
  "notify_list env info nt sel cs =
     (map (\<lambda>c. if sel c then fst (notify_one env info nt c) else c) cs,
      concat (map (\<lambda>c. if sel c then snd (notify_one env info nt c) else []) cs))"
  by (induction cs) (auto split: prod.splits)

lemma notify_frame [wcnd_frame]:
  "state (wcnd_send_notify_to_client env info nt m) = state m"
  "btwifi_state (wcnd_send_notify_to_client env info nt m) = btwifi_state m"
  "saved_btwifi_state (wcnd_send_notify_to_client env info nt m) = saved_btwifi_state m"
  "pending_events (wcnd_send_notify_to_client env info nt m) = pending_events m"
  "notify_enabled (wcnd_send_notify_to_client env info nt m) = notify_enabled m"
  "is_wcn_modem_enabled (wcnd_send_notify_to_client env info nt m) = is_wcn_modem_enabled m"
  "length (clients (wcnd_send_notify_to_client env info nt m)) = length (clients m)"
  by (simp_all add: wcnd_send_notify_to_client_def notify_list_eq wcnd_frame)

lemma notify_client_frame [wcnd_frame]:
  "state (wcnd_notify_client env info fd nt m) = state m"
  "btwifi_state (wcnd_notify_client env info fd nt m) = btwifi_state m"
  "saved_btwifi_state (wcnd_notify_client env info fd nt m) = saved_btwifi_state m"
  "pending_events (wcnd_notify_client env info fd nt m) = pending_events m"
  "notify_enabled (wcnd_notify_client env info fd nt m) = notify_enabled m"
  "is_wcn_modem_enabled (wcnd_notify_client env info fd nt m) = is_wcn_modem_enabled m"
  "length (clients (wcnd_notify_client env info fd nt m)) = length (clients m)"
  by (simp_all add: wcnd_notify_client_def notify_list_eq wcnd_frame)

lemma send_back_frame [wcnd_frame]:
  "clients (send_back_cmd_result env fd s ok m) = clients m"
  "state (send_back_cmd_result env fd s ok m) = state m"
  "btwifi_state (send_back_cmd_result env fd s ok m) = btwifi_state m"
  "saved_btwifi_state (send_back_cmd_result env fd s ok m) = saved_btwifi_state m"
  "pending_events (send_back_cmd_result env fd s ok m) = pending_events m"
  "notify_enabled (send_back_cmd_result env fd s ok m) = notify_enabled m"
  "is_wcn_modem_enabled (send_back_cmd_result env fd s ok m) = is_wcn_modem_enabled m"
  by (simp_all add: send_back_cmd_result_def wcnd_frame Let_def)

lemma before_send_frame:
  assumes "before_send_atcmd env fd cmd m = (go, m')"
  shows "clients m' = clients m \<and> state m' = state m \<and> btwifi_state m' = btwifi_state m
    \<and> saved_btwifi_state m' = saved_btwifi_state m \<and> pending_events m' = pending_events m
    \<and> notify_enabled m' = notify_enabled m \<and> is_wcn_modem_enabled m' = is_wcn_modem_enabled m"
  using assms by (auto simp: before_send_atcmd_def Let_def wcnd_frame split: if_splits)

definition same_core :: "wcnd \<Rightarrow> wcnd \<Rightarrow> bool" where
  "same_core m m' \<longleftrightarrow> clients m' = clients m \<and> state m' = state m \<and> btwifi_state m' = btwifi_state m
    \<and> saved_btwifi_state m' = saved_btwifi_state m \<and> pending_events m' = pending_events m
    \<and> notify_enabled m' = notify_enabled m \<and> is_wcn_modem_enabled m' = is_wcn_modem_enabled m"

lemma same_core_refl [simp]: "same_core m m"
  by (simp add: same_core_def)

lemma same_core_emit [simp]: "same_core m (emit os m') = same_core m m'"
  by (simp add: same_core_def wcnd_frame)

lemma same_core_send_back [simp]: "same_core m (send_back_cmd_result env fd s ok m') = same_core m m'"
  by (simp add: same_core_def wcnd_frame)

lemma same_core_at_reply: "at_reply g r m = (ret, text, m') \<Longrightarrow> same_core m m'"
  by (auto simp: at_reply_def same_core_def split: at_result.splits if_splits)

lemma process_atcmd_frame: "same_core m (snd (wcnd_process_atcmd env fd cmd m))"
proof -
  obtain go m1 where b: "before_send_atcmd env fd cmd m = (go, m1)" by fastforce
  then have s1: "same_core m m1" using before_send_frame by (simp add: same_core_def)
  obtain ret tx m2 where r:
    "at_reply (strcasestr cmd ''spatgetcp2info'') (at_port env (at_command cmd)) m1 = (ret, tx, m2)"
    using prod_cases3 by blast
  with s1 have "same_core m m2" using same_core_at_reply [OF r] by (simp add: same_core_def)
  with s1 show ?thesis
    unfolding wcnd_process_atcmd_def b prod.case r Let_def by simp
qed

lemma process_atcmd_snd [wcnd_frame]:
  "clients (snd (wcnd_process_atcmd env fd cmd m)) = clients m"
  "state (snd (wcnd_process_atcmd env fd cmd m)) = state m"
  "btwifi_state (snd (wcnd_process_atcmd env fd cmd m)) = btwifi_state m"
  "saved_btwifi_state (snd (wcnd_process_atcmd env fd cmd m)) = saved_btwifi_state m"
  "pending_events (snd (wcnd_process_atcmd env fd cmd m)) = pending_events m"
  "notify_enabled (snd (wcnd_process_atcmd env fd cmd m)) = notify_enabled m"
  "is_wcn_modem_enabled (snd (wcnd_process_atcmd env fd cmd m)) = is_wcn_modem_enabled m"
  using process_atcmd_frame [of m env fd cmd] by (simp_all add: same_core_def)

lemma marlin2_poweron_frame [wcnd_frame]:
  "clients (on_marlin2_poweron env m) = clients m"
  "state (on_marlin2_poweron env m) = state m"
  "btwifi_state (on_marlin2_poweron env m) = btwifi_state m"
  "saved_btwifi_state (on_marlin2_poweron env m) = saved_btwifi_state m"
  "pending_events (on_marlin2_poweron env m) = pending_events m"
  "notify_enabled (on_marlin2_poweron env m) = notify_enabled m"
  "is_wcn_modem_enabled (on_marlin2_poweron env m) = is_wcn_modem_enabled m"
  by (simp_all add: on_marlin2_poweron_def Let_def wcnd_frame)

lemma length_set_client_type [wcnd_frame]: "length (set_client_type fd t cs) = length cs"
  by (induction cs) auto

lemmas wcnd_handlers = wcn_state_cp2_stopped_def wcn_state_cp2_starting_def wcn_state_cp2_started_def
  wcn_state_cp2_assert_def wcn_state_cp2_stopping_def wcn_state_handle_default_def

subsection \<open>The invariant\<close>

lemma flags_or: "a AND k = 0 \<Longrightarrow> b AND k = 0 \<Longrightarrow> (a OR b) AND k = (0 :: u32)"
  by (simp add: bit.conj_disj_distrib2)

lemma flags_and: "a AND k = 0 \<Longrightarrow> (a AND b) AND k = (0 :: u32)"
  by (metis and.assoc and.commute and_zero_eq)

lemma event_flags: "open_flag e AND NOT 0xF = 0" by (cases e) simp_all

definition wcnd_inv :: "wcnd \<Rightarrow> bool" where
  "wcnd_inv m \<longleftrightarrow> length (clients m) = 10
     \<and> btwifi_state m AND NOT 0xF = 0 \<and> saved_btwifi_state m AND NOT 0xF = 0
     \<and> pending_events m AND NOT 0x503 = 0
     \<and> (state m \<in> {CP2_STARTED, CP2_ASSERT} \<longrightarrow> notify_enabled m)
     \<and> (state m = CP2_STARTING \<longrightarrow> \<not> notify_enabled m)
     \<and> (state m = CP2_STOPPING \<longrightarrow> btwifi_state m = 0)"

lemma wcnd_inv_default:
  "wcnd_inv m \<Longrightarrow> wcnd_inv (wcn_state_handle_default env msg m)"
  by (cases "event msg")
    (simp_all add: wcnd_inv_def wcn_state_handle_default_def wcnd_frame Let_def flags_or)

lemma wcnd_inv_enter:
  "wcnd_inv m \<Longrightarrow> state m \<notin> {CP2_STARTED, CP2_ASSERT} \<Longrightarrow> wcnd_inv (m\<lparr>notify_enabled := False\<rparr>)"
  "wcnd_inv m \<Longrightarrow> state m \<noteq> CP2_STARTING \<Longrightarrow> wcnd_inv (m\<lparr>notify_enabled := True\<rparr>)"
  by (simp_all add: wcnd_inv_def)

lemma wcnd_inv_stopped:
  assumes "wcnd_inv m" "state m = CP2_STOPPED"
  shows "wcnd_inv (wcn_state_cp2_stopped env msg m)"
proof -
  have "wcnd_inv (m\<lparr>notify_enabled := False\<rparr>)" using assms wcnd_inv_enter by simp
  with assms show ?thesis unfolding wcn_state_cp2_stopped_def Let_def
    by (cases "event msg") (simp_all add: wcnd_inv_default, simp_all add: wcnd_inv_def wcnd_frame flags_or)
qed

lemma wcnd_inv_starting:
  assumes "wcnd_inv m" "state m = CP2_STARTING"
  shows "wcnd_inv (wcn_state_cp2_starting env msg m)"
proof -
  have "wcnd_inv (m\<lparr>notify_enabled := False\<rparr>)" using assms wcnd_inv_enter by simp
  with assms show ?thesis unfolding wcn_state_cp2_starting_def Let_def
    by (cases "event msg") (simp_all add: wcnd_inv_default, simp_all add: wcnd_inv_def wcnd_frame flags_or)
qed

lemma wcnd_inv_started:
  assumes "wcnd_inv m" "state m = CP2_STARTED"
  shows "wcnd_inv (wcn_state_cp2_started env msg m)"
proof -
  have "wcnd_inv (m\<lparr>notify_enabled := True\<rparr>)" using assms wcnd_inv_enter by simp
  with assms show ?thesis unfolding wcn_state_cp2_started_def Let_def
    by (cases "event msg")
      (simp_all add: wcnd_inv_default, simp_all add: wcnd_inv_def wcnd_frame flags_or flags_and)
qed

lemma wcnd_inv_assert:
  assumes "wcnd_inv m" "state m = CP2_ASSERT"
  shows "wcnd_inv (wcn_state_cp2_assert env msg m)"
proof -
  have "wcnd_inv (m\<lparr>notify_enabled := True\<rparr>)" using assms wcnd_inv_enter by simp
  with assms show ?thesis unfolding wcn_state_cp2_assert_def Let_def
    by (cases "event msg")
      (simp_all add: wcnd_inv_default, simp_all add: wcnd_inv_def wcnd_frame flags_or flags_and)
qed

lemma wcnd_inv_stopping:
  assumes "wcnd_inv m" "state m = CP2_STOPPING"
  shows "wcnd_inv (wcn_state_cp2_stopping env msg m)"
proof -
  have "wcnd_inv (m\<lparr>notify_enabled := False\<rparr>)" using assms wcnd_inv_enter by simp
  with assms show ?thesis unfolding wcn_state_cp2_stopping_def Let_def
    by (cases "event msg") (simp_all add: wcnd_inv_default, simp_all add: wcnd_inv_def wcnd_frame flags_or)
qed

lemma wcnd_inv_step: "wcnd_inv m \<Longrightarrow> wcnd_inv (wcnd_sm_step env m msg)"
  by (cases "state m")
    (simp_all add: wcnd_sm_step_def wcnd_inv_stopped wcnd_inv_starting wcnd_inv_started
      wcnd_inv_assert wcnd_inv_stopping)

text \<open>
  The manager after \<open>init\<close>: zeroed, ten free client slots. An event of the machine is a
  message together with the outcome of the system calls its handling makes.
\<close>

definition wcnd_fresh :: "bool \<Rightarrow> wcnd \<Rightarrow> bool" where
  "wcnd_fresh en m \<longleftrightarrow> (\<exists>m0. m = wcnd_sm_init m0 \<and> is_wcn_modem_enabled m0 = en
     \<and> clients m0 = replicate 10 \<lparr>sockfd = -1, ctype = T_NOTIFY\<rparr>
     \<and> btwifi_state m0 = 0 \<and> saved_btwifi_state m0 = 0 \<and> pending_events m0 = 0)"

definition wcnd_evt :: "wcnd \<Rightarrow> wenv \<times> wcnd_message \<Rightarrow> wcnd" where
  "wcnd_evt m e = wcnd_sm_step (fst e) m (snd e)"

lemma wcnd_inv_fresh: "wcnd_fresh en m \<Longrightarrow> wcnd_inv m"
  by (auto simp: wcnd_fresh_def wcnd_sm_init_def wcnd_inv_def)

interpretation wcnd_system: transition_system "wcnd_fresh en" wcnd_evt wcnd_inv
  by unfold_locales (auto simp: wcnd_inv_fresh wcnd_evt_def wcnd_inv_step)

subsection \<open>Pending opens\<close>

lemma enabled_step [wcnd_frame]: "is_wcn_modem_enabled (wcnd_sm_step env m msg) = is_wcn_modem_enabled m"
  by (cases "state m"; cases "event msg")
    (simp_all add: wcnd_sm_step_def wcnd_handlers wcnd_frame Let_def)

lemma pending_step:
  "pending_events (wcnd_sm_step env m msg) =
     (if is_wcn_modem_enabled m \<and> state m = CP2_STOPPING
         \<and> event msg \<in> {BT_OPEN, WIFI_OPEN, CP2POWERON_REQ, FM_OPEN}
      then pending_events m OR event_code (event msg) else pending_events m)"
  by (cases "state m"; cases "event msg")
    (simp_all add: wcnd_sm_step_def wcnd_handlers wcnd_frame Let_def)

lemma pending_keeps:
  "pending_events m AND b \<noteq> 0 \<Longrightarrow> pending_events (wcnd_sm_step env m msg) AND b \<noteq> 0"
  by (simp add: pending_step bit.conj_disj_distrib2 or_eq_0_iff)

lemma pending_keeps_run:
  "pending_events m AND b \<noteq> 0 \<Longrightarrow> pending_events (run_steps wcnd_evt m es) AND b \<noteq> 0"
  by (induction es arbitrary: m) (simp_all add: wcnd_evt_def pending_keeps)

lemma enabled_run: "is_wcn_modem_enabled (run_steps wcnd_evt m es) = is_wcn_modem_enabled m"
  by (induction es arbitrary: m) (simp_all add: wcnd_evt_def wcnd_frame)

abbreviation (input) CP2_DOWN_MSG :: wcnd_message where
  "CP2_DOWN_MSG \<equiv> \<lparr>event = EV_CP2_DOWN, replyto_fd = -1\<rparr>"
abbreviation (input) CP2_OK_MSG :: wcnd_message where
  "CP2_OK_MSG \<equiv> \<lparr>event = EV_CP2_OK, replyto_fd = -1\<rparr>"
abbreviation (input) PENDING_MSG :: wcnd_message where
  "PENDING_MSG \<equiv> \<lparr>event = PENGING_EVENT, replyto_fd = -1\<rparr>"

lemma stopping_down:
  assumes "is_wcn_modem_enabled m" "state m = CP2_STOPPING" "pending_events m \<noteq> 0"
  shows "state (wcnd_sm_step env m CP2_DOWN_MSG) = CP2_STOPPED"
    "SelfCmd ''wcn pendingevent'' \<in> set (outp (wcnd_sm_step env m CP2_DOWN_MSG))"
  using assms by (simp_all add: wcnd_sm_step_def wcn_state_cp2_stopping_def wcnd_frame Let_def)

lemma pending_bits: "(p AND 0x503 :: u32) \<noteq> 0 \<longleftrightarrow>
    p AND 1 \<noteq> 0 \<or> p AND 2 \<noteq> 0 \<or> p AND 0x400 \<noteq> 0 \<or> p AND 0x100 \<noteq> 0"
proof -
  have "(0x503 :: u32) = 1 OR (2 OR (0x400 OR 0x100))" by simp
  then have "p AND 0x503 = (p AND 1) OR ((p AND 2) OR ((p AND 0x400) OR (p AND 0x100)))"
    by (simp only: bit.conj_disj_distrib)
  then show ?thesis by (simp only: or_eq_0_iff) blast
qed

lemma or_ne_0: "b \<noteq> 0 \<Longrightarrow> a OR b \<noteq> (0 :: u32)"
  by (simp add: or_eq_0_iff)

lemma stopped_pending:
  assumes "is_wcn_modem_enabled m" "state m = CP2_STOPPED" "pending_events m AND 0x503 \<noteq> 0"
  shows "state (wcnd_sm_step env m PENDING_MSG) = CP2_STARTING"
proof -
  have "p AND 0x503 \<noteq> 0 \<Longrightarrow> p AND 1 = 0 \<Longrightarrow> p AND 2 = 0 \<Longrightarrow> p AND 0x400 = 0 \<Longrightarrow> p AND 0x100 \<noteq> 0" for p :: u32
    using pending_bits [of p] by blast
  with assms show ?thesis
    by (simp add: wcnd_sm_step_def wcn_state_cp2_stopped_def wcnd_frame Let_def or_ne_0 or_eq_0_iff)
qed

text \<open>
  A pending open is never forgotten: once an open has been postponed because CP2 was
  stopping, every later stop of CP2, whatever happened in between, is followed by the
  self command that starts it again.
\<close>

lemma pending_open_restarts_forever:
  assumes "is_wcn_modem_enabled m" and "pending_events m AND 0x503 \<noteq> 0"
    and "state (run_steps wcnd_evt m es) = CP2_STOPPING"
  shows "SelfCmd ''wcn pendingevent''
      \<in> set (outp (run_steps wcnd_evt m (es @ [(env, CP2_DOWN_MSG)])))
    \<and> state (run_steps wcnd_evt m (es @ [(env, CP2_DOWN_MSG), (env', PENDING_MSG)])) = CP2_STARTING"
proof -
  let ?m = "run_steps wcnd_evt m es"
  have p: "pending_events ?m AND 0x503 \<noteq> 0" using assms(2) by (rule pending_keeps_run)
  then have "pending_events ?m \<noteq> 0" by auto
  with assms(1,3) have d: "state (wcnd_sm_step env ?m CP2_DOWN_MSG) = CP2_STOPPED"
    "SelfCmd ''wcn pendingevent'' \<in> set (outp (wcnd_sm_step env ?m CP2_DOWN_MSG))"
    by (simp_all add: stopping_down enabled_run)
  moreover have "state (wcnd_sm_step env' (wcnd_sm_step env ?m CP2_DOWN_MSG) PENDING_MSG) = CP2_STARTING"
    using stopped_pending d(1) pending_keeps [OF p] assms(1) by (simp add: enabled_step enabled_run)
  ultimately show ?thesis by (simp add: run_steps_append wcnd_evt_def)
qed

definition all_ok :: wenv where
  "all_ok = \<lparr>wr_ok = (\<lambda>_. True), at_port = (\<lambda>_. At_answer ''OK''), start_ok = (\<lambda>_. True),
     reset_enable = True\<rparr>"

definition wcnd_boot :: wcnd where
  "wcnd_boot = \<lparr>clients = replicate 10 \<lparr>sockfd = -1, ctype = 0\<rparr>, state = CP2_STOPPED,
     btwifi_state = 0, saved_btwifi_state = 0, pending_events = 0, notify_enabled = False,
     doing_reset = False, is_cp2_error = False, is_wcn_modem_enabled = True, is_eng_mode_only = False, is_in_userdebug = False,
     is_marlin2 = False, store_cp2_version_done = False, is_cp2log_opened = False, dumpmem_on = False,
     cp2_version_info = ''Fail: UNKNOW VERSION'', outp = []\<rparr>"

lemma wcnd_fresh_boot: "wcnd_fresh True wcnd_boot"
  unfolding wcnd_fresh_def by (rule exI [of _ wcnd_boot]) (simp add: wcnd_boot_def wcnd_sm_init_def)

lemma pending_open_restarts_forever_witness:
  "SelfCmd ''wcn pendingevent''
      \<in> set (outp (run_steps wcnd_evt (wcnd_boot\<lparr>state := CP2_STOPPING, pending_events := 1\<rparr>)
          ([] @ [(all_ok, CP2_DOWN_MSG)])))
    \<and> state (run_steps wcnd_evt (wcnd_boot\<lparr>state := CP2_STOPPING, pending_events := 1\<rparr>)
          ([] @ [(all_ok, CP2_DOWN_MSG), (all_ok, PENDING_MSG)])) = CP2_STARTING"
  by (rule pending_open_restarts_forever) (simp_all add: wcnd_boot_def)

subsection \<open>Who is answered\<close>

text \<open>The outputs added since \<open>m\<close> all satisfy \<open>P\<close>.\<close>

definition only_adds :: "(wcnd_out \<Rightarrow> bool) \<Rightarrow> wcnd \<Rightarrow> wcnd \<Rightarrow> bool" where
  "only_adds P m m' \<longleftrightarrow> (\<exists>new. outp m' = outp m @ new \<and> (\<forall>x \<in> set new. P x))"

lemma only_adds_same [simp]: "outp m' = outp m \<Longrightarrow> only_adds P m m'"
  by (simp add: only_adds_def)

lemma only_adds_emit: "only_adds P m m' \<Longrightarrow> \<forall>x \<in> set os. P x \<Longrightarrow> only_adds P m (emit os m')"
  by (auto simp: only_adds_def wcnd_frame)

lemma only_adds_selfcmd: "only_adds P m m' \<Longrightarrow> P (SelfCmd c) \<Longrightarrow> only_adds P m (wcnd_send_selfcmd c m')"
  by (auto simp: wcnd_send_selfcmd_def intro: only_adds_emit)

lemma only_adds_outp: "only_adds P m m' \<Longrightarrow> outp m'' = outp m' \<Longrightarrow> only_adds P m m''"
  by (simp add: only_adds_def)

lemma only_adds_trans: "only_adds P m m' \<Longrightarrow> only_adds P m' m'' \<Longrightarrow> only_adds P m m''"
  by (auto simp: only_adds_def)

lemma only_adds_base: "outp m0 = outp m \<Longrightarrow> only_adds P m0 m' = only_adds P m m'"
  by (simp add: only_adds_def)

text \<open>The AT path with no client to answer writes to the AT port only.\<close>

lemma at_silent:
  assumes "\<And>s. P (AtCmd s)"
  shows "only_adds P m (snd (wcnd_process_atcmd env (-1) cmd m))"
proof -
  obtain go m1 where b: "before_send_atcmd env (-1) cmd m = (go, m1)" by fastforce
  then have 1: "outp m1 = outp m"
    by (auto simp: before_send_atcmd_def send_back_cmd_result_def Let_def split: if_splits)
  obtain ret tx m2 where r:
    "at_reply (strcasestr cmd ''spatgetcp2info'') (at_port env (at_command cmd)) m1 = (ret, tx, m2)"
    using prod_cases3 by blast
  then have "outp m2 = outp m1" by (auto simp: at_reply_def split: at_result.splits if_splits)
  with 1 assms show ?thesis
    unfolding wcnd_process_atcmd_def b prod.case r Let_def
    by (simp add: send_back_cmd_result_def only_adds_emit)
qed

lemma poweron_silent:
  assumes P: "\<And>s. P (AtCmd s)"
  shows "only_adds P m (on_marlin2_poweron env m)"
proof -
  let ?m1 = "if \<not> store_cp2_version_done m
    then (snd (wcnd_process_atcmd env (-1) (''at+spatgetcp2info'' @ [CR]) m))\<lparr>store_cp2_version_done := True\<rparr>
    else m"
  have 1: "only_adds P m ?m1"
    using at_silent [of P, OF P, of m env "''at+spatgetcp2info'' @ [CR]"] by (simp add: only_adds_def)
  show ?thesis
    unfolding on_marlin2_poweron_def Let_def
    using only_adds_trans [OF 1 at_silent [of P, OF P]] by simp
qed

lemma default_silent:
  assumes "\<And>s. P (AtCmd s)"
  shows "only_adds P m (wcn_state_handle_default env msg m)"
proof -
  have "only_adds P m' (on_marlin2_poweron env m')" for m' using assms by (rule poweron_silent)
  then have "outp m' = outp m \<Longrightarrow> only_adds P m (on_marlin2_poweron env m')" for m'
    using only_adds_base by blast
  then show ?thesis
    by (cases "event msg") (simp_all add: wcn_state_handle_default_def Let_def)
qed

lemma default_clients [wcnd_frame]: "clients (wcn_state_handle_default env msg m) = clients m"
  by (cases "event msg") (simp_all add: wcn_state_handle_default_def wcnd_frame Let_def)

text \<open>A bystander: neither waiting for a command result nor the sender of the message.\<close>

definition bystander :: "int \<Rightarrow> wcnd_client \<Rightarrow> bool" where
  "bystander fd c \<longleftrightarrow> ctype c \<in> {T_NOTIFY, T_SLEEP} \<and> sockfd c \<noteq> fd"

lemma set_client_type_bystander:
  "bystander fd (cs ! i) \<Longrightarrow> i < length cs \<Longrightarrow> set_client_type fd t cs ! i = cs ! i"
  by (induction cs arbitrary: i) (auto simp: bystander_def nth_Cons split: nat.splits)

lemma notify_bystander:
  assumes "bystander fd (clients m ! i)" "i < length (clients m)" "nt \<in> {T_CMD, T_CMD_PENDING, T_CMD_CLOSE}"
  shows "clients (wcnd_send_notify_to_client env info nt m) ! i = clients m ! i"
    "clients (wcnd_notify_client env info fd' nt m) ! i = clients m ! i"
  using assms
  by (auto simp: wcnd_send_notify_to_client_def wcnd_notify_client_def notify_list_eq wcnd_frame
      bystander_def type_matches_def)

lemma bystander_frame:
  assumes "bystander (replyto_fd msg) (clients m ! i)" "i < length (clients m)"
  shows "clients (wcnd_sm_step env m msg) ! i = clients m ! i"
  using assms
  by (cases "state m"; cases "event msg")
    (simp_all add: wcnd_sm_step_def wcn_state_cp2_stopped_def wcn_state_cp2_starting_def
      wcn_state_cp2_started_def wcn_state_cp2_assert_def wcn_state_cp2_stopping_def wcnd_frame Let_def
      notify_bystander [where fd = "replyto_fd msg"] set_client_type_bystander)

text \<open>Every entry for descriptor \<open>f\<close> only listens for notifications, or sleeps.\<close>

definition idle :: "int \<Rightarrow> wcnd_client list \<Rightarrow> bool" where
  "idle f cs \<longleftrightarrow> (\<forall>c \<in> set cs. sockfd c = f \<longrightarrow> ctype c \<in> {T_NOTIFY, T_SLEEP})"

definition quiet :: "int \<Rightarrow> wcnd_out \<Rightarrow> bool" where
  "quiet f x \<longleftrightarrow> (\<forall>s. x \<noteq> Sent f s) \<and> x \<noteq> Closed f"

lemma quiet_simps [simp]: "quiet f (SelfCmd s)" "quiet f (AtCmd s)" "quiet f (SetProp s t)"
  "quiet f (Sent g s) = (g \<noteq> f)" "quiet f (Closed g) = (g \<noteq> f)"
  by (auto simp: quiet_def)

lemma idle_set_client_type: "idle f cs \<Longrightarrow> f \<noteq> fd \<Longrightarrow> idle f (set_client_type fd t cs)"
  by (induction cs) (auto simp: idle_def)

lemma idle_notify_list:
  assumes "idle f cs" "0 \<le> f" "nt \<in> {T_CMD, T_CMD_PENDING, T_CMD_CLOSE}"
    and "\<And>c. sel c \<Longrightarrow> type_matches nt (ctype c)"
  shows "idle f (fst (notify_list env info nt sel cs))
    \<and> (\<forall>x \<in> set (snd (notify_list env info nt sel cs)). quiet f x)"
  using assms unfolding notify_list_eq
  by (auto simp: idle_def notify_one_def type_matches_def split: if_splits dest!: assms(4))

lemma idle_notify:
  assumes "idle f (clients m)" "0 \<le> f" "nt \<in> {T_CMD, T_CMD_PENDING, T_CMD_CLOSE}"
  shows "idle f (clients (wcnd_send_notify_to_client env info nt m))"
    "only_adds (quiet f) m (wcnd_send_notify_to_client env info nt m)"
    "idle f (clients (wcnd_notify_client env info fd nt m))"
    "only_adds (quiet f) m (wcnd_notify_client env info fd nt m)"
  using idle_notify_list [OF assms, of "\<lambda>c. 0 \<le> sockfd c \<and> type_matches nt (ctype c)" env info]
    idle_notify_list [OF assms, of "\<lambda>c. 0 \<le> sockfd c \<and> sockfd c = fd \<and> type_matches nt (ctype c)" env info]
  using assms
  by (auto simp: wcnd_send_notify_to_client_def wcnd_notify_client_def wcnd_frame only_adds_def
      split: prod.splits)

definition hushed :: "int \<Rightarrow> wcnd \<Rightarrow> wcnd \<Rightarrow> bool" where
  "hushed f m m' \<longleftrightarrow> idle f (clients m') \<and> only_adds (quiet f) m m'"

lemma hushed_notify:
  assumes "hushed f m m'" "0 \<le> f" "nt \<in> {T_CMD, T_CMD_PENDING, T_CMD_CLOSE}"
  shows "hushed f m (wcnd_send_notify_to_client env info nt m')"
    "hushed f m (wcnd_notify_client env info fd nt m')"
  using assms idle_notify [of f m' nt] only_adds_trans by (auto simp: hushed_def)

lemma hushed_selfcmd: "hushed f m m' \<Longrightarrow> hushed f m (wcnd_send_selfcmd c m')"
  by (simp add: hushed_def wcnd_frame only_adds_selfcmd)

lemma hushed_default: "hushed f m m' \<Longrightarrow> hushed f m (wcn_state_handle_default env msg m')"
  using only_adds_trans default_silent [of "quiet f" m' env msg]
  by (auto simp: hushed_def wcnd_frame)

lemma hushed_enable: "hushed f m m' \<Longrightarrow> hushed f m (m'\<lparr>notify_enabled := b\<rparr>)"
  by (simp add: hushed_def only_adds_def)

lemma hushed_start: "idle f (clients m') \<Longrightarrow> outp m' = outp m \<Longrightarrow> hushed f m m'"
  by (simp add: hushed_def)

lemma hushed_step:
  assumes "idle f (clients m)" "0 \<le> f" "f \<noteq> replyto_fd msg"
  shows "hushed f m (wcnd_sm_step env m msg)"
proof -
  note rules = hushed_notify hushed_selfcmd hushed_default hushed_start idle_set_client_type
  show ?thesis
  proof (cases "state m")
    case CP2_STARTING
    then show ?thesis
      by (cases "event msg") (simp_all add: wcnd_sm_step_def wcn_state_cp2_starting_def Let_def rules assms
        hushed_enable)
  next
    case CP2_STARTED
    then show ?thesis
      by (cases "event msg") (simp_all add: wcnd_sm_step_def wcn_state_cp2_started_def Let_def rules assms)
  next
    case CP2_STOPPED
    then show ?thesis
      by (cases "event msg") (simp_all add: wcnd_sm_step_def wcn_state_cp2_stopped_def Let_def rules assms)
  next
    case CP2_STOPPING
    then show ?thesis
      by (cases "event msg") (simp_all add: wcnd_sm_step_def wcn_state_cp2_stopping_def Let_def rules assms)
  next
    case CP2_ASSERT
    then show ?thesis
      by (cases "event msg") (simp_all add: wcnd_sm_step_def wcn_state_cp2_assert_def Let_def rules assms)
  qed
qed

text \<open>
  A step answers nobody but the clients that wait for a command and the sender: every
  other client keeps its slot unchanged, and a descriptor that only listens or sleeps gets
  no message and is not closed.
\<close>

lemma wcnd_step_leaves_bystanders:
  assumes "i < length (clients m)" and "bystander (replyto_fd msg) (clients m ! i)"
    and "f = sockfd (clients m ! i)" and "0 \<le> f" and "idle f (clients m)"
  shows "clients (wcnd_sm_step env m msg) ! i = clients m ! i
    \<and> idle f (clients (wcnd_sm_step env m msg))
    \<and> (\<exists>new. outp (wcnd_sm_step env m msg) = outp m @ new
         \<and> (\<forall>s. Sent f s \<notin> set new) \<and> Closed f \<notin> set new)"
proof -
  have "f \<noteq> replyto_fd msg" using assms(2,3) by (auto simp: bystander_def)
  from hushed_step [OF assms(5,4) this, of env]
  have "idle f (clients (wcnd_sm_step env m msg))"
    "only_adds (quiet f) m (wcnd_sm_step env m msg)"
    by (simp_all add: hushed_def)
  with bystander_frame [OF assms(2,1)] show ?thesis
    by (auto simp: only_adds_def quiet_def)
qed

subsection \<open>A service in use\<close>

definition no_stop :: "wcnd_out \<Rightarrow> bool" where
  "no_stop x \<longleftrightarrow> x \<noteq> SelfCmd ''wcn stopcp2''"

lemma no_stop_simps [simp]: "no_stop (Sent f s)" "no_stop (Closed f)" "no_stop (AtCmd s)" "no_stop (SelfCmd s) \<longleftrightarrow> s \<noteq> ''wcn stopcp2''"
  by (simp_all add: no_stop_def)

lemma notify_one_no_stop: "x \<in> set (snd (notify_one env info nt c)) \<Longrightarrow> no_stop x"
  by (auto simp: notify_one_def split: if_splits)

lemma no_stop_notify:
  assumes "only_adds no_stop m m'"
  shows "only_adds no_stop m (wcnd_send_notify_to_client env info nt m')"
    and "only_adds no_stop m (wcnd_notify_client env info fd nt m')"
  using assms notify_one_no_stop
  by (auto simp: wcnd_send_notify_to_client_def wcnd_notify_client_def notify_list_eq only_adds_def wcnd_frame split: if_splits)

lemma no_stop_default: "only_adds no_stop m m' \<Longrightarrow> only_adds no_stop m (wcn_state_handle_default env msg m')"
  using only_adds_trans default_silent [of no_stop m' env msg] by simp

lemma flag_kept: "b AND f \<noteq> 0 \<Longrightarrow> f AND g = 0 \<Longrightarrow> (b AND NOT g) AND f \<noteq> (0 :: u32)"
proof -
  assume a: "b AND f \<noteq> 0" "f AND g = 0"
  have "(b AND NOT g) AND f = b AND f"
  proof (rule bit_word_eqI)
    fix n assume "n < LENGTH(32)"
    moreover have "\<not> (bit f n \<and> bit g n)" using arg_cong [OF a(2), of "\<lambda>w. bit w n"] by (simp add: bit_and_iff)
    ultimately show "bit ((b AND NOT g) AND f) n = bit (b AND f) n" by (auto simp: bit_simps)
  qed
  with a(1) show ?thesis by simp
qed

lemma flags_apart:
  "open_flag e \<noteq> close_flag e' \<Longrightarrow> open_flag e AND close_flag e' = 0"
  by (cases e; cases e') simp_all

lemma service_flag:
  assumes "btwifi_state m AND open_flag e \<noteq> 0" and "close_flag (event msg) \<noteq> open_flag e" and "event msg \<noteq> MARLIN2_CLOSED"
  shows "btwifi_state (wcnd_sm_step env m msg) AND open_flag e \<noteq> 0"
proof -
  have k: "(b OR x) AND open_flag e \<noteq> 0" if "b AND open_flag e \<noteq> 0" for b x
    using that by (simp add: bit.conj_disj_distrib2 or_eq_0_iff)
  have c: "(btwifi_state m AND NOT (close_flag (event msg))) AND open_flag e \<noteq> 0"
    by (rule flag_kept [OF assms(1)]) (rule flags_apart, use assms(2) in simp)
  have nz: "b \<noteq> 0" if "b AND open_flag e \<noteq> 0" for b using that by auto
  note rules = wcnd_sm_step_def wcnd_frame Let_def k wcn_state_handle_default_def
  show ?thesis
  proof (cases "state m")
    case CP2_STARTING
    with assms(1,3) c nz [OF c] show ?thesis by (cases "event msg") (simp_all add: wcn_state_cp2_starting_def rules)
  next
    case CP2_STARTED
    with assms(1,3) c nz [OF c] show ?thesis by (cases "event msg") (simp_all add: wcn_state_cp2_started_def rules)
  next
    case CP2_STOPPED
    with assms(1,3) c nz [OF c] show ?thesis by (cases "event msg") (simp_all add: wcn_state_cp2_stopped_def rules or_eq_0_iff)
  next
    case CP2_STOPPING
    with assms(1,3) c nz [OF c] show ?thesis by (cases "event msg") (simp_all add: wcn_state_cp2_stopping_def rules)
  next
    case CP2_ASSERT
    with assms(1,3) c nz [OF c] show ?thesis by (cases "event msg") (simp_all add: wcn_state_cp2_assert_def rules)
  qed
qed

lemma service_output:
  assumes "btwifi_state m AND open_flag e \<noteq> 0" and "close_flag (event msg) \<noteq> open_flag e"
  shows "only_adds no_stop m (wcnd_sm_step env m msg)"
proof -
  have "(btwifi_state m AND NOT (close_flag (event msg))) AND open_flag e \<noteq> 0"
    by (rule flag_kept [OF assms(1)]) (rule flags_apart, use assms(2) in simp)
  then have nz: "btwifi_state m AND NOT (close_flag (event msg)) \<noteq> 0" by auto
  have [simp]: "only_adds no_stop m (m'\<lparr>notify_enabled := b\<rparr>) = only_adds no_stop m m'" for m' b
    by (simp add: only_adds_def)
  note rules = no_stop_notify only_adds_selfcmd no_stop_default
  have n: "b \<noteq> 0" if "b AND NOT f \<noteq> 0" for b f :: u32 using that by auto
  show ?thesis
  proof (cases "state m")
    case CP2_STARTING
    then show ?thesis
      by (cases "event msg") (simp_all add: wcnd_sm_step_def wcn_state_cp2_starting_def Let_def rules)
  next
    case CP2_STARTED
    then show ?thesis using nz n [OF nz]
      by (cases "event msg") (simp_all add: wcnd_sm_step_def wcn_state_cp2_started_def Let_def rules)
  next
    case CP2_STOPPED
    then show ?thesis
      by (cases "event msg") (simp_all add: wcnd_sm_step_def wcn_state_cp2_stopped_def Let_def rules)
  next
    case CP2_ASSERT
    then show ?thesis
      by (cases "event msg") (simp_all add: wcnd_sm_step_def wcn_state_cp2_assert_def Let_def rules)
  next
    case CP2_STOPPING
    then show ?thesis
      by (cases "event msg") (simp_all add: wcnd_sm_step_def wcn_state_cp2_stopping_def Let_def rules)
  qed
qed

lemma service_run:
  assumes "btwifi_state m AND open_flag e \<noteq> 0"
    and "\<forall>(env, msg) \<in> set es. close_flag (event msg) \<noteq> open_flag e \<and> event msg \<noteq> MARLIN2_CLOSED"
  shows "btwifi_state (run_steps wcnd_evt m es) AND open_flag e \<noteq> 0 \<and> only_adds no_stop m (run_steps wcnd_evt m es)"
  using assms
proof (induction es arbitrary: m)
  case (Cons ev es)
  obtain env msg where ev: "ev = (env, msg)" by fastforce
  have "btwifi_state (wcnd_sm_step env m msg) AND open_flag e \<noteq> 0" "only_adds no_stop m (wcnd_sm_step env m msg)"
    by (rule service_flag [OF Cons.prems(1)], use Cons.prems(2) in \<open>simp_all add: ev\<close>)
      (rule service_output [OF Cons.prems(1)], use Cons.prems(2) in \<open>simp add: ev\<close>)
  moreover from this(1) have "btwifi_state (run_steps wcnd_evt (wcnd_sm_step env m msg) es) AND open_flag e \<noteq> 0 \<and>
      only_adds no_stop (wcnd_sm_step env m msg) (run_steps wcnd_evt (wcnd_sm_step env m msg) es)"
    by (rule Cons.IH) (use Cons.prems(2) in simp)
  moreover have "run_steps wcnd_evt m (ev # es) = run_steps wcnd_evt (wcnd_sm_step env m msg) es"
    by (simp add: ev wcnd_evt_def [of m "(env, msg)"])
  ultimately show ?case using only_adds_trans by metis
qed simp

text \<open>
  C14. CP2 is not stopped under a service in use: in every state the daemon can reach in which a
  service is recorded as open, whatever happens then but a close of this service and the report
  that the chip has been closed, CP2 is not told to stop, the machine is not in its stopping
  state, and the service stays recorded.
\<close>

theorem service_keeps_cp2_running:
  assumes "wcnd_fresh en m0" and "m = run_steps wcnd_evt m0 es0" and "btwifi_state m AND open_flag e \<noteq> 0"
    and "\<forall>(env, msg) \<in> set es. close_flag (event msg) \<noteq> open_flag e \<and> event msg \<noteq> MARLIN2_CLOSED"
  shows "state (run_steps wcnd_evt m es) \<noteq> CP2_STOPPING \<and> btwifi_state (run_steps wcnd_evt m es) AND open_flag e \<noteq> 0 \<and>
    (\<exists>new. outp (run_steps wcnd_evt m es) = outp m @ new \<and> SelfCmd ''wcn stopcp2'' \<notin> set new)"
proof -
  have "run_steps wcnd_evt m es = run_steps wcnd_evt m0 (es0 @ es)" by (simp add: assms(2) run_steps_append)
  then have "wcnd_inv (run_steps wcnd_evt m es)" using wcnd_system.inv_reachable [OF assms(1)] by simp
  with service_run [OF assms(3,4)] show ?thesis
    by (auto simp: wcnd_inv_def only_adds_def no_stop_def)
qed

theorem service_keeps_cp2_running_witness:
  "let m = run_steps wcnd_evt wcnd_boot [(all_ok, \<lparr>event = BT_OPEN, replyto_fd = 5\<rparr>), (all_ok, CP2_OK_MSG), (all_ok, \<lparr>event = WIFI_OPEN, replyto_fd = 6\<rparr>)];
       m' = run_steps wcnd_evt m [(all_ok, \<lparr>event = WIFI_CLOSE, replyto_fd = 6\<rparr>), (all_ok, \<lparr>event = CP2POWEROFF_REQ, replyto_fd = 6\<rparr>)] in
     state m' \<noteq> CP2_STOPPING \<and> (\<exists>new. outp m' = outp m @ new \<and> SelfCmd ''wcn stopcp2'' \<notin> set new)"
proof -
  let ?m = "run_steps wcnd_evt wcnd_boot [(all_ok, \<lparr>event = BT_OPEN, replyto_fd = 5\<rparr>), (all_ok, CP2_OK_MSG), (all_ok, \<lparr>event = WIFI_OPEN, replyto_fd = 6\<rparr>)]"
  have "btwifi_state ?m AND open_flag BT_OPEN \<noteq> 0"
    by (simp add: wcnd_evt_def wcnd_sm_step_def wcnd_boot_def wcn_state_cp2_stopped_def wcn_state_cp2_starting_def
        wcn_state_cp2_started_def wcnd_frame Let_def)
  from service_keeps_cp2_running [OF wcnd_fresh_boot refl this,
      of "[(all_ok, \<lparr>event = WIFI_CLOSE, replyto_fd = 6\<rparr>), (all_ok, \<lparr>event = CP2POWEROFF_REQ, replyto_fd = 6\<rparr>)]"]
  show ?thesis unfolding Let_def by simp
qed

definition two_clients :: "u32 \<Rightarrow> u32 \<Rightarrow> wcnd" where
  "two_clients t u = wcnd_boot\<lparr>clients := [\<lparr>sockfd = 5, ctype = t\<rparr>, \<lparr>sockfd = 6, ctype = u\<rparr>]
     @ replicate 8 \<lparr>sockfd = -1, ctype = T_NOTIFY\<rparr>\<rparr>"

subsection \<open>Opening and closing\<close>

lemma notify_reply:
  assumes "i < length (clients m)" "sockfd (clients m ! i) = f" "0 \<le> f" "wr_ok env f"
    and "ctype (clients m ! i) = T_CMD"
  shows "clients (wcnd_send_notify_to_client env info T_CMD m) ! i
      = (clients m ! i)\<lparr>ctype := T_SLEEP\<rparr>"
    "Sent f info \<in> set (outp (wcnd_send_notify_to_client env info T_CMD m))"
proof -
  show "clients (wcnd_send_notify_to_client env info T_CMD m) ! i = (clients m ! i)\<lparr>ctype := T_SLEEP\<rparr>"
    using assms by (simp add: wcnd_send_notify_to_client_def notify_list_eq wcnd_frame notify_one_def
        type_matches_def)
  have "clients m ! i \<in> set (clients m)" using assms(1) by (rule nth_mem)
  with assms show "Sent f info \<in> set (outp (wcnd_send_notify_to_client env info T_CMD m))"
    by (auto simp: wcnd_send_notify_to_client_def notify_list_eq wcnd_frame notify_one_def
        type_matches_def intro!: bexI [of _ "clients m ! i"])
qed

lemma notify_extends: "\<exists>new. outp (wcnd_send_notify_to_client env info nt m) = outp m @ new"
  by (simp add: wcnd_send_notify_to_client_def notify_list_eq wcnd_frame)

lemma notify_new:
  assumes "c \<in> set (clients m)" "sockfd c = f" "0 \<le> f" "wr_ok env f" "ctype c = T_CMD"
  shows "\<exists>new. outp (wcnd_send_notify_to_client env info T_CMD m) = outp m @ new \<and> Sent f info \<in> set new"
  using assms
  by (auto simp: wcnd_send_notify_to_client_def notify_list_eq wcnd_frame notify_one_def
      type_matches_def intro!: bexI [of _ c])

lemma notify_sleeps:
  assumes "i < length (clients m)" "ctype (clients m ! i) = T_SLEEP" "nt \<in> {T_CMD, T_CMD_PENDING}"
  shows "clients (wcnd_send_notify_to_client env info nt m) ! i = clients m ! i"
  using assms by (auto simp: wcnd_send_notify_to_client_def notify_list_eq wcnd_frame type_matches_def)

text \<open>
  Opening a service while CP2 is stopped starts CP2 exactly once, and when CP2 comes
  up the client that asked is told OK and put to sleep, with its service recorded.
\<close>

lemma wcnd_open_cycle:
  assumes "is_wcn_modem_enabled m" and "state m = CP2_STOPPED" and "e \<in> {BT_OPEN, WIFI_OPEN, FM_OPEN}"
    and "i < length (clients m)" and "sockfd (clients m ! i) = f" and "0 \<le> f"
    and "ctype (clients m ! i) = T_CMD" and "wr_ok env' f"
  shows "let m1 = wcnd_sm_step env m \<lparr>event = e, replyto_fd = f\<rparr>;
        m2 = wcnd_sm_step env' m1 CP2_OK_MSG in
    outp m1 = outp m @ [SelfCmd ''wcn startcp2''] \<and> state m1 = CP2_STARTING
    \<and> state m2 = CP2_STARTED \<and> notify_enabled m2 \<and> btwifi_state m2 AND open_flag e \<noteq> 0
    \<and> clients m2 ! i = (clients m ! i)\<lparr>ctype := T_SLEEP\<rparr>
    \<and> (\<exists>new. outp m2 = outp m1 @ new \<and> Sent f RESP_OK \<in> set new)"
proof -
  define m1 where "m1 = wcnd_sm_step env m \<lparr>event = e, replyto_fd = f\<rparr>"
  define m2 where "m2 = wcnd_sm_step env' m1 CP2_OK_MSG"
  have m1: "outp m1 = outp m @ [SelfCmd ''wcn startcp2'']" "state m1 = CP2_STARTING"
    "btwifi_state m1 = btwifi_state m OR open_flag e" "clients m1 = clients m" "is_wcn_modem_enabled m1"
    using assms(1-3) by (auto simp: m1_def wcnd_sm_step_def wcn_state_cp2_stopped_def wcnd_frame Let_def)
  have flag: "open_flag e \<noteq> 0" using assms(3) by auto
  let ?a = "m1\<lparr>notify_enabled := False, state := CP2_STARTED\<rparr>"
  let ?b = "wcnd_send_notify_to_client env' RESP_OK T_CMD ?a"
  have m2: "m2 = (wcnd_send_notify_to_client env' RESP_OK T_CMD_PENDING ?b)\<lparr>notify_enabled := True\<rparr>"
    using m1 by (simp add: m2_def wcnd_sm_step_def wcn_state_cp2_starting_def Let_def)
  have "clients ?b ! i = (clients m ! i)\<lparr>ctype := T_SLEEP\<rparr>"
    using notify_reply(1) [of i ?a f env'] assms(4-8) m1(4) by simp
  then have "clients m2 ! i = (clients m ! i)\<lparr>ctype := T_SLEEP\<rparr>"
    using notify_sleeps [of i ?b T_CMD_PENDING env'] assms(4) m1(4) by (simp add: m2 wcnd_frame)
  moreover obtain new where "outp ?b = outp m1 @ new" "Sent f RESP_OK \<in> set new"
    using notify_new [of "clients m ! i" ?a f env' RESP_OK] assms(4-8) m1(4) by auto
  moreover obtain new' where "outp m2 = outp ?b @ new'"
    using notify_extends [of env' RESP_OK T_CMD_PENDING ?b] by (auto simp: m2)
  ultimately show ?thesis
    unfolding m1_def [symmetric] m2_def [symmetric] Let_def
    using m1 flag by (auto simp: m2 wcnd_frame or_ne_0 bit.conj_disj_distrib2)
qed

text \<open>
  While CP2 is starting for one client, a close from anybody tells that client OK at
  once; when the start then fails, the client is not told.
\<close>

lemma close_while_starting_confirms_open:
  assumes "is_wcn_modem_enabled m" and "state m = CP2_STARTING"
    and "e \<in> {BT_CLOSE, WIFI_CLOSE, FM_CLOSE, CP2POWEROFF_REQ}"
    and "c \<in> set (clients m)" and "sockfd c = f" and "0 \<le> f" and "wr_ok env f"
    and "\<forall>c \<in> set (clients m). sockfd c = f \<longrightarrow> ctype c = T_CMD"
  shows "let m1 = wcnd_sm_step env m \<lparr>event = e, replyto_fd = g\<rparr>;
        m2 = wcnd_sm_step env' m1 CP2_DOWN_MSG in
    state m1 = CP2_STARTING \<and> (\<exists>new. outp m1 = outp m @ new \<and> Sent f RESP_OK \<in> set new)
    \<and> state m2 = CP2_STOPPED \<and> (\<exists>new. outp m2 = outp m1 @ new \<and> (\<forall>s. Sent f s \<notin> set new))"
proof -
  define m1 where "m1 = wcnd_sm_step env m \<lparr>event = e, replyto_fd = g\<rparr>"
  define m2 where "m2 = wcnd_sm_step env' m1 CP2_DOWN_MSG"
  let ?a = "m\<lparr>notify_enabled := False\<rparr>"
  have m1: "m1 = wcnd_send_notify_to_client env RESP_OK T_CMD ?a"
    using assms(1-3) by (auto simp: m1_def wcnd_sm_step_def wcn_state_cp2_starting_def Let_def)
  then have s1: "state m1 = CP2_STARTING" "is_wcn_modem_enabled m1"
    using assms(1,2) by (simp_all add: wcnd_frame)
  have "idle f (clients m1)"
    using assms(6-8) by (auto simp: m1 idle_def wcnd_send_notify_to_client_def notify_list_eq wcnd_frame
        notify_one_def type_matches_def split: if_splits)
  with hushed_step [of f m1 CP2_DOWN_MSG env'] assms(6)
  have "\<exists>new. outp m2 = outp m1 @ new \<and> (\<forall>s. Sent f s \<notin> set new)"
    by (auto simp: m2_def hushed_def only_adds_def quiet_def)
  moreover have "state m2 = CP2_STOPPED"
    using s1 by (simp add: m2_def wcnd_sm_step_def wcn_state_cp2_starting_def wcnd_frame Let_def)
  moreover have "\<exists>new. outp m1 = outp m @ new \<and> Sent f RESP_OK \<in> set new"
    using notify_new [of c ?a f env RESP_OK] assms(4-8) by (simp add: m1)
  ultimately show ?thesis
    unfolding m1_def [symmetric] m2_def [symmetric] Let_def using s1 by blast
qed

lemma close_while_starting_confirms_open_witness:
  "state (wcnd_sm_step all_ok (wcnd_sm_step all_ok ((two_clients T_CMD T_CMD)\<lparr>state := CP2_STARTING\<rparr>)
     \<lparr>event = FM_CLOSE, replyto_fd = 6\<rparr>) CP2_DOWN_MSG) = CP2_STOPPED"
  using close_while_starting_confirms_open [of "(two_clients T_CMD T_CMD)\<lparr>state := CP2_STARTING\<rparr>"
      FM_CLOSE "\<lparr>sockfd = 5, ctype = T_CMD\<rparr>" 5 all_ok 6 all_ok]
  by (simp add: Let_def two_clients_def wcnd_boot_def all_ok_def)

end
