(* ===== verification/WcndCmd.thy ===== *)
theory WcndCmd
  imports WcndSm
begin

text \<open>
  The command path of the connectivity daemon: splitting and tokenising what a client
  writes, finding the executer, the \<open>wcn\<close> commands (\<open>wcnd.c\<close>, \<open>wcnd_cmd.c\<close>), the queue
  of the engineering worker (\<open>wcnd_worker.c\<close>), and the open, close and reset processes
  that the self commands trigger. Starting, killing and pinging other processes is
  I/O and left out; \<open>start_ok\<close> says which attempts bring CP2 up.
\<close>

subsection \<open>Tokens\<close>

abbreviation (input) QUOTE :: char where "QUOTE \<equiv> CHR 0x22"
abbreviation (input) BSLASH :: char where "BSLASH \<equiv> CHR 0x5C"
abbreviation (input) SPACE :: char where "SPACE \<equiv> CHR 0x20"
abbreviation (input) NUL :: char where "NUL \<equiv> CHR 0x00"

text \<open>
  The loop of \<open>dispatch_command2\<close>: \<open>tmp\<close> is the token written so far (254 characters at
  most), \<open>argv\<close> the finished ones (16 at most). \<open>Inl\<close> is the error sent to the client. A C
  string is the list of its characters without the terminator, which ends the loop; the callers
  pass strings without a null character (\<open>split_commands_no_nul\<close>).
\<close>

fun parse_cmd :: "string \<Rightarrow> bool \<Rightarrow> bool \<Rightarrow> string list \<Rightarrow> string \<Rightarrow> string + string list" where
  "parse_cmd tmp esc quote argv [] =
     (if length argv \<ge> 16 then Inl ''Command too long''
      else if quote then Inl ''Unclosed quotes error''
      else Inr (argv @ [tmp]))"
| "parse_cmd tmp esc quote argv (c # p) =
     (if c = BSLASH then
        (if esc then
           (if length tmp \<ge> 254 then Inl ''Command too long''
            else parse_cmd (tmp @ [BSLASH]) False quote argv p)
         else parse_cmd tmp True quote argv p)
      else if esc then
        (if c = QUOTE then
           (if length tmp \<ge> 254 then Inl ''Command too long''
            else parse_cmd (tmp @ [QUOTE]) False quote argv p)
         else Inl ''Unsupported escape sequence'')
      else if c = QUOTE then parse_cmd tmp esc (\<not> quote) argv p
      else if length tmp \<ge> 254 then Inl ''Command too long''
      else if \<not> quote \<and> c = SPACE then
        (if length argv \<ge> 16 then Inl ''Command too long''
         else parse_cmd [] esc quote (argv @ [tmp]) p)
      else parse_cmd (tmp @ [c]) esc quote argv p)"

definition tokenize :: "string \<Rightarrow> string + string list" where
  "tokenize data = parse_cmd [] False False [] data"

text \<open>
  \<open>dispatch_command\<close>: 255 bytes or more are dropped, leading blanks are skipped, and the
  rest is cut at the null characters; empty pieces are skipped.
\<close>

fun split_nul :: "string \<Rightarrow> string \<Rightarrow> string list" where
  "split_nul cur [] = (if cur = [] then [] else [cur])"
| "split_nul cur (c # cs) =
     (if c = NUL then (if cur = [] then [] else [cur]) @ split_nul [] cs
      else split_nul (cur @ [c]) cs)"

definition split_commands :: "string \<Rightarrow> string list" where
  "split_commands data =
     (if length data \<ge> 255 then [] else split_nul [] (dropWhile (\<lambda>c. c = SPACE) data))"

lemma split_nul_no_nul: "NUL \<notin> set cur \<Longrightarrow> p \<in> set (split_nul cur cs) \<Longrightarrow> NUL \<notin> set p \<and> p \<noteq> []"
  by (induction cur cs rule: split_nul.induct) (auto split: if_splits)

lemma split_commands_no_nul: "p \<in> set (split_commands data) \<Longrightarrow> NUL \<notin> set p \<and> p \<noteq> []"
  by (auto simp: split_commands_def split: if_splits dest: split_nul_no_nul [rotated])

subsection \<open>Client slots\<close>

fun store_client_fd :: "int \<Rightarrow> int list \<Rightarrow> int list" where
  "store_client_fd fd [] = []"
| "store_client_fd fd [x] = [fd]"
| "store_client_fd fd (x # xs) =
     (if x = -1 then fd # xs else if x = fd then x # xs else x # store_client_fd fd xs)"

text \<open>
  A new connection takes the first free slot; when the socket is there already nothing
  happens, and when the table is full the connection is closed.
\<close>

fun accept_slot :: "int \<Rightarrow> wcnd_client list \<Rightarrow> wcnd_client list option" where
  "accept_slot fd [] = None"
| "accept_slot fd (c # cs) =
     (if sockfd c = -1 then Some (c\<lparr>sockfd := fd, ctype := T_NOTIFY\<rparr> # cs)
      else if sockfd c = fd then Some (c # cs)
      else map_option ((#) c) (accept_slot fd cs))"

definition accept_client :: "int \<Rightarrow> wcnd \<Rightarrow> wcnd" where
  "accept_client fd m =
     (case accept_slot fd (clients m) of
        None \<Rightarrow> emit [Closed fd] m | Some cs \<Rightarrow> m\<lparr>clients := cs\<rparr>)"

fun zap_slot :: "int \<Rightarrow> wcnd_client list \<Rightarrow> wcnd_client list option" where
  "zap_slot fd [] = None"
| "zap_slot fd (c # cs) =
     (if sockfd c = fd then Some (c\<lparr>sockfd := -1, ctype := T_NOTIFY\<rparr> # cs)
      else map_option ((#) c) (zap_slot fd cs))"

definition zap_client :: "int \<Rightarrow> wcnd \<Rightarrow> wcnd" where
  "zap_client fd m =
     (case zap_slot fd (clients m) of
        None \<Rightarrow> m | Some cs \<Rightarrow> emit [Closed fd] (m\<lparr>clients := cs\<rparr>))"

subsection \<open>Starting, stopping and resetting CP2\<close>

definition config_cp2_bootup :: "wenv \<Rightarrow> wcnd \<Rightarrow> wcnd" where
  "config_cp2_bootup env m =
    (if is_eng_mode_only m \<or> \<not> is_wcn_modem_enabled m \<or> is_marlin2 m then m
     else snd (wcnd_process_atcmd env (-1)
       ((if is_cp2log_opened m then ''AT+ARMLOG=1'' else ''AT+ARMLOG=0'') @ [CR]) m))"

text \<open>The retry loop of \<open>wcnd_open_cp2\<close>: it gives up when \<open>reset_count\<close> exceeds 3.\<close>

function open_attempts :: "wenv \<Rightarrow> nat \<Rightarrow> bool" where
  "open_attempts env reset_count =
     (if reset_count > 3 then False
      else if start_ok env reset_count then True
      else open_attempts env (reset_count + 1))"
  by pat_completeness auto
termination by (relation "measure (\<lambda>(env, n). 4 - n)") auto

declare open_attempts.simps [simp del]

definition wcnd_open_cp2 :: "wenv \<Rightarrow> wcnd \<Rightarrow> wcnd" where
  "wcnd_open_cp2 env m =
    (let alive = open_attempts env 0;
         m = m\<lparr>doing_reset := False\<rparr>;
         m = (if alive then m\<lparr>is_cp2_error := False\<rparr> else m);
         m = wcnd_sm_step env m \<lparr>event = (if alive then EV_CP2_OK else EV_CP2_DOWN), replyto_fd = -1\<rparr>
     in if alive then config_cp2_bootup env m else m)"

definition wcnd_close_cp2 :: "wenv \<Rightarrow> wcnd \<Rightarrow> wcnd" where
  "wcnd_close_cp2 env m = wcnd_sm_step env m \<lparr>event = EV_CP2_DOWN, replyto_fd = -1\<rparr>"

definition wcnd_before_reset :: "wenv \<Rightarrow> wcnd \<Rightarrow> bool \<times> wcnd" where
  "wcnd_before_reset env m =
    (if is_marlin2 m then (False, m)
     else if \<not> is_in_userdebug m \<and> dumpmem_on m then (False, m)
     else if \<not> reset_enable env then (False, m)
     else (True, m\<lparr>doing_reset := True\<rparr>))"

function reset_attempts :: "wenv \<Rightarrow> nat \<Rightarrow> wcnd \<Rightarrow> bool \<times> wcnd" where
  "reset_attempts env reset_count m =
     (if reset_count > 3 then (False, m\<lparr>doing_reset := False\<rparr>)
      else
        (let m = wcnd_send_notify_to_client env ''WCN-CP2-RESET-START'' T_NOTIFY m;
             m = wcnd_send_notify_to_client env ''WCN-CP2-RESET-END'' T_NOTIFY m
         in if start_ok env reset_count
            then (True, (wcnd_send_notify_to_client env ''WCN-CP2-ALIVE'' T_NOTIFY m)
                          \<lparr>doing_reset := False\<rparr>)
            else reset_attempts env (reset_count + 1) m))"
  by pat_completeness auto
termination by (relation "measure (\<lambda>(env, n, m). 4 - n)") auto

declare reset_attempts.simps [simp del]

definition wcnd_do_wcn_reset_process :: "wenv \<Rightarrow> wcnd \<Rightarrow> wcnd" where
  "wcnd_do_wcn_reset_process env m =
    (case wcnd_before_reset env m of
       (False, m) \<Rightarrow> wcnd_sm_step env m \<lparr>event = EV_CP2_DOWN, replyto_fd = -1\<rparr>
     | (True, m) \<Rightarrow>
       (case reset_attempts env 0 m of
          (True, m) \<Rightarrow>
            config_cp2_bootup env
              (wcnd_sm_step env (emit [SetProp ''persist.sys.wcn.status'' ''ok''] (m\<lparr>is_cp2_error := False\<rparr>))
                 \<lparr>event = EV_CP2_OK, replyto_fd = -1\<rparr>)
        | (False, m) \<Rightarrow> wcnd_sm_step env m \<lparr>event = EV_CP2_DOWN, replyto_fd = -1\<rparr>))"

subsection \<open>Commands\<close>

definition become_cmd :: "int \<Rightarrow> wcnd \<Rightarrow> wcnd" where
  "become_cmd fd m = m\<lparr>clients := set_client_type fd T_CMD (clients m)\<rparr>"

definition cmd_event :: "string \<Rightarrow> wcnd_event" where
  "cmd_event cmd =
    (if cmd = ''BT-CLOSE'' then BT_CLOSE else if cmd = ''BT-OPEN'' then BT_OPEN
     else if cmd = ''WIFI-CLOSE'' then WIFI_CLOSE else if cmd = ''WIFI-OPEN'' then WIFI_OPEN
     else if cmd = ''FM-CLOSE'' then FM_CLOSE else if cmd = ''FM-OPEN'' then FM_OPEN
     else NO_EVENT)"

definition wcn_process_btwificmd :: "wenv \<Rightarrow> int \<Rightarrow> string \<Rightarrow> wcnd \<Rightarrow> wcnd" where
  "wcn_process_btwificmd env fd cmd m =
    (if \<not> is_wcn_modem_enabled m then wcnd_send_notify_to_client env RESP_OK T_CMD m
     else wcnd_sm_step env m \<lparr>event = cmd_event cmd, replyto_fd = fd\<rparr>)"

definition wcn_power_req :: "wenv \<Rightarrow> int \<Rightarrow> int \<Rightarrow> wcnd_event \<Rightarrow> wcnd \<Rightarrow> wcnd" where
  "wcn_power_req env self fd e m =
    (let m = become_cmd fd m
     in if \<not> is_wcn_modem_enabled m then wcnd_send_notify_to_client env RESP_OK T_CMD m
        else wcnd_sm_step env m \<lparr>event = e, replyto_fd = (if fd = self then -1 else fd)\<rparr>)"

definition wcnd_dump_cp2 :: "wenv \<Rightarrow> wcnd \<Rightarrow> wcnd" where
  "wcnd_dump_cp2 env m =
    (let m = m\<lparr>is_cp2_error := True\<rparr>;
         m = (if is_marlin2 m
              then wcnd_send_notify_to_client env ''WCN-CP2-EXCEPTION for dump mem'' T_NOTIFY m else m)
     in m\<lparr>is_cp2_error := False\<rparr>)"

definition set_engpc_service :: "bool \<Rightarrow> wcnd \<Rightarrow> wcnd" where
  "set_engpc_service start m =
    (let k = (if start then ''ctl.start'' else ''ctl.stop'')
     in emit [SetProp k ''engservicewcn'', SetProp k ''engmodemclientwcn'', SetProp k ''engpcclientwcn''] m)"

text \<open>\<open>self\<close> is the reading end of the daemon's own command socket.\<close>

definition wcnd_runcommand :: "wenv \<Rightarrow> int \<Rightarrow> int \<Rightarrow> string list \<Rightarrow> wcnd \<Rightarrow> wcnd" where
  "wcnd_runcommand env self fd argv m =
    (case argv of [] \<Rightarrow> send_back_cmd_result env fd (Some ''Missing argument'') False m
     | c # _ \<Rightarrow>
       if c = ''reset'' then
         (let m = (if fd \<noteq> self then send_back_cmd_result env fd None True m else m)
          in if is_cp2_error m then wcnd_do_wcn_reset_process env m else m)
       else if c = ''test'' then send_back_cmd_result env fd None True m
       else if strstr c ''at+'' then snd (wcnd_process_atcmd env fd c m)
       else if strstr c ''BT'' \<or> strstr c ''WIFI'' \<or> strstr c ''FM'' then
         wcn_process_btwificmd env fd c (become_cmd fd m)
       else if c = ''startcp2'' then wcnd_open_cp2 env m
       else if c = ''stopcp2'' then wcnd_close_cp2 env m
       else if c = ''pendingevent'' then wcnd_sm_step env m \<lparr>event = PENGING_EVENT, replyto_fd = -1\<rparr>
       else if c = ''cp2assert'' then wcnd_sm_step env m \<lparr>event = EV_CP2_ASSERT, replyto_fd = -1\<rparr>
       else if c = ''poweron'' then wcn_power_req env self fd CP2POWERON_REQ m
       else if c = ''poweroff'' then wcn_power_req env self fd CP2POWEROFF_REQ m
       else if c = ''configcp2'' then config_cp2_bootup env m
       else if c = ''getcp2version'' then
         (snd (wcnd_process_atcmd env (-1) (''at+spatgetcp2info'' @ [CR]) m))\<lparr>store_cp2_version_done := True\<rparr>
       else if c = ''startengpc'' then set_engpc_service True (send_back_cmd_result env fd None True m)
       else if c = ''stopengpc'' then set_engpc_service False (send_back_cmd_result env fd None True m)
       else if c = ''dump_enable'' then (send_back_cmd_result env fd None True m)\<lparr>dumpmem_on := True\<rparr>
       else if c = ''dump_disable'' then (send_back_cmd_result env fd None True m)\<lparr>dumpmem_on := False\<rparr>
       else if c = ''dumpmem'' then send_back_cmd_result env fd None True (wcnd_dump_cp2 env m)
       else if c = ''dump?'' then
         send_back_cmd_result env fd (Some (if dumpmem_on m then ''dump=1'' else ''dump=0'')) True m
       else if c = ''marlin2closed'' then wcnd_sm_step env m \<lparr>event = MARLIN2_CLOSED, replyto_fd = -1\<rparr>
       else if c = ''marlin2opened'' then wcnd_sm_step env m \<lparr>event = MARLIN2_OPENED, replyto_fd = -1\<rparr>
       else send_back_cmd_result env fd (Some ''Not support cmd'') False m)"

text \<open>
  The engineering executer hands a submodule its arguments; what the submodule writes is
  the parameter \<open>sub\<close>.
\<close>

type_synonym submodule = "string \<Rightarrow> int \<Rightarrow> string list \<Rightarrow> wcnd_out list"

definition eng_runcommand :: "wenv \<Rightarrow> submodule \<Rightarrow> int \<Rightarrow> string list \<Rightarrow> wcnd \<Rightarrow> wcnd" where
  "eng_runcommand env sub fd argv m =
    (case argv of [] \<Rightarrow> send_back_cmd_result env fd (Some ''Missing argument'') False m
     | c # args \<Rightarrow>
       if c \<in> {''iwnpi'', ''bt'', ''wifi'', ''fm''} then
         (if args = [] then send_back_cmd_result env fd (Some ''Missing argument'') False m
          else emit (sub c fd args) m)
       else send_back_cmd_result env fd (Some ''Not support cmd'') False m)"

datatype executer = Wcn_cmdexecuter | Wcn_eng_cmdexecuter

fun executer_name :: "executer \<Rightarrow> string" where
  "executer_name Wcn_cmdexecuter = ''wcn''"
| "executer_name Wcn_eng_cmdexecuter = ''eng''"

fun register_slot :: "executer \<Rightarrow> executer option list \<Rightarrow> executer option list option" where
  "register_slot e [] = None"
| "register_slot e (s # ss) =
     (if s = None then Some (Some e # ss)
      else if s = Some e then Some (s # ss)
      else map_option ((#) s) (register_slot e ss))"

definition wcnd_register_cmdexecuter ::
  "bool \<Rightarrow> executer \<Rightarrow> executer option list \<Rightarrow> int \<times> executer option list" where
  "wcnd_register_cmdexecuter inited e ss =
     (if \<not> inited then (-1, ss)
      else case register_slot e ss of None \<Rightarrow> (-1, ss) | Some ss' \<Rightarrow> (0, ss'))"

record daemon =
  mgr :: wcnd
  executers :: "executer option list"
  eng_cmd_queue :: "(string \<times> int) list"
  selfsock :: int

definition dispatch_command2 :: "wenv \<Rightarrow> submodule \<Rightarrow> int \<Rightarrow> string \<Rightarrow> daemon \<Rightarrow> daemon" where
  "dispatch_command2 env sub fd data d =
    (case tokenize data of
       Inl err \<Rightarrow> d\<lparr>mgr := send_back_cmd_result env fd (Some err) False (mgr d)\<rparr>
     | Inr argv \<Rightarrow>
       (case List.find (\<lambda>s. s \<noteq> None \<and> executer_name (the s) = hd argv) (executers d) of
          None \<Rightarrow> d\<lparr>mgr := send_back_cmd_result env fd (Some ''Command not recognized'') False (mgr d)\<rparr>
        | Some s \<Rightarrow>
          (case the s of
             Wcn_cmdexecuter \<Rightarrow> d\<lparr>mgr := wcnd_runcommand env (selfsock d) fd (tl argv) (mgr d)\<rparr>
           | Wcn_eng_cmdexecuter \<Rightarrow> d\<lparr>mgr := eng_runcommand env sub fd (tl argv) (mgr d)\<rparr>)))"

text \<open>The worker's queue; \<open>malloc\<close> is taken to succeed.\<close>

definition wcnd_worker_dispatch :: "string \<times> int \<Rightarrow> daemon \<Rightarrow> daemon option" where
  "wcnd_worker_dispatch w d = Some (d\<lparr>eng_cmd_queue := eng_cmd_queue d @ [w]\<rparr>)"

definition worker_take :: "daemon \<Rightarrow> ((string \<times> int) \<times> daemon) option" where
  "worker_take d =
    (case eng_cmd_queue d of [] \<Rightarrow> None | w # ws \<Rightarrow> Some (w, d\<lparr>eng_cmd_queue := ws\<rparr>))"

definition eng_worker_step :: "wenv \<Rightarrow> submodule \<Rightarrow> daemon \<Rightarrow> daemon option" where
  "eng_worker_step env sub d =
    map_option (\<lambda>((data, fd), d). dispatch_command2 env sub fd data d) (worker_take d)"

definition worker_dispatch :: "wenv \<Rightarrow> submodule \<Rightarrow> int \<Rightarrow> string \<Rightarrow> daemon \<Rightarrow> daemon" where
  "worker_dispatch env sub fd data d =
    (if strstr data ''eng'' then
       (case wcnd_worker_dispatch (data, fd) d of
          None \<Rightarrow> d\<lparr>mgr := send_back_cmd_result env fd (Some ''eng cmd dispatch error!!'') False (mgr d)\<rparr>
        | Some d' \<Rightarrow> d')
     else dispatch_command2 env sub fd data d)"

definition dispatch_command :: "wenv \<Rightarrow> submodule \<Rightarrow> int \<Rightarrow> string \<Rightarrow> daemon \<Rightarrow> daemon" where
  "dispatch_command env sub fd data d = fold (worker_dispatch env sub fd) (split_commands data) d"

text \<open>A read of at most 254 bytes; the null the buffer ends with is passed on too.\<close>

definition process_active_client_fd :: "wenv \<Rightarrow> submodule \<Rightarrow> int \<Rightarrow> string option \<Rightarrow> daemon \<Rightarrow> daemon" where
  "process_active_client_fd env sub fd rdata d =
    (case rdata of
       None \<Rightarrow> d\<lparr>mgr := zap_client fd (mgr d)\<rparr>
     | Some [] \<Rightarrow> d\<lparr>mgr := zap_client fd (mgr d)\<rparr>
     | Some bs \<Rightarrow> dispatch_command env sub fd (take 254 bs @ [NUL]) d)"

subsection \<open>Lemmas\<close>

interpretation eng_queue: fifo wcnd_worker_dispatch worker_take eng_cmd_queue "\<lambda>_. True"
  by unfold_locales (auto simp: wcnd_worker_dispatch_def worker_take_def split: list.splits)

text \<open>
  The engineering worker handles commands in the order they were queued, each exactly
  once, however queueing and handling interleave.
\<close>

lemma eng_commands_in_order:
  assumes "qrun wcnd_worker_dispatch worker_take d ops = (queued, handled, d')"
  shows "eng_cmd_queue d @ queued = handled @ eng_cmd_queue d'"
  using eng_queue.qrun_conserves [OF TrueI assms] by simp

definition quiet_daemon :: daemon where
  "quiet_daemon = \<lparr>mgr = two_clients T_NOTIFY T_NOTIFY,
     executers = [Some Wcn_cmdexecuter, Some Wcn_eng_cmdexecuter], eng_cmd_queue = [], selfsock = 3\<rparr>"

subsection \<open>Quoting\<close>

definition quote_char :: "char \<Rightarrow> string" where
  "quote_char c = (if c = BSLASH \<or> c = QUOTE then [BSLASH, c] else [c])"

definition quote_arg :: "string \<Rightarrow> string" where
  "quote_arg a = QUOTE # concat (map quote_char a) @ [QUOTE]"

fun join_args :: "string list \<Rightarrow> string" where
  "join_args [] = []"
| "join_args [a] = quote_arg a"
| "join_args (a # as) = quote_arg a @ SPACE # join_args as"

lemma parse_quoted:
  "length (tmp @ a) \<le> 254 \<Longrightarrow>
     parse_cmd tmp False True argv (concat (map quote_char a) @ p) = parse_cmd (tmp @ a) False True argv p"
  by (induction a arbitrary: tmp) (auto simp: quote_char_def)

lemma parse_quote_arg:
  "length a \<le> 254 \<Longrightarrow> parse_cmd [] False False argv (quote_arg a @ p) = parse_cmd a False False argv p"
  using parse_quoted [of "[]" a argv "QUOTE # p"] by (simp add: quote_arg_def)

lemma parse_join:
  "as \<noteq> [] \<Longrightarrow> length argv + length as \<le> 16 \<Longrightarrow> \<forall>a \<in> set as. length a \<le> 253 \<Longrightarrow>
     parse_cmd [] False False argv (join_args as) = Inr (argv @ as)"
proof (induction as arbitrary: argv rule: join_args.induct)
  case (2 a)
  with parse_quote_arg [of a argv "[]"] show ?case by simp
next
  case (3 a b as)
  with parse_quote_arg [of a argv "SPACE # join_args (b # as)"] show ?case by simp
qed simp

text \<open>
  C21. Any argument vector of at most 16 words of at most 253 characters, whatever
  characters they hold, is recovered from its quoted form.
\<close>

theorem tokenize_quoted:
  assumes "as \<noteq> []" and "length as \<le> 16" and "\<forall>a \<in> set as. length a \<le> 253"
  shows "tokenize (join_args as) = Inr as"
  using parse_join [of as "[]"] assms by (simp add: tokenize_def)

theorem tokenize_quoted_witness:
  "tokenize (join_args [''wcn'', [QUOTE, SPACE, BSLASH]]) = Inr [''wcn'', [QUOTE, SPACE, BSLASH]]"
  by (rule tokenize_quoted) simp_all

definition bounded_args :: "string + string list \<Rightarrow> bool" where
  "bounded_args r \<longleftrightarrow>
     (\<forall>as. r = Inr as \<longrightarrow> as \<noteq> [] \<and> length as \<le> 16 \<and> (\<forall>a \<in> set as. length a \<le> 254))"

lemma bounded_args_Inl [simp]: "bounded_args (Inl e)"
  by (simp add: bounded_args_def)

lemma parse_bounds:
  "length tmp \<le> 254 \<Longrightarrow> \<forall>a \<in> set argv. length a \<le> 254 \<Longrightarrow>
     bounded_args (parse_cmd tmp esc quote argv p)"
proof (induction tmp esc quote argv p rule: parse_cmd.induct)
  case (1 tmp esc quote argv)
  then show ?case by (auto simp: bounded_args_def)
qed simp

text \<open>Whatever a client sends, a command that is dispatched has 1 to 16 words of at most 254 characters.\<close>

lemma tokenize_bounds:
  assumes "tokenize data = Inr as"
  shows "as \<noteq> [] \<and> length as \<le> 16 \<and> (\<forall>a \<in> set as. length a \<le> 254)"
  using parse_bounds [of "[]" "[]" False False data] assms by (simp add: tokenize_def bounded_args_def)

lemma tokenize_bounds_witness:
  "[''wcn'', ''a b''] \<noteq> [] \<and> length [''wcn'', ''a b''] \<le> 16 \<and> list_all (\<lambda>a. length a \<le> 254) [''wcn'', ''a b'']"
  using tokenize_bounds [of "join_args [''wcn'', ''a b'']" "[''wcn'', ''a b'']"]
  by (simp add: tokenize_def quote_arg_def quote_char_def)

subsection \<open>Start and reset\<close>

lemma open_attempts_iff: "open_attempts env n \<longleftrightarrow> (\<exists>k. n \<le> k \<and> k \<le> 3 \<and> start_ok env k)"
proof (induction env n rule: open_attempts.induct)
  case (1 env n)
  show ?case
  proof (cases "n > 3 \<or> start_ok env n")
    case False
    then have "(\<exists>k. Suc n \<le> k \<and> k \<le> 3 \<and> start_ok env k) \<longleftrightarrow> (\<exists>k. n \<le> k \<and> k \<le> 3 \<and> start_ok env k)"
      by (metis Suc_leD Suc_leI le_neq_implies_less)
    with False 1 show ?thesis by (subst open_attempts.simps) simp
  qed (subst open_attempts.simps, auto)
qed

lemma reset_attempts_fst: "fst (reset_attempts env n m) = open_attempts env n"
proof (induction env n m rule: reset_attempts.induct)
  case (1 env n m)
  then show ?case
    by (subst reset_attempts.simps, subst open_attempts.simps) (simp add: Let_def)
qed

lemma reset_attempts_frame:
  "state (snd (reset_attempts env n m)) = state m
   \<and> is_wcn_modem_enabled (snd (reset_attempts env n m)) = is_wcn_modem_enabled m
   \<and> btwifi_state (snd (reset_attempts env n m)) = btwifi_state m
   \<and> saved_btwifi_state (snd (reset_attempts env n m)) = saved_btwifi_state m"
proof (induction env n m rule: reset_attempts.induct)
  case (1 env n m)
  then show ?case by (subst (1 2 3 4) reset_attempts.simps) (simp add: Let_def wcnd_frame)
qed

lemma config_frame [wcnd_frame]:
  "state (config_cp2_bootup env m) = state m" "btwifi_state (config_cp2_bootup env m) = btwifi_state m"
  "saved_btwifi_state (config_cp2_bootup env m) = saved_btwifi_state m"
  "clients (config_cp2_bootup env m) = clients m"
  by (simp_all add: config_cp2_bootup_def wcnd_frame)

lemma config_extends: "\<exists>new. outp (config_cp2_bootup env m) = outp m @ new"
proof -
  have "only_adds (\<lambda>_. True) m (config_cp2_bootup env m)"
    unfolding config_cp2_bootup_def using at_silent [of "\<lambda>_. True"] by simp
  then show ?thesis by (auto simp: only_adds_def)
qed

lemma starting_verdict:
  assumes "is_wcn_modem_enabled m" "state m = CP2_STARTING" "c \<in> set (clients m)" "sockfd c = f" "0 \<le> f"
    "ctype c = T_CMD" "wr_ok env f"
  shows "\<exists>new. outp (wcnd_sm_step env m CP2_OK_MSG) = outp m @ new \<and> Sent f RESP_OK \<in> set new"
    "\<exists>new. outp (wcnd_sm_step env m CP2_DOWN_MSG) = outp m @ new \<and> Sent f RESP_FAIL \<in> set new"
proof -
  have ex: "\<exists>new. outp (wcnd_send_notify_to_client env info T_CMD_PENDING
      (wcnd_send_notify_to_client env info T_CMD m')) = outp m @ new \<and> Sent f info \<in> set new"
    if m': "clients m' = clients m" "outp m' = outp m" for info m'
  proof -
    obtain new1 where "outp (wcnd_send_notify_to_client env info T_CMD m') = outp m' @ new1"
      "Sent f info \<in> set new1"
      using notify_new [of c m' f env info] assms(3-7) m'(1) by auto
    moreover obtain new2 where "outp (wcnd_send_notify_to_client env info T_CMD_PENDING
      (wcnd_send_notify_to_client env info T_CMD m'))
        = outp (wcnd_send_notify_to_client env info T_CMD m') @ new2"
      using notify_extends by blast
    ultimately show ?thesis using m'(2) by auto
  qed
  show "\<exists>new. outp (wcnd_sm_step env m CP2_OK_MSG) = outp m @ new \<and> Sent f RESP_OK \<in> set new"
    using ex [of "m\<lparr>notify_enabled := False, state := CP2_STARTED\<rparr>" RESP_OK] assms(1,2)
    by (simp add: wcnd_sm_step_def wcn_state_cp2_starting_def Let_def)
  show "\<exists>new. outp (wcnd_sm_step env m CP2_DOWN_MSG) = outp m @ new \<and> Sent f RESP_FAIL \<in> set new"
    using ex [of "m\<lparr>notify_enabled := False, state := CP2_STOPPED\<rparr>" RESP_FAIL] assms(1,2)
    by (simp add: wcnd_sm_step_def wcn_state_cp2_starting_def Let_def)
qed

lemma open_cp2_verdict:
  assumes "is_wcn_modem_enabled m" "state m = CP2_STARTING" "c \<in> set (clients m)" "sockfd c = f" "0 \<le> f"
    "ctype c = T_CMD" "wr_ok env f"
  shows "\<exists>new. outp (wcnd_open_cp2 env m) = outp m @ new
    \<and> Sent f (if open_attempts env 0 then RESP_OK else RESP_FAIL) \<in> set new"
    "state (wcnd_open_cp2 env m) = (if open_attempts env 0 then CP2_STARTED else CP2_STOPPED)"
proof -
  let ?m = "m\<lparr>doing_reset := False, is_cp2_error := False\<rparr>"
  let ?n = "m\<lparr>doing_reset := False\<rparr>"
  obtain new where "outp (wcnd_sm_step env ?m CP2_OK_MSG) = outp m @ new" "Sent f RESP_OK \<in> set new"
    using starting_verdict(1) [of ?m c f env] assms by auto
  moreover obtain new' where "outp (config_cp2_bootup env (wcnd_sm_step env ?m CP2_OK_MSG))
      = outp (wcnd_sm_step env ?m CP2_OK_MSG) @ new'"
    using config_extends by blast
  moreover have "\<exists>new. outp (wcnd_sm_step env ?n CP2_DOWN_MSG) = outp m @ new \<and> Sent f RESP_FAIL \<in> set new"
    using starting_verdict(2) [of ?n c f env] assms by simp
  ultimately show "\<exists>new. outp (wcnd_open_cp2 env m) = outp m @ new
    \<and> Sent f (if open_attempts env 0 then RESP_OK else RESP_FAIL) \<in> set new"
    by (simp add: wcnd_open_cp2_def Let_def)
  show "state (wcnd_open_cp2 env m) = (if open_attempts env 0 then CP2_STARTED else CP2_STOPPED)"
    using assms(1,2)
    by (simp add: wcnd_open_cp2_def Let_def wcnd_frame wcnd_sm_step_def wcn_state_cp2_starting_def)
qed

lemma set_client_type_has:
  "c \<in> set cs \<Longrightarrow> sockfd c = f \<Longrightarrow> \<exists>c' \<in> set (set_client_type f t cs). sockfd c' = f \<and> ctype c' = t"
  by (induction cs) auto

lemma tok_bt_open: "tokenize ''wcn BT-OPEN'' = Inr [''wcn'', ''BT-OPEN'']"
  and tok_start: "tokenize ''wcn startcp2'' = Inr [''wcn'', ''startcp2'']"
  and split_bt_open: "split_commands (''wcn BT-OPEN'' @ [NUL]) = [''wcn BT-OPEN'']"
  and split_start: "split_commands (''wcn startcp2'' @ [NUL]) = [''wcn startcp2'']"
  and no_eng: "\<not> strstr ''wcn BT-OPEN'' ''eng''" "\<not> strstr ''wcn startcp2'' ''eng''"
  by (simp_all add: tokenize_def split_commands_def)

lemma run_bt_open:
  "wcnd_runcommand env self fd [''BT-OPEN''] m = wcn_process_btwificmd env fd ''BT-OPEN'' (become_cmd fd m)"
  by (simp add: wcnd_runcommand_def)

lemma run_start: "wcnd_runcommand env self fd [''startcp2''] m = wcnd_open_cp2 env m"
  by (simp add: wcnd_runcommand_def)

text \<open>
  From the bytes on the socket to the answer: a client that writes \<open>wcn BT-OPEN\<close>
  while CP2 is stopped makes the daemon write itself \<open>wcn startcp2\<close> and nothing else; handling
  that, it tells the client OK when one of the four attempts brings CP2 up, FAIL otherwise.
\<close>

lemma bt_open_is_answered:
  assumes "executers d = Some Wcn_cmdexecuter # ex" and "is_wcn_modem_enabled (mgr d)"
    and "state (mgr d) = CP2_STOPPED" and "c \<in> set (clients (mgr d))" and "sockfd c = f" and "0 \<le> f"
    and "wr_ok env' f"
  shows "let d1 = process_active_client_fd env sub f (Some ''wcn BT-OPEN'') d;
      d2 = process_active_client_fd env' sub (selfsock d) (Some ''wcn startcp2'') d1;
      up = (\<exists>k \<le> 3. start_ok env' k) in
    outp (mgr d1) = outp (mgr d) @ [SelfCmd ''wcn startcp2'']
    \<and> (\<exists>new. outp (mgr d2) = outp (mgr d1) @ new \<and> Sent f (if up then RESP_OK else RESP_FAIL) \<in> set new)
    \<and> state (mgr d2) = (if up then CP2_STARTED else CP2_STOPPED)"
proof -
  let ?m1 = "wcnd_sm_step env (become_cmd f (mgr d)) \<lparr>event = BT_OPEN, replyto_fd = f\<rparr>"
  let ?d1 = "d\<lparr>mgr := ?m1\<rparr>"
  have d1: "process_active_client_fd env sub f (Some ''wcn BT-OPEN'') d = ?d1"
    using assms(1,2) by (simp add: process_active_client_fd_def dispatch_command_def worker_dispatch_def
        dispatch_command2_def tok_bt_open split_bt_open [simplified] no_eng run_bt_open
        wcn_process_btwificmd_def cmd_event_def become_cmd_def)
  have d2: "process_active_client_fd env' sub (selfsock d) (Some ''wcn startcp2'') ?d1
      = ?d1\<lparr>mgr := wcnd_open_cp2 env' ?m1\<rparr>"
    using assms(1) by (simp add: process_active_client_fd_def dispatch_command_def worker_dispatch_def
        dispatch_command2_def tok_start split_start [simplified] no_eng run_start)
  have m1: "outp ?m1 = outp (mgr d) @ [SelfCmd ''wcn startcp2'']" "state ?m1 = CP2_STARTING"
    "clients ?m1 = set_client_type f T_CMD (clients (mgr d))" "is_wcn_modem_enabled ?m1"
    using assms(2,3)
    by (simp_all add: wcnd_sm_step_def wcn_state_cp2_stopped_def wcnd_frame Let_def become_cmd_def)
  obtain c' where "c' \<in> set (clients ?m1)" "sockfd c' = f" "ctype c' = T_CMD"
    using set_client_type_has [OF assms(4,5)] m1(3) by auto
  note v = open_cp2_verdict [OF m1(4,2) this(1,2) assms(6) this(3) assms(7)]
  from v m1(1) show ?thesis
    unfolding d1 d2 Let_def open_attempts_iff by simp
qed

lemma bt_open_is_answered_witness:
  "let d1 = process_active_client_fd all_ok (\<lambda>_ _ _. []) 5 (Some ''wcn BT-OPEN'') quiet_daemon;
      d2 = process_active_client_fd all_ok (\<lambda>_ _ _. []) (selfsock quiet_daemon) (Some ''wcn startcp2'') d1;
      up = (\<exists>k \<le> 3. start_ok all_ok k) in
    outp (mgr d1) = outp (mgr quiet_daemon) @ [SelfCmd ''wcn startcp2'']
    \<and> (\<exists>new. outp (mgr d2) = outp (mgr d1) @ new \<and> Sent 5 (if up then RESP_OK else RESP_FAIL) \<in> set new)
    \<and> state (mgr d2) = (if up then CP2_STARTED else CP2_STOPPED)"
  by (rule bt_open_is_answered [where c = "\<lparr>sockfd = 5, ctype = T_NOTIFY\<rparr>"])
    (simp_all add: quiet_daemon_def two_clients_def wcnd_boot_def all_ok_def)

text \<open>
  C24. The reset after an assert always leaves the assert state: CP2 is started again when
  resetting is allowed and one of the four attempts succeeds, and stopped otherwise; the
  services in use, and those saved at the assert, are kept.
\<close>

theorem reset_leaves_assert:
  assumes "is_wcn_modem_enabled m" and "state m = CP2_ASSERT"
  shows "state (wcnd_do_wcn_reset_process env m) =
      (if \<not> is_marlin2 m \<and> (is_in_userdebug m \<or> \<not> dumpmem_on m) \<and> reset_enable env
          \<and> (\<exists>k \<le> 3. start_ok env k) then CP2_STARTED else CP2_STOPPED)
    \<and> btwifi_state (wcnd_do_wcn_reset_process env m) = btwifi_state m
    \<and> saved_btwifi_state (wcnd_do_wcn_reset_process env m) = saved_btwifi_state m"
proof -
  let ?m = "m\<lparr>doing_reset := True\<rparr>"
  obtain up m' where r: "reset_attempts env 0 ?m = (up, m')" by fastforce
  have up: "up = (\<exists>k \<le> 3. start_ok env k)"
    using reset_attempts_fst [of env 0 ?m] by (simp add: r open_attempts_iff)
  have m': "state m' = CP2_ASSERT" "is_wcn_modem_enabled m'" "btwifi_state m' = btwifi_state m"
    "saved_btwifi_state m' = saved_btwifi_state m"
    using reset_attempts_frame [of env 0 ?m] assms by (simp_all add: r)
  show ?thesis
    using assms m' up
    by (auto simp: wcnd_do_wcn_reset_process_def wcnd_before_reset_def r wcnd_frame wcnd_sm_step_def
        wcn_state_cp2_assert_def Let_def split: bool.splits)
qed

theorem reset_leaves_assert_witness:
  "state (wcnd_do_wcn_reset_process all_ok (wcnd_boot\<lparr>state := CP2_ASSERT, btwifi_state := 3\<rparr>)) = CP2_STARTED
    \<and> btwifi_state (wcnd_do_wcn_reset_process all_ok (wcnd_boot\<lparr>state := CP2_ASSERT, btwifi_state := 3\<rparr>)) = 3"
proof -
  have "\<exists>k :: nat. k \<le> 3" by (rule exI [of _ 0]) simp
  then show ?thesis
    using reset_leaves_assert [of "wcnd_boot\<lparr>state := CP2_ASSERT, btwifi_state := 3\<rparr>" all_ok]
    by (simp add: wcnd_boot_def all_ok_def)
qed

end
