(* ===== verification/NvFs.thy ===== *)
theory NvFs
  imports Checksums
begin

text \<open>
  The redundant storage of the modem's NV partitions: \<open>open-source/apps/nvitem/nvitem_fs.c\<close>.
  Each partition has an image and a backup image, each a 512-byte header (magic,
  length, checksum, version) followed by the data. Files are byte lists; the
  environment says which files can be opened for reading and for writing and how
  many bytes each of the two writes puts into the truncated file, so a full disk
  and a power cut are instances of it. \<open>rand()%2\<close> is an argument.
\<close>

subsection \<open>Definitions\<close>

type_synonym files = "string \<Rightarrow> u8 list option"

record ram_nv_config =
  partId :: u32
  image_path :: string
  imageBak_path :: string
  image_size :: u32

record nv_io =
  can_read :: "string \<Rightarrow> bool"
  can_write :: "string \<Rightarrow> bool"
  n_head :: "string \<Rightarrow> nat"
  n_body :: "string \<Rightarrow> nat"

definition ramDisk_Init :: "string \<Rightarrow> string \<Rightarrow> u32 \<Rightarrow> string \<Rightarrow> string \<Rightarrow> u32 \<Rightarrow> ram_nv_config list" where
  "ramDisk_Init fix_ori fix_bak fix_size run_ori run_bak run_size =
     [\<lparr>partId = 1, image_path = fix_ori, imageBak_path = fix_bak, image_size = fix_size\<rparr>,
      \<lparr>partId = 2, image_path = run_ori, imageBak_path = run_bak, image_size = run_size\<rparr>]
     @ replicate 14 \<lparr>partId = 0, image_path = [], imageBak_path = [], image_size = 0\<rparr>"

text \<open>\<open>_getIdx\<close>: the table ends at the first entry with partition 0.\<close>

fun getIdx :: "ram_nv_config list \<Rightarrow> u32 \<Rightarrow> ram_nv_config option" where
  "getIdx [] h = None"
| "getIdx (c # cs) h =
     (if partId c = 0 then None else if h = partId c then Some c else getIdx cs h)"

definition ramDisk_Open :: "u32 \<Rightarrow> u32" where
  "ramDisk_Open pid = pid"

definition chkNVEcc :: "u8 list \<Rightarrow> u16 \<Rightarrow> bool" where
  "chkNVEcc buf checksum \<longleftrightarrow> calc_checksum buf = checksum"

definition nv_header :: "u8 list \<Rightarrow> u8 list" where
  "nv_header buf = le32 0x4e56 @ le32 (of_nat (length buf)) @ le32 (ucast (calc_checksum buf))
     @ le32 101 @ replicate 496 0"

definition header_checksum :: "u8 list \<Rightarrow> u16" where
  "header_checksum header = ucast (from_le32 (drop 8 header))"

definition read_open :: "nv_io \<Rightarrow> files \<Rightarrow> string \<Rightarrow> u8 list option" where
  "read_open io fs p = (if can_read io p then fs p else None)"

text \<open>A buffer of \<open>n\<close> bytes preset to \<open>x\<close>, after a read returned \<open>got\<close>.\<close>

definition filled :: "u8 \<Rightarrow> nat \<Rightarrow> u8 list \<Rightarrow> u8 list" where
  "filled x n got = got @ replicate (n - length got) x"

text \<open>The first image: accepted or not, the buffer, and \<open>ret2\<close> (0 when the file does not open).\<close>

definition try_first :: "nv_io \<Rightarrow> files \<Rightarrow> string \<Rightarrow> nat \<Rightarrow> bool \<times> u8 list \<times> nat" where
  "try_first io fs firstName sz =
    (case read_open io fs firstName of None \<Rightarrow> (False, filled 0xFF sz [], 0)
     | Some c \<Rightarrow>
       (let header = take 512 c; got = take sz (drop 512 c); buf = filled 0xFF sz got
        in (length header = 512 \<and> length got = sz
              \<and> chkNVEcc buf (header_checksum (filled 0 512 header)), buf, length got)))"

text \<open>
  The second image: whether the three checks pass, the header and the buffer. \<open>ret2\<close> keeps
  the first image's value when the second file does not open.
\<close>

definition try_second :: "nv_io \<Rightarrow> files \<Rightarrow> string \<Rightarrow> nat \<Rightarrow> nat \<Rightarrow> bool \<times> u8 list \<times> u8 list" where
  "try_second io fs secondName sz ret2 =
    (case read_open io fs secondName of
       None \<Rightarrow>
         (let header = filled 0 512 []; buf = filled 0xFF sz []
          in (ret2 = sz \<and> chkNVEcc buf (header_checksum header), header, buf))
     | Some c \<Rightarrow>
         (let head = take 512 c; got = take sz (drop 512 c);
              header = filled 0 512 head; buf = filled 0xFF sz got
          in (length head = 512 \<and> length got = sz \<and> chkNVEcc buf (header_checksum header), header, buf)))"

definition ramDisk_Read ::
  "nv_io \<Rightarrow> bool \<Rightarrow> ram_nv_config list \<Rightarrow> u32 \<Rightarrow> u8 list \<Rightarrow> files \<Rightarrow> bool \<times> u8 list \<times> files" where
  "ramDisk_Read io r cfgs handle buf0 fs =
    (case getIdx cfgs handle of None \<Rightarrow> (False, buf0, fs)
     | Some cfg \<Rightarrow>
       (let firstName = (if r then image_path cfg else imageBak_path cfg);
            secondName = (if r then imageBak_path cfg else image_path cfg)
        in case try_first io fs firstName (length buf0) of (good, buf, ret2) \<Rightarrow>
          (if good then (True, buf, fs)
           else case try_second io fs secondName (length buf0) ret2 of (good, header, buf) \<Rightarrow>
             (if \<not> good then (True, buf, fs)
              else if can_write io firstName
              then (True, buf,
                fs(firstName \<mapsto> take (n_head io firstName) header @ take (n_body io firstName) buf))
              else (True, buf, fs)))))"

text \<open>Rewriting one image: a file that cannot be opened is skipped.\<close>

definition write_image :: "nv_io \<Rightarrow> string \<Rightarrow> u8 list \<Rightarrow> u8 list \<Rightarrow> bool \<times> files \<Rightarrow> bool \<times> files" where
  "write_image io p header buf s =
    (if can_write io p then
       (let h = take (n_head io p) header; b = take (n_body io p) buf
        in (fst s \<and> length h = 512 \<and> length b = length buf, (snd s)(p \<mapsto> h @ b)))
     else s)"

definition ramDisk_Write ::
  "nv_io \<Rightarrow> ram_nv_config list \<Rightarrow> u32 \<Rightarrow> u8 list \<Rightarrow> files \<Rightarrow> bool \<times> files" where
  "ramDisk_Write io cfgs handle buf fs =
    (case getIdx cfgs handle of None \<Rightarrow> (False, fs)
     | Some cfg \<Rightarrow>
       write_image io (image_path cfg) (nv_header buf) buf
         (write_image io (imageBak_path cfg) (nv_header buf) buf (True, fs)))"

subsection \<open>Images\<close>

definition nv_image :: "u8 list \<Rightarrow> u8 list" where
  "nv_image d = nv_header d @ d"

text \<open>A file the reader accepts, and what it takes from it.\<close>

definition valid_image :: "nat \<Rightarrow> u8 list \<Rightarrow> bool" where
  "valid_image n c \<longleftrightarrow> 512 + n \<le> length c \<and> calc_checksum (take n (drop 512 c)) = header_checksum (take 512 c)"

definition image_data :: "nat \<Rightarrow> u8 list \<Rightarrow> u8 list" where
  "image_data n c = take n (drop 512 c)"

lemma length_nv_header [simp]: "length (nv_header d) = 512"
  by (simp add: nv_header_def)

lemma header_checksum_nv [simp]: "header_checksum (nv_header d) = calc_checksum d"
proof -
  have "drop 8 (nv_header d) = le32 (ucast (calc_checksum d)) @ le32 101 @ replicate 496 0"
    by (simp add: nv_header_def)
  moreover have "ucast (ucast (calc_checksum d) :: u32) = calc_checksum d"
    by (rule bit_word_eqI) (simp add: bit_simps)
  ultimately show ?thesis by (simp add: header_checksum_def)
qed

lemma nv_image_valid: "valid_image (length d) (nv_image d)" "image_data (length d) (nv_image d) = d"
  by (simp_all add: valid_image_def image_data_def nv_image_def)

lemma filled_full [simp]: "length got = n \<Longrightarrow> filled x n got = got"
  by (simp add: filled_def)

lemma length_filled [simp]: "length got \<le> n \<Longrightarrow> length (filled x n got) = n"
  by (simp add: filled_def)

definition usable :: "nv_io \<Rightarrow> files \<Rightarrow> string \<Rightarrow> nat \<Rightarrow> bool" where
  "usable io fs p n \<longleftrightarrow> (\<exists>c. read_open io fs p = Some c \<and> valid_image n c)"

abbreviation (input) first_name :: "bool \<Rightarrow> ram_nv_config \<Rightarrow> string" where
  "first_name r cfg \<equiv> (if r then image_path cfg else imageBak_path cfg)"

abbreviation (input) second_name :: "bool \<Rightarrow> ram_nv_config \<Rightarrow> string" where
  "second_name r cfg \<equiv> (if r then imageBak_path cfg else image_path cfg)"

lemma valid_image_room: "valid_image n c \<Longrightarrow> n \<le> length c - 512 \<and> 512 \<le> length c"
  by (auto simp: valid_image_def)

lemma try_first_valid:
  "read_open io fs p = Some c \<Longrightarrow> valid_image n c \<Longrightarrow> try_first io fs p n = (True, image_data n c, n)"
  using valid_image_room [of n c] by (simp add: try_first_def valid_image_def image_data_def chkNVEcc_def Let_def)

lemma try_first_unusable: "\<not> usable io fs p n \<Longrightarrow> \<not> fst (try_first io fs p n)"
  by (auto simp: try_first_def usable_def valid_image_def chkNVEcc_def Let_def min_def not_le
      split: option.splits if_splits)

lemma try_second_valid:
  "read_open io fs p = Some c \<Longrightarrow> valid_image n c \<Longrightarrow>
     try_second io fs p n ret2 = (True, take 512 c, image_data n c)"
  using valid_image_room [of n c] by (simp add: try_second_def valid_image_def image_data_def chkNVEcc_def Let_def)

lemma read_first:
  assumes "getIdx cfgs h = Some cfg" "read_open io fs (first_name r cfg) = Some c"
    "valid_image (length buf0) c"
  shows "ramDisk_Read io r cfgs h buf0 fs = (True, image_data (length buf0) c, fs)"
  using assms(1) try_first_valid [OF assms(2,3)] by (simp add: ramDisk_Read_def)

lemma read_second:
  assumes "getIdx cfgs h = Some cfg" "\<not> usable io fs (first_name r cfg) (length buf0)"
    "read_open io fs (second_name r cfg) = Some c" "valid_image (length buf0) c"
  shows "ramDisk_Read io r cfgs h buf0 fs = (True, image_data (length buf0) c,
     if can_write io (first_name r cfg)
     then fs(first_name r cfg \<mapsto> take (n_head io (first_name r cfg)) (take 512 c)
            @ take (n_body io (first_name r cfg)) (image_data (length buf0) c))
     else fs)"
proof -
  obtain good buf ret2 where f: "try_first io fs (first_name r cfg) (length buf0) = (good, buf, ret2)"
    using prod_cases3 by blast
  with try_first_unusable [OF assms(2)] have "\<not> good" by simp
  with assms(1) f try_second_valid [OF assms(3,4), of ret2] show ?thesis
    by (simp add: ramDisk_Read_def Let_def)
qed

lemma write_image_full:
  "can_write io p \<Longrightarrow> 512 \<le> n_head io p \<Longrightarrow> length buf \<le> n_body io p \<Longrightarrow>
     write_image io p (nv_header buf) buf (ok, fs) = (ok, fs(p \<mapsto> nv_image buf))"
  by (simp add: write_image_def nv_image_def Let_def)

text \<open>Both files can be opened, and a write puts everything asked for.\<close>

definition io_good :: "nv_io \<Rightarrow> string \<Rightarrow> nat \<Rightarrow> bool" where
  "io_good io p n \<longleftrightarrow> can_read io p \<and> can_write io p \<and> 512 \<le> n_head io p \<and> n \<le> n_body io p"

text \<open>
  C25. What is written to a partition is read back, whichever image is tried first, and
  reading changes nothing.
\<close>

theorem ramDisk_write_read:
  assumes "getIdx cfgs h = Some cfg" and "image_path cfg \<noteq> imageBak_path cfg"
    and "io_good io (image_path cfg) (length d)" and "io_good io (imageBak_path cfg) (length d)"
    and "length buf0 = length d"
  shows "\<exists>fs'. ramDisk_Write io cfgs h d fs = (True, fs') \<and> ramDisk_Read io r cfgs h buf0 fs' = (True, d, fs')"
proof -
  let ?fs = "fs(imageBak_path cfg \<mapsto> nv_image d, image_path cfg \<mapsto> nv_image d)"
  have w: "ramDisk_Write io cfgs h d fs = (True, ?fs)"
    using assms(1,3,4) by (simp add: ramDisk_Write_def io_good_def write_image_full)
  have "read_open io ?fs (first_name r cfg) = Some (nv_image d)"
    using assms(2-4) by (simp add: read_open_def io_good_def)
  from read_first [OF assms(1) this] w show ?thesis
    using assms(5) by (simp add: nv_image_valid)
qed

definition nv_cfgs :: "ram_nv_config list" where
  "nv_cfgs = ramDisk_Init ''fixnv1'' ''fixnv2'' 4 ''runtimenv1'' ''runtimenv2'' 4"

definition io_all :: nv_io where
  "io_all = \<lparr>can_read = (\<lambda>_. True), can_write = (\<lambda>_. True), n_head = (\<lambda>_. 512), n_body = (\<lambda>_. 4)\<rparr>"

lemma getIdx_nv_cfgs: "getIdx nv_cfgs 2 = Some \<lparr>partId = 2, image_path = ''runtimenv1'',
    imageBak_path = ''runtimenv2'', image_size = 4\<rparr>"
  by (simp add: nv_cfgs_def ramDisk_Init_def)

theorem ramDisk_write_read_witness:
  "\<exists>fs'. ramDisk_Write io_all nv_cfgs 2 [1, 2, 3, 4] (\<lambda>_. None) = (True, fs')
     \<and> ramDisk_Read io_all False nv_cfgs 2 [0, 0, 0, 0] fs' = (True, [1, 2, 3, 4], fs')"
  by (rule ramDisk_write_read [OF getIdx_nv_cfgs]) (simp_all add: io_good_def io_all_def)

text \<open>
  One usable image is enough: when the image tried first cannot be used, its twin's
  data is returned, and the first image is repaired so that it holds that data too.
\<close>

lemma ramDisk_read_heals:
  assumes "getIdx cfgs h = Some cfg" and "image_path cfg \<noteq> imageBak_path cfg"
    and "\<not> usable io fs (first_name r cfg) (length buf0)"
    and "read_open io fs (second_name r cfg) = Some c" and "valid_image (length buf0) c"
    and "io_good io (first_name r cfg) (length buf0)"
  shows "\<exists>fs' c'. ramDisk_Read io r cfgs h buf0 fs = (True, image_data (length buf0) c, fs')
     \<and> fs' (first_name r cfg) = Some c' \<and> valid_image (length buf0) c'
     \<and> image_data (length buf0) c' = image_data (length buf0) c
     \<and> fs' (second_name r cfg) = fs (second_name r cfg)"
proof -
  let ?n = "length buf0"
  let ?c = "take 512 c @ image_data ?n c"
  have "ramDisk_Read io r cfgs h buf0 fs
      = (True, image_data ?n c, fs(first_name r cfg \<mapsto> ?c))"
    using read_second [OF assms(1,3,4,5)] assms(6) by (simp add: io_good_def image_data_def)
  moreover have "valid_image ?n ?c" "image_data ?n ?c = image_data ?n c"
    using assms(5) valid_image_room [OF assms(5)] by (simp_all add: valid_image_def image_data_def)
  moreover have "(fs(first_name r cfg \<mapsto> ?c)) (second_name r cfg) = fs (second_name r cfg)"
    using assms(2) by simp
  ultimately show ?thesis by (metis fun_upd_same)
qed

lemma ramDisk_read_heals_witness:
  "\<exists>fs' c'. ramDisk_Read io_all True nv_cfgs 2 [0, 0, 0, 0] [''runtimenv2'' \<mapsto> nv_image [1, 2, 3, 4]]
       = (True, image_data (length [0, 0, 0, 0 :: u8]) (nv_image [1, 2, 3, 4]), fs')
     \<and> fs' ''runtimenv1'' = Some c' \<and> valid_image (length [0, 0, 0, 0 :: u8]) c'
     \<and> image_data (length [0, 0, 0, 0 :: u8]) c' = image_data (length [0, 0, 0, 0 :: u8]) (nv_image [1, 2, 3, 4])
     \<and> fs' ''runtimenv2'' = [''runtimenv2'' \<mapsto> nv_image [1, 2, 3, 4]] ''runtimenv2''"
  using ramDisk_read_heals [OF getIdx_nv_cfgs, of io_all "[''runtimenv2'' \<mapsto> nv_image [1, 2, 3, 4]]" True
      "[0, 0, 0, 0]" "nv_image [1, 2, 3, 4]"] nv_image_valid [of "[1, 2, 3, 4]"]
  by (simp add: usable_def read_open_def io_all_def io_good_def)

subsection \<open>Interrupted writes\<close>

text \<open>A file holds one of the data in \<open>S\<close>, or cannot be used.\<close>

definition holds_or_dead :: "u8 list set \<Rightarrow> nat \<Rightarrow> nv_io \<Rightarrow> files \<Rightarrow> string \<Rightarrow> bool" where
  "holds_or_dead S n io fs p \<longleftrightarrow>
     (\<exists>d \<in> S. length d = n \<and> read_open io fs p = Some (nv_image d)) \<or> \<not> usable io fs p n"

lemma read_from_either:
  assumes "getIdx cfgs h = Some cfg"
    and "holds_or_dead S n io fs (image_path cfg)" and "holds_or_dead S n io fs (imageBak_path cfg)"
    and "usable io fs (image_path cfg) n \<or> usable io fs (imageBak_path cfg) n"
    and "length buf0 = n"
  shows "\<exists>d \<in> S. \<exists>fs'. ramDisk_Read io r cfgs h buf0 fs = (True, d, fs')"
proof (cases "usable io fs (first_name r cfg) n")
  case True
  with assms(2,3) obtain d where "d \<in> S" "length d = n"
    "read_open io fs (first_name r cfg) = Some (nv_image d)"
    unfolding holds_or_dead_def by (cases r) auto
  moreover from this have "valid_image (length buf0) (nv_image d)" "image_data (length buf0) (nv_image d) = d"
    using nv_image_valid [of d] assms(5) by simp_all
  ultimately show ?thesis using read_first [OF assms(1), of io fs r "nv_image d" buf0] by auto
next
  case False
  with assms(2-4) obtain d where "d \<in> S" "length d = n"
    "read_open io fs (second_name r cfg) = Some (nv_image d)"
    unfolding holds_or_dead_def by (cases r) auto
  moreover from this have "valid_image (length buf0) (nv_image d)" "image_data (length buf0) (nv_image d) = d"
    using nv_image_valid [of d] assms(5) by simp_all
  ultimately show ?thesis
    using read_second [OF assms(1), of io fs r buf0 "nv_image d"] False assms(5) by auto
qed

lemma short_dead: "read_open io fs p = Some c \<Longrightarrow> length c < 512 + n \<Longrightarrow> \<not> usable io fs p n"
  by (simp add: usable_def valid_image_def)

lemma written_holds:
  assumes "can_read rio p" "length d = n"
  shows "holds_or_dead {d} n rio (fs(p \<mapsto> take h (nv_header d) @ take b d)) p"
proof (cases "512 \<le> h \<and> n \<le> b")
  case True
  with assms show ?thesis by (simp add: holds_or_dead_def read_open_def nv_image_def)
next
  case False
  have "read_open rio (fs(p \<mapsto> take h (nv_header d) @ take b d)) p
      = Some (take h (nv_header d) @ take b d)"
    using assms(1) by (simp add: read_open_def)
  moreover have "length (take h (nv_header d) @ take b d) < 512 + n" using False assms(2) by auto
  ultimately show ?thesis by (simp add: holds_or_dead_def short_dead)
qed

lemma holds_or_dead_mono: "holds_or_dead S n io fs p \<Longrightarrow> S \<subseteq> T \<Longrightarrow> holds_or_dead T n io fs p"
  by (auto simp: holds_or_dead_def)

text \<open>
  The write of one image can stop anywhere; the second image is only touched when the
  first (the backup) is complete. That is what a power cut leaves behind.
\<close>

definition power_cut :: "nv_io \<Rightarrow> ram_nv_config \<Rightarrow> nat \<Rightarrow> bool" where
  "power_cut io cfg n \<longleftrightarrow> \<not> can_write io (image_path cfg)
     \<or> (can_write io (imageBak_path cfg) \<and> 512 \<le> n_head io (imageBak_path cfg)
        \<and> n \<le> n_body io (imageBak_path cfg))"

text \<open>
  C27. A power cut during a write, at any byte, loses nothing as long as the main image was intact
  before, whatever an earlier cut has left of the backup: the next read returns either the old or the new
  contents of the partition, never a mixture.
\<close>

theorem ramDisk_Write_torn:
  assumes "getIdx cfgs h = Some cfg" and "image_path cfg \<noteq> imageBak_path cfg"
    and "fs (image_path cfg) = Some (nv_image old)" and "holds_or_dead {old} (length old) rio fs (imageBak_path cfg)"
    and "length new = length old" and "length buf0 = length old" and "power_cut io cfg (length old)"
    and "can_read rio (image_path cfg)" and "can_read rio (imageBak_path cfg)"
  shows "\<exists>d \<in> {old, new}. \<exists>fs'.
    ramDisk_Read rio r cfgs h buf0 (snd (ramDisk_Write io cfgs h new fs)) = (True, d, fs')"
proof -
  let ?o = "image_path cfg" and ?b = "imageBak_path cfg" and ?n = "length old"
  let ?fb = "if can_write io ?b
    then fs(?b \<mapsto> take (n_head io ?b) (nv_header new) @ take (n_body io ?b) new) else fs"
  let ?fo = "if can_write io ?o
    then ?fb(?o \<mapsto> take (n_head io ?o) (nv_header new) @ take (n_body io ?o) new) else ?fb"
  have w: "snd (ramDisk_Write io cfgs h new fs) = ?fo"
    using assms(1) by (simp add: ramDisk_Write_def write_image_def Let_def)
  have keep: "read_open rio (fs'(q \<mapsto> x)) p = read_open rio fs' p" if "p \<noteq> q" for fs' p q x
    using that by (simp add: read_open_def)
  have old: "holds_or_dead {old} ?n rio fs ?o" "usable rio fs ?o ?n"
    using assms(3,8) by (auto simp: holds_or_dead_def usable_def read_open_def nv_image_valid)
  have irrel: "holds_or_dead S ?n rio (fs'(q \<mapsto> x)) p = holds_or_dead S ?n rio fs' p"
    "usable rio (fs'(q \<mapsto> x)) p ?n = usable rio fs' p ?n" if "p \<noteq> q" for S fs' p q x
    using that by (simp_all add: holds_or_dead_def usable_def keep)
  have "holds_or_dead {old, new} ?n rio ?fo ?o"
    using written_holds [OF assms(8) assms(5)] old assms(2)
    by (auto simp: irrel intro: holds_or_dead_mono)
  moreover have "holds_or_dead {old, new} ?n rio ?fo ?b"
    using written_holds [OF assms(9) assms(5)] assms(2,4)
    by (auto simp: irrel intro: holds_or_dead_mono)
  moreover have "usable rio ?fo ?o ?n \<or> usable rio ?fo ?b ?n"
  proof (cases "can_write io ?o")
    case True
    with assms(7) have "?fo ?b = Some (nv_image new)"
      using assms(2,5) by (simp add: power_cut_def nv_image_def)
    then show ?thesis
      using assms(9) nv_image_valid(1) [of new] assms(5) by (simp add: usable_def read_open_def)
  next
    case False
    with old assms(2) show ?thesis by (simp add: irrel)
  qed
  ultimately show ?thesis unfolding w by (rule read_from_either [OF assms(1) _ _ _ assms(6)])
qed

theorem ramDisk_Write_torn_witness:
  "\<exists>d \<in> {[1, 2, 3, 4], [5, 6, 7, 8]}. \<exists>fs'.
    ramDisk_Read io_all True nv_cfgs 2 [0, 0, 0, 0]
      (snd (ramDisk_Write (io_all\<lparr>n_body := (\<lambda>p. if p = ''runtimenv1'' then 2 else 4)\<rparr>) nv_cfgs 2 [5, 6, 7, 8]
        [''runtimenv1'' \<mapsto> nv_image [1, 2, 3, 4], ''runtimenv2'' \<mapsto> [9]])) = (True, d, fs')"
  by (rule ramDisk_Write_torn [OF getIdx_nv_cfgs])
    (simp_all add: power_cut_def io_all_def holds_or_dead_def usable_def read_open_def valid_image_def)

text \<open>
  With the main image dead the backup is the only copy, and a write starts with it.
\<close>

lemma try_first_short:
  assumes "read_open io fs p = Some c" and "length c < 512 + n"
  shows "\<exists>buf. try_first io fs p n = (False, buf, min n (length c - 512))"
  using assms by (auto simp: try_first_def Let_def)

lemma try_second_short:
  assumes "read_open io fs p = Some c" and "length c < 512 + n"
  shows "try_second io fs p n r2 = (False, filled 0 512 (take 512 c), filled 0xFF n (take n (drop 512 c)))"
  using assms by (auto simp: try_second_def Let_def)

text \<open>
  Two power cuts lose a partition. The first stops a write of \<open>d1\<close> in the main image; a read
  that takes the backup first returns \<open>d1\<close> and repairs nothing; the second cut stops a write of \<open>d2\<close> in the
  backup. From then on a read, whichever image it tries first, reports success and returns the bytes that
  the image it tried last has, filled up with \<open>0xFF\<close>.
\<close>

lemma two_cuts_lose_partition:
  assumes "getIdx cfgs h = Some cfg" and "image_path cfg \<noteq> imageBak_path cfg"
    and "length d1 = n" and "length d2 = n" and "length buf0 = n"
    and "io_good io1 (imageBak_path cfg) n" and "can_write io1 (image_path cfg)" and "512 = n_head io1 (image_path cfg)"
    and "n_body io1 (image_path cfg) < n"
    and "can_write io2 (imageBak_path cfg)" and "512 = n_head io2 (imageBak_path cfg)" and "n_body io2 (imageBak_path cfg) < n"
    and "\<not> can_write io2 (image_path cfg)"
    and "can_read rio (image_path cfg)" and "can_read rio (imageBak_path cfg)"
    and "fs1 = snd (ramDisk_Write io1 cfgs h d1 fs)" and "fs2 = snd (ramDisk_Write io2 cfgs h d2 fs1)"
  shows "ramDisk_Read rio False cfgs h buf0 fs1 = (True, d1, fs1) \<and>
    ramDisk_Read rio True cfgs h buf0 fs2 = (True, filled 0xFF n (take (n_body io2 (imageBak_path cfg)) d2), fs2) \<and>
    ramDisk_Read rio False cfgs h buf0 fs2 = (True, filled 0xFF n (take (n_body io1 (image_path cfg)) d1), fs2)"
proof -
  let ?o = "image_path cfg" and ?b = "imageBak_path cfg"
  let ?t1 = "nv_header d1 @ take (n_body io1 ?o) d1" and ?t2 = "nv_header d2 @ take (n_body io2 ?b) d2"
  have f1: "fs1 = fs(?b \<mapsto> nv_image d1, ?o \<mapsto> ?t1)"
    unfolding assms(16) using assms(1,3,6,7,8)
    by (simp add: ramDisk_Write_def write_image_def io_good_def nv_image_def Let_def)
  have f2: "fs2 = fs1(?b \<mapsto> ?t2)"
    unfolding assms(17) using assms(1,10,11,13) by (simp add: ramDisk_Write_def write_image_def Let_def)
  have r1: "read_open rio fs1 ?b = Some (nv_image d1)"
    using assms(2,15) by (simp add: f1 read_open_def)
  have r2: "read_open rio fs2 ?o = Some ?t1" "read_open rio fs2 ?b = Some ?t2"
    using assms(2,14,15) by (auto simp: f1 f2 read_open_def)
  have l: "length ?t1 < 512 + n" "length ?t2 < 512 + n" using assms(9,12) by simp_all
  have t: "take n (drop 512 ?t1) = take (n_body io1 ?o) d1" "take n (drop 512 ?t2) = take (n_body io2 ?b) d2"
    using assms(9,12) by simp_all
  have a: "ramDisk_Read rio False cfgs h buf0 fs1 = (True, d1, fs1)"
    using read_first [OF assms(1), of rio fs1 False "nv_image d1" buf0] r1 nv_image_valid [of d1] assms(3,5) by simp
  have s2: "try_second rio fs2 ?b n r = (False, filled 0 512 (take 512 ?t2), filled 0xFF n (take (n_body io2 ?b) d2))"
    "try_second rio fs2 ?o n r = (False, filled 0 512 (take 512 ?t1), filled 0xFF n (take (n_body io1 ?o) d1))" for r
    using try_second_short [OF r2(2) l(2)] try_second_short [OF r2(1) l(1)] unfolding t by simp_all
  have "ramDisk_Read rio True cfgs h buf0 fs2 = (True, filled 0xFF n (take (n_body io2 ?b) d2), fs2)"
    using try_first_short [OF r2(1) l(1)] s2(1) assms(1,5) by (auto simp: ramDisk_Read_def)
  moreover have "ramDisk_Read rio False cfgs h buf0 fs2 = (True, filled 0xFF n (take (n_body io1 ?o) d1), fs2)"
    using try_first_short [OF r2(2) l(2)] s2(2) assms(1,5) by (auto simp: ramDisk_Read_def)
  ultimately show ?thesis using a by blast
qed

lemma two_cuts_lose_partition_witness:
  "\<exists>fs1 fs2. fs1 = snd (ramDisk_Write (io_all\<lparr>n_body := (\<lambda>p. if p = ''runtimenv1'' then 2 else 4)\<rparr>) nv_cfgs 2 [5, 6, 7, 8] Map.empty) \<and>
    fs2 = snd (ramDisk_Write (io_all\<lparr>can_write := (\<lambda>p. p = ''runtimenv2''), n_body := (\<lambda>_. 1)\<rparr>) nv_cfgs 2 [9, 9, 9, 9] fs1) \<and>
    ramDisk_Read io_all False nv_cfgs 2 [0, 0, 0, 0] fs1 = (True, [5, 6, 7, 8], fs1) \<and>
    ramDisk_Read io_all True nv_cfgs 2 [0, 0, 0, 0] fs2 = (True, [9, 0xFF, 0xFF, 0xFF], fs2) \<and>
    ramDisk_Read io_all False nv_cfgs 2 [0, 0, 0, 0] fs2 = (True, [5, 6, 0xFF, 0xFF], fs2)"
  using two_cuts_lose_partition [OF getIdx_nv_cfgs _ _ _ _ _ _ _ _ _ _ _ _ _ _ refl refl,
      of "[5, 6, 7, 8]" 4 "[9, 9, 9, 9]" "[0, 0, 0, 0]" "io_all\<lparr>n_body := (\<lambda>p. if p = ''runtimenv1'' then 2 else 4)\<rparr>"
        "io_all\<lparr>can_write := (\<lambda>p. p = ''runtimenv2''), n_body := (\<lambda>_. 1)\<rparr>" io_all Map.empty]
  by (simp add: io_all_def io_good_def filled_def numeral_eq_Suc)

subsection \<open>The stale length\<close>

lemma hword_sum_erased: "hword_sum (replicate (2 * k) 0xFF) = 65535 * k"
proof (induction k)
  case (Suc k)
  have "hword 0xFF 0xFF = 0xFFFF" by (simp add: hword_def)
  then have "unat (hword 0xFF 0xFF) = 65535" by simp
  with Suc show ?case by simp
qed simp

lemma checksum_erased:
  assumes "even n" "0 < n" "n \<le> 131072"
  shows "calc_checksum (replicate n 0xFF) = 0"
proof -
  obtain k where n: "n = 2 * k" using assms(1) by auto
  with assms have k: "0 < k" "k \<le> 65536" by simp_all
  obtain j where j: "k = Suc j" using k(1) by (cases k) auto
  with k have "65535 * k = 65536 * j + (65535 - j)" "j < 65536" by simp_all
  then have "fold_nat (65535 * k) = 65535" by (simp only: fold_nat_split [of j "65535 - j"]) simp
  moreover have "65535 * k < 4294967296" using k by simp
  ultimately have "unat (calc_checksum (replicate n 0xFF)) = 0"
    using calc_checksum_nat [of "replicate n 0xFF"] by (simp add: n hword_sum_erased)
  then show ?thesis by (simp add: unat_eq_0)
qed

lemma try_first_bad_ecc:
  assumes "read_open io fs p = Some c" "512 + n \<le> length c" "\<not> valid_image n c"
  shows "\<exists>buf. try_first io fs p n = (False, buf, n)"
proof -
  have "n \<le> length c - 512" using assms(2) by simp
  with assms show ?thesis
    by (simp add: try_first_def valid_image_def chkNVEcc_def Let_def min_def)
qed

lemma header_checksum_zero: "header_checksum (replicate 512 0) = 0"
  by (simp add: header_checksum_def numeral_eq_Suc)

text \<open>
  A partition whose first image is complete but fails its checksum, and whose second
  image cannot be opened, is erased by reading it: the length left over from the first
  image passes for the second's, the 0xFF fill checks against the zero header, and both
  are written over the first image, which from then on counts as valid.
\<close>

lemma ramDisk_Read_erases:
  assumes "getIdx cfgs h = Some cfg" and "n = length buf0" and "even n" and "0 < n" and "n \<le> 131072"
    and "read_open io fs (first_name r cfg) = Some c" and "512 + n \<le> length c" and "\<not> valid_image n c"
    and "read_open io fs (second_name r cfg) = None" and "io_good io (first_name r cfg) n"
  shows "ramDisk_Read io r cfgs h buf0 fs = (True, replicate n 0xFF,
      fs(first_name r cfg \<mapsto> replicate 512 0 @ replicate n 0xFF))
    \<and> valid_image n (replicate 512 0 @ replicate n 0xFF)"
proof -
  note cs = checksum_erased [OF assms(3-5)]
  obtain buf where f: "try_first io fs (first_name r cfg) n = (False, buf, n)"
    using try_first_bad_ecc [OF assms(6-8)] by blast
  have s: "try_second io fs (second_name r cfg) n n = (True, replicate 512 0, replicate n 0xFF)"
    unfolding try_second_def assms(9) option.case Let_def
    by (simp add: filled_def chkNVEcc_def cs header_checksum_zero)
  have "take (n_head io (first_name r cfg)) (replicate 512 0 :: u8 list) = replicate 512 0"
    "take (n_body io (first_name r cfg)) (replicate n 0xFF :: u8 list) = replicate n 0xFF"
    using assms(10) by (simp_all add: io_good_def)
  with f s assms(1,2,10) have "ramDisk_Read io r cfgs h buf0 fs = (True, replicate n 0xFF,
      fs(first_name r cfg \<mapsto> replicate 512 0 @ replicate n 0xFF))"
    by (simp add: ramDisk_Read_def Let_def io_good_def del: take_replicate)
  moreover have "valid_image n (replicate 512 0 @ replicate n 0xFF)"
    using cs by (simp add: valid_image_def header_checksum_zero)
  ultimately show ?thesis ..
qed

lemma ramDisk_Read_erases_witness:
  "ramDisk_Read io_all True nv_cfgs 2 [0, 0, 0, 0] [''runtimenv1'' \<mapsto> nv_header [1, 2, 3, 4] @ [1, 2, 3, 5]]
     = (True, replicate 4 0xFF, [''runtimenv1'' \<mapsto> nv_header [1, 2, 3, 4] @ [1, 2, 3, 5]]
          (''runtimenv1'' \<mapsto> replicate 512 0 @ replicate 4 0xFF))
   \<and> valid_image 4 (replicate 512 0 @ replicate 4 0xFF)"
proof -
  have "calc_checksum [1, 2, 3, 5] \<noteq> calc_checksum [1, 2, 3, 4]"
    by (simp add: calc_checksum_def sum_fold_def hword_def)
  then have "\<not> valid_image 4 (nv_header [1, 2, 3, 4] @ [1, 2, 3, 5])"
    by (simp add: valid_image_def)
  with ramDisk_Read_erases [OF getIdx_nv_cfgs, of 4 "[0, 0, 0, 0]" io_all
      "[''runtimenv1'' \<mapsto> nv_header [1, 2, 3, 4] @ [1, 2, 3, 5]]" True "nv_header [1, 2, 3, 4] @ [1, 2, 3, 5]"]
  show ?thesis by (simp add: read_open_def io_all_def io_good_def del: replicate_Suc replicate.simps)
qed

end
