(* ===== verification/NvBuf.thy ===== *)
theory NvBuf
  imports NvFs "HOL-Library.Monad_Syntax"
begin

text \<open>
  The three buffers of each NV partition: \<open>open-source/apps/nvitem/nvitem_buf.c\<close>.
  \<open>fromChannel\<close> is what the modem is writing, \<open>backup\<close> the last complete request,
  \<open>toDisk\<close> what the saver writes; each has a table of dirty sectors, one bit per sector.
  A partition's index that does not exist, a store outside a table or buffer and a shift
  by 32 are undefined: \<open>None\<close>.
\<close>

subsection \<open>Definitions\<close>

record buf_ctrl =
  diskbuf :: "u8 list"
  dirty :: "u32 list"

record part_ctrl =
  ppartId :: u32
  sctNum :: nat
  fromChannel :: buf_ctrl
  backup :: buf_ctrl
  toDisk :: buf_ctrl

record nv_ctl =
  parts :: "part_ctrl list"       \<comment> \<open>\<open>part[0..partNum-1]\<close>\<close>
  is_cali_mode :: bool
  saver_events :: nat             \<comment> \<open>signals given to the saver thread\<close>
  disk :: files
  cfgs :: "ram_nv_config list"

text \<open>
  Opening the partitions of the configuration, up to the first entry with partition 0;
  \<open>rs\<close> are the read orders, \<open>junk\<close> the four bytes \<open>malloc\<close> leaves behind the image.
\<close>

fun init_parts ::
  "nv_io \<Rightarrow> (nat \<Rightarrow> bool) \<Rightarrow> u8 list \<Rightarrow> ram_nv_config list \<Rightarrow> nat \<Rightarrow> ram_nv_config list \<Rightarrow> files
     \<Rightarrow> part_ctrl list \<times> files" where
  "init_parts io rs junk allc k [] fs = ([], fs)"
| "init_parts io rs junk allc k (c # cs) fs =
     (if partId c = 0 then ([], fs)
      else if ramDisk_Open (partId c) = 0 then init_parts io rs junk allc (k + 1) cs fs
      else
        (case ramDisk_Read io (rs k) allc (ramDisk_Open (partId c)) (replicate (unat (image_size c)) 0) fs of
           (ok, buf, fs') \<Rightarrow>
             (if \<not> ok then init_parts io rs junk allc (k + 1) cs fs'
              else
                (let b = \<lparr>diskbuf = buf @ junk, dirty = replicate 48 0\<rparr>;
                     p = \<lparr>ppartId = partId c, sctNum = unat (image_size c) div 512,
                          fromChannel = b, backup = b, toDisk = b\<rparr>;
                     (ps, fs'') = init_parts io rs junk allc (k + 1) cs fs'
                 in (p # ps, fs'')))))"

definition initBuf :: "nv_io \<Rightarrow> (nat \<Rightarrow> bool) \<Rightarrow> u8 list \<Rightarrow> nv_ctl \<Rightarrow> nv_ctl" where
  "initBuf io rs junk m =
    (let (ps, fs) = init_parts io rs junk (cfgs m) 0 (cfgs m) (disk m)
     in m\<lparr>parts := ps, disk := fs\<rparr>)"

definition uninitBuf :: "nv_ctl \<Rightarrow> nv_ctl" where
  "uninitBuf m = m\<lparr>parts := []\<rparr>"

fun ctl_index :: "u32 \<Rightarrow> part_ctrl list \<Rightarrow> nat \<Rightarrow> nat option" where
  "ctl_index pid [] i = None"
| "ctl_index pid (p # ps) i = (if pid = ppartId p then Some i else ctl_index pid ps (i + 1))"

definition getCtlId :: "u32 \<Rightarrow> nv_ctl \<Rightarrow> nat option" where
  "getCtlId pid m = ctl_index pid (parts m) 0"

text \<open>The loop of \<open>_markDirtyInfo\<close>: \<open>bytes\<close> is the table index, \<open>bits\<close> the first bit in it.\<close>

function mark_loop :: "nat \<Rightarrow> nat \<Rightarrow> nat \<Rightarrow> u32 list \<Rightarrow> u32 list option" where
  "mark_loop bytes bits scts tbl =
     (if bytes \<ge> length tbl then None
      else if 32 - bits < scts then
        mark_loop (bytes + 1) 0 (scts - (32 - bits))
          (tbl[bytes := tbl ! bytes OR push_bit bits (- 1)])
      else if scts = 0 then None
      else Some (tbl[bytes := tbl ! bytes OR push_bit bits (drop_bit (32 - scts) (- 1))]))"
  by pat_completeness auto
termination by (relation "measure (\<lambda>(bytes, bits, scts, tbl). 2 * scts + (if bits = 0 then 0 else 1))") auto

declare mark_loop.simps [simp del]

definition with_part :: "nat \<Rightarrow> (part_ctrl \<Rightarrow> part_ctrl option) \<Rightarrow> nv_ctl \<Rightarrow> nv_ctl option" where
  "with_part i f m =
    (if i < length (parts m) then do {
       p \<leftarrow> f (parts m ! i);
       Some (m\<lparr>parts := (parts m)[i := p]\<rparr>) }
     else None)"

definition markDirtyInfo :: "nat \<Rightarrow> u32 \<Rightarrow> u32 \<Rightarrow> nv_ctl \<Rightarrow> nv_ctl option" where
  "markDirtyInfo i start scts =
     with_part i (\<lambda>p. do {
       t \<leftarrow> mark_loop (unat (drop_bit 5 start)) (unat (start - push_bit 5 (drop_bit 5 start)))
              (unat scts) (dirty (fromChannel p));
       Some (p\<lparr>fromChannel := (fromChannel p)\<lparr>dirty := t\<rparr>\<rparr>) })"

definition ifHasDirty :: "part_ctrl \<Rightarrow> bool" where
  "ifHasDirty p \<longleftrightarrow> list_ex (\<lambda>w. w \<noteq> 0) (dirty (backup p))"

text \<open>\<open>writeData\<close>: \<open>buf\<close> are the \<open>bytesLen\<close> bytes to copy.\<close>

definition writeData :: "nat \<Rightarrow> u32 \<Rightarrow> u8 list \<Rightarrow> nv_ctl \<Rightarrow> nv_ctl option" where
  "writeData i start buf m =
    (if buf = [] then Some m
     else with_part i (\<lambda>p. do {
       b \<leftarrow> put_bytes (unat start) buf (diskbuf (fromChannel p));
       Some (p\<lparr>fromChannel := (fromChannel p)\<lparr>diskbuf := b\<rparr>\<rparr>) }) m)"

text \<open>\<open>memcpy(dst, src, RAMNV_SECT_SIZE*sctNum)\<close>\<close>

definition copy_sectors :: "nat \<Rightarrow> u8 list \<Rightarrow> u8 list \<Rightarrow> u8 list option" where
  "copy_sectors n src dst = do { bs \<leftarrow> get_bytes 0 (512 * n) src; put_bytes 0 bs dst }"

definition getData :: "part_ctrl \<Rightarrow> part_ctrl option" where
  "getData p = do {
     b \<leftarrow> copy_sectors (sctNum p) (diskbuf (backup p)) (diskbuf (toDisk p));
     Some (p\<lparr>toDisk := \<lparr>diskbuf = b, dirty = map2 (OR) (dirty (toDisk p)) (dirty (backup p))\<rparr>,
             backup := (backup p)\<lparr>dirty := map (\<lambda>_. 0) (dirty (backup p))\<rparr>\<rparr>) }"

text \<open>One turn of the loop of \<open>saveToDisk\<close>.\<close>

definition save_part :: "nv_io \<Rightarrow> ram_nv_config list \<Rightarrow> part_ctrl \<Rightarrow> files \<Rightarrow> (part_ctrl \<times> files) option" where
  "save_part io cs p fs =
    (if ifHasDirty p then do {
       p \<leftarrow> getData p;
       d \<leftarrow> get_bytes 0 (512 * sctNum p) (diskbuf (toDisk p));
       (let (ok, fs) = ramDisk_Write io cs (ramDisk_Open (ppartId p)) d fs
        in Some (if ok then p\<lparr>toDisk := (toDisk p)\<lparr>dirty := map (\<lambda>_. 0) (dirty (toDisk p))\<rparr>\<rparr> else p, fs)) }
     else Some (p, fs))"

fun save_parts :: "nv_io \<Rightarrow> ram_nv_config list \<Rightarrow> part_ctrl list \<Rightarrow> files \<Rightarrow> (part_ctrl list \<times> files) option" where
  "save_parts io cs [] fs = Some ([], fs)"
| "save_parts io cs (p # ps) fs = do {
     (p, fs) \<leftarrow> save_part io cs p fs;
     (ps, fs) \<leftarrow> save_parts io cs ps fs;
     Some (p # ps, fs) }"

definition saveToDisk :: "nv_io \<Rightarrow> nv_ctl \<Rightarrow> nv_ctl option" where
  "saveToDisk io m = do {
     (ps, fs) \<leftarrow> save_parts io (cfgs m) (parts m) (disk m);
     Some (m\<lparr>parts := ps, disk := fs\<rparr>) }"

definition backup_part :: "part_ctrl \<Rightarrow> part_ctrl option" where
  "backup_part p = do {
     b \<leftarrow> copy_sectors (sctNum p) (diskbuf (fromChannel p)) (diskbuf (backup p));
     Some (p\<lparr>backup := \<lparr>diskbuf = b, dirty = map2 (OR) (dirty (backup p)) (dirty (fromChannel p))\<rparr>\<rparr>) }"

definition backupData :: "nv_io \<Rightarrow> nat \<Rightarrow> nv_ctl \<Rightarrow> nv_ctl option" where
  "backupData io i m = do {
     m \<leftarrow> with_part i backup_part m;
     (if is_cali_mode m then saveToDisk io m
      else Some (m\<lparr>saver_events := saver_events m + 1\<rparr>)) }"

definition restore_part :: "part_ctrl \<Rightarrow> part_ctrl option" where
  "restore_part p = do {
     b \<leftarrow> copy_sectors (sctNum p) (diskbuf (backup p)) (diskbuf (fromChannel p));
     Some (p\<lparr>fromChannel := \<lparr>diskbuf = b, dirty = dirty (backup p)\<rparr>\<rparr>) }"

definition restoreData :: "nat \<Rightarrow> nv_ctl \<Rightarrow> nv_ctl option" where
  "restoreData i = with_part i restore_part"

subsection \<open>The dirty table as a set of sectors\<close>

definition dirty_sectors :: "u32 list \<Rightarrow> nat set" where
  "dirty_sectors tbl = {s. s div 32 < length tbl \<and> bit (tbl ! (s div 32)) (s mod 32)}"

lemma dirty_sectors_or:
  "b < length tbl \<Longrightarrow>
     dirty_sectors (tbl[b := tbl ! b OR w]) = dirty_sectors tbl \<union> {s. s div 32 = b \<and> bit w (s mod 32)}"
  by (auto simp: dirty_sectors_def nth_list_update bit_or_iff split: if_splits)

lemma bit_from: "bit (push_bit k (- 1 :: u32)) j \<longleftrightarrow> k \<le> j \<and> j < 32"
  by (auto simp: bit_simps)

lemma bit_range: "bit (push_bit k (drop_bit (32 - n) (- 1 :: u32))) j \<longleftrightarrow> k \<le> j \<and> j < 32 \<and> 32 - n + (j - k) < 32"
  by (auto simp: bit_simps)

lemma div_range:
  fixes s b k m :: nat
  assumes "m \<le> 32"
  shows "s div 32 = b \<and> k \<le> s mod 32 \<and> s mod 32 < m \<longleftrightarrow> 32 * b + k \<le> s \<and> s < 32 * b + m"
proof -
  have s: "32 * (s div 32) + s mod 32 = s" by simp
  show ?thesis
  proof
    assume "s div 32 = b \<and> k \<le> s mod 32 \<and> s mod 32 < m"
    with s show "32 * b + k \<le> s \<and> s < 32 * b + m" by linarith
  next
    assume r: "32 * b + k \<le> s \<and> s < 32 * b + m"
    with assms have "s div 32 = b" by (intro div_nat_eqI) simp_all
    with r s show "s div 32 = b \<and> k \<le> s mod 32 \<and> s mod 32 < m" by linarith
  qed
qed

lemma bits_from:
  assumes "bits < 32"
  shows "{s. s div 32 = b \<and> bit (push_bit bits (- 1 :: u32)) (s mod 32)} = {32 * b + bits..<32 * b + 32}"
  unfolding bit_from div_range [OF order_refl] by auto

lemma bits_range:
  assumes "bits + n \<le> 32" "0 < n"
  shows "{s. s div 32 = b \<and> bit (push_bit bits (drop_bit (32 - n) (- 1 :: u32))) (s mod 32)}
    = {32 * b + bits..<32 * b + bits + n}"
proof -
  have "bits \<le> s mod 32 \<and> s mod 32 < 32 \<and> 32 - n + (s mod 32 - bits) < 32
      \<longleftrightarrow> bits \<le> s mod 32 \<and> s mod 32 < bits + n" for s :: nat
    using assms by auto
  then show ?thesis
    unfolding bit_range by (simp only: div_range [OF assms(1)]) auto
qed

lemma mark_loop_spec:
  "bits < 32 \<Longrightarrow> 0 < scts \<Longrightarrow>
     (if 32 * bytes + bits + scts \<le> 32 * length tbl
      then \<exists>t. mark_loop bytes bits scts tbl = Some t \<and> length t = length tbl
        \<and> dirty_sectors t = dirty_sectors tbl \<union> {32 * bytes + bits..<32 * bytes + bits + scts}
      else mark_loop bytes bits scts tbl = None)"
proof (induction bytes bits scts tbl rule: mark_loop.induct)
  case (1 bytes bits scts tbl)
  show ?case
  proof (cases "bytes \<ge> length tbl")
    case True
    with 1(2,3) show ?thesis by (subst mark_loop.simps) auto
  next
    case False
    then have b: "bytes < length tbl" by simp
    show ?thesis
    proof (cases "32 - bits < scts")
      case True
      let ?t = "tbl[bytes := tbl ! bytes OR push_bit bits (- 1)]"
      have eq: "mark_loop bytes bits scts tbl = mark_loop (bytes + 1) 0 (scts - (32 - bits)) ?t"
        using False True by (subst mark_loop.simps) simp
      have t: "dirty_sectors ?t = dirty_sectors tbl \<union> {32 * bytes + bits..<32 * bytes + 32}"
        by (simp only: dirty_sectors_or [OF b] bits_from [OF 1(2)])
      have sum: "32 * (bytes + 1) + 0 + (scts - (32 - bits)) = 32 * bytes + bits + scts"
        using True 1(2) by simp
      have "{32 * bytes + bits..<32 * bytes + 32} \<union> {32 * (bytes + 1) + 0..<32 * bytes + bits + scts}
          = {32 * bytes + bits..<32 * bytes + bits + scts}"
        using True 1(2) by auto
      then have u: "dirty_sectors ?t \<union> {32 * (bytes + 1) + 0..<32 * bytes + bits + scts}
          = dirty_sectors tbl \<union> {32 * bytes + bits..<32 * bytes + bits + scts}"
        unfolding t by blast
      from 1(1) [OF False True] True show ?thesis
        unfolding eq sum length_list_update u by simp
    next
      case small: False
      with 1(2,3) b have "mark_loop bytes bits scts tbl
          = Some (tbl[bytes := tbl ! bytes OR push_bit bits (drop_bit (32 - scts) (- 1))])"
        by (subst mark_loop.simps) simp
      moreover have "bits + scts \<le> 32" using small 1(2) by simp
      ultimately show ?thesis
        using b 1(3) dirty_sectors_or [OF b, of "push_bit bits (drop_bit (32 - scts) (- 1))",
            unfolded bits_range [OF \<open>bits + scts \<le> 32\<close> 1(3)]] by simp
    qed
  qed
qed

lemma sector_split: "32 * unat (drop_bit 5 start) + unat (start - push_bit 5 (drop_bit 5 start)) = unat (start :: u32)"
  "unat (start - push_bit 5 (drop_bit 5 start)) < 32"
proof -
  have "start - push_bit 5 (drop_bit 5 start) = take_bit 5 start"
    by (metis add_diff_cancel_left' bits_ident add.commute)
  then show "32 * unat (drop_bit 5 start) + unat (start - push_bit 5 (drop_bit 5 start)) = unat start"
    "unat (start - push_bit 5 (drop_bit 5 start)) < 32"
    by (simp_all add: unat_drop_bit unat_take_bit)
qed

text \<open>
  \<open>_markDirtyInfo\<close> adds exactly the sectors from \<open>start\<close> on to the dirty set; it is
  defined exactly for a positive number of sectors that all lie in the table.
\<close>

lemma markDirtyInfo_sectors:
  assumes "i < length (parts m)" and "tbl = dirty (fromChannel (parts m ! i))"
  shows "if 0 < scts \<and> unat start + unat scts \<le> 32 * length tbl
    then \<exists>m'. markDirtyInfo i start scts m = Some m'
      \<and> length (dirty (fromChannel (parts m' ! i))) = length tbl
      \<and> dirty_sectors (dirty (fromChannel (parts m' ! i)))
          = dirty_sectors tbl \<union> {unat start..<unat start + unat scts}
      \<and> map (diskbuf \<circ> fromChannel) (parts m') = map (diskbuf \<circ> fromChannel) (parts m)
    else markDirtyInfo i start scts m = None"
proof (cases "scts = 0")
  case True
  have "mark_loop a b 0 tbl = None" for a b by (subst mark_loop.simps) simp
  with True assms show ?thesis by (simp add: markDirtyInfo_def with_part_def)
next
  case False
  then have "0 < unat scts" by (simp add: unat_gt_0)
  note spec = mark_loop_spec [OF sector_split(2) [of start] this, of "unat (drop_bit 5 start)" tbl,
      unfolded sector_split(1)]
  show ?thesis
  proof (cases "unat start + unat scts \<le> 32 * length tbl")
    case True
    with spec obtain t where "mark_loop (unat (drop_bit 5 start)) (unat (start - push_bit 5 (drop_bit 5 start)))
        (unat scts) tbl = Some t" "length t = length tbl"
      "dirty_sectors t = dirty_sectors tbl \<union> {unat start..<unat start + unat scts}" by auto
    moreover have "map (diskbuf \<circ> fromChannel) ((parts m)[i := (parts m ! i)
        \<lparr>fromChannel := (fromChannel (parts m ! i))\<lparr>dirty := t\<rparr>\<rparr>]) = map (diskbuf \<circ> fromChannel) (parts m)"
      using assms(1) by (simp add: map_update list_update_same_conv)
    ultimately show ?thesis
      using True False assms by (simp add: markDirtyInfo_def with_part_def word_gt_0 map_update)
  next
    case no: False
    with spec have "mark_loop (unat (drop_bit 5 start)) (unat (start - push_bit 5 (drop_bit 5 start)))
        (unat scts) tbl = None" by simp
    with no assms show ?thesis by (simp add: markDirtyInfo_def with_part_def)
  qed
qed

definition demo_part :: part_ctrl where
  "demo_part = (let b = \<lparr>diskbuf = replicate 1028 0, dirty = replicate 48 0\<rparr>
     in \<lparr>ppartId = 1, sctNum = 2, fromChannel = b, backup = b, toDisk = b\<rparr>)"

definition demo_nv :: nv_ctl where
  "demo_nv = \<lparr>parts = [demo_part], is_cali_mode = True, saver_events = 0, disk = (\<lambda>_. None),
     cfgs = ramDisk_Init ''fixnv1'' ''fixnv2'' 1024 ''runtimenv1'' ''runtimenv2'' 1024\<rparr>"

lemma markDirtyInfo_sectors_witness:
  "\<exists>m'. markDirtyInfo 0 1 1 demo_nv = Some m'
     \<and> dirty_sectors (dirty (fromChannel (parts m' ! 0)))
       = dirty_sectors (replicate 48 0) \<union> {unat (1 :: u32)..<unat (1 :: u32) + unat (1 :: u32)}"
proof -
  have p: "0 < length (parts demo_nv)" "replicate 48 0 = dirty (fromChannel (parts demo_nv ! 0))"
    by (simp_all add: demo_nv_def demo_part_def Let_def)
  have c: "0 < (1 :: u32) \<and> unat (1 :: u32) + unat (1 :: u32) \<le> 32 * length (replicate 48 (0 :: u32))"
    by simp
  show ?thesis
    using markDirtyInfo_sectors [OF p, of 1 1, unfolded if_P [OF c]] by blast
qed

subsection \<open>Well-formed partitions\<close>

definition wf_part :: "part_ctrl \<Rightarrow> bool" where
  "wf_part p \<longleftrightarrow> 512 * sctNum p \<le> length (diskbuf (fromChannel p))
     \<and> length (diskbuf (backup p)) = length (diskbuf (fromChannel p))
     \<and> length (diskbuf (toDisk p)) = length (diskbuf (fromChannel p))
     \<and> length (dirty (fromChannel p)) = 48 \<and> length (dirty (backup p)) = 48
     \<and> length (dirty (toDisk p)) = 48"

text \<open>The sectors of a buffer, as the disk holds them.\<close>

definition sectors :: "part_ctrl \<Rightarrow> buf_ctrl \<Rightarrow> u8 list" where
  "sectors p b = take (512 * sctNum p) (diskbuf b)"

lemma copy_sectors_Some:
  assumes "512 * n \<le> length src" "512 * n \<le> length dst"
  shows "copy_sectors n src dst = Some (take (512 * n) src @ drop (512 * n) dst)"
  using assms by (simp add: copy_sectors_def get_bytes_def put_bytes_def min_def)

lemma backup_part_spec:
  assumes "wf_part p"
  obtains p' where "backup_part p = Some p'" "wf_part p'" "sectors p' (backup p') = sectors p (fromChannel p)"
    "fromChannel p' = fromChannel p" "sctNum p' = sctNum p" "ppartId p' = ppartId p" "toDisk p' = toDisk p"
    "dirty (backup p') = map2 (OR) (dirty (backup p)) (dirty (fromChannel p))"
proof -
  let ?d = "take (512 * sctNum p) (diskbuf (fromChannel p)) @ drop (512 * sctNum p) (diskbuf (backup p))"
  have "backup_part p = Some (p\<lparr>backup := \<lparr>diskbuf = ?d,
      dirty = map2 (OR) (dirty (backup p)) (dirty (fromChannel p))\<rparr>\<rparr>)"
    using assms by (simp add: backup_part_def copy_sectors_Some wf_part_def)
  then show thesis
    by (rule that) (use assms in \<open>simp_all add: wf_part_def sectors_def\<close>)
qed

lemma restore_part_spec:
  assumes "wf_part p"
  obtains p' where "restore_part p = Some p'" "wf_part p'" "sectors p' (fromChannel p') = sectors p (backup p)"
    "backup p' = backup p" "sctNum p' = sctNum p" "ppartId p' = ppartId p" "toDisk p' = toDisk p"
    "dirty (fromChannel p') = dirty (backup p)"
proof -
  let ?d = "take (512 * sctNum p) (diskbuf (backup p)) @ drop (512 * sctNum p) (diskbuf (fromChannel p))"
  have "restore_part p = Some (p\<lparr>fromChannel := \<lparr>diskbuf = ?d, dirty = dirty (backup p)\<rparr>\<rparr>)"
    using assms by (simp add: restore_part_def copy_sectors_Some wf_part_def)
  then show thesis
    by (rule that) (use assms in \<open>simp_all add: wf_part_def sectors_def\<close>)
qed

lemma getData_spec:
  assumes "wf_part p"
  obtains p' where "getData p = Some p'" "wf_part p'" "sectors p' (toDisk p') = sectors p (backup p)"
    "diskbuf (backup p') = diskbuf (backup p)" "fromChannel p' = fromChannel p" "sctNum p' = sctNum p"
    "ppartId p' = ppartId p" "\<not> ifHasDirty p'"
proof -
  let ?d = "take (512 * sctNum p) (diskbuf (backup p)) @ drop (512 * sctNum p) (diskbuf (toDisk p))"
  have "getData p = Some (p\<lparr>toDisk := \<lparr>diskbuf = ?d, dirty = map2 (OR) (dirty (toDisk p)) (dirty (backup p))\<rparr>,
      backup := (backup p)\<lparr>dirty := map (\<lambda>_. 0) (dirty (backup p))\<rparr>\<rparr>)"
    using assms by (simp add: getData_def copy_sectors_Some wf_part_def)
  then show thesis
    by (rule that) (use assms in \<open>simp_all add: wf_part_def sectors_def ifHasDirty_def list_ex_iff\<close>)
qed

lemma save_part_clean: "\<not> ifHasDirty p \<Longrightarrow> save_part io cs p fs = Some (p, fs)"
  by (simp add: save_part_def)

lemma save_part_spec:
  assumes "wf_part p" "ifHasDirty p"
  obtains p' ok fs' where "save_part io cs p fs = Some (p', fs')"
    "ramDisk_Write io cs (ppartId p) (sectors p (backup p)) fs = (ok, fs')"
    "wf_part p'" "\<not> ifHasDirty p'" "fromChannel p' = fromChannel p" "sctNum p' = sctNum p"
    "ppartId p' = ppartId p" "diskbuf (backup p') = diskbuf (backup p)"
proof -
  obtain p1 where p1: "getData p = Some p1" "wf_part p1" "sectors p1 (toDisk p1) = sectors p (backup p)"
    "diskbuf (backup p1) = diskbuf (backup p)" "fromChannel p1 = fromChannel p" "sctNum p1 = sctNum p"
    "ppartId p1 = ppartId p" "\<not> ifHasDirty p1"
    by (rule getData_spec [OF assms(1)])
  have g: "get_bytes 0 (512 * sctNum p1) (diskbuf (toDisk p1)) = Some (sectors p (backup p))"
    using p1(2,3) by (simp add: get_bytes_def sectors_def wf_part_def)
  obtain ok fs' where w: "ramDisk_Write io cs (ppartId p) (sectors p (backup p)) fs = (ok, fs')"
    by fastforce
  let ?p = "if ok then p1\<lparr>toDisk := (toDisk p1)\<lparr>dirty := map (\<lambda>_. 0) (dirty (toDisk p1))\<rparr>\<rparr> else p1"
  have "save_part io cs p fs = Some (?p, fs')"
    using assms(2) p1(1,6,7) g w by (simp add: save_part_def ramDisk_Open_def)
  moreover have "wf_part ?p" "\<not> ifHasDirty ?p" using p1 by (auto simp: wf_part_def ifHasDirty_def)
  ultimately show thesis using that [of ?p fs' ok] w p1 by auto
qed

text \<open>
  A partition is saved at most once per request, even when writing it failed: whatever
  the first save did, the next one writes nothing.
\<close>

lemma failed_save_is_not_retried:
  assumes "wf_part p" and "save_part io cs p fs = Some (p', fs')"
  shows "save_part io' cs p' fs'' = Some (p', fs'')"
proof (cases "ifHasDirty p")
  case True
  with assms show ?thesis by (metis save_part_clean save_part_spec option.inject prod.inject)
next
  case False
  with assms show ?thesis by (simp add: save_part_clean)
qed

lemma failed_save_is_not_retried_witness:
  "\<exists>p' fs'. save_part (io_all\<lparr>n_body := (\<lambda>_. 0)\<rparr>) (cfgs demo_nv)
        (demo_part\<lparr>backup := (backup demo_part)\<lparr>dirty := 1 # replicate 47 0\<rparr>\<rparr>) (\<lambda>_. None) = Some (p', fs')
     \<and> save_part io_all (cfgs demo_nv) p' fs' = Some (p', fs')"
proof -
  let ?p = "demo_part\<lparr>backup := (backup demo_part)\<lparr>dirty := 1 # replicate 47 0\<rparr>\<rparr>"
  have p: "wf_part ?p" "ifHasDirty ?p"
    by (simp_all add: wf_part_def demo_part_def Let_def ifHasDirty_def)
  then obtain p' fs' where s: "save_part (io_all\<lparr>n_body := (\<lambda>_. 0)\<rparr>) (cfgs demo_nv) ?p (\<lambda>_. None) = Some (p', fs')"
    using save_part_spec by metis
  with failed_save_is_not_retried [OF p(1) s] show ?thesis by blast
qed

end
