(* ===== verification/NvSync.thy ===== *)
theory NvSync
  imports NvBuf
begin

text \<open>
  The synchronisation server of the modem's NV storage: packets
  (\<open>open-source/apps/nvitem/nvitem_packet.c\<close>, with \<open>channel_read\<close> of
  \<open>nvitem_channe_spipe.c\<close>, the variant of the channel that \<open>Android.mk\<close> builds) and the
  request analyser (\<open>nvitem_sync.c\<close>). A request is a head token, body tokens each followed by
  sector data, and a tail token; tokens have 20 bytes.

  The channel is a script: each entry is one \<open>read\<close>, \<open>None\<close> when it returns -1. The current
  position in the packet buffer is the list of bytes from it to the end of the buffer;
  reading past that end is undefined.
\<close>

subsection \<open>Packets\<close>

datatype packet_result = PACKET_FAIL | PACKET_SKIP | PACKET_START | PACKET_CONTINUE

record packet =
  packeBuf :: "u8 list"          \<comment> \<open>20 + 1024 bytes\<close>
  idxGrp :: u32
  idxSub :: u32

definition initPacket :: "packet \<Rightarrow> packet" where
  "initPacket k = k\<lparr>idxGrp := - 1, idxSub := 0\<rparr>"

definition head_field :: "nat \<Rightarrow> packet \<Rightarrow> u32" where
  "head_field i k = from_le32 (drop (4 * i) (packeBuf k))"

abbreviation (input) MAGICNUM :: u32 where "MAGICNUM \<equiv> 0x524d4e56"

text \<open>
  \<open>channel_read\<close> compares counts with sign, so an error and a short read both fail; the first
  component is its result, the second \<open>hasRead\<close>. What a short read left in the buffer stays.
\<close>

definition channel_read :: "u8 list option \<Rightarrow> packet \<Rightarrow> bool \<times> int \<times> packet" where
  "channel_read r k =
    (case r of
       None \<Rightarrow> (False, -1, k)
     | Some bs \<Rightarrow>
       (let got = take 1044 bs
        in (length got = 1044, int (length got), k\<lparr>packeBuf := got @ drop (length got) (packeBuf k)\<rparr>)))"

text \<open>The size check is signed: \<open>20 + sizeOfPacket\<close> is cast to \<open>int32\<close>.\<close>

definition getPacket :: "u8 list option \<Rightarrow> packet \<Rightarrow> packet_result \<times> u8 list \<times> u32 \<times> packet" where
  "getPacket r k =
    (case channel_read r k of (ok, hasRead, k) \<Rightarrow>
       (let grp = head_field 2 k; sub = head_field 3 k; sz = head_field 4 k;
            body = drop 20 (packeBuf k)
        in if \<not> ok then (PACKET_FAIL, [], 0, k)
           else if hasRead < 20 then (PACKET_SKIP, [], 0, k)
           else if MAGICNUM \<noteq> head_field 0 k then (PACKET_SKIP, [], 0, k)
           else if hasRead < sint (20 + sz) then (PACKET_SKIP, [], 0, k)
           else if idxGrp k = grp then
             (if idxSub k + 1 = sub then (PACKET_CONTINUE, body, sz, k\<lparr>idxSub := idxSub k + 1\<rparr>)
              else (PACKET_SKIP, [], 0, k))
           else if sub = 0 then (PACKET_START, body, sz, k\<lparr>idxGrp := grp, idxSub := 0\<rparr>)
           else (PACKET_SKIP, [], 0, k)))"

text \<open>The answer: the packet's header with no ECC and size 1, and 16 bytes of body.\<close>

definition sendPacktRsp :: "u8 \<Rightarrow> packet \<Rightarrow> u8 list" where
  "sendPacktRsp rsp k =
     take 4 (packeBuf k) @ le32 0 @ take 8 (drop 8 (packeBuf k)) @ le32 1 @ rsp # replicate 15 0"

subsection \<open>The analyser\<close>

record sync =
  nv :: nv_ctl
  pkt :: packet
  syncState :: nat
  syncBusy :: bool
  syncReqFrame :: u32
  syncReqBuf :: "u8 list"        \<comment> \<open>20 pointers, so 80 bytes\<close>
  ofst :: nat
  sid :: "nat option"            \<comment> \<open>\<open>_id\<close>, \<open>None\<close> for -1\<close>
  start :: u32
  len :: u32
  rsps :: "u8 list list"         \<comment> \<open>answers sent, oldest first\<close>

definition syncInit :: "sync \<Rightarrow> sync" where
  "syncInit s = s\<lparr>syncState := 0, syncBusy := False, syncReqFrame := 0, ofst := 0, sid := None,
     start := 0, len := 0\<rparr>"

definition with_nv :: "(nv_ctl \<Rightarrow> nv_ctl option) \<Rightarrow> sync \<Rightarrow> sync option" where
  "with_nv f s = do { m \<leftarrow> f (nv s); Some (s\<lparr>nv := m\<rparr>) }"

definition syncReset :: "nv_io \<Rightarrow> bool \<Rightarrow> sync \<Rightarrow> sync option" where
  "syncReset io ifSuc s = do {
     s \<leftarrow> (if ifSuc then do { i \<leftarrow> sid s; with_nv (backupData io i) s }
           else if syncState s \<noteq> 0 then do { i \<leftarrow> sid s; with_nv (restoreData i) s }
           else Some s);
     Some (syncInit s) }"

definition respond :: "u8 \<Rightarrow> sync \<Rightarrow> sync" where
  "respond r s = s\<lparr>rsps := rsps s @ [sendPacktRsp r (pkt s)]\<rparr>"

text \<open>
  \<open>__getToken\<close>: with less than a token's rest in the packet it answers false and leaves
  the bytes where they are. The offset is added to a pointer to pointers.
\<close>

definition getToken :: "u8 list \<Rightarrow> u32 \<Rightarrow> sync \<Rightarrow> (bool \<times> u8 list \<times> u32 \<times> sync) option" where
  "getToken buf sz s =
    (if 20 - ofst s > unat sz then
       (if sz \<noteq> 0 then Some (False, buf, sz, s) else Some (False, buf, 0, s))
     else if 20 - ofst s = 0 then Some (True, buf, sz, s\<lparr>ofst := 0\<rparr>)
     else do {
       t \<leftarrow> get_bytes 0 (20 - ofst s) buf;
       b \<leftarrow> put_bytes (4 * ofst s) t (syncReqBuf s);
       Some (True, drop (20 - ofst s) buf, sz - of_nat (20 - ofst s), s\<lparr>syncReqBuf := b, ofst := 0\<rparr>) })"

datatype sync_ret = SYNC_CONTINUE | SYNC_NEXT | SYNC_DONE | SYNC_FAIL

definition req_field :: "nat \<Rightarrow> sync \<Rightarrow> u32" where
  "req_field i s = from_le32 (drop (4 * i) (syncReqBuf s))"

definition syncGetHead :: "u8 list \<Rightarrow> u32 \<Rightarrow> sync \<Rightarrow> (sync_ret \<times> u8 list \<times> u32 \<times> sync) option" where
  "syncGetHead buf sz s = do {
     (tok, buf, sz, s) \<leftarrow> getToken buf sz s;
     (if \<not> tok then Some (SYNC_CONTINUE, buf, sz, s)
      else if req_field 0 s \<noteq> 0 then Some (SYNC_FAIL, buf, sz, s)
      else
        (let s = s\<lparr>syncReqFrame := req_field 1 s, sid := getCtlId (req_field 2 s) (nv s)\<rparr>
         in if sid s = None then Some (SYNC_FAIL, buf, sz, s) else Some (SYNC_NEXT, buf, sz, s))) }"

definition syncGetBody :: "u8 list \<Rightarrow> u32 \<Rightarrow> sync \<Rightarrow> (sync_ret \<times> u8 list \<times> u32 \<times> sync) option" where
  "syncGetBody buf sz s = do {
     (tok, buf, sz, s) \<leftarrow> getToken buf sz s;
     (if \<not> tok then Some (SYNC_CONTINUE, buf, sz, s)
      else if req_field 0 s = 1 then
        (if syncReqFrame s + 1 \<noteq> req_field 1 s then Some (SYNC_FAIL, buf, sz, s)
         else do {
           i \<leftarrow> sid s;
           s \<leftarrow> with_nv (markDirtyInfo i (req_field 3 s) (req_field 4 s)) (s\<lparr>syncReqFrame := syncReqFrame s + 1\<rparr>);
           Some (SYNC_NEXT, buf, sz, s\<lparr>start := req_field 3 s * 512, len := req_field 4 s * 512\<rparr>) })
      else if req_field 0 s = 2 then
        (if syncReqFrame s + 1 \<noteq> req_field 1 s then Some (SYNC_FAIL, buf, sz, s)
         else Some (SYNC_DONE, buf, sz, s\<lparr>syncReqFrame := syncReqFrame s + 1\<rparr>))
      else Some (SYNC_FAIL, buf, sz, s)) }"

definition syncGetData :: "u8 list \<Rightarrow> u32 \<Rightarrow> sync \<Rightarrow> (sync_ret \<times> u8 list \<times> u32 \<times> sync) option" where
  "syncGetData buf sz s = do {
     i \<leftarrow> sid s;
     (let n = (if len s \<le> sz then len s else sz) in do {
        d \<leftarrow> get_bytes 0 (unat n) buf;
        s \<leftarrow> with_nv (writeData i (start s) d) s;
        (if len s \<le> sz
         then Some (SYNC_NEXT, drop (unat n) buf, sz - n, s\<lparr>start := start s + n, len := 0\<rparr>)
         else Some (SYNC_CONTINUE, drop (unat n) buf, 0, s\<lparr>start := start s + n, len := len s - n\<rparr>)) }) }"

text \<open>
  One turn of the inner loop: the next position when it goes on, none when it breaks.
\<close>

definition analyze_step ::
  "nv_io \<Rightarrow> u8 list \<Rightarrow> u32 \<Rightarrow> sync \<Rightarrow> ((u8 list \<times> u32) option \<times> sync) option" where
  "analyze_step io buf sz s =
    (if syncState s = 0 then do {
       (r, buf, sz, s) \<leftarrow> syncGetHead buf sz s;
       (case r of
          SYNC_FAIL \<Rightarrow> do { s \<leftarrow> syncReset io False s; Some (None, respond 0 s) }
        | SYNC_NEXT \<Rightarrow> Some (Some (buf, sz), s\<lparr>syncState := 1\<rparr>)
        | _ \<Rightarrow> Some (None, respond 1 s)) }
     else if syncState s = 1 then do {
       (r, buf, sz, s) \<leftarrow> syncGetBody buf sz s;
       (case r of
          SYNC_FAIL \<Rightarrow> do { s \<leftarrow> syncReset io False s; Some (None, respond 0 s) }
        | SYNC_NEXT \<Rightarrow> Some (Some (buf, sz), s\<lparr>syncState := 2\<rparr>)
        | SYNC_CONTINUE \<Rightarrow> Some (None, respond 1 s)
        | SYNC_DONE \<Rightarrow> do { s \<leftarrow> syncReset io True s; Some (None, respond 1 s) }) }
     else do {
       (r, buf, sz, s) \<leftarrow> syncGetData buf sz s;
       (case r of
          SYNC_CONTINUE \<Rightarrow> Some (None, respond 1 s)
        | _ \<Rightarrow> Some (Some (buf, sz), s\<lparr>syncState := 1\<rparr>)) })"

text \<open>Every turn that goes on consumes bytes, or leaves the data state.\<close>

definition loop_measure :: "u32 \<Rightarrow> sync \<Rightarrow> nat" where
  "loop_measure sz s = 4 * unat sz + (if 20 \<le> ofst s then 2 else 0) + (if syncState s \<le> 1 then 0 else 1)"

lemma getToken_measure:
  assumes "getToken buf sz s = Some (True, buf', sz', s')"
  shows "4 * unat sz' + (if 20 \<le> ofst s' then 2 else 0) + 2 \<le> 4 * unat sz + (if 20 \<le> ofst s then 2 else 0)
    \<and> syncState s' = syncState s \<and> nv s' = nv s \<and> ofst s' = 0"
proof (cases "20 - ofst s = 0")
  case True
  with assms show ?thesis by (auto simp: getToken_def split: if_splits)
next
  case False
  with assms have le: "20 - ofst s \<le> unat sz" and sz': "sz' = sz - of_nat (20 - ofst s)"
    and s': "ofst s' = 0" "syncState s' = syncState s" "nv s' = nv s"
    by (auto simp: getToken_def bind_eq_Some_conv split: if_splits)
  have "unat (of_nat (20 - ofst s) :: u32) = 20 - ofst s"
    by (simp add: unat_of_nat take_bit_nat_eq_self)
  with le have "unat sz' = unat sz - (20 - ofst s)"
    unfolding sz' by (simp add: unat_sub word_le_nat_alt)
  with le False s' show ?thesis by simp
qed

lemma step_decreases:
  assumes "analyze_step io buf sz s = Some (Some (buf', sz'), s')"
  shows "loop_measure sz' s' < loop_measure sz s"
proof -
  consider "syncState s = 0" | "syncState s = 1" | "1 < syncState s" by linarith
  then show ?thesis
  proof cases
    case 1
    with assms obtain tok t buf1 sz1 s1 where g: "syncGetHead buf sz s = Some (SYNC_NEXT, buf1, sz1, s1)"
      and s': "sz' = sz1" "s' = s1\<lparr>syncState := 1\<rparr>"
      by (auto simp: analyze_step_def bind_eq_Some_conv split: sync_ret.splits if_splits)
        (metis sync_ret.exhaust)
    then obtain s2 where "getToken buf sz s = Some (True, buf1, sz1, s2)" "ofst s1 = ofst s2"
      by (auto simp: syncGetHead_def bind_eq_Some_conv Let_def split: if_splits)
    with getToken_measure [OF this(1)] s' 1 show ?thesis by (auto simp: loop_measure_def split: if_splits)
  next
    case 2
    with assms obtain tok t buf1 sz1 s1 where g: "syncGetBody buf sz s = Some (SYNC_NEXT, buf1, sz1, s1)"
      and s': "sz' = sz1" "s' = s1\<lparr>syncState := 2\<rparr>"
      by (auto simp: analyze_step_def bind_eq_Some_conv split: sync_ret.splits if_splits)
        (metis sync_ret.exhaust)
    then obtain s2 where "getToken buf sz s = Some (True, buf1, sz1, s2)" "ofst s1 = ofst s2"
      by (auto simp: syncGetBody_def bind_eq_Some_conv with_nv_def split: if_splits)
    with getToken_measure [OF this(1)] s' 2 show ?thesis by (auto simp: loop_measure_def split: if_splits)
  next
    case 3
    with assms obtain buf1 sz1 s1 r where g: "syncGetData buf sz s = Some (r, buf1, sz1, s1)"
      and s': "sz' = sz1" "s' = s1\<lparr>syncState := 1\<rparr>" and r: "r \<noteq> SYNC_CONTINUE"
      by (auto simp: analyze_step_def bind_eq_Some_conv split: sync_ret.splits if_splits)
        (metis sync_ret.exhaust)
    then have "sz1 \<le> sz" "ofst s1 = ofst s"
      by (auto simp: syncGetData_def bind_eq_Some_conv Let_def with_nv_def word_le_nat_alt unat_sub
          split: if_splits)
    with s' 3 show ?thesis by (auto simp: loop_measure_def word_le_nat_alt)
  qed
qed

function analyze_loop :: "nv_io \<Rightarrow> u8 list \<Rightarrow> u32 \<Rightarrow> sync \<Rightarrow> sync option" where
  "analyze_loop io buf sz s =
    (if sz = 0 then Some s
     else case analyze_step io buf sz s of
       None \<Rightarrow> None
     | Some (None, s') \<Rightarrow> Some s'
     | Some (Some (buf', sz'), s') \<Rightarrow> analyze_loop io buf' sz' s')"
  by pat_completeness auto
termination
  by (relation "measure (\<lambda>(io, buf, sz, s). loop_measure sz s)") (auto simp: step_decreases)

declare analyze_loop.simps [simp del]

text \<open>One turn of the outer loop; \<open>None\<close> inside is the return on a failed channel.\<close>

definition analyze_packet :: "nv_io \<Rightarrow> u8 list option \<Rightarrow> sync \<Rightarrow> (bool \<times> sync) option" where
  "analyze_packet io r s =
    (case getPacket r (pkt s) of (st, buf, sz, k) \<Rightarrow>
       (let s = s\<lparr>pkt := k\<rparr> in
        if st = PACKET_FAIL then do { s \<leftarrow> syncReset io False s; Some (False, s) }
        else if st = PACKET_CONTINUE \<and> \<not> syncBusy s then Some (True, respond 0 s)
        else if st = PACKET_SKIP then Some (True, s)
        else do {
          s \<leftarrow> (if st = PACKET_START \<and> syncBusy s then syncReset io False s else Some s);
          s \<leftarrow> analyze_loop io buf sz (s\<lparr>syncBusy := True\<rparr>);
          Some (True, s) }))"

text \<open>
  The analyser over a script of reads: whether it has returned (the channel failed) or
  still waits for the next packet, and the state.
\<close>

fun syncAnalyzer :: "nv_io \<Rightarrow> u8 list option list \<Rightarrow> sync \<Rightarrow> (bool \<times> sync) option" where
  "syncAnalyzer io [] s = Some (False, s)"
| "syncAnalyzer io (r # rs) s = do {
     (go, s) \<leftarrow> analyze_packet io r s;
     (if go then syncAnalyzer io rs s else Some (True, s)) }"

subsection \<open>Atomic requests\<close>

definition consistent :: "part_ctrl \<Rightarrow> bool" where
  "consistent p \<longleftrightarrow> sectors p (fromChannel p) = sectors p (backup p)"

text \<open>Well-formed partitions, of which only those in \<open>S\<close> may differ from their last backup.\<close>

definition nv_ok :: "nat set \<Rightarrow> nv_ctl \<Rightarrow> bool" where
  "nv_ok S m \<longleftrightarrow> (\<forall>i < length (parts m). wf_part (parts m ! i) \<and> (i \<notin> S \<longrightarrow> consistent (parts m ! i)))"

lemma nv_ok_mono: "nv_ok S m \<Longrightarrow> S \<subseteq> T \<Longrightarrow> nv_ok T m"
  by (auto simp: nv_ok_def)

lemma with_part_ok:
  assumes "nv_ok S m" "with_part i f m = Some m'"
    and "\<And>p p'. wf_part p \<Longrightarrow> (i \<notin> S \<longrightarrow> consistent p) \<Longrightarrow> f p = Some p' \<Longrightarrow>
      wf_part p' \<and> (i \<notin> T \<longrightarrow> consistent p')"
    and "S \<subseteq> insert i T"
  shows "nv_ok T m' \<and> length (parts m') = length (parts m) \<and> is_cali_mode m' = is_cali_mode m"
proof -
  from assms(2) obtain p' where i: "i < length (parts m)" and p': "f (parts m ! i) = Some p'"
    and m': "m' = m\<lparr>parts := (parts m)[i := p']\<rparr>"
    by (auto simp: with_part_def bind_eq_Some_conv split: if_splits)
  from assms(1) i assms(3) [OF _ _ p'] have "wf_part p' \<and> (i \<notin> T \<longrightarrow> consistent p')"
    by (simp add: nv_ok_def)
  with assms(1,4) i show ?thesis by (auto simp: m' nv_ok_def nth_list_update)
qed

lemma restoreData_ok:
  assumes "nv_ok {i} m" "restoreData i m = Some m'"
  shows "nv_ok {} m'"
proof -
  have "wf_part p' \<and> consistent p'" if "wf_part p" "restore_part p = Some p'" for p p'
    using restore_part_spec [OF that(1)] that(2)
    by (metis consistent_def option.inject sectors_def)
  with with_part_ok [OF assms(1), of i restore_part m' "{}"] assms(2) show ?thesis
    by (auto simp: restoreData_def)
qed

lemma save_part_ok:
  assumes "wf_part p" "save_part io cs p fs = Some (p', fs')"
  shows "wf_part p' \<and> sectors p' (fromChannel p') = sectors p (fromChannel p)
    \<and> sectors p' (backup p') = sectors p (backup p)"
proof (cases "ifHasDirty p")
  case True
  from save_part_spec [OF assms(1) True, of io cs fs] assms(2)
  show ?thesis by (metis option.inject prod.inject sectors_def)
qed (use assms in \<open>simp add: save_part_clean\<close>)

lemma save_parts_ok:
  assumes "\<forall>p \<in> set ps. wf_part p" "save_parts io cs ps fs = Some (ps', fs')"
  shows "length ps' = length ps \<and> (\<forall>i < length ps. wf_part (ps' ! i)
    \<and> sectors (ps' ! i) (fromChannel (ps' ! i)) = sectors (ps ! i) (fromChannel (ps ! i))
    \<and> sectors (ps' ! i) (backup (ps' ! i)) = sectors (ps ! i) (backup (ps ! i)))"
  using assms
proof (induction ps arbitrary: fs ps' fs')
  case (Cons p ps)
  then obtain p' fs1 ps1 where p: "save_part io cs p fs = Some (p', fs1)"
    and ps: "save_parts io cs ps fs1 = Some (ps1, fs')" and ps': "ps' = p' # ps1"
    by (auto simp: bind_eq_Some_conv)
  from save_part_ok [OF _ p] Cons.prems(1) Cons.IH [OF _ ps] show ?case
    unfolding ps' by (auto simp: nth_Cons split: nat.splits)
qed simp

lemma saveToDisk_ok:
  assumes "nv_ok S m" "saveToDisk io m = Some m'"
  shows "nv_ok S m' \<and> length (parts m') = length (parts m)"
proof -
  from assms(2) obtain ps fs where s: "save_parts io (cfgs m) (parts m) (disk m) = Some (ps, fs)"
    and m': "m' = m\<lparr>parts := ps, disk := fs\<rparr>"
    by (auto simp: saveToDisk_def bind_eq_Some_conv)
  have "\<forall>p \<in> set (parts m). wf_part p" using assms(1) by (auto simp: nv_ok_def in_set_conv_nth)
  from save_parts_ok [OF this s] assms(1) show ?thesis
    by (auto simp: m' nv_ok_def consistent_def)
qed

lemma backupData_ok:
  assumes "nv_ok {i} m" "backupData io i m = Some m'"
  shows "nv_ok {} m'"
proof -
  from assms(2) obtain m1 where m1: "with_part i backup_part m = Some m1"
    and m': "(if is_cali_mode m1 then saveToDisk io m1
      else Some (m1\<lparr>saver_events := saver_events m1 + 1\<rparr>)) = Some m'"
    by (auto simp: backupData_def bind_eq_Some_conv)
  have "wf_part p' \<and> consistent p'" if "wf_part p" "backup_part p = Some p'" for p p'
    using backup_part_spec [OF that(1)] that(2)
    by (metis consistent_def option.inject sectors_def)
  with with_part_ok [OF assms(1) m1, of "{}"] have "nv_ok {} m1" by auto
  with m' saveToDisk_ok [of "{}" m1 io m'] show ?thesis
    by (auto simp: nv_ok_def split: if_splits)
qed

lemma markDirtyInfo_ok:
  assumes "nv_ok S m" "markDirtyInfo i a n m = Some m'"
  shows "nv_ok S m' \<and> length (parts m') = length (parts m)"
proof -
  have "length t = length tbl" if "mark_loop b bi k tbl = Some t" for b bi k tbl t
    using that by (induction b bi k tbl rule: mark_loop.induct)
      (subst (asm) (2) mark_loop.simps, auto split: if_splits)
  then have "wf_part p' \<and> (i \<notin> S \<longrightarrow> consistent p')"
    if "wf_part p" "i \<notin> S \<longrightarrow> consistent p"
      "mark_loop b bi k (dirty (fromChannel p)) \<bind> (\<lambda>t. Some (p\<lparr>fromChannel := (fromChannel p)\<lparr>dirty := t\<rparr>\<rparr>)) = Some p'"
    for p p' b bi k
    using that by (auto simp: bind_eq_Some_conv wf_part_def consistent_def sectors_def)
  with with_part_ok [OF assms(1) assms(2) [unfolded markDirtyInfo_def], of S] show ?thesis by blast
qed

lemma writeData_ok:
  assumes "nv_ok {i} m" "writeData i a bs m = Some m'"
  shows "nv_ok {i} m' \<and> length (parts m') = length (parts m)"
proof (cases "bs = []")
  case False
  have "wf_part p'"
    if "wf_part p" "put_bytes k bs (diskbuf (fromChannel p)) \<bind>
        (\<lambda>b. Some (p\<lparr>fromChannel := (fromChannel p)\<lparr>diskbuf := b\<rparr>\<rparr>)) = Some p'" for p p' k
    using that by (auto simp: bind_eq_Some_conv wf_part_def dest!: put_bytes_length)
  with with_part_ok [OF assms(1), of i _ m' "{i}"] assms(2) False show ?thesis
    by (auto simp: writeData_def)
qed (use assms in \<open>simp add: writeData_def\<close>)

definition sync_inv :: "sync \<Rightarrow> bool" where
  "sync_inv s \<longleftrightarrow>
     (if syncState s = 0 then nv_ok {} (nv s)
      else (\<exists>i < length (parts (nv s)). sid s = Some i \<and> nv_ok {i} (nv s)))"

lemma sync_inv_idle: "sync_inv s \<Longrightarrow> syncState s = 0 \<Longrightarrow> nv_ok {} (nv s)"
  by (simp add: sync_inv_def)

lemma sync_inv_busy:
  assumes "sync_inv s" "syncState s \<noteq> 0"
  obtains i where "i < length (parts (nv s))" "sid s = Some i" "nv_ok {i} (nv s)"
  using assms by (auto simp: sync_inv_def)

lemma sync_inv_cong:
  "nv s' = nv s \<Longrightarrow> syncState s' = syncState s \<Longrightarrow> sid s' = sid s \<Longrightarrow> sync_inv s' = sync_inv s"
  by (simp add: sync_inv_def)

lemma sync_inv_respond [simp]: "sync_inv (respond r s) = sync_inv s"
  by (rule sync_inv_cong) (simp_all add: respond_def)

lemma syncInit_inv: "nv_ok {} (nv s) \<Longrightarrow> sync_inv (syncInit s)"
  by (simp add: sync_inv_def syncInit_def)

lemma syncReset_inv:
  assumes "sync_inv s" "syncReset io suc s = Some s'" "suc \<longrightarrow> syncState s \<noteq> 0"
  shows "sync_inv s'"
proof (cases "syncState s = 0")
  case True
  with assms show ?thesis by (auto simp: syncReset_def sync_inv_idle intro: syncInit_inv)
next
  case False
  then obtain i where i: "sid s = Some i" "nv_ok {i} (nv s)"
    using sync_inv_busy [OF assms(1)] by metis
  show ?thesis
  proof (cases suc)
    case True
    with assms(2) i obtain m where "backupData io i (nv s) = Some m" "s' = syncInit (s\<lparr>nv := m\<rparr>)"
      by (auto simp: syncReset_def with_nv_def bind_eq_Some_conv)
    with backupData_ok [OF i(2)] show ?thesis by (auto intro: syncInit_inv)
  next
    case False
    with \<open>syncState s \<noteq> 0\<close> assms(2) i obtain m where "restoreData i (nv s) = Some m"
      "s' = syncInit (s\<lparr>nv := m\<rparr>)"
      by (auto simp: syncReset_def with_nv_def bind_eq_Some_conv)
    with restoreData_ok [OF i(2)] show ?thesis by (auto intro: syncInit_inv)
  qed
qed

lemma getToken_same:
  "getToken buf sz s = Some (tok, buf', sz', s') \<Longrightarrow>
     nv s' = nv s \<and> syncState s' = syncState s \<and> sid s' = sid s"
  by (auto simp: getToken_def bind_eq_Some_conv split: if_splits)

lemma ctl_index_bound: "ctl_index pid ps k = Some i \<Longrightarrow> k \<le> i \<and> i < k + length ps"
  by (induction ps arbitrary: k) (auto split: if_splits dest: Suc_leD, fastforce+)

lemma getHead_inv:
  assumes "sync_inv s" "syncState s = 0" "syncGetHead buf sz s = Some (r, buf', sz', s')"
  shows "syncState s' = 0 \<and> nv_ok {} (nv s')
    \<and> (r = SYNC_NEXT \<longrightarrow> (\<exists>i < length (parts (nv s')). sid s' = Some i))"
proof -
  from assms(3) obtain tok s1 where t: "getToken buf sz s = Some (tok, buf', sz', s1)"
    and h: "(if \<not> tok then Some (SYNC_CONTINUE, buf', sz', s1)
      else if req_field 0 s1 \<noteq> 0 then Some (SYNC_FAIL, buf', sz', s1)
      else (let s2 = s1\<lparr>syncReqFrame := req_field 1 s1, sid := getCtlId (req_field 2 s1) (nv s1)\<rparr>
         in if sid s2 = None then Some (SYNC_FAIL, buf', sz', s2) else Some (SYNC_NEXT, buf', sz', s2)))
      = Some (r, buf', sz', s')"
    by (auto simp: syncGetHead_def bind_eq_Some_conv Let_def split: if_splits)
  note same = getToken_same [OF t]
  have "getCtlId p m = Some i \<Longrightarrow> i < length (parts m)" for p m i
    using ctl_index_bound unfolding getCtlId_def by fastforce
  with h same sync_inv_idle [OF assms(1,2)] assms(2) show ?thesis
    by (auto simp: Let_def split: if_splits)
qed

lemma getBody_inv:
  assumes "sync_inv s" "syncState s \<noteq> 0" "syncGetBody buf sz s = Some (r, buf', sz', s')"
  shows "sync_inv s' \<and> syncState s' = syncState s"
proof -
  from assms(3) obtain tok s1 where t: "getToken buf sz s = Some (tok, buf', sz', s1)"
    by (auto simp: syncGetBody_def bind_eq_Some_conv split: if_splits)
  note same = getToken_same [OF t]
  obtain i where i: "i < length (parts (nv s))" "sid s = Some i" "nv_ok {i} (nv s)"
    using sync_inv_busy [OF assms(1,2)] by metis
  have "nv s' = nv s \<and> syncState s' = syncState s \<and> sid s' = sid s
    \<or> (\<exists>a n m. markDirtyInfo i a n (nv s) = Some m \<and> nv s' = m \<and> syncState s' = syncState s \<and> sid s' = sid s)"
    using assms(3) t same i(2)
    by (auto simp: syncGetBody_def bind_eq_Some_conv with_nv_def split: if_splits)
  then show ?thesis
  proof
    assume "nv s' = nv s \<and> syncState s' = syncState s \<and> sid s' = sid s"
    with assms(1) sync_inv_cong show ?thesis by blast
  next
    assume "\<exists>a n m. markDirtyInfo i a n (nv s) = Some m \<and> nv s' = m
      \<and> syncState s' = syncState s \<and> sid s' = sid s"
    with markDirtyInfo_ok [OF i(3)] i(1,2) assms(2) show ?thesis
      by (auto simp: sync_inv_def)
  qed
qed

lemma getData_inv:
  assumes "sync_inv s" "syncState s \<noteq> 0" "syncGetData buf sz s = Some (r, buf', sz', s')"
  shows "sync_inv s' \<and> syncState s' = syncState s"
proof -
  obtain i where i: "i < length (parts (nv s))" "sid s = Some i" "nv_ok {i} (nv s)"
    using sync_inv_busy [OF assms(1,2)] by metis
  from assms(3) i(2) obtain bs m where "writeData i (start s) bs (nv s) = Some m" "nv s' = m"
    "syncState s' = syncState s" "sid s' = sid s"
    by (auto simp: syncGetData_def bind_eq_Some_conv with_nv_def Let_def split: if_splits)
  with writeData_ok [OF i(3)] i(1,2) assms(2) show ?thesis by (auto simp: sync_inv_def)
qed

lemma sync_inv_begin:
  "\<exists>i < length (parts (nv s)). sid s = Some i \<Longrightarrow> nv_ok {} (nv s) \<Longrightarrow> sync_inv (s\<lparr>syncState := Suc k\<rparr>)"
  by (auto simp: sync_inv_def elim: nv_ok_mono)

lemma sync_inv_go: "sync_inv s \<Longrightarrow> syncState s \<noteq> 0 \<Longrightarrow> sync_inv (s\<lparr>syncState := Suc k\<rparr>)"
  by (simp add: sync_inv_def)

lemma analyze_step_inv:
  assumes "sync_inv s" "analyze_step io buf sz s = Some (nx, s')"
  shows "sync_inv s'"
proof -
  consider "syncState s = 0" | "syncState s = 1" | "1 < syncState s" by linarith
  then show ?thesis
  proof cases
    case 1
    with assms(2) obtain r buf1 sz1 s1 where h: "syncGetHead buf sz s = Some (r, buf1, sz1, s1)"
      by (auto simp: analyze_step_def bind_eq_Some_conv)
    note inv = getHead_inv [OF assms(1) 1 h]
    then have s1: "sync_inv s1" by (simp add: sync_inv_def)
    from assms(2) 1 h inv s1 show ?thesis
      by (cases r) (auto simp: analyze_step_def bind_eq_Some_conv
          dest!: syncReset_inv [OF s1] intro: sync_inv_begin)
  next
    case 2
    with assms(2) obtain r buf1 sz1 s1 where h: "syncGetBody buf sz s = Some (r, buf1, sz1, s1)"
      by (auto simp: analyze_step_def bind_eq_Some_conv)
    with getBody_inv [OF assms(1) _ h] 2 have s1: "sync_inv s1" "syncState s1 = 1" by simp_all
    from assms(2) 2 h s1 show ?thesis
      by (cases r) (auto simp: analyze_step_def bind_eq_Some_conv numeral_2_eq_2
          dest!: syncReset_inv [OF s1(1)] intro: sync_inv_go)
  next
    case 3
    with assms(2) obtain r buf1 sz1 s1 where h: "syncGetData buf sz s = Some (r, buf1, sz1, s1)"
      by (auto simp: analyze_step_def bind_eq_Some_conv)
    with getData_inv [OF assms(1) _ h] 3 have s1: "sync_inv s1" "1 < syncState s1" by simp_all
    from assms(2) 3 h s1 show ?thesis
      by (cases r) (auto simp: analyze_step_def bind_eq_Some_conv intro: sync_inv_go)
  qed
qed

lemma analyze_loop_inv:
  "sync_inv s \<Longrightarrow> analyze_loop io buf sz s = Some s' \<Longrightarrow> sync_inv s'"
proof (induction io buf sz s rule: analyze_loop.induct)
  case (1 io buf sz s)
  note eq = analyze_loop.simps [of io buf sz s]
  show ?case
  proof (cases "sz = 0")
    case True
    with 1(2,3) eq show ?thesis by simp
  next
    case False
    with 1(3) eq obtain nx s1 where st: "analyze_step io buf sz s = Some (nx, s1)"
      by (cases "analyze_step io buf sz s") auto
    note inv = analyze_step_inv [OF 1(2) st]
    show ?thesis
    proof (cases nx)
      case None
      with 1(3) eq False st inv show ?thesis by simp
    next
      case (Some p)
      obtain b z where p: "p = (b, z)" by fastforce
      with 1(3) eq False st Some have "analyze_loop io b z s1 = Some s'" by simp
      with 1(1) [OF False st refl Some p [symmetric] inv] show ?thesis .
    qed
  qed
qed

lemma analyze_packet_inv:
  assumes "sync_inv s" "analyze_packet io r s = Some (go, s')"
  shows "sync_inv s'"
proof -
  obtain st buf sz k where g: "getPacket r (pkt s) = (st, buf, sz, k)" using prod_cases4 by blast
  let ?s = "s\<lparr>pkt := k\<rparr>"
  have k: "sync_inv ?s" using assms(1) by (simp add: sync_inv_def)
  have loop: "sync_inv t'" if "sync_inv t" "analyze_loop io buf sz (t\<lparr>syncBusy := True\<rparr>) = Some t'" for t t'
  proof (rule analyze_loop_inv [OF _ that(2)])
    show "sync_inv (t\<lparr>syncBusy := True\<rparr>)" using that(1) by (simp add: sync_inv_def)
  qed
  have reset: "sync_inv t" if "syncReset io False ?s = Some t" for t
    using syncReset_inv [OF k that] by simp
  show ?thesis
  proof (cases st)
    case PACKET_FAIL
    with assms(2) show ?thesis by (auto simp: analyze_packet_def g bind_eq_Some_conv dest: reset)
  next
    case PACKET_SKIP
    with assms(2) k show ?thesis by (auto simp: analyze_packet_def g)
  next
    case PACKET_START
    with assms(2) obtain t where "(if syncBusy ?s then syncReset io False ?s else Some ?s) = Some t"
      "analyze_loop io buf sz (t\<lparr>syncBusy := True\<rparr>) = Some s'"
      by (auto simp: analyze_packet_def g bind_eq_Some_conv Let_def)
    with k reset loop show ?thesis by (metis option.inject)
  next
    case PACKET_CONTINUE
    with assms(2) have "s' = respond 0 ?s \<or> analyze_loop io buf sz (?s\<lparr>syncBusy := True\<rparr>) = Some s'"
      by (auto simp: analyze_packet_def g bind_eq_Some_conv Let_def split: if_splits)
    with k loop show ?thesis by auto
  qed
qed

text \<open>
  The daemon: the main thread works through the channel and starts over when it fails, the
  saver thread writes the backups to disk. \<open>None\<close> is a crash.
\<close>

datatype srv_event = Chan nv_io "u8 list option" | Saver nv_io

definition srv_step :: "sync option \<Rightarrow> srv_event \<Rightarrow> sync option" where
  "srv_step o' e = do {
     s \<leftarrow> o';
     (case e of
        Chan io r \<Rightarrow> do {
          (go, s) \<leftarrow> analyze_packet io r s;
          Some (if go then s else syncInit (s\<lparr>pkt := initPacket (pkt s)\<rparr>)) }
      | Saver io \<Rightarrow> with_nv (saveToDisk io) s) }"

definition srv_ok :: "sync option \<Rightarrow> bool" where
  "srv_ok o' \<longleftrightarrow> (\<forall>s. o' = Some s \<longrightarrow> sync_inv s)"

definition srv_start :: "sync option \<Rightarrow> bool" where
  "srv_start o' \<longleftrightarrow> (\<exists>io rs junk m s. o' = Some (syncInit (s\<lparr>nv := initBuf io rs junk m\<rparr>)))"

lemma length_ramDisk_Read: "ramDisk_Read io r cs h buf0 fs = (ok, buf, fs') \<Longrightarrow> length buf = length buf0"
proof -
  have "try_first io fs p n = (g, b, k) \<Longrightarrow> length b = n" for p n g b k
    by (auto simp: try_first_def Let_def split: option.splits)
  moreover have "try_second io fs p n j = (g, h', b) \<Longrightarrow> length b = n" for p n j g h' b
    by (auto simp: try_second_def Let_def split: option.splits)
  moreover assume "ramDisk_Read io r cs h buf0 fs = (ok, buf, fs')"
  ultimately show ?thesis
    by (fastforce simp: ramDisk_Read_def Let_def split: option.splits prod.splits if_splits)
qed

lemma init_parts_ok: "\<forall>p \<in> set (fst (init_parts io rs junk allc k cs fs)). wf_part p \<and> consistent p"
proof (induction cs arbitrary: k fs)
  case (Cons c cs)
  obtain ok buf fs' where r:
    "ramDisk_Read io (rs k) allc (ramDisk_Open (partId c)) (replicate (unat (image_size c)) 0) fs = (ok, buf, fs')"
    using prod_cases3 by blast
  then have "length buf = unat (image_size c)" by (auto dest: length_ramDisk_Read)
  then have "512 * (unat (image_size c) div 512) \<le> length buf" by simp
  then have new: "wf_part p \<and> consistent p"
    if "p = (let b = \<lparr>diskbuf = buf @ junk, dirty = replicate 48 0\<rparr>
      in \<lparr>ppartId = partId c, sctNum = unat (image_size c) div 512, fromChannel = b, backup = b, toDisk = b\<rparr>)" for p
    using that by (simp add: Let_def wf_part_def consistent_def)
  obtain ps fs'' where q: "init_parts io rs junk allc (k + 1) cs fs' = (ps, fs'')" by fastforce
  with Cons.IH [of "k + 1" fs'] Cons.IH [of "k + 1" fs] new show ?case
    by (simp add: r Let_def)
qed simp

lemma initBuf_ok: "nv_ok {} (initBuf io rs junk m)"
  using init_parts_ok [of io rs junk "cfgs m" 0 "cfgs m" "disk m"]
  by (auto simp: nv_ok_def initBuf_def split: prod.splits)

lemma srv_ok_step: "srv_ok o' \<Longrightarrow> srv_ok (srv_step o' e)"
proof (cases e)
  case (Chan io r)
  assume ok: "srv_ok o'"
  have idle: "sync_inv (syncInit (s\<lparr>pkt := k\<rparr>))" if "analyze_packet io r t = Some (False, s)" "sync_inv t" for s t k
  proof -
    from that obtain t1 where "syncReset io False t1 = Some s"
      by (auto simp: analyze_packet_def Let_def bind_eq_Some_conv split: prod.splits if_splits)
    then have "syncState s = 0" by (auto simp: syncReset_def bind_eq_Some_conv syncInit_def)
    with sync_inv_idle [OF analyze_packet_inv [OF that(2,1)]] show ?thesis
      by (simp add: sync_inv_def syncInit_def)
  qed
  with ok Chan show ?thesis
    by (auto simp: srv_ok_def srv_step_def bind_eq_Some_conv split: if_splits dest: analyze_packet_inv)
next
  case (Saver io)
  assume "srv_ok o'"
  moreover have "sync_inv (s\<lparr>nv := m\<rparr>)" if "sync_inv s" "saveToDisk io (nv s) = Some m" for s m
    using that(1) saveToDisk_ok [OF _ that(2)] by (auto simp: sync_inv_def split: if_splits)
  ultimately show ?thesis
    using Saver by (auto simp: srv_ok_def srv_step_def with_nv_def bind_eq_Some_conv)
qed

interpretation nv_server: transition_system srv_start srv_step srv_ok
  by unfold_locales
    (auto simp: srv_ok_step, auto simp: srv_start_def srv_ok_def initBuf_ok intro!: syncInit_inv)

text \<open>
  C31. Requests are atomic: whatever arrives on the channel and however saving interleaves,
  whenever no request is being processed every partition's working copy equals its last
  committed backup, so an unfinished or rejected request leaves no trace.
\<close>

theorem nv_requests_atomic:
  assumes "srv_start o'" and "run_steps srv_step o' es = Some s" and "syncState s = 0"
    and "i < length (parts (nv s))"
  shows "sectors (parts (nv s) ! i) (fromChannel (parts (nv s) ! i))
    = sectors (parts (nv s) ! i) (backup (parts (nv s) ! i))"
proof -
  have "sync_inv s" using nv_server.inv_reachable [OF assms(1), of es] assms(2) by (simp add: srv_ok_def)
  with assms(3,4) show ?thesis by (auto simp: sync_inv_def nv_ok_def consistent_def)
qed

definition demo_sync :: sync where
  "demo_sync = \<lparr>nv = demo_nv, pkt = \<lparr>packeBuf = replicate 1044 0, idxGrp = -1, idxSub = 0\<rparr>,
     syncState = 0, syncBusy = False, syncReqFrame = 0, syncReqBuf = replicate 80 0, ofst = 0,
     sid = None, start = 0, len = 0, rsps = []\<rparr>"

theorem nv_requests_atomic_witness:
  "\<exists>s. run_steps srv_step (Some (syncInit (demo_sync\<lparr>nv := initBuf io_all (\<lambda>_. True) [] demo_nv\<rparr>)))
         [Chan io_all None] = Some s
     \<and> (\<forall>i < length (parts (nv s)). sectors (parts (nv s) ! i) (fromChannel (parts (nv s) ! i))
          = sectors (parts (nv s) ! i) (backup (parts (nv s) ! i)))"
proof -
  let ?s = "syncInit (demo_sync\<lparr>nv := initBuf io_all (\<lambda>_. True) [] demo_nv\<rparr>)"
  have st: "srv_start (Some ?s)" unfolding srv_start_def by blast
  have r: "run_steps srv_step (Some ?s) [Chan io_all None] = Some ?s" "syncState ?s = 0"
    by (simp_all add: srv_step_def analyze_packet_def getPacket_def channel_read_def Let_def syncInit_def syncReset_def
        initPacket_def demo_sync_def)
  show ?thesis
  proof (intro exI conjI allI impI)
    fix i assume "i < length (parts (nv ?s))"
    with nv_requests_atomic [OF st r] show "sectors (parts (nv ?s) ! i) (fromChannel (parts (nv ?s) ! i))
        = sectors (parts (nv ?s) ! i) (backup (parts (nv ?s) ! i))" .
  qed (rule r)
qed

subsection \<open>A whole request\<close>

lemma getToken_whole:
  assumes "length tok = 20" "ofst s = 0" "length (syncReqBuf s) = 80" "20 \<le> unat sz"
  shows "getToken (tok @ buf) sz s
    = Some (True, buf, sz - 20, s\<lparr>syncReqBuf := tok @ drop 20 (syncReqBuf s), ofst := 0\<rparr>)"
  using assms by (simp add: getToken_def get_bytes_def put_bytes_def not_less)

definition head_token :: "u32 \<Rightarrow> u32 \<Rightarrow> u32 \<Rightarrow> u32 \<Rightarrow> u8 list" where
  "head_token req pid x y = le32 0 @ le32 req @ le32 pid @ le32 x @ le32 y"

definition body_token :: "u32 \<Rightarrow> u32 \<Rightarrow> u32 \<Rightarrow> u32 \<Rightarrow> u8 list" where
  "body_token req pid st num = le32 1 @ le32 req @ le32 pid @ le32 st @ le32 num"

definition tail_token :: "u32 \<Rightarrow> u32 \<Rightarrow> u32 \<Rightarrow> u32 \<Rightarrow> u8 list" where
  "tail_token req pid x y = le32 2 @ le32 req @ le32 pid @ le32 x @ le32 y"

lemmas token_defs = head_token_def body_token_def tail_token_def

lemma length_tokens [simp]: "length (head_token a b c d) = 20" "length (body_token a b c d) = 20"
  "length (tail_token a b c d) = 20"
  by (simp_all add: token_defs)

lemma req_fields:
  assumes "syncReqBuf s = le32 a @ le32 b @ le32 c @ le32 d @ le32 e @ rest"
  shows "req_field 0 s = a" "req_field 1 s = b" "req_field 2 s = c" "req_field 3 s = d" "req_field 4 s = e"
  using assms by (simp_all add: req_field_def)

text \<open>
  An error or a short read ends the analyser without an answer, whatever the buffer holds, and
  \<open>main\<close> opens the channel again; of a request under way nothing is left.
\<close>

lemma read_error_ends_analyser:
  assumes "r = None \<or> (\<exists>bs. r = Some bs \<and> length bs < 1044)" and "sync_inv s"
    and "syncAnalyzer io (r # rs) s = Some (go, s')"
  shows "go" and "rsps s' = rsps s" and "syncState s' = 0" and "sync_inv s'"
proof -
  obtain k where k: "getPacket r (pkt s) = (PACKET_FAIL, [], 0, k)"
    using assms(1) by (auto simp: getPacket_def channel_read_def Let_def)
  then obtain t where t: "syncReset io False (s\<lparr>pkt := k\<rparr>) = Some t" "go" "s' = t"
    using assms(3) by (auto simp: analyze_packet_def bind_eq_Some_conv)
  then show "go" and "rsps s' = rsps s" and "syncState s' = 0"
    by (auto simp: syncReset_def syncInit_def with_nv_def bind_eq_Some_conv split: if_splits)
  have "sync_inv (s\<lparr>pkt := k\<rparr>)" using assms(2) by (simp add: sync_inv_def)
  with t syncReset_inv show "sync_inv s'" by blast
qed

text \<open>
  A token that does not fit the rest of a packet is acknowledged and forgotten: the
  bytes are neither kept nor asked for again.
\<close>

lemma split_token_is_lost:
  assumes "ofst s = 0" and "syncState s \<le> 1" and "0 < unat sz" and "unat sz < 20"
  shows "analyze_loop io buf sz s = Some (respond 1 s)"
proof -
  from assms(3) have nz: "sz \<noteq> 0" by auto
  have "getToken buf sz s = Some (False, buf, sz, s)"
    using assms by (auto simp: getToken_def)
  with assms(2) have "analyze_step io buf sz s = Some (None, respond 1 s)"
    by (cases "syncState s") (simp_all add: analyze_step_def syncGetHead_def syncGetBody_def)
  with nz show ?thesis by (subst analyze_loop.simps) simp
qed

lemma split_token_is_lost_witness:
  "analyze_loop io_all (replicate 19 1) 19 (demo_sync\<lparr>syncBusy := True\<rparr>)
     = Some (respond 1 (demo_sync\<lparr>syncBusy := True\<rparr>))"
  by (rule split_token_is_lost) (simp_all add: demo_sync_def)

definition fresh_buf :: "sync \<Rightarrow> bool" where
  "fresh_buf s \<longleftrightarrow> ofst s = 0 \<and> length (syncReqBuf s) = 80"

lemma req_field_upd [simp]:
  "req_field k (s\<lparr>syncReqFrame := a\<rparr>) = req_field k s" "req_field k (s\<lparr>nv := m\<rparr>) = req_field k s"
  by (simp_all add: req_field_def)

lemma head_turn:
  assumes "syncState s = 0" "fresh_buf s" "getCtlId pid (nv s) = Some i" "20 \<le> unat sz"
  shows "\<exists>s'. analyze_step io (head_token r pid x y @ buf) sz s = Some (Some (buf, sz - 20), s')
    \<and> syncState s' = 1 \<and> fresh_buf s' \<and> sid s' = Some i \<and> syncReqFrame s' = r \<and> nv s' = nv s
    \<and> rsps s' = rsps s \<and> pkt s' = pkt s"
proof -
  let ?s = "s\<lparr>syncReqBuf := head_token r pid x y @ drop 20 (syncReqBuf s), ofst := 0\<rparr>"
  have "getToken (head_token r pid x y @ buf) sz s = Some (True, buf, sz - 20, ?s)"
    using assms(2,4) by (intro getToken_whole) (simp_all add: fresh_buf_def)
  moreover have buf: "syncReqBuf ?s = le32 0 @ le32 r @ le32 pid @ le32 x @ le32 y @ drop 20 (syncReqBuf s)"
    by (simp add: token_defs)
  note req_fields [OF buf]
  ultimately show ?thesis
    using assms by (simp add: analyze_step_def syncGetHead_def Let_def fresh_buf_def)
qed

lemma body_turn:
  assumes "syncState s = 1" "fresh_buf s" "sid s = Some i" "syncReqFrame s + 1 = r" "20 \<le> unat sz"
    and "markDirtyInfo i st num (nv s) = Some m"
  shows "\<exists>s'. analyze_step io (body_token r pid st num @ buf) sz s = Some (Some (buf, sz - 20), s')
    \<and> syncState s' = 2 \<and> fresh_buf s' \<and> sid s' = Some i \<and> syncReqFrame s' = r \<and> nv s' = m
    \<and> start s' = st * 512 \<and> len s' = num * 512 \<and> rsps s' = rsps s \<and> pkt s' = pkt s"
proof -
  let ?s = "s\<lparr>syncReqBuf := body_token r pid st num @ drop 20 (syncReqBuf s), ofst := 0\<rparr>"
  have "getToken (body_token r pid st num @ buf) sz s = Some (True, buf, sz - 20, ?s)"
    using assms(2,5) by (intro getToken_whole) (simp_all add: fresh_buf_def)
  moreover have buf: "syncReqBuf ?s = le32 1 @ le32 r @ le32 pid @ le32 st @ le32 num @ drop 20 (syncReqBuf s)"
    by (simp add: token_defs)
  note req_fields [OF buf]
  ultimately show ?thesis
    using assms by (simp add: analyze_step_def syncGetBody_def with_nv_def fresh_buf_def)
qed

lemma data_turn:
  assumes "syncState s = 2" "sid s = Some i" "len s \<le> sz" "length d = unat (len s)"
    and "writeData i (start s) d (nv s) = Some m"
  shows "\<exists>s'. analyze_step io (d @ buf) sz s = Some (Some (buf, sz - len s), s')
    \<and> syncState s' = 1 \<and> ofst s' = ofst s \<and> syncReqBuf s' = syncReqBuf s \<and> sid s' = Some i
    \<and> syncReqFrame s' = syncReqFrame s \<and> nv s' = m \<and> rsps s' = rsps s \<and> pkt s' = pkt s"
  using assms by (simp add: analyze_step_def syncGetData_def get_bytes_def with_nv_def Let_def)

lemma tail_turn:
  assumes "syncState s = 1" "fresh_buf s" "sid s = Some i" "syncReqFrame s + 1 = r" "20 \<le> unat sz"
    and "backupData io i (nv s) = Some m"
  shows "\<exists>s'. analyze_step io (tail_token r pid x y @ buf) sz s = Some (None, s')
    \<and> syncState s' = 0 \<and> nv s' = m \<and> rsps s' = rsps s @ [sendPacktRsp 1 (pkt s)]"
proof -
  let ?s = "s\<lparr>syncReqBuf := tail_token r pid x y @ drop 20 (syncReqBuf s), ofst := 0\<rparr>"
  have "getToken (tail_token r pid x y @ buf) sz s = Some (True, buf, sz - 20, ?s)"
    using assms(2,5) by (intro getToken_whole) (simp_all add: fresh_buf_def)
  moreover have buf: "syncReqBuf ?s = le32 2 @ le32 r @ le32 pid @ le32 x @ le32 y @ drop 20 (syncReqBuf s)"
    by (simp add: token_defs)
  note req_fields [OF buf]
  ultimately show ?thesis
    using assms by (simp add: analyze_step_def syncGetBody_def syncReset_def with_nv_def
        respond_def syncInit_def)
qed

lemma loop_go:
  "sz \<noteq> 0 \<Longrightarrow> analyze_step io buf sz s = Some (Some (buf', sz'), s') \<Longrightarrow>
     analyze_loop io buf sz s = analyze_loop io buf' sz' s'"
  "sz \<noteq> 0 \<Longrightarrow> analyze_step io buf sz s = Some (None, s') \<Longrightarrow> analyze_loop io buf sz s = Some s'"
  by (subst analyze_loop.simps, simp)+

lemma unat_minus: "k \<le> unat sz \<Longrightarrow> k < 2 ^ 32 \<Longrightarrow> unat (sz - of_nat k :: u32) = unat sz - k"
  by (simp add: unat_sub word_le_nat_alt unat_of_nat take_bit_nat_eq_self)

lemma request_runs:
  assumes "syncState s = 0" "fresh_buf s" "getCtlId pid (nv s) = Some i"
    and "markDirtyInfo i st num (nv s) = Some m1" "writeData i (st * 512) d m1 = Some m2"
    and "backupData io i m2 = Some m3" "length d = unat (num * 512)" "60 + length d \<le> unat sz"
  shows "\<exists>s'. analyze_loop io (head_token r pid x y @ body_token (r + 1) pid st num @ d
        @ tail_token (r + 1 + 1) pid z w @ rest) sz s = Some s'
    \<and> syncState s' = 0 \<and> nv s' = m3 \<and> rsps s' = rsps s @ [sendPacktRsp 1 (pkt s)]"
proof -
  let ?t3 = "tail_token (r + 1 + 1) pid z w @ rest"
  let ?t2 = "d @ ?t3"
  let ?t1 = "body_token (r + 1) pid st num @ ?t2"
  have sizes: "unat (sz - 20) = unat sz - 20" "unat (sz - 20 - 20) = unat sz - 40"
    "unat (sz - 20 - 20 - num * 512) = unat sz - 40 - length d"
    using assms(7,8) unat_minus [of 20 sz] unat_minus [of 20 "sz - 20"]
    by (simp_all add: unat_sub word_le_nat_alt)
  then have ne: "sz \<noteq> 0" "sz - 20 \<noteq> 0" "sz - 20 - 20 \<noteq> 0" "sz - 20 - 20 - num * 512 \<noteq> 0"
    using assms(8) by (auto simp flip: unat_eq_0)
  obtain s1 where 1: "analyze_step io (head_token r pid x y @ ?t1) sz s = Some (Some (?t1, sz - 20), s1)"
    "syncState s1 = 1" "fresh_buf s1" "sid s1 = Some i" "syncReqFrame s1 = r" "nv s1 = nv s"
    "rsps s1 = rsps s" "pkt s1 = pkt s"
    using head_turn [OF assms(1-3), of sz io r x y ?t1] assms(8) by auto
  have h: "20 \<le> unat (sz - 20)" "20 \<le> unat (sz - 20 - 20 - num * 512)" "num * 512 \<le> sz - 20 - 20"
    using assms(7,8) unfolding word_le_nat_alt sizes by linarith+
  obtain s2 where 2: "analyze_step io ?t1 (sz - 20) s1 = Some (Some (?t2, sz - 20 - 20), s2)"
    "syncState s2 = 2" "fresh_buf s2" "sid s2 = Some i" "syncReqFrame s2 = r + 1" "nv s2 = m1"
    "start s2 = st * 512" "len s2 = num * 512" "rsps s2 = rsps s" "pkt s2 = pkt s"
    using body_turn [OF 1(2-4) _ h(1), of "r + 1" st num m1 io pid ?t2] assms(4)
    unfolding 1(5-8) by blast
  have d: "num * 512 \<le> sz - 20 - 20" "length d = unat (len s2)" using h(3) assms(7) by (simp_all add: 2(8))
  obtain s3 where 3: "analyze_step io ?t2 (sz - 20 - 20) s2 = Some (Some (?t3, sz - 20 - 20 - num * 512), s3)"
    "syncState s3 = 1" "ofst s3 = ofst s2" "syncReqBuf s3 = syncReqBuf s2" "sid s3 = Some i"
    "syncReqFrame s3 = r + 1" "nv s3 = m2" "rsps s3 = rsps s" "pkt s3 = pkt s"
    using data_turn [OF 2(2,4) _ d(2), of "sz - 20 - 20" m2 io ?t3] d(1) assms(5)
    unfolding 2(5-10) by blast
  have f3: "fresh_buf s3" using 2(3) 3(3,4) by (simp add: fresh_buf_def)
  obtain s4 where 4: "analyze_step io ?t3 (sz - 20 - 20 - num * 512) s3 = Some (None, s4)"
    "syncState s4 = 0" "nv s4 = m3" "rsps s4 = rsps s @ [sendPacktRsp 1 (pkt s)]"
    using tail_turn [OF 3(2) f3 3(5) _ h(2), of "r + 1 + 1" io m3 pid z w rest] assms(6)
    unfolding 3(6-9) by blast
  have "analyze_loop io (head_token r pid x y @ ?t1) sz s = Some s4"
    unfolding loop_go(1) [OF ne(1) 1(1)] loop_go(1) [OF ne(2) 2(1)] loop_go(1) [OF ne(3) 3(1)]
    by (rule loop_go(2) [OF ne(4) 4(1)])
  with 4 show ?thesis by auto
qed

lemma dirty_or_nonzero:
  assumes "dirty_sectors f \<noteq> {}" "length b = length f"
  shows "list_ex (\<lambda>w. w \<noteq> 0) (map2 (OR) b f)"
proof -
  from assms(1) obtain k where k: "k div 32 < length f" "bit (f ! (k div 32)) (k mod 32)"
    by (auto simp: dirty_sectors_def)
  then have "f ! (k div 32) \<noteq> 0" by auto
  with k(1) assms(2) show ?thesis
    by (auto simp: list_ex_length or_eq_0_iff intro!: exI [of _ "k div 32"])
qed

lemma patch_sectors:
  assumes "a + length d \<le> n" "n \<le> length buf" "put_bytes a d buf = Some buf'"
  shows "take n buf' = take a (take n buf) @ d @ drop (a + length d) (take n buf)"
proof -
  from assms have "buf' = take a buf @ d @ drop (a + length d) buf"
    by (auto simp: put_bytes_def split: if_splits)
  note buf' = this
  show ?thesis
  proof (cases "d = []")
    case True
    then have "take a (take n buf) @ d @ drop (a + length d) (take n buf) = take n buf"
      using append_take_drop_id [of a "take n buf"] by (simp del: append_take_drop_id take_take)
    with True buf' show ?thesis by simp
  next
    case False
    then have "0 < length d" by simp
    with assms(1) have "\<not> n \<le> a" "length d \<le> n - a" by linarith+
    with assms(1,2) show ?thesis unfolding buf' by (simp add: min_def drop_take)
  qed
qed

lemma request_effect:
  assumes "nv_ok {} m" "\<not> is_cali_mode m" "i < length (parts m)" "p = parts m ! i"
    and "sctNum p \<le> 1536" "0 < unat num" "unat st + unat num \<le> sctNum p" "length d = 512 * unat num"
  shows "\<exists>m1 m2 m3. markDirtyInfo i st num m = Some m1 \<and> writeData i (st * 512) d m1 = Some m2
    \<and> backupData io i m2 = Some m3 \<and> length (parts m3) = length (parts m)
    \<and> sectors (parts m3 ! i) (backup (parts m3 ! i))
        = take (512 * unat st) (sectors p (backup p)) @ d
            @ drop (512 * unat st + length d) (sectors p (backup p))
    \<and> ifHasDirty (parts m3 ! i) \<and> saver_events m3 = saver_events m + 1"
proof -
  have wf: "wf_part p" "consistent p" using assms(1,3,4) by (auto simp: nv_ok_def)
  let ?f = "fromChannel p"
  have len: "length (dirty ?f) = 48" "512 * sctNum p \<le> length (diskbuf ?f)" using wf(1) by (simp_all add: wf_part_def)
  obtain t where t: "mark_loop (unat (drop_bit 5 st)) (unat (st - push_bit 5 (drop_bit 5 st))) (unat num) (dirty ?f) = Some t"
    "length t = 48" "dirty_sectors t = dirty_sectors (dirty ?f) \<union> {unat st..<unat st + unat num}"
    using mark_loop_spec [OF sector_split(2) [of st] assms(6), of "unat (drop_bit 5 st)" "dirty ?f",
        unfolded sector_split(1)] assms(5,7) len(1) by auto
  let ?p1 = "p\<lparr>fromChannel := ?f\<lparr>dirty := t\<rparr>\<rparr>"
  have m1: "markDirtyInfo i st num m = Some (m\<lparr>parts := (parts m)[i := ?p1]\<rparr>)"
    using assms(3,4) t(1) by (simp add: markDirtyInfo_def with_part_def)
  have st: "unat (st * 512) = 512 * unat st"
    using assms(5-7) by (simp add: unat_word_ariths)
  have room: "512 * unat st + length d \<le> 512 * sctNum p" using assms(7,8) by simp
  obtain b where b: "put_bytes (512 * unat st) d (diskbuf ?f) = Some b"
    using len(2) room by (auto simp: put_bytes_def)
  let ?p2 = "p\<lparr>fromChannel := ?f\<lparr>dirty := t, diskbuf := b\<rparr>\<rparr>"
  have "d \<noteq> []" using assms(6,8) by auto
  then have m2: "writeData i (st * 512) d (m\<lparr>parts := (parts m)[i := ?p1]\<rparr>) = Some (m\<lparr>parts := (parts m)[i := ?p2]\<rparr>)"
    using assms(3) b by (simp add: writeData_def with_part_def st)
  have wf2: "wf_part ?p2" using wf(1) t(2) put_bytes_length [OF b] by (simp add: wf_part_def)
  obtain p3 where p3: "backup_part ?p2 = Some p3" "sectors p3 (backup p3) = sectors ?p2 (fromChannel ?p2)"
    "dirty (backup p3) = map2 (OR) (dirty (backup ?p2)) (dirty (fromChannel ?p2))"
    using backup_part_spec [OF wf2] by metis
  have m3: "backupData io i (m\<lparr>parts := (parts m)[i := ?p2]\<rparr>)
      = Some (m\<lparr>parts := (parts m)[i := p3], saver_events := saver_events m + 1\<rparr>)"
    using assms(2,3) p3(1) by (simp add: backupData_def with_part_def)
  have "sectors ?p2 (fromChannel ?p2) = take (512 * unat st) (sectors p ?f) @ d
      @ drop (512 * unat st + length d) (sectors p ?f)"
    using patch_sectors [OF room len(2) b] by (simp add: sectors_def)
  moreover have "sectors p ?f = sectors p (backup p)" using wf(2) by (simp add: consistent_def)
  moreover have "ifHasDirty p3"
    using dirty_or_nonzero [of t "dirty (backup p)"] t(2,3) assms(6) wf(1)
    by (simp add: ifHasDirty_def p3(3) wf_part_def)
  ultimately show ?thesis
    using m1 m2 m3 assms(3) p3(2) by (intro exI conjI) (assumption | simp)+
qed

text \<open>
  A whole request is committed: a packet with the head, one body of any number of
  sectors with its data, and the tail replaces exactly those sectors in the partition's
  backup, marks it dirty, wakes the saver, and is answered positively.
\<close>

lemma nv_request_commits:
  assumes "sync_inv s" and "syncState s = 0" and "fresh_buf s" and "\<not> is_cali_mode (nv s)"
    and "getCtlId pid (nv s) = Some i" and "p = parts (nv s) ! i" and "sctNum p \<le> 1536"
    and "0 < unat num" and "unat st + unat num \<le> sctNum p" and "length d = 512 * unat num"
    and "60 + length d \<le> unat sz"
  shows "\<exists>s' p'. analyze_loop io (head_token r pid x y @ body_token (r + 1) pid st num @ d
        @ tail_token (r + 1 + 1) pid z w @ rest) sz s = Some s'
    \<and> syncState s' = 0 \<and> rsps s' = rsps s @ [sendPacktRsp 1 (pkt s)]
    \<and> p' = parts (nv s') ! i
    \<and> sectors p' (backup p') = take (512 * unat st) (sectors p (backup p)) @ d
        @ drop (512 * unat st + length d) (sectors p (backup p))
    \<and> ifHasDirty p' \<and> saver_events (nv s') = saver_events (nv s) + 1"
proof -
  have i: "i < length (parts (nv s))"
    using ctl_index_bound assms(5) unfolding getCtlId_def by fastforce
  obtain m1 m2 m3 where m: "markDirtyInfo i st num (nv s) = Some m1"
    "writeData i (st * 512) d m1 = Some m2" "backupData io i m2 = Some m3"
    "sectors (parts m3 ! i) (backup (parts m3 ! i)) = take (512 * unat st) (sectors p (backup p)) @ d
            @ drop (512 * unat st + length d) (sectors p (backup p))"
    "ifHasDirty (parts m3 ! i)" "saver_events m3 = saver_events (nv s) + 1"
    using request_effect [OF sync_inv_idle [OF assms(1,2)] assms(4) i assms(6-10)] by blast
  have "length d = unat (num * 512)" using assms(7,9,10) by (simp add: unat_word_ariths)
  from request_runs [OF assms(2,3,5) m(1-3) this assms(11)] m(4-6) show ?thesis by metis
qed

lemma nv_request_commits_witness:
  "\<exists>s' p'. analyze_loop io_all (head_token 7 1 0 0 @ body_token (7 + 1) 1 1 1 @ replicate 512 9
        @ tail_token (7 + 1 + 1) 1 0 0 @ []) 572 (demo_sync\<lparr>nv := demo_nv\<lparr>is_cali_mode := False\<rparr>\<rparr>) = Some s'
    \<and> syncState s' = 0 \<and> p' = parts (nv s') ! 0 \<and> ifHasDirty p'"
proof -
  let ?s = "demo_sync\<lparr>nv := demo_nv\<lparr>is_cali_mode := False\<rparr>\<rparr>"
  have s: "sync_inv ?s" "syncState ?s = 0" "fresh_buf ?s" "\<not> is_cali_mode (nv ?s)"
    "getCtlId 1 (nv ?s) = Some 0" "demo_part = parts (nv ?s) ! 0"
    by (simp_all add: demo_sync_def demo_nv_def sync_inv_def nv_ok_def fresh_buf_def getCtlId_def
        demo_part_def Let_def wf_part_def consistent_def sectors_def)
  have n: "sctNum demo_part \<le> 1536" "0 < unat (1 :: u32)" "unat (1 :: u32) + unat (1 :: u32) \<le> sctNum demo_part"
    "length (replicate 512 (9 :: u8)) = 512 * unat (1 :: u32)"
    "60 + length (replicate 512 (9 :: u8)) \<le> unat (572 :: u32)"
    by (simp_all add: demo_part_def Let_def)
  show ?thesis using nv_request_commits [OF s n, of io_all 7 0 0 0 0 "[]"] by blast
qed

end
