(* ===== verification/CmrMsg.thy ===== *)
theory CmrMsg
  imports Prelude
begin

text \<open>
  The camera message queue and its worker thread
  (\<open>modules/libcamera/common/src/cmr_msg.c\<close>): a ring of message slots shared by any number
  of senders and one consumer thread. Slots are named by their index in \<open>msg_head\<close>.
  A sender runs in four separately scheduled pieces: the section under the mutex, the
  \<open>sem_post\<close> of the queue, the test of the slot's \<open>sync_f\<close>, and the wait on the slot's
  semaphore. The NULL tests of handles and message pointers, which return before touching
  anything, and the log calls are left out.
\<close>

subsection \<open>Data\<close>

abbreviation "CMR_MSG_SUCCESS \<equiv> (0 :: int)"
abbreviation "CMR_MSG_PARAM_ERR \<equiv> (1 :: int)"
abbreviation "CMR_MSG_INVALID_HANDLE \<equiv> (2 :: int)"
abbreviation "CMR_MSG_NO_OTHER_MSG \<equiv> (3 :: int)"
abbreviation "CMR_MSG_NO_MEM \<equiv> (4 :: int)"
abbreviation "CMR_MSG_OVERFLOW \<equiv> (5 :: int)"
abbreviation "CMR_MSG_UNDERFLOW \<equiv> (6 :: int)"

abbreviation "CMR_MSG_SYNC_NONE \<equiv> (0 :: u32)"
abbreviation "CMR_MSG_SYNC_RECEIVED \<equiv> (1 :: u32)"
abbreviation "CMR_MSG_SYNC_PROCESSED \<equiv> (2 :: u32)"

abbreviation "CMR_MSG_MAGIC_CODE \<equiv> (0xEFFEA55A :: u32)"
abbreviation "CMR_MSG_POLLING_PERIOD \<equiv> (200000000 :: int)"
abbreviation "CMR_THREAD_INIT_EVT \<equiv> (0x00FFFFFF :: u32)"
abbreviation "CMR_THREAD_EXIT_EVT \<equiv> (0x01FFFFFF :: u32)"
abbreviation "CMR_THREAD_EXIT \<equiv> (0x1000 :: int)"

text \<open>\<open>cmr_priv\<close> points to the slot the message was taken from.\<close>

record cmr_msg =
  msg_type :: u32
  sub_msg_type :: u32
  msg_data :: u32
  alloc_flag :: u32
  sync_flag :: u32
  cmr_priv :: "nat option"

text \<open>The \<open>CMR_MSG_INIT\<close> initialiser, which is also what \<open>bzero\<close> leaves.\<close>

definition MSG_INIT :: cmr_msg where
  "MSG_INIT = \<lparr>msg_type = 0, sub_msg_type = 0, msg_data = 0, alloc_flag = 0, sync_flag = 0,
     cmr_priv = None\<rparr>"

record cmr_msg_in =
  slot_msg :: cmr_msg
  slot_sem :: nat
  sync_f :: u32

record cmr_msg_cxt =
  msg_sem :: nat
  msg_count :: u32
  msg_number :: u32
  msg_magic :: u32
  msg_head :: "cmr_msg_in list"
  msg_write :: nat
  msg_read :: nat

subsection \<open>Operations of the queue\<close>

text \<open>
  The two booleans are the answers of the two \<open>malloc\<close> calls. The 32-bit size of the slot
  array wraps for 2^27 slots and more (a slot has 32 bytes); the loop that initialises the
  semaphores then leaves the block.
\<close>

definition cmr_msg_queue_create :: "bool \<Rightarrow> bool \<Rightarrow> u32 \<Rightarrow> (int + cmr_msg_cxt) option" where
  "cmr_msg_queue_create cxt_ok head_ok count =
     (if count = 0 then Some (Inl (- CMR_MSG_PARAM_ERR))
      else if \<not> cxt_ok then Some (Inl (- CMR_MSG_NO_MEM))
      else if \<not> head_ok then Some (Inl (- CMR_MSG_NO_MEM))
      else if 2 ^ 32 \<le> unat count * 32 then None
      else Some (Inr
        \<lparr>msg_sem = 0, msg_count = count, msg_number = 0, msg_magic = CMR_MSG_MAGIC_CODE,
         msg_head = replicate (unat count) \<lparr>slot_msg = MSG_INIT, slot_sem = 0, sync_f = 0\<rparr>,
         msg_write = 0, msg_read = 0\<rparr>))"

text \<open>\<open>p++\<close> with the wrap to \<open>msg_head\<close>.\<close>

definition advance :: "cmr_msg_cxt \<Rightarrow> nat \<Rightarrow> nat" where
  "advance c p = (if p + 1 > unat (msg_count c) - 1 then 0 else p + 1)"

definition set_slot :: "nat \<Rightarrow> (cmr_msg_in \<Rightarrow> cmr_msg_in) \<Rightarrow> cmr_msg_cxt \<Rightarrow> cmr_msg_cxt" where
  "set_slot i f c = c\<lparr>msg_head := (msg_head c)[i := f (msg_head c ! i)]\<rparr>"

definition sem_post_slot :: "nat \<Rightarrow> cmr_msg_cxt \<Rightarrow> cmr_msg_cxt" where
  "sem_post_slot i = set_slot i (\<lambda>n. n\<lparr>slot_sem := slot_sem n + 1\<rparr>)"

text \<open>\<open>cmr_msg_post\<close> up to the release of the mutex: an error, or the slot that was filled.\<close>

definition cmr_msg_post_store :: "cmr_msg \<Rightarrow> cmr_msg_cxt \<Rightarrow> int + (nat \<times> cmr_msg_cxt)" where
  "cmr_msg_post_store m c =
     (if msg_magic c \<noteq> CMR_MSG_MAGIC_CODE then Inl CMR_MSG_INVALID_HANDLE
      else if msg_number c + 1 \<ge> msg_count c then Inl CMR_MSG_OVERFLOW
      else let cur = msg_write c;
               w = advance c cur;
               w' = (if w = msg_read c then cur else w)
           in Inr (cur, (set_slot cur (\<lambda>n. n\<lparr>slot_msg := m, sync_f := sync_flag m\<rparr>) c)
                \<lparr>msg_write := w', msg_number := msg_number c + 1\<rparr>))"

definition sem_post_queue :: "cmr_msg_cxt \<Rightarrow> cmr_msg_cxt" where
  "sem_post_queue c = c\<lparr>msg_sem := msg_sem c + 1\<rparr>"

text \<open>What the caller of \<open>cmr_msg_post\<close> does next: it has its answer, or it waits for a slot.\<close>

datatype post_result = Ret int | Wait_slot nat

definition cmr_msg_post :: "cmr_msg \<Rightarrow> cmr_msg_cxt \<Rightarrow> post_result \<times> cmr_msg_cxt" where
  "cmr_msg_post m c =
     (case cmr_msg_post_store m c of
        Inl e \<Rightarrow> (Ret e, c)
      | Inr (i, c1) \<Rightarrow>
          (if sync_f (msg_head c1 ! i) \<noteq> CMR_MSG_SYNC_NONE then Wait_slot i else Ret CMR_MSG_SUCCESS,
           sem_post_queue c1))"

text \<open>
  \<open>cmr_msg_get\<close>: \<open>None\<close> while \<open>sem_wait\<close> blocks; otherwise the return value, the caller's
  message structure and the queue.
\<close>

definition get_acknowledge :: "nat \<Rightarrow> cmr_msg_cxt \<Rightarrow> cmr_msg_cxt" where
  "get_acknowledge cur c =
     (if sync_f (msg_head c ! cur) = CMR_MSG_SYNC_RECEIVED then sem_post_slot cur c else c)"

definition cmr_msg_get :: "cmr_msg_cxt \<Rightarrow> cmr_msg \<Rightarrow> (int \<times> cmr_msg \<times> cmr_msg_cxt) option" where
  "cmr_msg_get c message =
     (if msg_magic c \<noteq> CMR_MSG_MAGIC_CODE then Some (CMR_MSG_INVALID_HANDLE, message, c)
      else if msg_sem c = 0 then None
      else let c = c\<lparr>msg_sem := msg_sem c - 1\<rparr> in
        if msg_number c = 0 then Some (CMR_MSG_UNDERFLOW, message, c)
        else if msg_read c \<noteq> msg_write c then
          let cur = msg_read c;
              m = (slot_msg (msg_head c ! cur))\<lparr>cmr_priv := Some cur\<rparr>;
              c1 = (set_slot cur (\<lambda>n. n\<lparr>slot_msg := MSG_INIT\<rparr>) c)
                     \<lparr>msg_read := advance c cur, msg_number := msg_number c - 1\<rparr>
          in Some (CMR_MSG_SUCCESS, m, get_acknowledge cur c1)
        else Some (CMR_MSG_SUCCESS, message, c))"

text \<open>The absolute deadline of \<open>cmr_msg_timedget\<close>, 200 ms after \<open>now\<close>.\<close>

definition timed_deadline :: "int \<times> int \<Rightarrow> int \<times> int" where
  "timed_deadline now =
     (case now of (sec, nsec) \<Rightarrow>
        (let nsec = nsec + CMR_MSG_POLLING_PERIOD in
         if nsec > 1000000000 then (sec + 1, nsec - 1000000000) else (sec, nsec)))"

text \<open>
  \<open>sem_timedwait\<close> takes a unit when there is one, refuses a deadline whose nanoseconds are
  not below 10^9, and waits (\<open>None\<close>) until \<open>expired\<close>.
\<close>

definition cmr_msg_timedget ::
  "int \<times> int \<Rightarrow> bool \<Rightarrow> cmr_msg_cxt \<Rightarrow> cmr_msg \<Rightarrow> (int \<times> cmr_msg \<times> cmr_msg_cxt) option" where
  "cmr_msg_timedget now expired c message =
     (if msg_magic c \<noteq> CMR_MSG_MAGIC_CODE then Some (CMR_MSG_INVALID_HANDLE, message, c)
      else if fst now < 0 \<or> snd now < 0 \<or> snd now \<ge> 1000000000
        then Some (- CMR_MSG_PARAM_ERR, message, c)
      else if msg_sem c = 0 then
        (if snd (timed_deadline now) \<ge> 1000000000 \<or> expired
         then Some (CMR_MSG_NO_OTHER_MSG, message, c) else None)
      else let c = c\<lparr>msg_sem := msg_sem c - 1\<rparr> in
        if msg_number c = 0 then Some (CMR_MSG_UNDERFLOW, message, c)
        else if msg_read c \<noteq> msg_write c then
          let cur = msg_read c;
              m = slot_msg (msg_head c ! cur);
              c1 = (set_slot cur (\<lambda>n. n\<lparr>slot_msg := MSG_INIT\<rparr>) c)
                     \<lparr>msg_read := advance c cur, msg_number := msg_number c - 1\<rparr>
          in Some (CMR_MSG_SUCCESS, m, get_acknowledge cur c1)
        else Some (CMR_MSG_SUCCESS, message, c\<lparr>msg_number := msg_number c - 1\<rparr>))"

text \<open>\<open>cmr_msg_queue_destroy\<close> frees the queue (\<open>None\<close>) unless the magic is wrong.\<close>

definition cmr_msg_queue_destroy :: "cmr_msg_cxt \<Rightarrow> int \<times> cmr_msg_cxt option" where
  "cmr_msg_queue_destroy c =
     (if msg_magic c \<noteq> CMR_MSG_MAGIC_CODE then (CMR_MSG_INVALID_HANDLE, Some c)
      else (CMR_MSG_SUCCESS, None))"

subsection \<open>The consumer thread and its senders\<close>

text \<open>Where one call of \<open>cmr_msg_post\<close> stands.\<close>

datatype send = Stored nat | Signalled nat | Waiting nat | Returned int

text \<open>
  \<open>message\<close> is the local of \<open>cmr_common_routine\<close>, kept from one turn to the next; \<open>busy\<close>
  while the callback runs; \<open>freed\<close> logs the payloads released.
\<close>

record cmr_thread =
  queue :: cmr_msg_cxt
  sends :: "send list"
  message :: cmr_msg
  busy :: bool
  exited :: bool
  freed :: "u32 list"

text \<open>
  The steps of the system: a new call of \<open>cmr_thread_msg_send\<close> runs its locked section
  (it becomes the next entry of \<open>sends\<close>), the three later pieces of the call number \<open>k\<close>,
  the consumer's \<open>cmr_msg_get\<close>, and the end of its callback with that result.
\<close>

datatype cmr_event = Store cmr_msg | Signal nat | Check nat | Wake nat | Take | Finish int

definition post_step :: "cmr_msg \<Rightarrow> cmr_thread \<Rightarrow> cmr_thread" where
  "post_step m t =
     (case cmr_msg_post_store m (queue t) of
        Inl e \<Rightarrow> t\<lparr>sends := sends t @ [Returned e]\<rparr>
      | Inr (i, c) \<Rightarrow> t\<lparr>queue := c, sends := sends t @ [Stored i]\<rparr>)"

definition sender_step :: "nat \<Rightarrow> cmr_thread \<Rightarrow> cmr_thread" where
  "sender_step k t =
     (case sends t ! k of
        Stored i \<Rightarrow> t\<lparr>queue := sem_post_queue (queue t), sends := (sends t)[k := Signalled i]\<rparr>
      | Signalled i \<Rightarrow>
          t\<lparr>sends := (sends t)[k := (if sync_f (msg_head (queue t) ! i) \<noteq> CMR_MSG_SYNC_NONE
             then Waiting i else Returned CMR_MSG_SUCCESS)]\<rparr>
      | Waiting i \<Rightarrow>
          (if slot_sem (msg_head (queue t) ! i) = 0 then t
           else t\<lparr>queue := set_slot i (\<lambda>n. n\<lparr>slot_sem := slot_sem n - 1\<rparr>) (queue t),
                  sends := (sends t)[k := Returned CMR_MSG_SUCCESS]\<rparr>)
      | Returned r \<Rightarrow> t)"

text \<open>One turn of the loop of \<open>cmr_common_routine\<close>, up to the callback and from there on.\<close>

definition routine_take :: "cmr_thread \<Rightarrow> cmr_thread" where
  "routine_take t =
     (if busy t \<or> exited t then t
      else case cmr_msg_get (queue t) (message t) of
        None \<Rightarrow> t
      | Some (r, m, c) \<Rightarrow>
          (if r \<noteq> 0 then t\<lparr>queue := c, message := m, exited := True\<rparr>
           else t\<lparr>queue := c, message := m, busy := True\<rparr>))"

definition routine_result :: "cmr_msg \<Rightarrow> int \<Rightarrow> int" where
  "routine_result m r =
     (if msg_type m = CMR_THREAD_INIT_EVT then CMR_MSG_SUCCESS
      else if msg_type m = CMR_THREAD_EXIT_EVT then CMR_THREAD_EXIT
      else r)"

definition routine_acknowledge :: "cmr_msg \<Rightarrow> cmr_msg_cxt \<Rightarrow> cmr_msg_cxt" where
  "routine_acknowledge m c =
     (case cmr_priv m of
        None \<Rightarrow> c
      | Some i \<Rightarrow> (if sync_f (msg_head c ! i) = CMR_MSG_SYNC_PROCESSED then sem_post_slot i c else c))"

definition routine_finish :: "int \<Rightarrow> cmr_thread \<Rightarrow> cmr_thread" where
  "routine_finish r t =
     (if \<not> busy t then t
      else let m = message t;
               release = alloc_flag m \<noteq> 0 \<and> msg_data m \<noteq> 0
           in t\<lparr>queue := routine_acknowledge m (queue t),
                message := (if release then m\<lparr>msg_data := 0\<rparr> else m),
                freed := (if release then freed t @ [msg_data m] else freed t),
                busy := False,
                exited := (routine_result m r = CMR_THREAD_EXIT)\<rparr>)"

definition is_stored :: "send \<Rightarrow> bool" where
  "is_stored s = (case s of Stored i \<Rightarrow> True | _ \<Rightarrow> False)"

fun cmr_step :: "cmr_thread \<Rightarrow> cmr_event \<Rightarrow> cmr_thread" where
  "cmr_step t (Store m) = post_step m t"
| "cmr_step t (Signal k) =
     (if k < length (sends t) \<and> is_stored (sends t ! k) then sender_step k t else t)"
| "cmr_step t (Check k) =
     (if k < length (sends t) then
        case sends t ! k of Signalled i \<Rightarrow> sender_step k t | _ \<Rightarrow> t
      else t)"
| "cmr_step t (Wake k) =
     (if k < length (sends t) then
        case sends t ! k of Waiting i \<Rightarrow> sender_step k t | _ \<Rightarrow> t
      else t)"
| "cmr_step t Take = routine_take t"
| "cmr_step t (Finish r) = routine_finish r t"

text \<open>
  \<open>cmr_thread_create\<close>: an error, or the running system in which the caller has stored the
  INIT message (its call is entry 0 of \<open>sends\<close>). \<open>started\<close> is the result of
  \<open>pthread_create\<close>.
\<close>

definition cmr_thread_create :: "bool \<Rightarrow> bool \<Rightarrow> bool \<Rightarrow> int \<Rightarrow> u32 \<Rightarrow> (int + cmr_thread) option" where
  "cmr_thread_create thread_ok cxt_ok head_ok started queue_length =
     (if queue_length = 0 then Some (Inl CMR_MSG_PARAM_ERR)
      else if \<not> thread_ok then Some (Inl CMR_MSG_NO_MEM)
      else case cmr_msg_queue_create cxt_ok head_ok queue_length of
        None \<Rightarrow> None
      | Some (Inl e) \<Rightarrow> Some (Inl e)
      | Some (Inr c) \<Rightarrow>
          (if started \<noteq> 0 then Some (Inl started)
           else case cmr_msg_post_store
                  (MSG_INIT\<lparr>msg_type := CMR_THREAD_INIT_EVT, sync_flag := CMR_MSG_SYNC_PROCESSED\<rparr>) c of
             Inl e \<Rightarrow> Some (Inl e)
           | Inr (i, c1) \<Rightarrow>
               Some (Inr \<lparr>queue = c1, sends = [Stored i], message = MSG_INIT, busy = False,
                          exited = False, freed = []\<rparr>)))"

subsection \<open>The ring\<close>

text \<open>
  The representation invariant: the read and write positions are inside the array and
  \<open>msg_number\<close> apart, and one slot always stays unused.
\<close>

definition cmr_ring :: "cmr_msg_cxt \<Rightarrow> bool" where
  "cmr_ring c \<longleftrightarrow>
     msg_magic c = CMR_MSG_MAGIC_CODE \<and> length (msg_head c) = unat (msg_count c) \<and>
     unat (msg_number c) < unat (msg_count c) \<and> msg_read c < unat (msg_count c) \<and>
     msg_write c = (msg_read c + unat (msg_number c)) mod unat (msg_count c)"

text \<open>The slots that hold a message, oldest first.\<close>

definition cmr_slots :: "cmr_msg_cxt \<Rightarrow> nat list" where
  "cmr_slots c = map (\<lambda>k. (msg_read c + k) mod unat (msg_count c)) [0..<unat (msg_number c)]"

definition cmr_queued :: "cmr_msg_cxt \<Rightarrow> cmr_msg list" where
  "cmr_queued c = map (\<lambda>i. slot_msg (msg_head c ! i)) (cmr_slots c)"

lemma advance_mod:
  assumes "cmr_ring c" and "p < unat (msg_count c)"
  shows "advance c p = Suc p mod unat (msg_count c)"
proof (cases "Suc p < unat (msg_count c)")
  case False
  with assms(2) have "Suc p = unat (msg_count c)" by simp
  then show ?thesis using assms(2) by (simp add: advance_def)
qed (use assms(2) in \<open>simp add: advance_def\<close>)

lemma slot_update_simps [simp]:
  "msg_sem (set_slot i f c) = msg_sem c" "msg_count (set_slot i f c) = msg_count c"
  "msg_number (set_slot i f c) = msg_number c" "msg_magic (set_slot i f c) = msg_magic c"
  "msg_write (set_slot i f c) = msg_write c" "msg_read (set_slot i f c) = msg_read c"
  "length (msg_head (set_slot i f c)) = length (msg_head c)"
  by (simp_all add: set_slot_def)

lemma set_slot_nth:
  "j < length (msg_head c) \<Longrightarrow>
     msg_head (set_slot i f c) ! j = (if i = j then f (msg_head c ! j) else msg_head c ! j)"
  by (auto simp: set_slot_def nth_list_update)

lemma cmr_slots_set_slot [simp]:
  "cmr_slots (set_slot i f c) = cmr_slots c"
  "cmr_slots (c\<lparr>msg_sem := x\<rparr>) = cmr_slots c"
  "cmr_slots (sem_post_slot i c) = cmr_slots c"
  "cmr_slots (sem_post_queue c) = cmr_slots c"
  by (simp_all add: cmr_slots_def sem_post_slot_def sem_post_queue_def)

lemma cmr_ring_set_slot [simp]:
  "cmr_ring (set_slot i f c) = cmr_ring c"
  "cmr_ring (c\<lparr>msg_sem := x\<rparr>) = cmr_ring c"
  "cmr_ring (sem_post_slot i c) = cmr_ring c"
  "cmr_ring (sem_post_queue c) = cmr_ring c"
  by (simp_all add: cmr_ring_def sem_post_slot_def sem_post_queue_def)

lemma cmr_slots_bound: "cmr_ring c \<Longrightarrow> i \<in> set (cmr_slots c) \<Longrightarrow> i < length (msg_head c)"
  by (auto simp: cmr_ring_def cmr_slots_def)

lemma cmr_slots_distinct: "cmr_ring c \<Longrightarrow> distinct (cmr_slots c)"
  by (auto simp: cmr_slots_def distinct_map inj_on_def cmr_ring_def intro: ring_offset_inj)

lemma write_not_queued: "cmr_ring c \<Longrightarrow> msg_write c \<notin> set (cmr_slots c)"
  by (auto simp: cmr_slots_def cmr_ring_def dest!: ring_offset_inj)

lemma unat_Suc_bounded:
  fixes a b :: u32
  assumes "unat a < unat b"
  shows "unat (a + 1) = unat a + 1"
  using assms unat_u32_lt [of b] by (simp add: unat_word_ariths)

text \<open>What a post does to the ring.\<close>

lemma post_store_full:
  "cmr_ring c \<Longrightarrow> unat (msg_number c) + 1 = unat (msg_count c) \<Longrightarrow>
     cmr_msg_post_store m c = Inl CMR_MSG_OVERFLOW"
  using unat_Suc_bounded [of "msg_number c" "msg_count c"]
  by (auto simp: cmr_msg_post_store_def cmr_ring_def word_le_nat_alt)

lemma post_store_room:
  assumes "cmr_ring c" and "unat (msg_number c) + 1 < unat (msg_count c)"
  obtains c' where "cmr_msg_post_store m c = Inr (msg_write c, c')"
    and "cmr_ring c'" and "cmr_slots c' = cmr_slots c @ [msg_write c]"
    and "msg_sem c' = msg_sem c" and "msg_count c' = msg_count c" and "msg_read c' = msg_read c"
    and "unat (msg_number c') = unat (msg_number c) + 1"
    and "msg_head c' = (msg_head c)[msg_write c :=
           (msg_head c ! msg_write c)\<lparr>slot_msg := m, sync_f := sync_flag m\<rparr>]"
proof -
  let ?n = "unat (msg_count c)" and ?w = "msg_write c"
  from assms(1) have w: "?w = (msg_read c + unat (msg_number c)) mod ?n" "?w < ?n"
    and r: "msg_read c < ?n" "unat (msg_number c) < ?n" "msg_magic c = CMR_MSG_MAGIC_CODE"
    by (auto simp: cmr_ring_def)
  have num: "unat (msg_number c + 1) = unat (msg_number c) + 1"
    using r(2) by (rule unat_Suc_bounded)
  have adv: "advance c ?w = (msg_read c + (unat (msg_number c) + 1)) mod ?n"
    using advance_mod [OF assms(1) w(2)] w(1) by (simp add: mod_Suc_eq)
  have neq: "advance c ?w \<noteq> msg_read c"
    using adv ring_offset_inj [of "msg_read c" "unat (msg_number c) + 1" ?n 0] assms(2) r(1) by auto
  let ?c' = "(set_slot ?w (\<lambda>n. n\<lparr>slot_msg := m, sync_f := sync_flag m\<rparr>) c)
     \<lparr>msg_write := advance c ?w, msg_number := msg_number c + 1\<rparr>"
  have "cmr_msg_post_store m c = Inr (?w, ?c')"
    using assms(2) r neq num by (simp add: cmr_msg_post_store_def word_le_nat_alt Let_def)
  moreover have "cmr_ring ?c'"
    using assms adv num by (auto simp: cmr_ring_def)
  moreover have "cmr_slots ?c' = cmr_slots c @ [?w]"
    using num w(1) by (simp add: cmr_slots_def)
  ultimately show thesis using that [of ?c'] num by (simp add: set_slot_def)
qed

text \<open>What a get does to the ring, once there is a unit to take.\<close>

lemma get_acknowledge_simps [simp]:
  "cmr_ring (get_acknowledge i c) = cmr_ring c"
  "cmr_slots (get_acknowledge i c) = cmr_slots c"
  "msg_sem (get_acknowledge i c) = msg_sem c" "msg_count (get_acknowledge i c) = msg_count c"
  "msg_read (get_acknowledge i c) = msg_read c" "msg_number (get_acknowledge i c) = msg_number c"
  "length (msg_head (get_acknowledge i c)) = length (msg_head c)"
  by (simp_all add: get_acknowledge_def sem_post_slot_def)

lemma slot_fields_kept:
  "j < length (msg_head c) \<Longrightarrow>
     slot_msg (msg_head (sem_post_slot i c) ! j) = slot_msg (msg_head c ! j)"
  "j < length (msg_head c) \<Longrightarrow>
     sync_f (msg_head (sem_post_slot i c) ! j) = sync_f (msg_head c ! j)"
  "j < length (msg_head c) \<Longrightarrow>
     slot_sem (msg_head (sem_post_slot i c) ! j) = slot_sem (msg_head c ! j) + (if i = j then 1 else 0)"
  by (simp_all add: sem_post_slot_def set_slot_nth)

lemma get_result:
  assumes "cmr_ring c" and "0 < msg_sem c" and "0 < unat (msg_number c)"
  obtains c' where
    "cmr_msg_get c m0 =
       Some (CMR_MSG_SUCCESS, (slot_msg (msg_head c ! msg_read c))\<lparr>cmr_priv := Some (msg_read c)\<rparr>, c')"
    and "cmr_ring c'" and "cmr_slots c = msg_read c # cmr_slots c'"
    and "msg_sem c' = msg_sem c - 1" and "msg_count c' = msg_count c"
    and "unat (msg_number c') = unat (msg_number c) - 1"
    and "msg_read c' = Suc (msg_read c) mod unat (msg_count c)"
    and "length (msg_head c') = length (msg_head c)"
    and "\<And>j. j < length (msg_head c) \<Longrightarrow> sync_f (msg_head c' ! j) = sync_f (msg_head c ! j)"
    and "\<And>j. j < length (msg_head c) \<Longrightarrow> j \<noteq> msg_read c \<Longrightarrow> msg_head c' ! j = msg_head c ! j"
    and "slot_sem (msg_head c' ! msg_read c) = slot_sem (msg_head c ! msg_read c) +
           (if sync_f (msg_head c ! msg_read c) = CMR_MSG_SYNC_RECEIVED then 1 else 0)"
proof -
  let ?n = "unat (msg_count c)" and ?r = "msg_read c"
  from assms(1) have r: "?r < ?n" "unat (msg_number c) < ?n" "msg_magic c = CMR_MSG_MAGIC_CODE"
    and len: "length (msg_head c) = ?n"
    and w: "msg_write c = (?r + unat (msg_number c)) mod ?n"
    by (auto simp: cmr_ring_def)
  have neq: "?r \<noteq> msg_write c"
    using ring_offset_inj [of ?r "unat (msg_number c)" ?n 0] w r assms(3) by auto
  have nz: "msg_number c \<noteq> 0" using assms(3) by auto
  then have num: "unat (msg_number c - 1) = unat (msg_number c) - 1"
    by (simp add: unat_minus_one)
  have adv: "advance (c\<lparr>msg_sem := msg_sem c - 1\<rparr>) ?r = Suc ?r mod ?n"
    using advance_mod [OF assms(1) r(1)] by (simp add: advance_def)
  let ?b = "c\<lparr>msg_sem := msg_sem c - 1\<rparr>"
  let ?c1 = "(set_slot ?r (\<lambda>n. n\<lparr>slot_msg := MSG_INIT\<rparr>) ?b)
     \<lparr>msg_read := advance ?b ?r, msg_number := msg_number c - 1\<rparr>"
  have ring1: "cmr_ring ?c1"
  proof -
    obtain k where k: "unat (msg_number c) = Suc k" using assms(3) by (cases "unat (msg_number c)") auto
    then show ?thesis using assms(1) adv num w by (auto simp: cmr_ring_def mod_simps)
  qed
  have slots1: "cmr_slots c = ?r # cmr_slots ?c1"
  proof -
    obtain k where k: "unat (msg_number c) = Suc k" using assms(3) by (cases "unat (msg_number c)") auto
    have "[0..<Suc k] = 0 # map Suc [0..<k]" by (simp add: upt_conv_Cons map_Suc_upt)
    then show ?thesis using adv num k r(1)
      by (simp add: cmr_slots_def mod_simps)
  qed
  have "cmr_msg_get c m0 =
     Some (CMR_MSG_SUCCESS, (slot_msg (msg_head c ! ?r))\<lparr>cmr_priv := Some ?r\<rparr>, get_acknowledge ?r ?c1)"
    using assms(2) r(3) nz neq by (simp add: cmr_msg_get_def Let_def)
  moreover have "slot_sem (msg_head (get_acknowledge ?r ?c1) ! ?r) = slot_sem (msg_head c ! ?r) +
      (if sync_f (msg_head c ! ?r) = CMR_MSG_SYNC_RECEIVED then 1 else 0)"
    using r(1) len by (simp add: get_acknowledge_def slot_fields_kept set_slot_def)
  moreover have "msg_head (get_acknowledge ?r ?c1) ! j = msg_head c ! j"
    if "j < length (msg_head c)" "j \<noteq> ?r" for j
    using that by (simp add: get_acknowledge_def sem_post_slot_def set_slot_def)
  moreover have "sync_f (msg_head (get_acknowledge ?r ?c1) ! j) = sync_f (msg_head c ! j)"
    if "j < length (msg_head c)" for j
    using that by (cases "j = ?r") (simp_all add: get_acknowledge_def sem_post_slot_def set_slot_def)
  moreover have "msg_read (get_acknowledge ?r ?c1) = Suc ?r mod ?n"
    using adv by simp
  moreover have "length (msg_head (get_acknowledge ?r ?c1)) = length (msg_head c)"
    by simp
  ultimately show thesis
    using ring1 slots1 num by (intro that [of "get_acknowledge ?r ?c1"]) simp_all
qed

subsection \<open>A queue, for its users\<close>

text \<open>
  Posting and getting one after the other, on what a user sees of a message (everything but
  \<open>cmr_priv\<close>, which is reserved to the thread).
\<close>

type_synonym cmr_payload = "u32 \<times> u32 \<times> u32 \<times> u32 \<times> u32"

definition payload :: "cmr_msg \<Rightarrow> cmr_payload" where
  "payload m = (msg_type m, sub_msg_type m, msg_data m, alloc_flag m, sync_flag m)"

definition of_payload :: "cmr_payload \<Rightarrow> cmr_msg" where
  "of_payload p = (case p of (t, s, d, a, f) \<Rightarrow>
     \<lparr>msg_type = t, sub_msg_type = s, msg_data = d, alloc_flag = a, sync_flag = f, cmr_priv = None\<rparr>)"

definition cmr_enq :: "cmr_payload \<Rightarrow> cmr_msg_cxt \<Rightarrow> cmr_msg_cxt option" where
  "cmr_enq p c =
     (case cmr_msg_post (of_payload p) c of
        (Ret r, c') \<Rightarrow> if r = CMR_MSG_SUCCESS then Some c' else None
      | (Wait_slot _, c') \<Rightarrow> Some c')"

definition cmr_deq :: "cmr_msg_cxt \<Rightarrow> (cmr_payload \<times> cmr_msg_cxt) option" where
  "cmr_deq c =
     (case cmr_msg_get c MSG_INIT of
        None \<Rightarrow> None
      | Some (r, m, c') \<Rightarrow> if r = CMR_MSG_SUCCESS then Some (payload m, c') else None)"

definition cmr_contents :: "cmr_msg_cxt \<Rightarrow> cmr_payload list" where
  "cmr_contents c = map payload (cmr_queued c)"

definition cmr_quiet :: "cmr_msg_cxt \<Rightarrow> bool" where
  "cmr_quiet c \<longleftrightarrow> cmr_ring c \<and> msg_sem c = unat (msg_number c)"

lemma payload_of_payload [simp]: "payload (of_payload p) = p"
  by (auto simp: payload_def of_payload_def split: prod.splits)

lemma payload_priv [simp]: "payload (m\<lparr>cmr_priv := x\<rparr>) = payload m"
  by (simp add: payload_def)

lemma cmr_slots_length [simp]: "length (cmr_slots c) = unat (msg_number c)"
  by (simp add: cmr_slots_def)

lemma cmr_enq_law:
  assumes "cmr_quiet c" and "cmr_enq p c = Some c'"
  shows "cmr_quiet c' \<and> cmr_contents c' = cmr_contents c @ [p]"
proof -
  from assms(1) have ring: "cmr_ring c" and sem: "msg_sem c = unat (msg_number c)"
    by (auto simp: cmr_quiet_def)
  then have "unat (msg_number c) + 1 \<noteq> unat (msg_count c)"
    using assms(2) post_store_full [OF ring] by (auto simp: cmr_enq_def cmr_msg_post_def)
  with ring have "unat (msg_number c) + 1 < unat (msg_count c)" by (auto simp: cmr_ring_def)
  from post_store_room [OF ring this, of "of_payload p"] obtain c1
    where st: "cmr_msg_post_store (of_payload p) c = Inr (msg_write c, c1)"
      and c1: "cmr_ring c1" "cmr_slots c1 = cmr_slots c @ [msg_write c]" "msg_sem c1 = msg_sem c"
        "unat (msg_number c1) = unat (msg_number c) + 1"
        "msg_head c1 = (msg_head c)[msg_write c :=
           (msg_head c ! msg_write c)\<lparr>slot_msg := of_payload p, sync_f := sync_flag (of_payload p)\<rparr>]"
    by metis
  have c': "c' = sem_post_queue c1"
    using assms(2) st by (auto simp: cmr_enq_def cmr_msg_post_def split: if_splits)
  have w: "msg_write c < length (msg_head c)" using ring by (auto simp: cmr_ring_def)
  have "cmr_queued (sem_post_queue c1) = cmr_queued c @ [of_payload p]"
    using c1 w write_not_queued [OF ring]
    by (auto simp: cmr_queued_def sem_post_queue_def nth_list_update intro!: map_cong)
  then show ?thesis
    using c' c1 sem by (simp add: cmr_quiet_def cmr_contents_def sem_post_queue_def cmr_ring_def)
qed

lemma cmr_deq_empty:
  assumes "cmr_quiet c"
  shows "cmr_deq c = None \<longleftrightarrow> cmr_contents c = []"
proof (cases "unat (msg_number c) = 0")
  case True
  with assms show ?thesis
    by (auto simp: cmr_quiet_def cmr_ring_def cmr_deq_def cmr_msg_get_def cmr_contents_def
        cmr_queued_def cmr_slots_def)
next
  case False
  with assms have "cmr_ring c" "0 < msg_sem c" "0 < unat (msg_number c)" by (auto simp: cmr_quiet_def)
  from get_result [OF this, of MSG_INIT] obtain c' m
    where "cmr_msg_get c MSG_INIT = Some (CMR_MSG_SUCCESS, m, c')" "cmr_slots c = msg_read c # cmr_slots c'"
    by metis
  then show ?thesis by (simp add: cmr_deq_def cmr_contents_def cmr_queued_def)
qed

lemma cmr_deq_law:
  assumes "cmr_quiet c" and "cmr_deq c = Some (p, c')"
  shows "cmr_quiet c' \<and> cmr_contents c = p # cmr_contents c'"
proof -
  have "cmr_contents c \<noteq> []" using assms cmr_deq_empty by force
  with assms(1) have ring: "cmr_ring c" and pos: "0 < msg_sem c" "0 < unat (msg_number c)"
    and sem: "msg_sem c = unat (msg_number c)"
    by (auto simp: cmr_quiet_def cmr_contents_def cmr_queued_def simp flip: length_greater_0_conv)
  let ?m = "(slot_msg (msg_head c ! msg_read c))\<lparr>cmr_priv := Some (msg_read c)\<rparr>"
  from get_result [OF ring pos, of MSG_INIT] obtain c1
    where g: "cmr_msg_get c MSG_INIT = Some (CMR_MSG_SUCCESS, ?m, c1)"
      and c1: "cmr_ring c1" "cmr_slots c = msg_read c # cmr_slots c1" "msg_sem c1 = msg_sem c - 1"
        "unat (msg_number c1) = unat (msg_number c) - 1"
      and heads: "\<And>j. j < length (msg_head c) \<Longrightarrow> j \<noteq> msg_read c \<Longrightarrow> msg_head c1 ! j = msg_head c ! j"
    by metis
  have c': "c' = c1" "p = payload ?m" using assms(2) g by (auto simp: cmr_deq_def)
  have "msg_read c \<notin> set (cmr_slots c1)" using cmr_slots_distinct [OF ring] c1(2) by simp
  moreover have "\<And>i. i \<in> set (cmr_slots c1) \<Longrightarrow> i < length (msg_head c)"
    using cmr_slots_bound [OF ring] c1(2) by simp
  ultimately have "map (\<lambda>i. slot_msg (msg_head c1 ! i)) (cmr_slots c1)
      = map (\<lambda>i. slot_msg (msg_head c ! i)) (cmr_slots c1)"
    by (intro map_cong refl) (metis heads)
  then show ?thesis
    using c' c1 sem pos by (simp add: cmr_quiet_def cmr_contents_def cmr_queued_def)
qed

interpretation cmr_queue: fifo cmr_enq cmr_deq cmr_contents cmr_quiet
  by unfold_locales (use cmr_enq_law cmr_deq_empty cmr_deq_law in blast)+

lemma queue_create_quiet:
  assumes "cmr_msg_queue_create a b n = Some (Inr c)"
  shows "cmr_quiet c \<and> cmr_contents c = [] \<and> msg_count c = n"
  using assms unat_gt_0 [of n]
  by (auto simp: cmr_msg_queue_create_def cmr_quiet_def cmr_ring_def cmr_contents_def cmr_queued_def
      cmr_slots_def split: if_splits)

subsection \<open>The running system\<close>

definition send_slot :: "send \<Rightarrow> nat option" where
  "send_slot s = (case s of Stored i \<Rightarrow> Some i | Signalled i \<Rightarrow> Some i | Waiting i \<Rightarrow> Some i
     | Returned _ \<Rightarrow> None)"

definition stored_sends :: "cmr_thread \<Rightarrow> nat" where
  "stored_sends t = length (filter is_stored (sends t))"

text \<open>The slot of the message being processed lies just behind the read position.\<close>

definition in_flight :: "cmr_msg_cxt \<Rightarrow> cmr_msg \<Rightarrow> bool" where
  "in_flight c m \<longleftrightarrow>
     (case cmr_priv m of
        None \<Rightarrow> False
      | Some i \<Rightarrow> i < length (msg_head c) \<and> msg_read c = Suc i mod unat (msg_count c) \<and>
          sync_f (msg_head c ! i) = sync_flag m)"

definition cmr_ok :: "cmr_thread \<Rightarrow> bool" where
  "cmr_ok t \<longleftrightarrow>
     cmr_ring (queue t) \<and>
     unat (msg_number (queue t)) = msg_sem (queue t) + stored_sends t \<and>
     (\<forall>i \<in> set (cmr_slots (queue t)).
        sync_f (msg_head (queue t) ! i) = sync_flag (slot_msg (msg_head (queue t) ! i))) \<and>
     (\<forall>s \<in> set (sends t). \<forall>i. send_slot s = Some i \<longrightarrow> i < length (msg_head (queue t))) \<and>
     (busy t \<longrightarrow> in_flight (queue t) (message t))"

lemma length_filter_update:
  "k < length xs \<Longrightarrow>
     length (filter P (xs[k := y])) + (if P (xs ! k) then 1 else 0)
       = length (filter P xs) + (if P y then 1 else 0)"
proof (induction xs arbitrary: k)
  case (Cons x xs)
  then show ?case
  proof (cases k)
    case (Suc j)
    with Cons.IH [of j] Cons.prems show ?thesis by simp
  qed simp
qed simp

lemma is_stored_simps [simp]:
  "is_stored (Stored i)" "\<not> is_stored (Signalled i)" "\<not> is_stored (Waiting i)"
  "\<not> is_stored (Returned r)"
  by (simp_all add: is_stored_def)

lemma send_slot_simps [simp]:
  "send_slot (Stored i) = Some i" "send_slot (Signalled i) = Some i" "send_slot (Waiting i) = Some i"
  "send_slot (Returned r) = None"
  by (simp_all add: send_slot_def)

lemma in_flight_not_written:
  assumes "cmr_ring c" and "in_flight c m" and "unat (msg_number c) + 1 < unat (msg_count c)"
  shows "cmr_priv m \<noteq> Some (msg_write c)"
proof
  assume "cmr_priv m = Some (msg_write c)"
  with assms(2) have "msg_read c = Suc (msg_write c) mod unat (msg_count c)"
    by (simp add: in_flight_def)
  also have "\<dots> = (msg_read c + (unat (msg_number c) + 1)) mod unat (msg_count c)"
    using assms(1) by (simp add: cmr_ring_def mod_Suc_eq)
  finally have "(msg_read c + (unat (msg_number c) + 1)) mod unat (msg_count c)
      = (msg_read c + 0) mod unat (msg_count c)"
    using assms(1) by (simp add: cmr_ring_def)
  from ring_offset_inj [OF this assms(3)] assms(3) show False by simp
qed

lemma post_step_ok:
  assumes "cmr_ok t"
  shows "cmr_ok (post_step m t)"
proof (cases "unat (msg_number (queue t)) + 1 < unat (msg_count (queue t))")
  case False
  from assms have ring: "cmr_ring (queue t)" by (simp add: cmr_ok_def)
  with False have "unat (msg_number (queue t)) + 1 = unat (msg_count (queue t))"
    by (simp add: cmr_ring_def)
  then have "post_step m t = t\<lparr>sends := sends t @ [Returned CMR_MSG_OVERFLOW]\<rparr>"
    using post_store_full [OF ring] by (simp add: post_step_def)
  with assms show ?thesis by (auto simp: cmr_ok_def stored_sends_def)
next
  case True
  let ?q = "queue t" let ?w = "msg_write ?q"
  from assms have ring: "cmr_ring ?q" by (simp add: cmr_ok_def)
  from post_store_room [OF ring True, of m] obtain c
    where st: "cmr_msg_post_store m ?q = Inr (?w, c)"
      and c: "cmr_ring c" "cmr_slots c = cmr_slots ?q @ [?w]" "msg_sem c = msg_sem ?q"
        "msg_count c = msg_count ?q" "msg_read c = msg_read ?q"
        "unat (msg_number c) = unat (msg_number ?q) + 1"
        "msg_head c = (msg_head ?q)[?w := (msg_head ?q ! ?w)\<lparr>slot_msg := m, sync_f := sync_flag m\<rparr>]"
    by metis
  have w: "?w < length (msg_head ?q)" using ring by (auto simp: cmr_ring_def)
  have step: "post_step m t = t\<lparr>queue := c, sends := sends t @ [Stored ?w]\<rparr>"
    using st by (simp add: post_step_def)
  have "in_flight c (message t)" if "in_flight ?q (message t)"
    using in_flight_not_written [OF ring that True] that c
    by (auto simp: in_flight_def nth_list_update split: option.splits)
  moreover have "sync_f (msg_head c ! i) = sync_flag (slot_msg (msg_head c ! i))"
    if "i \<in> set (cmr_slots c)" for i
    using that assms c w by (auto simp: cmr_ok_def nth_list_update)
  ultimately show ?thesis
    using assms step c w by (auto simp: cmr_ok_def stored_sends_def)
qed

text \<open>Steps that only move semaphores and one sender.\<close>

lemma set_slot_sem_ok:
  assumes "cmr_ok t" and "\<And>n. slot_msg (f n) = slot_msg n \<and> sync_f (f n) = sync_f n"
  shows "cmr_ok (t\<lparr>queue := set_slot i f (queue t)\<rparr>)"
proof -
  let ?q = "queue t"
  have same: "slot_msg (msg_head (set_slot i f ?q) ! j) = slot_msg (msg_head ?q ! j) \<and>
      sync_f (msg_head (set_slot i f ?q) ! j) = sync_f (msg_head ?q ! j)"
    if "j < length (msg_head ?q)" for j
    using that assms(2) by (simp add: set_slot_nth)
  have ring: "cmr_ring ?q" using assms(1) by (simp add: cmr_ok_def)
  have "in_flight (set_slot i f ?q) (message t)" if "in_flight ?q (message t)"
    using that same by (auto simp: in_flight_def split: option.splits)
  then show ?thesis
    using assms(1) same cmr_slots_bound [OF ring] by (auto simp: cmr_ok_def stored_sends_def)
qed

lemma sends_update_ok:
  assumes "cmr_ok t" and "k < length (sends t)"
    and "\<not> is_stored (sends t ! k)" and "\<not> is_stored s"
    and "send_slot s = None \<or> send_slot s = send_slot (sends t ! k)"
  shows "cmr_ok (t\<lparr>sends := (sends t)[k := s]\<rparr>)"
proof -
  have "stored_sends (t\<lparr>sends := (sends t)[k := s]\<rparr>) = stored_sends t"
    using length_filter_update [OF assms(2), of is_stored s] assms(3,4) by (simp add: stored_sends_def)
  moreover have "sends t ! k \<in> set (sends t)" using assms(2) by simp
  ultimately show ?thesis
    using assms(1,5) by (auto simp: cmr_ok_def dest!: set_update_subset_insert [THEN subsetD])
qed

lemma sender_step_ok:
  assumes "cmr_ok t" and "k < length (sends t)"
  shows "cmr_ok (sender_step k t)"
proof (cases "sends t ! k")
  case (Stored i)
  let ?s = "(sends t)[k := Signalled i]"
  have count: "stored_sends (t\<lparr>queue := c, sends := ?s\<rparr>) + 1 = stored_sends t" for c
    using length_filter_update [OF assms(2), of is_stored "Signalled i"] Stored
    by (simp add: stored_sends_def)
  have "Stored i \<in> set (sends t)" using assms(2) Stored by (metis nth_mem)
  then have "\<forall>s \<in> set ?s. \<forall>i. send_slot s = Some i \<longrightarrow> i < length (msg_head (queue t))"
    using assms(1) by (auto simp: cmr_ok_def dest!: set_update_subset_insert [THEN subsetD])
  then show ?thesis
    using assms(1) Stored count [of "sem_post_queue (queue t)"]
    by (auto simp: sender_step_def cmr_ok_def sem_post_queue_def cmr_slots_def in_flight_def cmr_ring_def
        split: option.splits)
next
  case (Signalled i)
  then show ?thesis using sends_update_ok [OF assms] by (simp add: sender_step_def)
next
  case (Waiting i)
  let ?f = "\<lambda>n. n\<lparr>slot_sem := slot_sem n - 1\<rparr>"
  have "cmr_ok (t\<lparr>queue := set_slot i ?f (queue t)\<rparr>)"
    by (rule set_slot_sem_ok [OF assms(1)]) simp
  from sends_update_ok [OF this, of k "Returned 0"] show ?thesis
    using assms Waiting by (simp add: sender_step_def)
qed (use assms in \<open>simp add: sender_step_def\<close>)

lemma cmr_ok_pending:
  assumes "cmr_ok t" and "0 < msg_sem (queue t)"
  shows "cmr_ring (queue t)" and "0 < unat (msg_number (queue t))"
  using assms by (auto simp: cmr_ok_def)

lemma take_blocked: "cmr_ok t \<Longrightarrow> msg_sem (queue t) = 0 \<Longrightarrow> routine_take t = t"
  by (auto simp: routine_take_def cmr_msg_get_def cmr_ok_def cmr_ring_def)

text \<open>The consumer's turn, when it has a unit: it takes the oldest message.\<close>

lemma take_result:
  assumes "cmr_ok t" and "\<not> busy t" and "\<not> exited t" and "0 < msg_sem (queue t)"
  obtains c where
    "routine_take t = t\<lparr>queue := c, busy := True,
       message := (slot_msg (msg_head (queue t) ! msg_read (queue t)))\<lparr>cmr_priv := Some (msg_read (queue t))\<rparr>\<rparr>"
    and "cmr_slots (queue t) = msg_read (queue t) # cmr_slots c"
    and "msg_read c = Suc (msg_read (queue t)) mod unat (msg_count (queue t))"
    and "length (msg_head c) = length (msg_head (queue t))" and "msg_count c = msg_count (queue t)"
    and "\<And>j. j < length (msg_head (queue t)) \<Longrightarrow> sync_f (msg_head c ! j) = sync_f (msg_head (queue t) ! j)"
    and "\<And>j. j < length (msg_head (queue t)) \<Longrightarrow> j \<noteq> msg_read (queue t) \<Longrightarrow>
           msg_head c ! j = msg_head (queue t) ! j"
    and "slot_sem (msg_head c ! msg_read (queue t)) = slot_sem (msg_head (queue t) ! msg_read (queue t)) +
           (if sync_f (msg_head (queue t) ! msg_read (queue t)) = CMR_MSG_SYNC_RECEIVED then 1 else 0)"
    and "cmr_ring c" and "unat (msg_number c) = msg_sem c + stored_sends t"
proof -
  let ?q = "queue t" let ?r = "msg_read ?q"
  note pend = cmr_ok_pending [OF assms(1,4)]
  from get_result [OF pend(1) assms(4) pend(2), of "message t"] obtain c
    where g: "cmr_msg_get ?q (message t) =
         Some (CMR_MSG_SUCCESS, (slot_msg (msg_head ?q ! ?r))\<lparr>cmr_priv := Some ?r\<rparr>, c)"
      and c: "cmr_ring c" "cmr_slots ?q = ?r # cmr_slots c" "msg_sem c = msg_sem ?q - 1"
        "msg_count c = msg_count ?q" "unat (msg_number c) = unat (msg_number ?q) - 1"
        "msg_read c = Suc ?r mod unat (msg_count ?q)" "length (msg_head c) = length (msg_head ?q)"
      and heads: "\<And>j. j < length (msg_head ?q) \<Longrightarrow> sync_f (msg_head c ! j) = sync_f (msg_head ?q ! j)"
        "\<And>j. j < length (msg_head ?q) \<Longrightarrow> j \<noteq> ?r \<Longrightarrow> msg_head c ! j = msg_head ?q ! j"
        "slot_sem (msg_head c ! ?r) = slot_sem (msg_head ?q ! ?r) +
           (if sync_f (msg_head ?q ! ?r) = CMR_MSG_SYNC_RECEIVED then 1 else 0)"
    by metis
  have "unat (msg_number c) = msg_sem c + stored_sends t"
    using assms(1,4) c(3,5) by (simp add: cmr_ok_def)
  moreover have "routine_take t = t\<lparr>queue := c, busy := True,
      message := (slot_msg (msg_head ?q ! ?r))\<lparr>cmr_priv := Some ?r\<rparr>\<rparr>"
    using assms(2,3) g by (simp add: routine_take_def)
  ultimately show thesis using that c heads by metis
qed

lemma routine_take_ok:
  assumes "cmr_ok t"
  shows "cmr_ok (routine_take t)"
proof (cases "busy t \<or> exited t \<or> msg_sem (queue t) = 0")
  case True
  then have "routine_take t = t"
    using take_blocked [OF assms] by (cases "msg_sem (queue t) = 0") (auto simp: routine_take_def)
  with assms show ?thesis by simp
next
  case False
  let ?q = "queue t" let ?r = "msg_read ?q"
  from False have "\<not> busy t" "\<not> exited t" "0 < msg_sem ?q" by auto
  from take_result [OF assms this] obtain c
    where tk: "routine_take t = t\<lparr>queue := c, busy := True,
        message := (slot_msg (msg_head ?q ! ?r))\<lparr>cmr_priv := Some ?r\<rparr>\<rparr>"
      and c: "cmr_slots ?q = ?r # cmr_slots c" "msg_read c = Suc ?r mod unat (msg_count ?q)"
        "length (msg_head c) = length (msg_head ?q)" "msg_count c = msg_count ?q"
      and sync: "\<And>j. j < length (msg_head ?q) \<Longrightarrow> sync_f (msg_head c ! j) = sync_f (msg_head ?q ! j)"
      and other: "\<And>j. j < length (msg_head ?q) \<Longrightarrow> j \<noteq> ?r \<Longrightarrow> msg_head c ! j = msg_head ?q ! j"
      and ring: "cmr_ring c" and num: "unat (msg_number c) = msg_sem c + stored_sends t"
    by metis
  have ring0: "cmr_ring ?q" using assms by (simp add: cmr_ok_def)
  have r: "?r < length (msg_head ?q)" using ring0 by (simp add: cmr_ring_def)
  have notin: "?r \<notin> set (cmr_slots c)" using cmr_slots_distinct [OF ring0] c(1) by simp
  have "sync_f (msg_head c ! i) = sync_flag (slot_msg (msg_head c ! i))" if "i \<in> set (cmr_slots c)" for i
  proof -
    have "i < length (msg_head ?q)" using that cmr_slots_bound [OF ring] c(3) by simp
    moreover have "i \<noteq> ?r" using that notin by auto
    moreover have "i \<in> set (cmr_slots ?q)" using that c(1) by simp
    ultimately show ?thesis using other assms by (auto simp: cmr_ok_def)
  qed
  moreover have "in_flight c ((slot_msg (msg_head ?q ! ?r))\<lparr>cmr_priv := Some ?r\<rparr>)"
    using c r sync [OF r] assms by (auto simp: in_flight_def cmr_ok_def)
  ultimately show ?thesis
    using assms tk ring num c(3) by (auto simp: cmr_ok_def stored_sends_def)
qed

lemma routine_finish_ok:
  assumes "cmr_ok t"
  shows "cmr_ok (routine_finish r t)"
proof (cases "busy t")
  case True
  obtain f i where f: "routine_acknowledge (message t) (queue t) = set_slot i f (queue t)"
    and keep: "\<And>n. slot_msg (f n) = slot_msg n \<and> sync_f (f n) = sync_f n"
  proof (cases "routine_acknowledge (message t) (queue t) = queue t")
    case True
    show thesis by (rule that [of 0 "\<lambda>n. n"]) (use True in \<open>simp_all add: set_slot_def\<close>)
  next
    case False
    then obtain j where "routine_acknowledge (message t) (queue t) = sem_post_slot j (queue t)"
      by (auto simp: routine_acknowledge_def split: option.splits if_splits)
    then show thesis
      by (intro that [of j "\<lambda>n. n\<lparr>slot_sem := slot_sem n + 1\<rparr>"]) (simp_all add: sem_post_slot_def)
  qed
  from set_slot_sem_ok [OF assms keep, of i] f True show ?thesis
    by (auto simp: routine_finish_def cmr_ok_def Let_def stored_sends_def)
qed (use assms in \<open>simp add: routine_finish_def\<close>)

definition cmr_start :: "cmr_thread \<Rightarrow> bool" where
  "cmr_start t \<longleftrightarrow> (\<exists>n. cmr_thread_create True True True 0 n = Some (Inr t))"

lemma cmr_start_ok:
  assumes "cmr_start t"
  shows "cmr_ok t"
proof -
  let ?m = "MSG_INIT\<lparr>msg_type := CMR_THREAD_INIT_EVT, sync_flag := CMR_MSG_SYNC_PROCESSED\<rparr>"
  from assms obtain n c i c1 where c: "cmr_msg_queue_create True True n = Some (Inr c)"
    and st: "cmr_msg_post_store ?m c = Inr (i, c1)"
    and t: "t = \<lparr>queue = c1, sends = [Stored i], message = MSG_INIT, busy = False, exited = False,
       freed = []\<rparr>"
    by (auto simp: cmr_start_def cmr_thread_create_def split: if_splits option.splits sum.splits)
  let ?t0 = "\<lparr>queue = c, sends = [], message = MSG_INIT, busy = False, exited = False, freed = []\<rparr>"
  have "cmr_quiet c \<and> cmr_slots c = []"
    using queue_create_quiet [OF c] by (simp add: cmr_contents_def cmr_queued_def)
  then have "cmr_ok ?t0"
    by (auto simp: cmr_ok_def cmr_quiet_def stored_sends_def)
  from post_step_ok [OF this, of ?m] show ?thesis
    using st t by (simp add: post_step_def)
qed

lemma cmr_step_ok: "cmr_ok t \<Longrightarrow> cmr_ok (cmr_step t e)"
  by (cases e) (auto simp: post_step_ok sender_step_ok routine_take_ok routine_finish_ok split: send.split)

interpretation cmr_system: transition_system cmr_start cmr_step cmr_ok
  by unfold_locales (auto intro: cmr_start_ok cmr_step_ok)

subsection \<open>Senders that take turns\<close>

text \<open>Runs in which a new message is only sent once every earlier call has returned.\<close>

definition has_returned :: "send \<Rightarrow> bool" where
  "has_returned s = (send_slot s = None)"

fun in_turn :: "cmr_thread \<Rightarrow> cmr_event list \<Rightarrow> bool" where
  "in_turn t [] = True"
| "in_turn t (e # es) =
     ((case e of Store m \<Rightarrow> list_all has_returned (sends t) | _ \<Rightarrow> True) \<and> in_turn (cmr_step t e) es)"

text \<open>A slot whose completion is still to be signalled: queued, or being processed.\<close>

definition owes :: "cmr_thread \<Rightarrow> nat \<Rightarrow> bool" where
  "owes t j \<longleftrightarrow>
     (j \<in> set (cmr_slots (queue t)) \<and> sync_f (msg_head (queue t) ! j) \<noteq> CMR_MSG_SYNC_NONE) \<or>
     (busy t \<and> cmr_priv (message t) = Some j \<and>
      sync_f (msg_head (queue t) ! j) = CMR_MSG_SYNC_PROCESSED)"

definition active :: "cmr_thread \<Rightarrow> nat option" where
  "active t = (if sends t = [] then None else send_slot (last (sends t)))"

definition turn_ok :: "cmr_thread \<Rightarrow> bool" where
  "turn_ok t \<longleftrightarrow>
     cmr_ok t \<and> list_all has_returned (butlast (sends t)) \<and>
     (\<forall>j. owes t j \<longrightarrow> active t = Some j) \<and>
     (\<forall>j < length (msg_head (queue t)).
        slot_sem (msg_head (queue t) ! j) \<le>
          (if active t = Some j \<and> sync_f (msg_head (queue t) ! j) \<noteq> CMR_MSG_SYNC_NONE \<and> \<not> owes t j
           then 1 else 0))"

lemma turn_active:
  assumes "turn_ok t" and "k < length (sends t)" and "send_slot (sends t ! k) = Some i"
  shows "active t = Some i" and "k = length (sends t) - 1"
proof -
  have "k = length (sends t) - 1"
  proof (rule ccontr)
    assume "k \<noteq> length (sends t) - 1"
    with assms(2) have "sends t ! k \<in> set (butlast (sends t))"
      by (metis (no_types, lifting) One_nat_def Suc_pred in_set_conv_nth length_butlast less_antisym
          length_pos_if_in_set nth_butlast nth_mem)
    with assms(1,3) show False by (auto simp: turn_ok_def list_all_iff has_returned_def)
  qed
  then show "k = length (sends t) - 1" "active t = Some i"
    using assms(2,3) by (auto simp: active_def last_conv_nth)
qed

lemma turn_idle:
  assumes "turn_ok t" and "list_all has_returned (sends t)"
  shows "\<not> owes t j" and "j < length (msg_head (queue t)) \<Longrightarrow> slot_sem (msg_head (queue t) ! j) = 0"
proof -
  have "active t = None"
    using assms(2) by (auto simp: active_def list_all_iff has_returned_def)
  then show "\<not> owes t j" "j < length (msg_head (queue t)) \<Longrightarrow> slot_sem (msg_head (queue t) ! j) = 0"
    using assms(1) by (auto simp: turn_ok_def split: if_splits)
qed

lemma turn_post:
  assumes "turn_ok t" and "list_all has_returned (sends t)"
  shows "turn_ok (post_step m t)"
proof (cases "unat (msg_number (queue t)) + 1 < unat (msg_count (queue t))")
  case False
  have ok: "cmr_ok t" using assms(1) by (simp add: turn_ok_def)
  then have ring: "cmr_ring (queue t)" by (simp add: cmr_ok_def)
  with False have "unat (msg_number (queue t)) + 1 = unat (msg_count (queue t))"
    by (simp add: cmr_ring_def)
  then have "post_step m t = t\<lparr>sends := sends t @ [Returned CMR_MSG_OVERFLOW]\<rparr>"
    using post_store_full [OF ring] by (simp add: post_step_def)
  then show ?thesis
    using post_step_ok [OF ok, of m] turn_idle [OF assms] assms(2)
    by (auto simp: turn_ok_def owes_def active_def)
next
  case True
  let ?q = "queue t" let ?w = "msg_write ?q"
  have ok: "cmr_ok t" using assms(1) by (simp add: turn_ok_def)
  then have ring: "cmr_ring ?q" by (simp add: cmr_ok_def)
  from post_store_room [OF ring True, of m] obtain c
    where st: "cmr_msg_post_store m ?q = Inr (?w, c)"
      and c: "cmr_slots c = cmr_slots ?q @ [?w]"
        "msg_head c = (msg_head ?q)[?w := (msg_head ?q ! ?w)\<lparr>slot_msg := m, sync_f := sync_flag m\<rparr>]"
    by metis
  let ?t = "t\<lparr>queue := c, sends := sends t @ [Stored ?w]\<rparr>"
  have w: "?w < length (msg_head ?q)" using ring by (simp add: cmr_ring_def)
  have step: "post_step m t = ?t" using st by (simp add: post_step_def)
  have owes: "j = ?w" if "owes ?t j" for j
  proof (rule ccontr)
    assume "j \<noteq> ?w"
    then have "msg_head c ! j = msg_head ?q ! j" using c(2) by simp
    with that c(1) \<open>j \<noteq> ?w\<close> have "owes t j" by (auto simp: owes_def)
    with turn_idle(1) [OF assms] show False by simp
  qed
  moreover have "slot_sem (msg_head c ! j) = 0" if "j < length (msg_head c)" for j
    using that c turn_idle(2) [OF assms] w by (auto simp: nth_list_update)
  ultimately show ?thesis
    using post_step_ok [OF ok, of m] step assms(2) by (auto simp: turn_ok_def active_def)
qed

lemma turn_sends_update:
  assumes "turn_ok t" and "k < length (sends t)" and "send_slot (sends t ! k) = Some i"
  shows "butlast ((sends t)[k := s]) = butlast (sends t)"
    and "sends t \<noteq> []" and "last ((sends t)[k := s]) = s"
proof -
  have k: "k = length (sends t) - 1" and ne: "sends t \<noteq> []"
    using turn_active(2) [OF assms] assms(2) by auto
  then show "butlast ((sends t)[k := s]) = butlast (sends t)" "sends t \<noteq> []"
    by (simp_all add: butlast_list_update)
  show "last ((sends t)[k := s]) = s"
    using k ne by (simp add: last_list_update)
qed

lemma turn_sender:
  assumes "turn_ok t" and "k < length (sends t)"
  shows "turn_ok (sender_step k t)"
proof -
  have ok: "cmr_ok (sender_step k t)"
    using assms sender_step_ok by (simp add: turn_ok_def)
  have bounds: "\<And>j. owes t j \<Longrightarrow> active t = Some j"
    "\<And>j. j < length (msg_head (queue t)) \<Longrightarrow> slot_sem (msg_head (queue t) ! j) \<le>
       (if active t = Some j \<and> sync_f (msg_head (queue t) ! j) \<noteq> CMR_MSG_SYNC_NONE \<and> \<not> owes t j
        then 1 else 0)"
    using assms(1) by (auto simp: turn_ok_def)
  show ?thesis
  proof (cases "sends t ! k")
    case (Stored i)
    then have s: "send_slot (sends t ! k) = Some i" by simp
    note upd = turn_sends_update [OF assms s] and act = turn_active(1) [OF assms s]
    have "owes (sender_step k t) j = owes t j" for j
      using Stored by (simp add: sender_step_def owes_def sem_post_queue_def cmr_slots_def)
    then show ?thesis
      using ok assms(1) Stored upd act
      by (simp add: sender_step_def turn_ok_def active_def sem_post_queue_def)
  next
    case (Signalled i)
    then have s: "send_slot (sends t ! k) = Some i" by simp
    note upd = turn_sends_update [OF assms s] and act = turn_active(1) [OF assms s]
    have owes: "owes (sender_step k t) j = owes t j" for j
      using Signalled by (simp add: sender_step_def owes_def)
    show ?thesis
    proof (cases "sync_f (msg_head (queue t) ! i) = CMR_MSG_SYNC_NONE")
      case True
      then have none: "\<not> owes t j" for j
        using bounds(1) [of j] act by (auto simp: owes_def)
      moreover have "slot_sem (msg_head (queue t) ! j) = 0" if "j < length (msg_head (queue t))" for j
        using bounds(2) [OF that] act True by (auto split: if_splits)
      ultimately show ?thesis
        using ok assms(1) Signalled upd True owes
        by (simp add: sender_step_def turn_ok_def active_def)
    next
      case False
      then show ?thesis
        using ok assms(1) Signalled upd act owes
        by (simp add: sender_step_def turn_ok_def active_def)
    qed
  next
    case (Waiting i)
    then have s: "send_slot (sends t ! k) = Some i" by simp
    note upd = turn_sends_update [OF assms s] and act = turn_active(1) [OF assms s]
    show ?thesis
    proof (cases "slot_sem (msg_head (queue t) ! i) = 0")
      case True
      then show ?thesis using assms(1) Waiting by (simp add: sender_step_def)
    next
      case False
      let ?f = "\<lambda>n. n\<lparr>slot_sem := slot_sem n - 1\<rparr>"
      have "Waiting i \<in> set (sends t)" using assms(2) Waiting by (metis nth_mem)
      then have i: "i < length (msg_head (queue t))"
        using assms(1) by (auto simp: turn_ok_def cmr_ok_def)
      have one: "slot_sem (msg_head (queue t) ! i) = 1" and "\<not> owes t i"
        using bounds(2) [OF i] False by (auto split: if_splits)
      then have none: "\<not> owes t j" for j using bounds(1) [of j] act by auto
      have "sync_f (msg_head (set_slot i ?f (queue t)) ! j) = sync_f (msg_head (queue t) ! j)" for j
        using i by (cases "j = i") (simp_all add: set_slot_def)
      then have "\<not> owes (sender_step k t) j" for j
        using none [of j] Waiting False by (simp add: sender_step_def owes_def)
      moreover have "slot_sem (msg_head (set_slot i ?f (queue t)) ! j) = 0"
        if "j < length (msg_head (queue t))" for j
        using bounds(2) [OF that] act one that by (auto simp: set_slot_nth split: if_splits)
      ultimately show ?thesis
        using ok assms(1) Waiting False upd by (simp add: sender_step_def turn_ok_def active_def)
    qed
  qed (use assms in \<open>simp add: sender_step_def\<close>)
qed

lemma in_flight_not_queued:
  assumes "cmr_ring c" and "in_flight c m" and "cmr_priv m = Some i"
  shows "i \<notin> set (cmr_slots c)"
proof
  assume "i \<in> set (cmr_slots c)"
  then obtain k where k: "k < unat (msg_number c)" "i = (msg_read c + k) mod unat (msg_count c)"
    by (auto simp: cmr_slots_def)
  from assms have rd: "msg_read c = Suc i mod unat (msg_count c)" by (simp add: in_flight_def)
  have rk: "Suc i mod unat (msg_count c) = (msg_read c + Suc k) mod unat (msg_count c)"
    unfolding k(2) by (simp add: mod_Suc_eq)
  have "msg_read c mod unat (msg_count c) = msg_read c"
    using assms(1) unfolding cmr_ring_def by simp
  then have "(msg_read c + Suc k) mod unat (msg_count c) = (msg_read c + 0) mod unat (msg_count c)"
    using rk rd by (metis add_0_right)
  moreover have lt: "Suc k < unat (msg_count c)" "0 < unat (msg_count c)"
    using k(1) assms(1) unfolding cmr_ring_def by linarith+
  ultimately have "Suc k = 0" by (rule ring_offset_inj)
  then show False by simp
qed

lemma store_not_in_flight:
  assumes "cmr_ring c" and "in_flight c m" and "cmr_priv m = Some i"
  shows "cmr_msg_post_store m' c \<noteq> Inr (i, c')"
proof (cases "unat (msg_number c) + 1 < unat (msg_count c)")
  case True
  from post_store_room [OF assms(1) True, of m'] obtain c1
    where "cmr_msg_post_store m' c = Inr (msg_write c, c1)" by metis
  with in_flight_not_written [OF assms(1,2) True] assms(3) show ?thesis by auto
next
  case False
  with assms(1) have "unat (msg_number c) + 1 = unat (msg_count c)" by (simp add: cmr_ring_def)
  with post_store_full [OF assms(1)] show ?thesis by simp
qed

lemma turn_bounds:
  assumes "turn_ok t"
  shows "owes t j \<Longrightarrow> active t = Some j"
    and "j < length (msg_head (queue t)) \<Longrightarrow> slot_sem (msg_head (queue t) ! j) \<le>
       (if active t = Some j \<and> sync_f (msg_head (queue t) ! j) \<noteq> CMR_MSG_SYNC_NONE \<and> \<not> owes t j
        then 1 else 0)"
  using assms by (auto simp: turn_ok_def)

lemma turn_take:
  assumes "turn_ok t"
  shows "turn_ok (routine_take t)"
proof (cases "busy t \<or> exited t \<or> msg_sem (queue t) = 0")
  case True
  then have "routine_take t = t"
    using take_blocked assms by (cases "msg_sem (queue t) = 0") (auto simp: routine_take_def turn_ok_def)
  with assms show ?thesis by simp
next
  case False
  let ?q = "queue t" let ?r = "msg_read ?q"
  have ok: "cmr_ok t" using assms by (simp add: turn_ok_def)
  from False have idle: "\<not> busy t" "\<not> exited t" "0 < msg_sem ?q" by auto
  from take_result [OF ok idle] obtain c
    where tk: "routine_take t = t\<lparr>queue := c, busy := True,
        message := (slot_msg (msg_head ?q ! ?r))\<lparr>cmr_priv := Some ?r\<rparr>\<rparr>"
      and c: "cmr_slots ?q = ?r # cmr_slots c" "length (msg_head c) = length (msg_head ?q)"
      and sync: "\<And>j. j < length (msg_head ?q) \<Longrightarrow> sync_f (msg_head c ! j) = sync_f (msg_head ?q ! j)"
      and other: "\<And>j. j < length (msg_head ?q) \<Longrightarrow> j \<noteq> ?r \<Longrightarrow> msg_head c ! j = msg_head ?q ! j"
      and sem: "slot_sem (msg_head c ! ?r) = slot_sem (msg_head ?q ! ?r) +
           (if sync_f (msg_head ?q ! ?r) = CMR_MSG_SYNC_RECEIVED then 1 else 0)"
    by metis
  have ring: "cmr_ring ?q" using ok by (simp add: cmr_ok_def)
  have r: "?r < length (msg_head ?q)" using ring by (simp add: cmr_ring_def)
  have notin: "?r \<notin> set (cmr_slots c)" using cmr_slots_distinct [OF ring] c(1) by simp
  have inb: "j < length (msg_head ?q)" if "j \<in> set (cmr_slots c)" for j
    using cmr_slots_bound [OF ring, of j] that c(1) by simp
  have owes: "owes (routine_take t) j \<longleftrightarrow>
      (if j = ?r then sync_f (msg_head ?q ! j) = CMR_MSG_SYNC_PROCESSED else owes t j)" for j
    using tk notin c(1) inb [of j] sync [of j] r idle(1) by (auto simp: owes_def)
  have owes_r: "owes t ?r \<longleftrightarrow> sync_f (msg_head ?q ! ?r) \<noteq> CMR_MSG_SYNC_NONE"
    using c(1) idle(1) by (auto simp: owes_def)
  have act: "active (routine_take t) = active t" using tk by (simp add: active_def)
  have "active t = Some j" if "owes (routine_take t) j" for j
    using that owes owes_r turn_bounds(1) [OF assms] by (auto split: if_splits)
  moreover have "slot_sem (msg_head c ! j) \<le> (if active t = Some j \<and>
      sync_f (msg_head c ! j) \<noteq> CMR_MSG_SYNC_NONE \<and> \<not> owes (routine_take t) j then 1 else 0)"
    if j: "j < length (msg_head ?q)" for j
  proof (cases "j = ?r")
    case True
    then show ?thesis
      using turn_bounds [OF assms, of ?r] owes_r owes [of ?r] sem sync [OF r] r
      by (auto split: if_splits)
  next
    case False
    then show ?thesis using turn_bounds(2) [OF assms j] other [OF j] owes [of j] by simp
  qed
  ultimately show ?thesis
    using routine_take_ok [OF ok] assms tk act c(2) by (simp add: turn_ok_def)
qed

lemma turn_finish:
  assumes "turn_ok t"
  shows "turn_ok (routine_finish r t)"
proof (cases "busy t")
  case False
  with assms show ?thesis by (simp add: routine_finish_def)
next
  case True
  let ?q = "queue t"
  have ok: "cmr_ok t" using assms by (simp add: turn_ok_def)
  with True have fl: "in_flight ?q (message t)" and ring: "cmr_ring ?q" by (auto simp: cmr_ok_def)
  then obtain i where i: "cmr_priv (message t) = Some i" "i < length (msg_head ?q)"
    by (auto simp: in_flight_def split: option.splits)
  have notin: "i \<notin> set (cmr_slots ?q)" by (rule in_flight_not_queued [OF ring fl i(1)])
  let ?c = "routine_acknowledge (message t) ?q"
  have q: "queue (routine_finish r t) = ?c" and nb: "\<not> busy (routine_finish r t)"
    and sends: "sends (routine_finish r t) = sends t"
    using True by (simp_all add: routine_finish_def Let_def)
  have slots: "cmr_slots ?c = cmr_slots ?q" and len: "length (msg_head ?c) = length (msg_head ?q)"
    using i(1) by (simp_all add: routine_acknowledge_def sem_post_slot_def)
  have sync: "sync_f (msg_head ?c ! j) = sync_f (msg_head ?q ! j)" if "j < length (msg_head ?q)" for j
    using i(1) that by (simp add: routine_acknowledge_def slot_fields_kept)
  have inb: "j < length (msg_head ?q)" if "j \<in> set (cmr_slots ?q)" for j
    by (rule cmr_slots_bound [OF ring that])
  have owes: "owes (routine_finish r t) j \<longleftrightarrow> owes t j \<and> j \<noteq> i" for j
    using q nb slots sync [of j] inb [of j] notin i(1) by (auto simp: owes_def)
  have owes_i: "owes t i \<longleftrightarrow> sync_f (msg_head ?q ! i) = CMR_MSG_SYNC_PROCESSED"
    using True i(1) notin by (simp add: owes_def)
  have sem: "slot_sem (msg_head ?c ! j) = slot_sem (msg_head ?q ! j) +
      (if j = i \<and> sync_f (msg_head ?q ! i) = CMR_MSG_SYNC_PROCESSED then 1 else 0)"
    if "j < length (msg_head ?q)" for j
    using i(1) that by (auto simp: routine_acknowledge_def slot_fields_kept)
  have act: "active (routine_finish r t) = active t" using sends by (simp add: active_def)
  have "slot_sem (msg_head ?c ! j) \<le> (if active t = Some j \<and>
      sync_f (msg_head ?c ! j) \<noteq> CMR_MSG_SYNC_NONE \<and> \<not> owes (routine_finish r t) j then 1 else 0)"
    if j: "j < length (msg_head ?q)" for j
    using turn_bounds [OF assms, of j] j sem [OF j] sync [OF j] owes [of j] owes_i
    by (auto split: if_splits)
  then show ?thesis
    using routine_finish_ok [OF ok, of r] assms q sends act len owes turn_bounds(1) [OF assms]
    by (simp add: turn_ok_def)
qed

lemma turn_step:
  assumes "turn_ok t" and "in_turn t [e]"
  shows "turn_ok (cmr_step t e)"
  using assms
  by (cases e) (auto simp: turn_post turn_sender turn_take turn_finish split: send.split)

lemma turn_run: "turn_ok t \<Longrightarrow> in_turn t es \<Longrightarrow> turn_ok (run_steps cmr_step t es)"
proof (induction es arbitrary: t)
  case (Cons e es)
  then show ?case using turn_step [of t e] by simp
qed simp

lemma turn_start:
  assumes "cmr_thread_create True True True 0 n = Some (Inr t)"
  shows "turn_ok t"
proof -
  let ?m = "MSG_INIT\<lparr>msg_type := CMR_THREAD_INIT_EVT, sync_flag := CMR_MSG_SYNC_PROCESSED\<rparr>"
  from assms obtain c i c1 where c: "cmr_msg_queue_create True True n = Some (Inr c)"
    and st: "cmr_msg_post_store ?m c = Inr (i, c1)"
    and t: "t = \<lparr>queue = c1, sends = [Stored i], message = MSG_INIT, busy = False, exited = False,
       freed = []\<rparr>"
    by (auto simp: cmr_thread_create_def split: if_splits option.splits sum.splits)
  let ?t0 = "\<lparr>queue = c, sends = [], message = MSG_INIT, busy = False, exited = False, freed = []\<rparr>"
  have quiet: "cmr_quiet c \<and> cmr_slots c = []"
    using queue_create_quiet [OF c] by (simp add: cmr_contents_def cmr_queued_def)
  have "slot_sem (msg_head c ! j) = 0" if "j < length (msg_head c)" for j
    using that c by (auto simp: cmr_msg_queue_create_def split: if_splits)
  with quiet have "turn_ok ?t0"
    by (auto simp: turn_ok_def cmr_ok_def cmr_quiet_def stored_sends_def owes_def)
  from turn_post [OF this, of ?m] show ?thesis
    using st t by (simp add: post_step_def)
qed

text \<open>The two halves of the thread's safety, in a state that satisfies the invariant.\<close>

lemma thread_takes_oldest:
  assumes "cmr_ok t" and "\<not> busy t" and "\<not> exited t" and "0 < msg_sem (queue t)"
  shows "busy (routine_take t) \<and>
    payload (message (routine_take t)) = hd (cmr_contents (queue t)) \<and>
    cmr_priv (message (routine_take t)) = Some (hd (cmr_slots (queue t)))"
proof -
  from take_result [OF assms] obtain c where
    "routine_take t = t\<lparr>queue := c, busy := True, message := (slot_msg (msg_head (queue t) !
        msg_read (queue t)))\<lparr>cmr_priv := Some (msg_read (queue t))\<rparr>\<rparr>"
    "cmr_slots (queue t) = msg_read (queue t) # cmr_slots c"
    by metis
  then show ?thesis by (simp add: cmr_contents_def cmr_queued_def)
qed

lemma thread_slot_protected:
  assumes "cmr_ok t" and "busy t"
  shows "\<exists>i < length (msg_head (queue t)). cmr_priv (message t) = Some i \<and>
    i \<notin> set (cmr_slots (queue t)) \<and> sync_f (msg_head (queue t) ! i) = sync_flag (message t) \<and>
    (\<forall>m c. cmr_msg_post_store m (queue t) \<noteq> Inr (i, c))"
proof -
  from assms have ring: "cmr_ring (queue t)" and fl: "in_flight (queue t) (message t)"
    by (auto simp: cmr_ok_def)
  then obtain i where i: "cmr_priv (message t) = Some i" "i < length (msg_head (queue t))"
    "sync_f (msg_head (queue t) ! i) = sync_flag (message t)"
    by (auto simp: in_flight_def split: option.splits)
  then show ?thesis
    using in_flight_not_queued [OF ring fl i(1)] store_not_in_flight [OF ring fl i(1)] by blast
qed

subsection \<open>Properties\<close>

text \<open>C35. Whatever the order of posts and gets on a fresh queue, what was delivered followed by
  what is still queued is exactly what was accepted, in order; and a queue made for n
  messages never holds more than n - 1.\<close>

theorem cmr_queue_in_order:
  assumes "cmr_msg_queue_create True True n = Some (Inr c)"
    and "qrun cmr_enq cmr_deq c ops = (ins, outs, c')"
  shows "ins = outs @ cmr_contents c' \<and> length (cmr_contents c') = unat (msg_number c') \<and>
    unat (msg_number c') < unat (msg_count c')"
proof -
  have q: "cmr_quiet c" "cmr_contents c = []" using queue_create_quiet [OF assms(1)] by simp_all
  have "cmr_quiet c'" using cmr_queue.qrun_conserves [OF q(1) assms(2)] by simp
  then show ?thesis
    using cmr_queue.qrun_from_empty [OF q assms(2)]
    by (simp add: cmr_contents_def cmr_queued_def cmr_quiet_def cmr_ring_def)
qed

definition two_slots :: cmr_msg_cxt where
  "two_slots = \<lparr>msg_sem = 0, msg_count = 2, msg_number = 0, msg_magic = CMR_MSG_MAGIC_CODE,
     msg_head = replicate 2 \<lparr>slot_msg = MSG_INIT, slot_sem = 0, sync_f = 0\<rparr>,
     msg_write = 0, msg_read = 0\<rparr>"

lemma two_slots_create: "cmr_msg_queue_create True True 2 = Some (Inr two_slots)"
  by (simp add: cmr_msg_queue_create_def two_slots_def)

text \<open>The second post finds the queue of two full; the third wraps.\<close>

theorem cmr_queue_in_order_witness:
  "\<exists>c'. qrun cmr_enq cmr_deq two_slots
      [Put (7, 0, 0, 0, 0), Put (8, 0, 0, 0, 0), Get, Put (9, 0, 0, 0, 0)]
    = ([(7, 0, 0, 0, 0), (9, 0, 0, 0, 0)], [(7, 0, 0, 0, 0)], c') \<and>
    cmr_contents c' = [(9, 0, 0, 0, 0)]"
proof -
  let ?ops = "[Put (7, 0, 0, 0, 0), Put (8, 0, 0, 0, 0), Get, Put (9, 0, 0, 0, 0)] :: cmr_payload qop list"
  have "case qrun cmr_enq cmr_deq two_slots ?ops of (i, o', c) \<Rightarrow>
      i = [(7, 0, 0, 0, 0), (9, 0, 0, 0, 0)] \<and> o' = [(7, 0, 0, 0, 0)]"
    by code_simp
  then obtain c' where run: "qrun cmr_enq cmr_deq two_slots ?ops
      = ([(7, 0, 0, 0, 0), (9, 0, 0, 0, 0)], [(7, 0, 0, 0, 0)], c')"
    by (auto split: prod.splits)
  from cmr_queue_in_order [OF two_slots_create run] run show ?thesis by simp
qed

text \<open>C36. In every interleaving of any number of senders with the thread that
  \<open>cmr_thread_create\<close> started: a consumer that gets a unit of \<open>msg_sem\<close> always finds a
  message (\<open>cmr_msg_get\<close> never underflows, so the thread never ends by mistake) and takes
  the oldest; and while a message is processed its slot is neither queued nor the next to
  be written, and still carries the message's \<open>sync_flag\<close>, so its completion is signalled
  as its sender asked.\<close>

theorem cmr_thread_safe:
  assumes "cmr_start t0" and "t = run_steps cmr_step t0 es"
  shows "(\<not> busy t \<and> \<not> exited t \<and> 0 < msg_sem (queue t) \<longrightarrow>
      busy (routine_take t) \<and>
      payload (message (routine_take t)) = hd (cmr_contents (queue t)) \<and>
      cmr_priv (message (routine_take t)) = Some (hd (cmr_slots (queue t)))) \<and>
    (busy t \<longrightarrow> (\<exists>i < length (msg_head (queue t)). cmr_priv (message t) = Some i \<and>
      i \<notin> set (cmr_slots (queue t)) \<and> sync_f (msg_head (queue t) ! i) = sync_flag (message t) \<and>
      (\<forall>m c. cmr_msg_post_store m (queue t) \<noteq> Inr (i, c))))"
proof -
  have "cmr_ok t" using cmr_system.inv_reachable [OF assms(1)] assms(2) by simp
  then show ?thesis using thread_takes_oldest thread_slot_protected by blast
qed

text \<open>Evaluation of the system on concrete states.\<close>

lemmas cmr_eval = post_step_def sender_step_def routine_take_def routine_finish_def
  routine_result_def routine_acknowledge_def cmr_msg_post_store_def cmr_msg_get_def
  get_acknowledge_def sem_post_slot_def sem_post_queue_def set_slot_def advance_def
  MSG_INIT_def of_payload_def is_stored_def Let_def word_le_nat_alt

text \<open>The system of a thread created with a queue of two slots.\<close>

definition two_slot_thread :: cmr_thread where
  "two_slot_thread =
     \<lparr>queue = \<lparr>msg_sem = 0, msg_count = 2, msg_number = 1, msg_magic = CMR_MSG_MAGIC_CODE,
        msg_head =
          [\<lparr>slot_msg = MSG_INIT\<lparr>msg_type := CMR_THREAD_INIT_EVT, sync_flag := CMR_MSG_SYNC_PROCESSED\<rparr>,
            slot_sem = 0, sync_f = CMR_MSG_SYNC_PROCESSED\<rparr>,
           \<lparr>slot_msg = MSG_INIT, slot_sem = 0, sync_f = 0\<rparr>],
        msg_write = 1, msg_read = 0\<rparr>,
      sends = [Stored 0], message = MSG_INIT, busy = False, exited = False, freed = []\<rparr>"

lemma two_slot_thread_create:
  "cmr_thread_create True True True 0 2 = Some (Inr two_slot_thread)"
proof -
  have "replicate 2 x = [x, x]" for x :: cmr_msg_in by (simp add: numeral_2_eq_2)
  then show ?thesis
    by (simp add: cmr_thread_create_def cmr_msg_queue_create_def two_slot_thread_def cmr_eval)
qed

text \<open>Created, the INIT message sent and taken.\<close>

definition boot_events :: "cmr_event list" where
  "boot_events = [Signal 0, Check 0, Take, Finish 0]"

theorem cmr_thread_safe_witness:
  "busy (run_steps cmr_step two_slot_thread (take 3 boot_events)) \<and>
   (\<exists>i < 2. cmr_priv (message (run_steps cmr_step two_slot_thread (take 3 boot_events))) = Some i \<and>
     (\<forall>m c. cmr_msg_post_store m (queue (run_steps cmr_step two_slot_thread (take 3 boot_events)))
        \<noteq> Inr (i, c)))"
proof -
  have start: "cmr_start two_slot_thread"
    using two_slot_thread_create by (auto simp: cmr_start_def)
  have "busy (run_steps cmr_step two_slot_thread (take 3 boot_events)) \<and>
    length (msg_head (queue (run_steps cmr_step two_slot_thread (take 3 boot_events)))) = 2"
    by (simp add: boot_events_def two_slot_thread_def cmr_eval)
  then show ?thesis
    using cmr_thread_safe [OF start refl, of "take 3 boot_events"] by auto
qed

text \<open>As long as callers take turns (no message is sent while an earlier call has not
  returned), a synchronous send works as meant: when \<open>cmr_msg_post\<close> of a message with
  \<open>CMR_MSG_SYNC_PROCESSED\<close> returns, the message is no longer queued and its callback has
  finished.\<close>

lemma synchronous_send_completes:
  assumes "cmr_thread_create True True True 0 n = Some (Inr t0)" and "in_turn t0 es"
    and "t = run_steps cmr_step t0 es"
    and "k < length (sends t)" and "sends t ! k = Waiting i"
    and "sync_f (msg_head (queue t) ! i) = CMR_MSG_SYNC_PROCESSED"
    and "sends (cmr_step t (Wake k)) ! k = Returned CMR_MSG_SUCCESS"
  shows "i \<notin> set (cmr_slots (queue t)) \<and> \<not> (busy t \<and> cmr_priv (message t) = Some i)"
proof -
  have turn: "turn_ok t"
    using turn_run [OF turn_start [OF assms(1)] assms(2)] assms(3) by simp
  have "Waiting i \<in> set (sends t)" using assms(4,5) by (metis nth_mem)
  then have i: "i < length (msg_head (queue t))"
    using turn by (auto simp: turn_ok_def cmr_ok_def)
  have "slot_sem (msg_head (queue t) ! i) \<noteq> 0"
    using assms(4,5,7) by (auto simp: sender_step_def split: if_splits)
  then have "\<not> owes t i"
    using turn_bounds(2) [OF turn i] by (auto split: if_splits)
  then show ?thesis using assms(6) by (simp add: owes_def)
qed

lemma synchronous_send_completes_witness:
  "sends (run_steps cmr_step two_slot_thread (boot_events @ [Wake 0])) = [Returned CMR_MSG_SUCCESS] \<and>
   0 \<notin> set (cmr_slots (queue (run_steps cmr_step two_slot_thread boot_events)))"
proof -
  let ?t = "run_steps cmr_step two_slot_thread boot_events"
  have "in_turn two_slot_thread boot_events \<and> 0 < length (sends ?t) \<and> sends ?t ! 0 = Waiting 0 \<and>
      sync_f (msg_head (queue ?t) ! 0) = CMR_MSG_SYNC_PROCESSED \<and>
      sends (cmr_step ?t (Wake 0)) ! 0 = Returned CMR_MSG_SUCCESS \<and>
      sends (run_steps cmr_step two_slot_thread (boot_events @ [Wake 0])) = [Returned CMR_MSG_SUCCESS]"
    by (simp add: boot_events_def two_slot_thread_def cmr_eval)
  then show ?thesis
    using synchronous_send_completes [OF two_slot_thread_create, of boot_events ?t 0 0] by auto
qed

text \<open>Four senders on a queue of two slots.\<close>

definition steal_events :: "cmr_event list" where
  "steal_events = boot_events @ [Wake 0,
     Store (of_payload (1, 0, 0, 0, 2)), Signal 1, Check 1, Take, Finish 0,
     Store (of_payload (2, 0, 0, 0, 0)), Signal 2, Check 2, Take, Finish 0,
     Store (of_payload (3, 0, 0, 0, 2)), Signal 3, Check 3, Wake 3, Wake 1]"

text \<open>Callers that do not take turns can be confused: the semaphore belongs to the slot,
  not to the message. Sender 1's message is processed and its slot's semaphore posted; before
  sender 1 runs again the ring comes round, sender 3 stores its own synchronous message in the
  same slot and takes the unit that was meant for sender 1. Sender 3 returns with success while
  its message is still queued, and sender 1 goes on waiting.\<close>

lemma completion_can_be_stolen:
  "let t = run_steps cmr_step two_slot_thread steal_events in
     sends t ! 3 = Returned CMR_MSG_SUCCESS \<and> cmr_contents (queue t) = [(3, 0, 0, 0, 2)] \<and>
     sends t ! 1 = Waiting 1 \<and> \<not> busy t"
  by (simp add: steal_events_def boot_events_def two_slot_thread_def cmr_eval cmr_contents_def
      cmr_queued_def cmr_slots_def payload_def)

end
