(* ===== verification/Sitm.thy ===== *)
theory Sitm
  imports Prelude "HOL-Library.Monad_Syntax"
begin

text \<open>
  The bridge between the Bluetooth stack and the UART (\<open>wcn/bt/libbt/src/sitm.c\<close>,
  \<open>include/sitm.h\<close>): two threads cut the byte streams of both directions into HCI packets
  and hand each packet on whole.

  A descriptor is the bytes still to come and a script of its \<open>read\<close> calls: how many bytes
  a call delivers at most, or \<open>None\<close> when it fails. A call past the end of the script reports
  the end of the file. Stores outside the packet buffer are undefined: \<open>None\<close>.
\<close>

subsection \<open>Definitions\<close>

type_synonym stream = "u8 list \<times> nat option list"

fun read_fd :: "nat \<Rightarrow> stream \<Rightarrow> int \<times> u8 list \<times> stream" where
  "read_fd n (bs, []) = (0, [], (bs, []))"
| "read_fd n (bs, None # gs) = (-1, [], (bs, gs))"
| "read_fd n (bs, Some k # gs) =
     (let m = min n (min k (length bs)) in (int m, take m bs, (drop m bs, gs)))"

abbreviation (input) DATA_TYPE_COMMAND :: u8 where "DATA_TYPE_COMMAND \<equiv> 1"
abbreviation (input) DATA_TYPE_ACL :: u8 where "DATA_TYPE_ACL \<equiv> 2"
abbreviation (input) DATA_TYPE_SCO :: u8 where "DATA_TYPE_SCO \<equiv> 3"
abbreviation (input) DATA_TYPE_EVENT :: u8 where "DATA_TYPE_EVENT \<equiv> 4"

datatype receive_state = BRAND_NEW | PREAMBLE | BODY | IGNORE | FINISHED

record receive_data =
  rstate :: receive_state
  bytes_remaining :: u16
  rtype :: u8
  preamble :: "u8 list"        \<comment> \<open>5 bytes\<close>
  index :: u16
  buffer :: "u8 list"          \<comment> \<open>1026 bytes and the alignment\<close>

text \<open>What \<open>malloc\<close> and \<open>memset\<close> make of the structure; \<open>al\<close> is \<open>BYTE_ALIGNMENT\<close>.\<close>

definition recv_init :: "nat \<Rightarrow> receive_data" where
  "recv_init al = \<lparr>rstate = BRAND_NEW, bytes_remaining = 0, rtype = 0, preamble = replicate 5 0,
     index = 0, buffer = replicate (1026 + al) 0\<rparr>"

definition preamble_size :: "u8 \<Rightarrow> u16" where
  "preamble_size t = (if t = DATA_TYPE_COMMAND then 3 else if t = DATA_TYPE_ACL then 4
     else if t = DATA_TYPE_SCO then 3 else 2)"

definition RETRIEVE_ACL_LENGTH :: "u8 list \<Rightarrow> u16" where
  "RETRIEVE_ACL_LENGTH p = push_bit 8 (ucast (p ! 4)) OR ucast (p ! 3)"

text \<open>The first byte of a packet, before the fall-through into the preamble case.\<close>

definition begin_packet :: "u8 \<Rightarrow> receive_data \<Rightarrow> receive_data" where
  "begin_packet b r = r\<lparr>rtype := b, bytes_remaining := preamble_size b + 1,
     preamble := replicate 5 0, index := 0, rstate := PREAMBLE\<rparr>"

definition preamble_byte :: "u8 \<Rightarrow> receive_data \<Rightarrow> receive_data option" where
  "preamble_byte b r = do {
     p \<leftarrow> put_bytes (unat (index r)) [b] (preamble r);
     (let r = r\<lparr>preamble := p, index := index r + 1, bytes_remaining := bytes_remaining r - 1\<rparr> in
      if bytes_remaining r = 0 then do {
        head \<leftarrow> get_bytes 0 (unat (index r)) p;
        buf \<leftarrow> put_bytes 0 head (buffer r);
        (let left = (if rtype r = DATA_TYPE_ACL then RETRIEVE_ACL_LENGTH p else ucast b) in
         Some (r\<lparr>bytes_remaining := left, buffer := buf,
                 rstate := (if left > 0 then BODY else FINISHED)\<rparr>)) }
      else Some r) }"

text \<open>
  A body byte, and a read for all that is missing. A failed read returns -1, which is added
  to the index and taken from the count like any other result.
\<close>

definition body_byte :: "u8 \<Rightarrow> receive_data \<Rightarrow> stream \<Rightarrow> (receive_data \<times> stream) option" where
  "body_byte b r s = do {
     buf \<leftarrow> put_bytes (unat (index r)) [b] (buffer r);
     (let i = index r + 1; left = bytes_remaining r - 1 in
      case read_fd (unat left) s of (ret, got, s) \<Rightarrow> do {
        buf \<leftarrow> put_bytes (unat i) got buf;
        (let left = left - of_int ret in
         Some (r\<lparr>buffer := buf, index := i + of_int ret, bytes_remaining := left,
                 rstate := (if left = 0 then FINISHED else BODY)\<rparr>, s)) }) }"

text \<open>One turn of the loop of \<open>parse_frame\<close>; the flag is the return from the IGNORE case.\<close>

definition parse_byte :: "u8 \<Rightarrow> receive_data \<Rightarrow> stream \<Rightarrow> (bool \<times> receive_data \<times> stream) option" where
  "parse_byte b r s =
    (case rstate r of
       BRAND_NEW \<Rightarrow>
         (if b > DATA_TYPE_EVENT \<or> b < DATA_TYPE_COMMAND then Some (False, r, s)
          else do { r \<leftarrow> preamble_byte b (begin_packet b r); Some (False, r, s) })
     | PREAMBLE \<Rightarrow> do { r \<leftarrow> preamble_byte b r; Some (False, r, s) }
     | BODY \<Rightarrow> do { (r, s) \<leftarrow> body_byte b r s; Some (False, r, s) }
     | IGNORE \<Rightarrow>
         (let r = r\<lparr>bytes_remaining := bytes_remaining r - 1\<rparr> in
          if bytes_remaining r = 0 then Some (True, r\<lparr>rstate := BRAND_NEW\<rparr>, s) else Some (False, r, s))
     | FINISHED \<Rightarrow> Some (False, r, s))"

lemma read_fd_shorter: "read_fd n s = (ret, got, s') \<Longrightarrow> length (snd s') \<le> length (snd s)"
  by (cases "(n, s)" rule: read_fd.cases) (auto simp: Let_def)

lemma read_fd_consumes: "read_fd n s = (ret, got, s') \<Longrightarrow> ret \<noteq> 0 \<Longrightarrow> length (snd s') < length (snd s)"
  by (cases "(n, s)" rule: read_fd.cases) (auto simp: Let_def)

lemma body_byte_shorter:
  assumes "body_byte b r s = Some (r', s')"
  shows "length (snd s') \<le> length (snd s)"
proof -
  obtain ret got s1 where rd: "read_fd (unat (bytes_remaining r - 1)) s = (ret, got, s1)"
    by (metis prod_cases3)
  with assms have "s' = s1" by (auto simp: body_byte_def bind_eq_Some_conv Let_def)
  with read_fd_shorter [OF rd] show ?thesis by simp
qed

lemma parse_byte_shorter:
  "parse_byte b r s = Some (fl, r', s') \<Longrightarrow> length (snd s') \<le> length (snd s)"
  by (auto simp: parse_byte_def bind_eq_Some_conv Let_def dest: body_byte_shorter
      split: receive_state.splits if_splits)

text \<open>
  \<open>parse_frame\<close> until it returns: the packet given to \<open>frame_complete\<close>, if any.
\<close>

function parse_frame :: "receive_data \<Rightarrow> stream \<Rightarrow> (u8 list option \<times> receive_data \<times> stream) option" where
  "parse_frame r s =
    (case read_fd 1 s of (ret, d, s1) \<Rightarrow>
       if ret \<noteq> 1 then Some (None, r, s1)
       else case parse_byte (hd d) r s1 of
         None \<Rightarrow> None
       | Some (quits, r2, s2) \<Rightarrow>
           (if quits then Some (None, r2, s2)
            else if rstate r2 = FINISHED then do {
              f \<leftarrow> get_bytes 0 (unat (index r2)) (buffer r2);
              Some (Some f, r2\<lparr>rstate := BRAND_NEW\<rparr>, s2) }
            else parse_frame r2 s2))"
  by pat_completeness auto
termination
  by (relation "measure (\<lambda>(r, s). length (snd s))")
    (auto dest!: parse_byte_shorter read_fd_consumes [OF sym])

declare parse_frame.simps [simp del]

text \<open>
  The thread bodies: \<open>parse_frame\<close> for as long as the script lasts; \<open>tx\<close> is what
  \<open>frame_complete\<close> does with the buffer and the length.
\<close>

lemma parse_frame_shorter:
  "parse_frame r s = Some (f, r', s') \<Longrightarrow> length (snd s') \<le> length (snd s) \<and>
     (snd s \<noteq> [] \<longrightarrow> length (snd s') < length (snd s))"
proof (induction r s arbitrary: f r' s' rule: parse_frame.induct)
  case (1 r s)
  obtain ret d s1 where rd: "read_fd 1 s = (ret, d, s1)" by (metis prod_cases3)
  have le: "length (snd s1) \<le> length (snd s)" by (rule read_fd_shorter [OF rd])
  have lt: "length (snd s1) < length (snd s)" if "snd s \<noteq> []"
    using rd that by (cases "(1 :: nat, s)" rule: read_fd.cases) (auto simp: Let_def)
  show ?case
  proof (cases "ret \<noteq> 1")
    case True
    with 1(2) rd le lt show ?thesis by (auto simp: parse_frame.simps [of r s])
  next
    case False
    with 1(2) rd obtain quits r2 s2 where pb: "parse_byte (hd d) r s1 = Some (quits, r2, s2)"
      by (auto simp: parse_frame.simps [of r s] split: option.splits)
    note sh = parse_byte_shorter [OF pb]
    show ?thesis
    proof (cases "quits \<or> rstate r2 = FINISHED")
      case True
      with 1(2) rd False pb sh le lt show ?thesis
        by (auto simp: parse_frame.simps [of r s] bind_eq_Some_conv split: if_splits)
    next
      case more: False
      with 1(2) rd False pb have "parse_frame r2 s2 = Some (f, r', s')"
        by (auto simp: parse_frame.simps [of r s])
      with 1(1) [OF rd [symmetric] refl _ pb refl refl] more False sh le lt show ?thesis by fastforce
    qed
  qed
qed

function sitm_thread ::
  "(u8 list \<Rightarrow> nat \<Rightarrow> ('o \<times> u8 list) option) \<Rightarrow> receive_data \<Rightarrow> stream \<Rightarrow>
     ('o list \<times> receive_data \<times> stream) option" where
  "sitm_thread tx r s =
    (if snd s = [] then Some ([], r, s)
     else case parse_frame r s of
       None \<Rightarrow> None
     | Some (None, r1, s1) \<Rightarrow> sitm_thread tx r1 s1
     | Some (Some f, r1, s1) \<Rightarrow>
         (case tx (buffer r1) (length f) of
            None \<Rightarrow> None
          | Some (out, buf) \<Rightarrow>
              map_option (\<lambda>(outs, q). (out # outs, q)) (sitm_thread tx (r1\<lparr>buffer := buf\<rparr>) s1)))"
  by pat_completeness auto
termination
  by (relation "measure (\<lambda>(tx, r, s). length (snd s))") (auto dest!: parse_frame_shorter)

declare sitm_thread.simps [simp del]

definition stack_data_transmit :: "u8 list \<Rightarrow> nat \<Rightarrow> (u8 list \<times> u8 list) option" where
  "stack_data_transmit buf len = do { f \<leftarrow> get_bytes 0 len buf; Some (f, buf) }"

datatype uart_out = Userial "u8 list" | Sco_port "u8 list" | Sco_failed

text \<open>
  Towards the UART a packet is padded to the alignment (a multiple of it gets a whole unit
  more). \<open>sco\<close> is \<open>None\<close> without a port of its own for SCO data, otherwise whether that port
  opens.
\<close>

definition serial_data_transmit ::
  "nat \<Rightarrow> bool option \<Rightarrow> u8 list \<Rightarrow> nat \<Rightarrow> (uart_out \<times> u8 list) option" where
  "serial_data_transmit al sco buf len = do {
     f \<leftarrow> get_bytes 0 len buf;
     (if sco \<noteq> None \<and> hd buf = DATA_TYPE_SCO then
        Some (if sco = Some True then Sco_port f else Sco_failed, buf)
      else if al > 1 then do {
        buf \<leftarrow> put_bytes len (replicate (al - (len + al) mod al) 0) buf;
        f \<leftarrow> get_bytes 0 (len + (al - (len + al) mod al)) buf;
        Some (Userial f, buf) }
      else Some (Userial f, buf)) }"

definition sitm_read_th :: "receive_data \<Rightarrow> stream \<Rightarrow> (u8 list list \<times> receive_data \<times> stream) option" where
  "sitm_read_th = sitm_thread stack_data_transmit"

definition sitm_write_th ::
  "nat \<Rightarrow> bool option \<Rightarrow> receive_data \<Rightarrow> stream \<Rightarrow> (uart_out list \<times> receive_data \<times> stream) option" where
  "sitm_write_th al sco = sitm_thread (serial_data_transmit al sco)"

subsection \<open>HCI packets\<close>

text \<open>Type byte, preamble and the body whose length the preamble names; at most \<open>n\<close> bytes.\<close>

definition head_length :: "u8 \<Rightarrow> nat" where
  "head_length t = unat (preamble_size t) + 1"

definition body_length :: "u8 list \<Rightarrow> nat" where
  "body_length f = (if hd f = DATA_TYPE_ACL then unat (RETRIEVE_ACL_LENGTH f)
     else unat (f ! (head_length (hd f) - 1)))"

definition hci_packet :: "nat \<Rightarrow> u8 list \<Rightarrow> bool" where
  "hci_packet n f \<longleftrightarrow> f \<noteq> [] \<and> DATA_TYPE_COMMAND \<le> hd f \<and> hd f \<le> DATA_TYPE_EVENT \<and>
     head_length (hd f) \<le> length f \<and> length f = head_length (hd f) + body_length f \<and> length f \<le> n"

text \<open>The receiver after the first \<open>k\<close> bytes of the packet \<open>f\<close>.\<close>

definition reading :: "nat \<Rightarrow> u8 list \<Rightarrow> nat \<Rightarrow> receive_data \<Rightarrow> bool" where
  "reading n f k r \<longleftrightarrow> length (preamble r) = 5 \<and> length (buffer r) = n \<and>
     (if k = 0 then rstate r = BRAND_NEW
      else rtype r = hd f \<and> unat (index r) = k \<and> k < length f \<and>
        (if k < head_length (hd f)
         then rstate r = PREAMBLE \<and> unat (bytes_remaining r) = head_length (hd f) - k \<and>
           take k (preamble r) = take k f
         else rstate r = BODY \<and> unat (bytes_remaining r) = length f - k \<and>
           take k (buffer r) = take k f))"

definition complete :: "nat \<Rightarrow> u8 list \<Rightarrow> receive_data \<Rightarrow> bool" where
  "complete n f r \<longleftrightarrow> length (preamble r) = 5 \<and> length (buffer r) = n \<and> rstate r = FINISHED \<and>
     unat (index r) = length f \<and> take (length f) (buffer r) = f"

lemma head_length_bounds: "3 \<le> head_length t" "head_length t \<le> 5"
  by (auto simp: head_length_def preamble_size_def)

lemma acl_head: "head_length DATA_TYPE_ACL = 5"
  by (simp add: head_length_def preamble_size_def)

lemma unat_pred: "0 < unat (w :: u16) \<Longrightarrow> unat (w - 1) = unat w - 1"
  by (metis unat_0 unat_minus_one less_irrefl)

lemma unat_succ: "unat (w :: u16) + 1 < 65536 \<Longrightarrow> unat (w + 1) = unat w + 1"
  by (simp add: unat_word_ariths)

lemma take_eq_nth: "take n xs = take n ys \<Longrightarrow> i < n \<Longrightarrow> xs ! i = ys ! i"
  by (metis nth_take)

lemma body_length_from_preamble:
  assumes "hci_packet n f" and "take (head_length (hd f)) p = take (head_length (hd f)) f"
  shows "unat (if hd f = DATA_TYPE_ACL then RETRIEVE_ACL_LENGTH p
      else ucast (f ! (head_length (hd f) - 1)) :: u16) = body_length f"
proof (cases "hd f = DATA_TYPE_ACL")
  case True
  then have "take 5 p = take 5 f" using assms(2) by (simp add: acl_head)
  then have "p ! 3 = f ! 3" "p ! 4 = f ! 4" by (auto intro: take_eq_nth)
  with True show ?thesis by (simp add: body_length_def RETRIEVE_ACL_LENGTH_def)
next
  case False
  then show ?thesis by (simp add: body_length_def unat_ucast_mod unat_u8_lt
      order.strict_trans [OF unat_u8_lt])
qed

lemma preamble_step:
  assumes pk: "hci_packet w f" and n: "head_length (hd f) \<le> n" and "length (preamble r) = 5" and "length (buffer r) = n"
    and "rstate r = PREAMBLE" and "rtype r = hd f" and ix: "unat (index r) = k"
    and k: "k < head_length (hd f)" and "unat (bytes_remaining r) = head_length (hd f) - k"
    and tk: "take k (preamble r) = take k f"
  obtains r' where "preamble_byte (f ! k) r = Some r'"
    and "if k + 1 = length f then complete n f r' else reading n f (k + 1) r'"
proof -
  define hl where "hl = head_length (hd f)"
  define P where "P = take k (preamble r) @ [f ! k] @ drop (k + 1) (preamble r)"
  from pk n have hl: "hl \<le> length f" "length f = hl + body_length f" "hl \<le> n"
    by (simp_all add: hci_packet_def hl_def)
  have khl: "k < hl" and bhl: "unat (bytes_remaining r) = hl - k" using k assms(9) by (simp_all add: hl_def)
  have kf: "k < length f" using khl hl by simp
  have k5: "k < 5" "hl \<le> 5" using k head_length_bounds [of "hd f"] by (simp_all add: hl_def)
  have put: "put_bytes (unat (index r)) [f ! k] (preamble r) = Some P"
    using assms(3) ix k5 by (simp add: put_bytes_def P_def)
  have lp: "length P = 5" using assms(3) k5 by (simp add: P_def)
  have tp: "take (k + 1) P = take (k + 1) f"
    using tk assms(3) k5 kf by (simp add: take_Suc_conv_app_nth min_def P_def)
  have i1: "unat (index r + 1) = k + 1" using unat_succ [of "index r"] ix k5 by simp
  have b1: "unat (bytes_remaining r - 1) = hl - k - 1"
    using unat_pred [of "bytes_remaining r"] bhl khl by simp
  have z: "bytes_remaining r - 1 = 0 \<longleftrightarrow> k + 1 = hl"
  proof -
    have "bytes_remaining r - 1 = 0 \<longleftrightarrow> unat (bytes_remaining r - 1) = 0" by (metis unat_eq_zero)
    then show ?thesis using b1 khl by auto
  qed
  show thesis
  proof (cases "k + 1 = hl")
    case False
    let ?r = "r\<lparr>preamble := P, index := index r + 1, bytes_remaining := bytes_remaining r - 1\<rparr>"
    have "preamble_byte (f ! k) r = Some ?r"
      using put z False by (simp add: preamble_byte_def)
    moreover have "reading n f (k + 1) ?r"
      using assms(4-6) lp tp i1 b1 False khl hl by (simp add: reading_def hl_def [symmetric])
    moreover have "k + 1 \<noteq> length f" using False khl hl by simp
    ultimately show thesis using that by simp
  next
    case True
    define L :: u16 where "L = (if rtype r = DATA_TYPE_ACL then RETRIEVE_ACL_LENGTH P else ucast (f ! k))"
    define B where "B = take hl P @ drop hl (buffer r)"
    let ?r = "r\<lparr>preamble := P, index := index r + 1, bytes_remaining := L, buffer := B,
       rstate := (if L > 0 then BODY else FINISHED)\<rparr>"
    have hp: "take hl P = take hl f" using tp True by simp
    have hk: "hl - 1 = k" using True by simp
    have "L = (if hd f = DATA_TYPE_ACL then RETRIEVE_ACL_LENGTH P else ucast (f ! (hl - 1)))"
      unfolding L_def assms(6) hk by (rule refl)
    then have left: "unat L = body_length f"
      by (simp only: body_length_from_preamble [OF pk, folded hl_def, OF hp])
    have get: "get_bytes 0 (unat (index r + 1)) P = Some (take hl P)"
      using i1 True lp k5 by (simp add: get_bytes_def)
    have lh: "length (take hl P) = hl" using lp k5(2) by simp
    have put2: "put_bytes 0 (take hl P) (buffer r) = Some B"
      unfolding put_bytes_def lh B_def using assms(4) hl by simp
    have B: "take hl B = take hl f" "length B = n"
      using lh hp assms(4) hl unfolding B_def by simp_all
    have pb: "preamble_byte (f ! k) r = Some ?r"
      using put get put2 z True by (simp add: preamble_byte_def Let_def L_def)
    show thesis
    proof (cases "body_length f = 0")
      case zero: True
      then have "L = 0" using left by (simp add: unat_eq_zero)
      then have "complete n f ?r"
        using zero hl B lp i1 True by (simp add: complete_def)
      then show thesis using that [OF pb] zero hl True by simp
    next
      case pos: False
      then have "0 < L" using left by (metis unat_0 word_gt_0)
      then have "reading n f (k + 1) ?r"
        using pos hl B assms(6) lp i1 True left by (simp add: reading_def hl_def [symmetric])
      then show thesis using that [OF pb] pos hl True by simp
    qed
  qed
qed

text \<open>A body byte, with what the following read delivers: stored if the buffer has room for it.\<close>

lemma body_read:
  assumes n: "n < 65536" and rd: "reading n f k r"
    and k: "head_length (hd f) \<le> k" and kn: "k < n"
    and bs: "bs = drop (k + 1) f @ rest" and gs: "gs = [] \<or> (\<exists>g gs'. gs = Some g # gs')"
  obtains r' m where "body_byte (f ! k) r (bs, gs) =
      (if k + 1 + m \<le> n then Some (r', (drop (k + 1 + m) f @ rest, tl gs)) else None)"
    and "k + 1 + m \<le> length f"
    and "k + 1 + m \<le> n \<Longrightarrow>
      (if k + 1 + m = length f then complete n f r' else reading n f (k + 1 + m) r')"
proof -
  have k0: "k \<noteq> 0" using k head_length_bounds [of "hd f"] by auto
  from rd k k0 have lens: "length (preamble r) = 5" "length (buffer r) = n" and ix: "unat (index r) = k"
    and kf: "k < length f" and left: "unat (bytes_remaining r) = length f - k"
    and tk: "take k (buffer r) = take k f" and st: "rtype r = hd f" "rstate r = BODY"
    by (auto simp: reading_def)
  let ?left = "length f - k - 1"
  have l1: "unat (bytes_remaining r - 1) = ?left"
    using unat_pred [of "bytes_remaining r"] left kf by simp
  have i1: "unat (index r + 1) = k + 1" using unat_succ [of "index r"] ix kn n by simp
  define B1 where "B1 = take k (buffer r) @ [f ! k] @ drop (k + 1) (buffer r)"
  have put1: "put_bytes (unat (index r)) [f ! k] (buffer r) = Some B1"
    using ix lens kn by (simp add: put_bytes_def B1_def)
  have t1: "take (k + 1) B1 = take (k + 1) f" and lb1: "length B1 = n"
    using tk lens kf kn by (simp_all add: take_Suc_conv_app_nth B1_def)
  obtain m got where r1: "read_fd ?left (bs, gs) = (int m, got, (drop m bs, tl gs))"
    and m: "m \<le> ?left" and got: "got = take m (drop (k + 1) f)"
  proof (cases "gs = []")
    case True
    then show thesis using that [of 0 "[]"] bs by simp
  next
    case False
    with gs obtain g gs' where g: "gs = Some g # gs'" by auto
    let ?m = "min ?left (min g (length bs))"
    have "take ?m bs = take ?m (drop (k + 1) f)" using bs kf by simp
    with g show thesis by (intro that [of ?m "take ?m bs"]) (simp_all add: Let_def)
  qed
  have lg: "length got = m" using got m kf by simp
  have um: "unat (of_nat m :: u16) = m"
    using m left unat_u16_lt [of "bytes_remaining r"] by (simp add: unat_of_nat take_bit_nat_eq_self)
  have db: "drop m bs = drop (k + 1 + m) f @ rest"
    using bs m kf by (simp add: add.commute)
  show thesis
  proof (cases "k + 1 + m \<le> n")
    case False
    then have "put_bytes (unat (index r + 1)) got B1 = None"
      unfolding put_bytes_def i1 lb1 lg by simp
    then have "body_byte (f ! k) r (bs, gs) = None"
      using put1 r1 l1 by (simp add: body_byte_def Let_def)
    then show thesis using that [of m] False m kf by simp
  next
    case True
    define B where "B = take (k + 1) B1 @ got @ drop (k + 1 + m) B1"
    have put2: "put_bytes (unat (index r + 1)) got B1 = Some B"
      unfolding put_bytes_def i1 lb1 lg B_def using True by simp
    have lt: "length (take (k + 1) B1 @ got) = k + 1 + m" using lb1 lg True by simp
    have "take (k + 1 + m) B = take (k + 1) B1 @ got"
      unfolding B_def append_assoc [symmetric] using lt by (simp only: take_append) simp
    also have "\<dots> = take (k + 1 + m) f"
      unfolding t1 got using take_add [of "k + 1" m f] by simp
    finally have B: "take (k + 1 + m) B = take (k + 1 + m) f" "length B = n"
      using put_bytes_length [OF put2] lb1 by simp_all
    define I L where "I = index r + 1 + of_nat m" and "L = bytes_remaining r - 1 - of_nat m"
    have L: "unat L = ?left - m"
      unfolding L_def using l1 um m by (simp add: unat_sub word_le_nat_alt)
    have I: "unat I = k + 1 + m"
      unfolding I_def using i1 um m True n by (simp add: unat_word_ariths)
    have z: "L = 0 \<longleftrightarrow> k + 1 + m = length f"
    proof -
      have "L = 0 \<longleftrightarrow> unat L = 0" by (metis unat_eq_zero)
      then show ?thesis using L m kf by auto
    qed
    let ?r = "r\<lparr>buffer := B, index := I, bytes_remaining := L, rstate := (if L = 0 then FINISHED else BODY)\<rparr>"
    have "body_byte (f ! k) r (bs, gs) = Some (?r, (drop m bs, tl gs))"
      using put1 r1 put2 l1 by (simp add: body_byte_def Let_def I_def L_def)
    moreover have "if k + 1 + m = length f then complete n f ?r else reading n f (k + 1 + m) ?r"
    proof (cases "k + 1 + m = length f")
      case True
      then show ?thesis using z B I lens by (simp add: complete_def)
    next
      case False
      then show ?thesis using L z B I lens st m kf k by (simp add: reading_def)
    qed
    ultimately show thesis using that [of m ?r] db True m kf by simp
  qed
qed

text \<open>Scripts in which every read delivers something.\<close>

definition steady :: "nat option list \<Rightarrow> bool" where
  "steady gs \<longleftrightarrow> list_all (\<lambda>g. case g of None \<Rightarrow> False | Some k \<Rightarrow> 0 < k) gs"

lemma steady_tl [simp]: "steady gs \<Longrightarrow> steady (tl gs)"
  by (cases gs) (auto simp: steady_def)

lemma steady_cases: "steady gs \<Longrightarrow> gs = [] \<or> (\<exists>g gs'. gs = Some g # gs')"
  by (cases gs) (auto simp: steady_def split: option.splits)

text \<open>One byte of a packet, wherever the receiver stands in it.\<close>

lemma byte_step:
  assumes pk: "hci_packet n f" and n: "n < 65536" and rd: "reading n f k r" and kf: "k < length f"
    and st: "steady gs"
  obtains r' m gs1 where
    "parse_byte (f ! k) r (drop (k + 1) f @ rest, gs) = Some (False, r', (drop (k + 1 + m) f @ rest, gs1))"
    and "gs1 = gs \<or> gs1 = tl gs" and "k + 1 + m \<le> length f"
    and "if k + 1 + m = length f then complete n f r' else reading n f (k + 1 + m) r'"
proof -
  have lens: "length (preamble r) = 5" "length (buffer r) = n" using rd by (simp_all add: reading_def)
  have hn: "head_length (hd f) \<le> n" using pk by (simp add: hci_packet_def)
  consider "k = 0" | "k \<noteq> 0" "k < head_length (hd f)" | "head_length (hd f) \<le> k" by linarith
  then show thesis
  proof cases
    case 1
    have new: "rstate r = BRAND_NEW" using rd 1 by (simp add: reading_def)
    have hd: "f ! 0 = hd f" "\<not> hd f > DATA_TYPE_EVENT" "\<not> hd f < DATA_TYPE_COMMAND"
      using pk by (auto simp: hci_packet_def hd_conv_nth)
    let ?b = "begin_packet (hd f) r"
    have left: "unat (bytes_remaining ?b) = head_length (hd f) - k"
      using unat_succ [of "preamble_size (hd f)"] head_length_bounds [of "hd f"] 1
      by (simp add: begin_packet_def head_length_def)
    have b: "length (preamble ?b) = 5" "length (buffer ?b) = n" "rstate ?b = PREAMBLE"
      "rtype ?b = hd f" "unat (index ?b) = k" "k < head_length (hd f)"
      "take k (preamble ?b) = take k f"
      using lens 1 head_length_bounds [of "hd f"] by (simp_all add: begin_packet_def)
    obtain r' where pb: "preamble_byte (f ! k) ?b = Some r'"
      and fin0: "if k + 1 = length f then complete n f r' else reading n f (k + 1) r'"
      by (rule preamble_step [OF pk hn b(1-6) left b(7)])
    from fin0 have fin: "if k + 1 + 0 = length f then complete n f r' else reading n f (k + 1 + 0) r'"
      by (simp only: add_0_right)
    have "k + 1 + 0 \<le> length f" using kf by simp
    moreover have "parse_byte (f ! k) r (drop (k + 1) f @ rest, gs)
        = Some (False, r', (drop (k + 1 + 0) f @ rest, gs))"
      using pb new hd unfolding 1 by (simp add: parse_byte_def)
    ultimately show thesis using that [of r' 0 gs] fin by blast
  next
    case 2
    then have pre: "rstate r = PREAMBLE" using rd by (simp add: reading_def)
    have b: "rtype r = hd f" "unat (index r) = k" "unat (bytes_remaining r) = head_length (hd f) - k"
      "take k (preamble r) = take k f"
      using rd 2 by (simp_all add: reading_def)
    obtain r' where pb: "preamble_byte (f ! k) r = Some r'"
      and fin0: "if k + 1 = length f then complete n f r' else reading n f (k + 1) r'"
      by (rule preamble_step [OF pk hn lens pre b(1,2) 2(2) b(3,4)])
    from fin0 have fin: "if k + 1 + 0 = length f then complete n f r' else reading n f (k + 1 + 0) r'"
      by (simp only: add_0_right)
    have "k + 1 + 0 \<le> length f" using kf by simp
    moreover have "parse_byte (f ! k) r (drop (k + 1) f @ rest, gs)
        = Some (False, r', (drop (k + 1 + 0) f @ rest, gs))"
      using pb pre by (simp add: parse_byte_def)
    ultimately show thesis using that [of r' 0 gs] fin by blast
  next
    case 3
    then have body: "rstate r = BODY"
      using rd head_length_bounds [of "hd f"] by (auto simp: reading_def split: if_splits)
    have fn: "length f \<le> n" using pk by (simp add: hci_packet_def)
    then have kn: "k < n" using kf by simp
    obtain r' m where e: "body_byte (f ! k) r (drop (k + 1) f @ rest, gs) =
        (if k + 1 + m \<le> n then Some (r', (drop (k + 1 + m) f @ rest, tl gs)) else None)"
      and m: "k + 1 + m \<le> length f"
      and c: "k + 1 + m \<le> n \<Longrightarrow>
        (if k + 1 + m = length f then complete n f r' else reading n f (k + 1 + m) r')"
      using body_read [OF n rd 3 kn refl steady_cases [OF st], of rest] by blast
    have mn: "k + 1 + m \<le> n" using m fn by simp
    note fin = c [OF mn]
    have "body_byte (f ! k) r (drop (k + 1) f @ rest, gs) = Some (r', (drop (k + 1 + m) f @ rest, tl gs))"
      using e mn by simp
    then show thesis
      using body by (intro that [OF _ _ m fin, of "tl gs"]) (simp_all add: parse_byte_def)
  qed
qed

text \<open>With two reads for every missing byte the rest of the packet comes through.\<close>

lemma parse_frame_packet:
  assumes "hci_packet n f" and "n < 65536" and "reading n f k r" and "k < length f" and "steady gs"
    and "2 * (length f - k) \<le> length gs"
  shows "\<exists>r' gs'. parse_frame r (drop k f @ rest, gs) = Some (Some f, r', (rest, gs')) \<and>
    reading n g 0 r' \<and> take (length f) (buffer r') = f \<and> steady gs' \<and>
    length gs \<le> length gs' + 2 * (length f - k)"
  using assms(3-6)
proof (induction "length f - k" arbitrary: k r gs rule: less_induct)
  case less
  obtain g0 gs0 where gs: "gs = Some g0 # gs0" "0 < g0"
    using less.prems by (cases gs) (auto simp: steady_def split: option.splits)
  have st0: "steady gs0" using less.prems(3) gs by (simp add: steady_def)
  have split: "drop k f = f ! k # drop (k + 1) f"
    using less.prems(2) by (simp add: Cons_nth_drop_Suc)
  have rd1: "read_fd 1 (drop k f @ rest, gs) = (1, [f ! k], (drop (k + 1) f @ rest, gs0))"
    using gs by (simp add: split Let_def)
  from byte_step [OF assms(1,2) less.prems(1,2) st0] obtain r' m gs1
    where pb: "parse_byte (f ! k) r (drop (k + 1) f @ rest, gs0) = Some (False, r', (drop (k + 1 + m) f @ rest, gs1))"
      and gs1: "gs1 = gs0 \<or> gs1 = tl gs0" and m: "k + 1 + m \<le> length f"
      and fin: "if k + 1 + m = length f then complete n f r' else reading n f (k + 1 + m) r'"
    by metis
  have st1: "steady gs1" using gs1 st0 by auto
  have lg: "length gs \<le> length gs1 + 2" using gs1 gs by auto
  show ?case
  proof (cases "k + 1 + m = length f")
    case True
    with fin have c: "complete n f r'" by simp
    have "parse_frame r (drop k f @ rest, gs) = Some (Some f, r'\<lparr>rstate := BRAND_NEW\<rparr>, (rest, gs1))"
      using rd1 pb c True assms(1)
      by (simp add: parse_frame.simps [of r] complete_def get_bytes_def hci_packet_def)
    moreover have "reading n g 0 (r'\<lparr>rstate := BRAND_NEW\<rparr>)" using c by (simp add: complete_def reading_def)
    moreover have "take (length f) (buffer (r'\<lparr>rstate := BRAND_NEW\<rparr>)) = f" using c by (simp add: complete_def)
    ultimately show ?thesis using st1 lg less.prems(2) by auto
  next
    case False
    with fin m have rd: "reading n f (k + 1 + m) r'" and lt: "k + 1 + m < length f" by simp_all
    then have nf: "rstate r' \<noteq> FINISHED" by (auto simp: reading_def split: if_splits)
    have step: "parse_frame r (drop k f @ rest, gs) = parse_frame r' (drop (k + 1 + m) f @ rest, gs1)"
      using rd1 pb nf by (simp add: parse_frame.simps [of r])
    have enough: "2 * (length f - (k + 1 + m)) \<le> length gs1" using less.prems(4) lg by simp
    have "length f - (k + 1 + m) < length f - k" using lt by simp
    from less.hyps [OF this rd lt st1 enough] obtain r2 gs2
      where "parse_frame r' (drop (k + 1 + m) f @ rest, gs1) = Some (Some f, r2, (rest, gs2))"
        and "reading n g 0 r2" "take (length f) (buffer r2) = f" "steady gs2" "length gs1 \<le> length gs2 + 2 * (length f - (k + 1 + m))"
      by auto
    then show ?thesis using step lg lt by auto
  qed
qed

lemma reading_new: "reading n f 0 r \<longleftrightarrow> length (preamble r) = 5 \<and> length (buffer r) = n \<and> rstate r = BRAND_NEW"
  by (simp add: reading_def)

lemma sitm_thread_drained: "steady gs \<Longrightarrow> sitm_thread tx r ([], gs) = Some ([], r, ([], []))"
proof (induction gs)
  case Nil
  show ?case by (simp add: sitm_thread.simps [of tx r])
next
  case (Cons g gs)
  then obtain k where "g = Some k" and "steady gs" by (cases g) (auto simp: steady_def)
  with Cons.IH show ?case
    by (simp add: sitm_thread.simps [of tx r "([], Some k # gs)"] parse_frame.simps [of r])
qed

text \<open>The thread hands on packet after packet, whatever portions its reads deliver.\<close>

lemma sitm_thread_packets:
  assumes "n < 65536"
    and "\<And>f buf. hci_packet n f \<Longrightarrow> P f \<Longrightarrow> length buf = n \<Longrightarrow> take (length f) buf = f \<Longrightarrow>
      \<exists>buf'. tx buf (length f) = Some (view f, buf') \<and> length buf' = n"
    and "\<forall>f \<in> set fs. hci_packet n f \<and> P f" and "reading n [] 0 r" and "steady gs"
    and "2 * length (concat fs) \<le> length gs"
  shows "\<exists>r'. sitm_thread tx r (concat fs, gs) = Some (map view fs, r', ([], []))"
  using assms(3-6)
proof (induction fs arbitrary: r gs)
  case Nil
  then show ?case using sitm_thread_drained [of gs tx r] by auto
next
  case (Cons f fs)
  have pk: "hci_packet n f" "P f" using Cons.prems(1) by auto
  then have "f \<noteq> []" by (simp add: hci_packet_def)
  then have ne: "0 < length f" by simp
  have rd: "reading n f 0 r" using Cons.prems(2) by (simp add: reading_new)
  have "2 * (length f - 0) \<le> length gs" using Cons.prems(4) by simp
  from parse_frame_packet [OF pk(1) assms(1) rd ne Cons.prems(3) this, of "concat fs" "[]"]
  obtain r1 gs1 where p: "parse_frame r (f @ concat fs, gs) = Some (Some f, r1, (concat fs, gs1))"
    and r1: "reading n [] 0 r1" "take (length f) (buffer r1) = f" "steady gs1"
    and lg: "length gs \<le> length gs1 + 2 * length f" by auto
  have "length (buffer r1) = n" using r1(1) by (simp add: reading_new)
  from assms(2) [OF pk this r1(2)] obtain buf' where
    tx: "tx (buffer r1) (length f) = Some (view f, buf')" "length buf' = n" by auto
  have rd1: "reading n [] 0 (r1\<lparr>buffer := buf'\<rparr>)" using r1(1) tx(2) by (simp add: reading_new)
  have "2 * length (concat fs) \<le> length gs1" using lg Cons.prems(4) by simp
  from Cons.IH [OF _ rd1 r1(3) this] Cons.prems(1) obtain r2
    where "sitm_thread tx (r1\<lparr>buffer := buf'\<rparr>) (concat fs, gs1) = Some (map view fs, r2, ([], []))"
    by auto
  moreover have "gs \<noteq> []" using Cons.prems(4) ne by auto
  ultimately show ?case
    using p tx(1) by (simp add: sitm_thread.simps [of tx r])
qed

definition padding :: "nat \<Rightarrow> nat \<Rightarrow> nat" where
  "padding al n = (if al > 1 then al - (n + al) mod al else 0)"

definition uart_packet :: "nat \<Rightarrow> bool option \<Rightarrow> u8 list \<Rightarrow> uart_out" where
  "uart_packet al sco f =
     (if sco \<noteq> None \<and> hd f = DATA_TYPE_SCO then (if sco = Some True then Sco_port f else Sco_failed)
      else Userial (f @ replicate (padding al (length f)) 0))"

lemma padding_le: "padding al n \<le> al"
  by (simp add: padding_def)

lemma stack_transmit_packet:
  "take (length f) buf = f \<Longrightarrow> length buf = 1026 + al \<Longrightarrow> length f \<le> 1026 \<Longrightarrow>
     \<exists>buf'. stack_data_transmit buf (length f) = Some (f, buf') \<and> length buf' = 1026 + al"
  by (simp add: stack_data_transmit_def get_bytes_def)

lemma serial_transmit_packet:
  assumes "take (length f) buf = f" and "length buf = 1026 + al" and "length f \<le> 1026" and "f \<noteq> []"
  shows "\<exists>buf'. serial_data_transmit al sco buf (length f) = Some (uart_packet al sco f, buf') \<and>
    length buf' = 1026 + al"
proof -
  have get: "get_bytes 0 (length f) buf = Some f" using assms by (simp add: get_bytes_def)
  have hd: "hd buf = hd f" using assms(1,4) by (metis hd_take length_greater_0_conv)
  let ?p = "al - (length f + al) mod al"
  define B where "B = take (length f) buf @ replicate ?p 0 @ drop (length f + ?p) buf"
  have put: "put_bytes (length f) (replicate ?p 0) buf = Some B" if "al > 1"
    using assms(2,3) by (simp add: put_bytes_def B_def)
  have lB: "length B = 1026 + al" using assms(2,3) by (simp add: B_def)
  have tB: "get_bytes 0 (length f + ?p) B = Some (f @ replicate ?p 0)"
    using lB assms(1-3) unfolding B_def get_bytes_def by simp
  show ?thesis
    using get hd put tB lB assms(2)
    by (cases "al > 1") (auto simp: serial_data_transmit_def uart_packet_def padding_def)
qed

lemma reading_init: "reading (1026 + al) f 0 (recv_init al)"
  by (simp add: reading_new recv_init_def)

lemma hci_packet_mono: "hci_packet n f \<Longrightarrow> n \<le> w \<Longrightarrow> hci_packet w f"
  by (auto simp: hci_packet_def)

subsection \<open>Properties\<close>

text \<open>
  C39. In both directions the bridge passes HCI packets on whole, in order and unchanged
  (towards the UART with the padding of the chip), however the reads cut the byte stream.
\<close>

theorem bridge_passes_packets:
  assumes "\<forall>f \<in> set fs. hci_packet 1026 f" and "steady gs" and "2 * length (concat fs) \<le> length gs"
    and "al \<le> 64"
  shows "(\<exists>r. sitm_read_th (recv_init al) (concat fs, gs) = Some (fs, r, ([], []))) \<and>
    (\<exists>r. sitm_write_th al sco (recv_init al) (concat fs, gs)
       = Some (map (uart_packet al sco) fs, r, ([], [])))"
proof -
  let ?P = "\<lambda>f. f \<noteq> [] \<and> length f \<le> 1026"
  have pk: "\<forall>f \<in> set fs. hci_packet (1026 + al) f \<and> ?P f"
    using assms(1) hci_packet_mono [of 1026 _ "1026 + al"] by (auto simp: hci_packet_def)
  have small: "1026 + al < 65536" using assms(4) by simp
  have "\<exists>r. sitm_thread stack_data_transmit (recv_init al) (concat fs, gs)
      = Some (map (\<lambda>f. f) fs, r, ([], []))"
    by (rule sitm_thread_packets [OF small _ pk reading_init assms(2,3)])
      (use stack_transmit_packet in blast)
  moreover have "\<exists>r. sitm_thread (serial_data_transmit al sco) (recv_init al) (concat fs, gs)
      = Some (map (uart_packet al sco) fs, r, ([], []))"
    by (rule sitm_thread_packets [OF small _ pk reading_init assms(2,3)])
      (use serial_transmit_packet in blast)
  ultimately show ?thesis by (simp add: sitm_read_th_def sitm_write_th_def)
qed

text \<open>A command complete event and an ACL packet, in portions of two bytes.\<close>

definition demo_packets :: "u8 list list" where
  "demo_packets = [[4, 0x0E, 2, 5, 6], [2, 1, 0, 1, 0, 9]]"

theorem bridge_passes_packets_witness:
  "\<exists>r. sitm_write_th 8 None (recv_init 8) (concat demo_packets, replicate 22 (Some 2))
     = Some ([Userial [4, 0x0E, 2, 5, 6, 0, 0, 0], Userial [2, 1, 0, 1, 0, 9, 0, 0]], r, ([], []))"
proof -
  have "\<forall>f \<in> set demo_packets. hci_packet 1026 f"
    by (simp add: demo_packets_def hci_packet_def head_length_def preamble_size_def body_length_def
        RETRIEVE_ACL_LENGTH_def word_le_nat_alt)
  moreover have "steady (replicate 22 (Some 2))" by (simp add: steady_def list_all_iff)
  moreover have "2 * length (concat demo_packets) \<le> length (replicate 22 (Some (2 :: nat)))"
    by (simp add: demo_packets_def)
  moreover have pad: "replicate 3 (0 :: u8) = [0, 0, 0]" "replicate 2 (0 :: u8) = [0, 0]"
    by (simp_all add: numeral_3_eq_3 numeral_2_eq_2)
  moreover have "map (uart_packet 8 None) demo_packets
      = [Userial [4, 0x0E, 2, 5, 6, 0, 0, 0], Userial [2, 1, 0, 1, 0, 9, 0, 0]]"
    using pad by (simp add: demo_packets_def uart_packet_def padding_def)
  ultimately show ?thesis
    using bridge_passes_packets [of demo_packets "replicate 22 (Some 2)" 8 None] by auto
qed

lemma hd_patched: "0 < k \<Longrightarrow> k < length f \<Longrightarrow> hd (take k f @ ys) = hd f"
  by (cases f) (auto simp: take_Cons')

lemma failed_body_read:
  assumes pk: "hci_packet n f" and n: "n < 65536" and rd: "reading n f k r"
    and k: "head_length (hd f) \<le> k" and kf: "k < length f"
  obtains r' where "parse_byte (f ! k) r (bs, None # gs) = Some (False, r', (bs, gs))"
    and "reading n (take k f @ drop (k + 1) f @ [x]) k r'"
proof -
  have k3: "3 \<le> k" using k head_length_bounds [of "hd f"] by simp
  then have st: "rstate r = BODY" "rtype r = hd f" "length (preamble r) = 5" "length (buffer r) = n"
    and ix: "unat (index r) = k" and left: "unat (bytes_remaining r) = length f - k"
    and tk: "take k (buffer r) = take k f"
    using rd k by (auto simp: reading_def)
  have fn: "length f \<le> n" using pk by (simp add: hci_packet_def)
  define B where "B = take k (buffer r) @ [f ! k] @ drop (k + 1) (buffer r)"
  have put: "put_bytes (unat (index r)) [f ! k] (buffer r) = Some B"
    using ix st kf fn by (simp add: put_bytes_def B_def)
  have lB: "length B = n" using put st(4) put_bytes_length by metis
  have tB: "take k B = take k f" using tk st(4) kf fn by (simp add: B_def)
  have put2: "put_bytes i [] B = Some B" if "i \<le> n" for i
    using that lB by (simp add: put_bytes_def)
  have i1: "unat (index r + 1) \<le> n" using unat_succ [of "index r"] ix kf fn n by simp
  have nz: "bytes_remaining r \<noteq> 0" using left kf by auto
  let ?r = "r\<lparr>buffer := B\<rparr>"
  let ?g = "take k f @ drop (k + 1) f @ [x]"
  have "parse_byte (f ! k) r (bs, None # gs) = Some (False, ?r, (bs, gs))"
    using st(1) put put2 [OF i1] nz by (simp add: parse_byte_def body_byte_def Let_def)
  moreover have "reading n ?g k ?r"
  proof -
    have "hd ?g = hd f" using k3 kf by (intro hd_patched) simp_all
    moreover have "take k ?g = take k f" "length ?g = length f" using kf by simp_all
    ultimately show ?thesis
      using st ix left lB tB k kf k3 by (simp add: reading_def)
  qed
  ultimately show thesis by (rule that)
qed

lemma hci_packet_same_head:
  assumes "hci_packet n f" and "head_length (hd f) \<le> k" and "k < length f"
    and G: "G = take k f @ drop (k + 1) f @ [x]"
  shows "hci_packet n G"
proof -
  have k3: "3 \<le> k" using assms(2) head_length_bounds [of "hd f"] by simp
  have hd: "hd G = hd f" unfolding G using k3 assms(3) by (intro hd_patched) simp_all
  have nth: "G ! i = f ! i" if "i < k" for i using that assms(3) by (simp add: nth_append G)
  have "body_length G = body_length f"
  proof (cases "hd f = DATA_TYPE_ACL")
    case True
    then have "4 < k" using assms(2) by (simp add: acl_head)
    with True show ?thesis by (simp add: body_length_def hd RETRIEVE_ACL_LENGTH_def nth)
  next
    case False
    then show ?thesis using assms(2) k3 by (simp add: body_length_def hd nth)
  qed
  moreover have "length G = length f" "G \<noteq> []" using assms(3) by (simp_all add: G)
  ultimately show ?thesis using assms(1) hd by (simp add: hci_packet_def)
qed

text \<open>
  A read that fails in the body of a packet, right after byte \<open>k\<close> of it, costs that
  byte: the packet is completed without it, with the first byte of what follows, and the
  bridge is out of step from there.
\<close>

lemma failed_read_loses_byte:
  assumes "hci_packet n f" and "n < 65536" and "reading n f k r"
    and "head_length (hd f) \<le> k" and "k < length f" and "0 < g"
    and "steady gs" and "2 * (length f - k) \<le> length gs"
  shows "\<exists>r' gs'. parse_frame r (drop k f @ x # rest, Some g # None # gs)
    = Some (Some (take k f @ drop (k + 1) f @ [x]), r', (rest, gs'))"
proof -
  define G where "G = take k f @ drop (k + 1) f @ [x]"
  have "drop k f = f ! k # drop (k + 1) f" using assms(5) by (simp add: Cons_nth_drop_Suc)
  then have rd1: "read_fd 1 (drop k f @ x # rest, Some g # None # gs)
      = (1, [f ! k], (drop (k + 1) f @ x # rest, None # gs))"
    using assms(6) by (simp add: Let_def)
  obtain r' where pb: "parse_byte (f ! k) r (drop (k + 1) f @ x # rest, None # gs)
      = Some (False, r', (drop (k + 1) f @ x # rest, gs))" and rd: "reading n G k r'"
    unfolding G_def by (rule failed_body_read [OF assms(1-5)])
  have k3: "3 \<le> k" using assms(4) head_length_bounds [of "hd f"] by simp
  then have nf: "rstate r' \<noteq> FINISHED" using rd by (auto simp: reading_def split: if_splits)
  have lg: "k < length G" "2 * (length G - k) \<le> length gs" using assms(5,8) by (simp_all add: G_def)
  have dg: "drop k G @ rest = drop (k + 1) f @ x # rest" using assms(5) by (simp add: G_def)
  have "parse_frame r (drop k f @ x # rest, Some g # None # gs) = parse_frame r' (drop k G @ rest, gs)"
    unfolding dg using rd1 pb nf by (simp add: parse_frame.simps [of r])
  moreover obtain r2 gs2 where "parse_frame r' (drop k G @ rest, gs) = Some (Some G, r2, (rest, gs2))"
    using parse_frame_packet [OF hci_packet_same_head [OF assms(1,4,5) G_def] assms(2) rd lg(1) assms(7) lg(2),
        of rest "[]"] by blast
  ultimately show ?thesis unfolding G_def [symmetric] by simp
qed

text \<open>A failed read after the fourth byte of a command complete event.\<close>

definition mid_event :: receive_data where
  "mid_event = \<lparr>rstate = BODY, bytes_remaining = 2, rtype = 4, preamble = [4, 0x0E, 2, 0, 0], index = 3,
     buffer = [4, 0x0E, 2] @ replicate 1023 0\<rparr>"

lemma failed_read_loses_byte_witness:
  "\<exists>r' gs'. parse_frame mid_event ([5, 6, 4, 0x0F], [Some 1, None, Some 1, Some 1, Some 1, Some 1])
    = Some (Some [4, 0x0E, 2, 6, 4], r', ([0x0F], gs'))"
proof -
  have hl: "head_length 4 = 3" by (simp add: head_length_def preamble_size_def)
  have "hci_packet 1026 [4, 0x0E, 2, 5, 6]"
    by (simp add: hci_packet_def hl body_length_def)
  moreover have "reading 1026 [4, 0x0E, 2, 5, 6] 3 mid_event"
    by (simp add: reading_def mid_event_def hl)
  moreover have "steady [Some 1, Some 1, Some 1, Some 1]" by (simp add: steady_def)
  ultimately show ?thesis
    using failed_read_loses_byte [of 1026 "[4, 0x0E, 2, 5, 6]" 3 mid_event 1
        "[Some 1, Some 1, Some 1, Some 1]" 4 "[0x0F]"] hl
    by simp
qed

subsection \<open>Packets that do not fit\<close>

text \<open>The same step for a packet longer than the buffer: it goes on inside the buffer or leaves it.\<close>

lemma long_byte_step:
  assumes pk: "hci_packet w f" and n: "5 \<le> n" "n < 65536" "n < length f" and rd: "reading n f k r"
    and kn: "k \<le> n" and st: "steady gs"
  shows "parse_byte (f ! k) r (drop (k + 1) f @ rest, gs) = None \<or>
    (\<exists>r' m gs1. parse_byte (f ! k) r (drop (k + 1) f @ rest, gs)
        = Some (False, r', (drop (k + 1 + m) f @ rest, gs1)) \<and>
      (gs1 = gs \<or> gs1 = tl gs) \<and> k + 1 + m \<le> n \<and> reading n f (k + 1 + m) r')"
proof -
  have lens: "length (preamble r) = 5" "length (buffer r) = n" using rd by (simp_all add: reading_def)
  have hn: "head_length (hd f) \<le> n" using n(1) head_length_bounds [of "hd f"] by simp
  have kf: "k + 1 \<le> n \<Longrightarrow> k + 1 \<noteq> length f" using n(3) by simp
  consider "k = 0" | "k \<noteq> 0" "k < head_length (hd f)" | "head_length (hd f) \<le> k" by linarith
  then show ?thesis
  proof cases
    case 1
    have new: "rstate r = BRAND_NEW" using rd 1 by (simp add: reading_def)
    have hd: "f ! 0 = hd f" "\<not> hd f > DATA_TYPE_EVENT" "\<not> hd f < DATA_TYPE_COMMAND"
      using pk by (auto simp: hci_packet_def hd_conv_nth)
    let ?b = "begin_packet (hd f) r"
    have left: "unat (bytes_remaining ?b) = head_length (hd f) - k"
      using unat_succ [of "preamble_size (hd f)"] head_length_bounds [of "hd f"] 1
      by (simp add: begin_packet_def head_length_def)
    have b: "length (preamble ?b) = 5" "length (buffer ?b) = n" "rstate ?b = PREAMBLE"
      "rtype ?b = hd f" "unat (index ?b) = k" "k < head_length (hd f)"
      "take k (preamble ?b) = take k f"
      using lens 1 head_length_bounds [of "hd f"] by (simp_all add: begin_packet_def)
    obtain r' where pb: "preamble_byte (f ! k) ?b = Some r'"
      and fin0: "if k + 1 = length f then complete n f r' else reading n f (k + 1) r'"
      by (rule preamble_step [OF pk hn b(1-6) left b(7)])
    have "reading n f (k + 1 + 0) r'" using fin0 n 1 by simp
    moreover have "parse_byte (f ! k) r (drop (k + 1) f @ rest, gs)
        = Some (False, r', (drop (k + 1 + 0) f @ rest, gs))"
      using pb new hd unfolding 1 by (simp add: parse_byte_def)
    moreover have "k + 1 + 0 \<le> n" using n(1) 1 by simp
    ultimately show ?thesis by blast
  next
    case 2
    then have pre: "rstate r = PREAMBLE" using rd by (simp add: reading_def)
    have b: "rtype r = hd f" "unat (index r) = k" "unat (bytes_remaining r) = head_length (hd f) - k"
      "take k (preamble r) = take k f"
      using rd 2 by (simp_all add: reading_def)
    obtain r' where pb: "preamble_byte (f ! k) r = Some r'"
      and fin0: "if k + 1 = length f then complete n f r' else reading n f (k + 1) r'"
      by (rule preamble_step [OF pk hn lens pre b(1,2) 2(2) b(3,4)])
    have le: "k + 1 + 0 \<le> n" using 2 hn by simp
    then have "reading n f (k + 1 + 0) r'" using fin0 n by simp
    moreover have "parse_byte (f ! k) r (drop (k + 1) f @ rest, gs)
        = Some (False, r', (drop (k + 1 + 0) f @ rest, gs))"
      using pb pre by (simp add: parse_byte_def)
    ultimately show ?thesis using le by blast
  next
    case 3
    then have st': "rstate r = BODY" and ix: "unat (index r) = k"
      using rd head_length_bounds [of "hd f"] by (auto simp: reading_def split: if_splits)
    show ?thesis
    proof (cases "k = n")
      case True
      then have "put_bytes (unat (index r)) [f ! k] (buffer r) = None"
        using ix lens by (simp add: put_bytes_def)
      then show ?thesis using st' by (simp add: parse_byte_def body_byte_def)
    next
      case False
      then have kn': "k < n" using kn by simp
      obtain r' m where e: "body_byte (f ! k) r (drop (k + 1) f @ rest, gs) =
          (if k + 1 + m \<le> n then Some (r', (drop (k + 1 + m) f @ rest, tl gs)) else None)"
        and m: "k + 1 + m \<le> length f"
        and c: "k + 1 + m \<le> n \<Longrightarrow>
          (if k + 1 + m = length f then complete n f r' else reading n f (k + 1 + m) r')"
        using body_read [OF n(2) rd 3 kn' refl steady_cases [OF st], of rest] by blast
      show ?thesis
      proof (cases "k + 1 + m \<le> n")
        case True
        then have "reading n f (k + 1 + m) r'" using c n(3) by simp
        moreover have "parse_byte (f ! k) r (drop (k + 1) f @ rest, gs)
            = Some (False, r', (drop (k + 1 + m) f @ rest, tl gs))"
          using e True st' by (simp add: parse_byte_def)
        ultimately show ?thesis using True by blast
      next
        case False
        then show ?thesis using e st' by (simp add: parse_byte_def)
      qed
    qed
  qed
qed

lemma long_packet_overflows:
  assumes "hci_packet w f" and "5 \<le> n" "n < 65536" "n < length f"
    and "reading n f k r" and "k \<le> n" and "steady gs" and "2 * (n + 1 - k) \<le> length gs"
  shows "parse_frame r (drop k f @ rest, gs) = None"
  using assms(5-8)
proof (induction "n + 1 - k" arbitrary: k r gs rule: less_induct)
  case less
  obtain g0 gs0 where gs: "gs = Some g0 # gs0" "0 < g0"
    using less.prems(2-4) by (cases gs) (auto simp: steady_def split: option.splits)
  have st0: "steady gs0" using less.prems(3) gs by (simp add: steady_def)
  have split: "drop k f = f ! k # drop (k + 1) f"
    using less.prems(2) assms(4) by (simp add: Cons_nth_drop_Suc)
  have rd1: "read_fd 1 (drop k f @ rest, gs) = (1, [f ! k], (drop (k + 1) f @ rest, gs0))"
    using gs by (simp add: split Let_def)
  from long_byte_step [OF assms(1-4) less.prems(1,2) st0, of rest]
  consider "parse_byte (f ! k) r (drop (k + 1) f @ rest, gs0) = None"
    | r' m gs1 where "parse_byte (f ! k) r (drop (k + 1) f @ rest, gs0)
        = Some (False, r', (drop (k + 1 + m) f @ rest, gs1))"
      "gs1 = gs0 \<or> gs1 = tl gs0" "k + 1 + m \<le> n" "reading n f (k + 1 + m) r'"
    by metis
  then show ?case
  proof cases
    case 1
    then show ?thesis using rd1 by (simp add: parse_frame.simps [of r])
  next
    case 2
    have st1: "steady gs1" using 2(2) st0 by auto
    have lg: "length gs \<le> length gs1 + 2" using 2(2) gs by auto
    have nf: "rstate r' \<noteq> FINISHED" using 2(4) by (auto simp: reading_def split: if_splits)
    have step: "parse_frame r (drop k f @ rest, gs) = parse_frame r' (drop (k + 1 + m) f @ rest, gs1)"
      using rd1 2(1) nf by (simp add: parse_frame.simps [of r])
    have "n + 1 - (k + 1 + m) < n + 1 - k" using 2(3) by simp
    moreover have "2 * (n + 1 - (k + 1 + m)) \<le> length gs1" using less.prems(4) lg 2(3) by simp
    ultimately have "parse_frame r' (drop (k + 1 + m) f @ rest, gs1) = None"
      using less.hyps 2(3,4) st1 by blast
    with step show ?thesis by simp
  qed
qed

text \<open>
  The length of an ACL packet comes from the peer and is not checked: a packet longer
  than the buffer of 1026 bytes (and the alignment) is written past its end, however the
  reads cut it.
\<close>

lemma long_acl_packet_overflows:
  assumes "hci_packet 65540 f" and "1026 + al < length f" and "al \<le> 64"
    and "steady gs" and "2 * length f \<le> length gs"
  shows "sitm_read_th (recv_init al) (f @ rest, gs) = None"
proof -
  have "parse_frame (recv_init al) (drop 0 f @ rest, gs) = None"
    by (rule long_packet_overflows [OF assms(1) _ _ assms(2) reading_init])
      (use assms in \<open>simp_all add: le_trans\<close>)
  moreover have "gs \<noteq> []" using assms(2,5) by auto
  ultimately show ?thesis
    by (simp add: sitm_read_th_def sitm_thread.simps [of _ "recv_init al"])
qed

text \<open>An ACL packet with 2000 bytes of data, read byte by byte.\<close>

lemma long_acl_packet_overflows_witness:
  "sitm_read_th (recv_init 8) (([2, 0, 0, 0xD0, 0x07] @ replicate 2000 0) @ [], replicate 4010 (Some 1)) = None"
proof -
  have "hci_packet 65540 ([2, 0, 0, 0xD0, 0x07] @ replicate 2000 0)"
    by (simp add: hci_packet_def head_length_def preamble_size_def body_length_def
        RETRIEVE_ACL_LENGTH_def word_le_nat_alt)
  moreover have "steady (replicate 4010 (Some 1))" by (simp add: steady_def list_all_iff)
  ultimately show ?thesis
    by (intro long_acl_packet_overflows) simp_all
qed

end
