(* ===== verification/Sms4.thy ===== *)
theory Sms4
  imports Prelude
begin

text \<open>
  The SMS4 block cipher of the Wi-Fi driver (\<open>wcn/wifi/sc2331/6.0/wlan_wapi.c\<close>): the tables,
  the two transforms computed from parities and circular multiplication, the key schedule and
  the encryption of one block in a rotating array of four words. The reference is the cipher as
  its standard defines it, a sliding window of four words with rotations.
\<close>

subsection \<open>Definitions\<close>

definition s_box :: "u8 list" where
  "s_box =
    [0xd6, 0x90, 0xe9, 0xfe, 0xcc, 0xe1, 0x3d, 0xb7,
     0x16, 0xb6, 0x14, 0xc2, 0x28, 0xfb, 0x2c, 0x05,
     0x2b, 0x67, 0x9a, 0x76, 0x2a, 0xbe, 0x04, 0xc3,
     0xaa, 0x44, 0x13, 0x26, 0x49, 0x86, 0x06, 0x99,
     0x9c, 0x42, 0x50, 0xf4, 0x91, 0xef, 0x98, 0x7a,
     0x33, 0x54, 0x0b, 0x43, 0xed, 0xcf, 0xac, 0x62,
     0xe4, 0xb3, 0x1c, 0xa9, 0xc9, 0x08, 0xe8, 0x95,
     0x80, 0xdf, 0x94, 0xfa, 0x75, 0x8f, 0x3f, 0xa6,
     0x47, 0x07, 0xa7, 0xfc, 0xf3, 0x73, 0x17, 0xba,
     0x83, 0x59, 0x3c, 0x19, 0xe6, 0x85, 0x4f, 0xa8,
     0x68, 0x6b, 0x81, 0xb2, 0x71, 0x64, 0xda, 0x8b,
     0xf8, 0xeb, 0x0f, 0x4b, 0x70, 0x56, 0x9d, 0x35,
     0x1e, 0x24, 0x0e, 0x5e, 0x63, 0x58, 0xd1, 0xa2,
     0x25, 0x22, 0x7c, 0x3b, 0x01, 0x21, 0x78, 0x87,
     0xd4, 0x00, 0x46, 0x57, 0x9f, 0xd3, 0x27, 0x52,
     0x4c, 0x36, 0x02, 0xe7, 0xa0, 0xc4, 0xc8, 0x9e,
     0xea, 0xbf, 0x8a, 0xd2, 0x40, 0xc7, 0x38, 0xb5,
     0xa3, 0xf7, 0xf2, 0xce, 0xf9, 0x61, 0x15, 0xa1,
     0xe0, 0xae, 0x5d, 0xa4, 0x9b, 0x34, 0x1a, 0x55,
     0xad, 0x93, 0x32, 0x30, 0xf5, 0x8c, 0xb1, 0xe3,
     0x1d, 0xf6, 0xe2, 0x2e, 0x82, 0x66, 0xca, 0x60,
     0xc0, 0x29, 0x23, 0xab, 0x0d, 0x53, 0x4e, 0x6f,
     0xd5, 0xdb, 0x37, 0x45, 0xde, 0xfd, 0x8e, 0x2f,
     0x03, 0xff, 0x6a, 0x72, 0x6d, 0x6c, 0x5b, 0x51,
     0x8d, 0x1b, 0xaf, 0x92, 0xbb, 0xdd, 0xbc, 0x7f,
     0x11, 0xd9, 0x5c, 0x41, 0x1f, 0x10, 0x5a, 0xd8,
     0x0a, 0xc1, 0x31, 0x88, 0xa5, 0xcd, 0x7b, 0xbd,
     0x2d, 0x74, 0xd0, 0x12, 0xb8, 0xe5, 0xb4, 0xb0,
     0x89, 0x69, 0x97, 0x4a, 0x0c, 0x96, 0x77, 0x7e,
     0x65, 0xb9, 0xf1, 0x09, 0xc5, 0x6e, 0xc6, 0x84,
     0x18, 0xf0, 0x7d, 0xec, 0x3a, 0xdc, 0x4d, 0x20,
     0x79, 0xee, 0x5f, 0x3e, 0xd7, 0xcb, 0x39, 0x48]"

definition fk_parameter :: "u32 list" where
  "fk_parameter = [0xa3b1bac6, 0x56aa3350, 0x677d9197, 0xb27022dc]"

definition s_xstate :: "u8 list" where
  "s_xstate =
    [0, 1, 1, 0, 1, 0, 0, 1, 1, 0, 0, 1, 0, 1, 1, 0,
     1, 0, 0, 1, 0, 1, 1, 0, 0, 1, 1, 0, 1, 0, 0, 1,
     1, 0, 0, 1, 0, 1, 1, 0, 0, 1, 1, 0, 1, 0, 0, 1,
     0, 1, 1, 0, 1, 0, 0, 1, 1, 0, 0, 1, 0, 1, 1, 0,
     1, 0, 0, 1, 0, 1, 1, 0, 0, 1, 1, 0, 1, 0, 0, 1,
     0, 1, 1, 0, 1, 0, 0, 1, 1, 0, 0, 1, 0, 1, 1, 0,
     0, 1, 1, 0, 1, 0, 0, 1, 1, 0, 0, 1, 0, 1, 1, 0,
     1, 0, 0, 1, 0, 1, 1, 0, 0, 1, 1, 0, 1, 0, 0, 1,
     1, 0, 0, 1, 0, 1, 1, 0, 0, 1, 1, 0, 1, 0, 0, 1,
     0, 1, 1, 0, 1, 0, 0, 1, 1, 0, 0, 1, 0, 1, 1, 0,
     0, 1, 1, 0, 1, 0, 0, 1, 1, 0, 0, 1, 0, 1, 1, 0,
     1, 0, 0, 1, 0, 1, 1, 0, 0, 1, 1, 0, 1, 0, 0, 1,
     0, 1, 1, 0, 1, 0, 0, 1, 1, 0, 0, 1, 0, 1, 1, 0,
     1, 0, 0, 1, 0, 1, 1, 0, 0, 1, 1, 0, 1, 0, 0, 1,
     1, 0, 0, 1, 0, 1, 1, 0, 0, 1, 1, 0, 1, 0, 0, 1,
     0, 1, 1, 0, 1, 0, 0, 1, 1, 0, 0, 1, 0, 1, 1, 0]"

definition g_nextinputtable :: "u32 list" where
  "g_nextinputtable =
    [0x00070e15, 0x1c232a31, 0x383f464d, 0x545b6269,
     0x70777e85, 0x8c939aa1, 0xa8afb6bd, 0xc4cbd2d9,
     0xe0e7eef5, 0xfc030a11, 0x181f262d, 0x343b4249,
     0x50575e65, 0x6c737a81, 0x888f969d, 0xa4abb2b9,
     0xc0c7ced5, 0xdce3eaf1, 0xf8ff060d, 0x141b2229,
     0x30373e45, 0x4c535a61, 0x686f767d, 0x848b9299,
     0xa0a7aeb5, 0xbcc3cad1, 0xd8dfe6ed, 0xf4fb0209,
     0x10171e25, 0x2c333a41, 0x484f565d, 0x646b7279]"

definition cipherdataidx :: "nat list list" where
  "cipherdataidx = [[3, 2, 1, 0], [0, 3, 2, 1], [1, 0, 3, 2], [2, 1, 0, 3]]"

abbreviation (input) KEY_MULTIPLIER :: u32 where "KEY_MULTIPLIER \<equiv> 0x80040100"
abbreviation (input) TEXT_MULTIPLIER :: u32 where "TEXT_MULTIPLIER \<equiv> 0xa0202080"

definition PARITY_MACRO :: "u32 \<Rightarrow> u8" where
  "PARITY_MACRO v = s_xstate ! unat (drop_bit 24 v) XOR s_xstate ! unat (drop_bit 16 v AND 0xFF)
     XOR s_xstate ! unat (drop_bit 8 v AND 0xFF) XOR s_xstate ! unat (v AND 0xFF)"

text \<open>The loops count down the turns that are left.\<close>

fun t_loop :: "nat \<Rightarrow> u32 \<Rightarrow> u32 \<Rightarrow> u32" where
  "t_loop 0 w new_word = new_word"
| "t_loop (Suc j) w new_word =
     (let offset = drop_bit 24 w AND 0xFF in
      t_loop j (push_bit 8 w) (push_bit 8 new_word OR ucast (s_box ! unat offset)))"

definition t_transform :: "u32 \<Rightarrow> u32" where
  "t_transform w = t_loop 4 w 0"

fun circular_loop :: "nat \<Rightarrow> u32 \<Rightarrow> u32 \<Rightarrow> u32 \<Rightarrow> u32" where
  "circular_loop 0 w basis new_word = new_word"
| "circular_loop (Suc i) w basis new_word =
     circular_loop i w (drop_bit 1 basis OR push_bit 31 (basis AND 1))
       (push_bit 1 new_word OR ucast (PARITY_MACRO (w AND basis)))"

definition multiplycircular :: "u32 \<Rightarrow> u32 \<Rightarrow> u32" where
  "multiplycircular w basis = circular_loop 32 w basis 0"

definition L_TRANSFORM_MACRO :: "u32 \<Rightarrow> bool \<Rightarrow> u32" where
  "L_TRANSFORM_MACRO w key = multiplycircular w (if key then KEY_MULTIPLIER else TEXT_MULTIPLIER)"

definition iterate :: "bool \<Rightarrow> u32 \<Rightarrow> u32 list \<Rightarrow> nat \<Rightarrow> u32 \<times> u32 list" where
  "iterate key next_input cipher_text curidx =
    (let idx = cipherdataidx ! curidx;
         new_state = next_input XOR cipher_text ! (idx ! 0) XOR cipher_text ! (idx ! 1)
           XOR cipher_text ! (idx ! 2);
         new_state = L_TRANSFORM_MACRO (t_transform new_state) key XOR cipher_text ! (idx ! 3)
     in (new_state, cipher_text[curidx := new_state]))"

text \<open>The four bytes of a word of the input, as the nested loops gather them.\<close>

fun gather :: "u32 \<Rightarrow> u8 list \<Rightarrow> u32" where
  "gather nxt [] = nxt"
| "gather nxt (b # bs) = gather (push_bit 8 nxt OR ucast b) bs"

definition input_word :: "u8 list \<Rightarrow> nat \<Rightarrow> u32" where
  "input_word bs j = gather 0 (take 4 (drop (4 * j) bs))"

text \<open>The loop over \<open>i\<close> of the key schedule: the words of \<open>key_store\<close> it writes.\<close>

fun enkey_loop :: "nat list \<Rightarrow> u32 list \<Rightarrow> u32 list" where
  "enkey_loop [] cipher_text = []"
| "enkey_loop (i # is) cipher_text =
     (case iterate True (g_nextinputtable ! i) cipher_text (i mod 4) of
        (rk, cipher_text) \<Rightarrow> rk # enkey_loop is cipher_text)"

definition calculateenkey :: "u8 list \<Rightarrow> u32 list" where
  "calculateenkey key =
     enkey_loop [0..<32] (map (\<lambda>j. input_word key j XOR fk_parameter ! j) [0..<4])"

fun run_loop :: "u32 list \<Rightarrow> nat list \<Rightarrow> u32 list \<Rightarrow> u32 list" where
  "run_loop key_store [] plain_text = plain_text"
| "run_loop key_store (i # is) plain_text =
     run_loop key_store is (snd (iterate False (key_store ! i) plain_text (i mod 4)))"

fun scatter :: "nat \<Rightarrow> u32 \<Rightarrow> u8 list" where
  "scatter 0 nxt = []"
| "scatter (Suc i) nxt = ucast (drop_bit 24 nxt AND 0xFF) # scatter i (push_bit 8 nxt)"

definition SMS4_Run :: "u32 list \<Rightarrow> u8 list \<Rightarrow> u8 list" where
  "SMS4_Run key_store plaintext =
     (let plain_text = run_loop key_store [0..<32] (map (input_word plaintext) [0..<4])
      in concat (map (\<lambda>j. scatter 4 (plain_text ! (3 - j))) [0..<4]))"

subsection \<open>The cipher of the standard\<close>

type_synonym block = "u32 \<times> u32 \<times> u32 \<times> u32"

definition word_bytes :: "u32 \<Rightarrow> u8 list" where
  "word_bytes w = [ucast (drop_bit 24 w), ucast (drop_bit 16 w), ucast (drop_bit 8 w), ucast w]"

fun bytes_word :: "u8 list \<Rightarrow> u32" where
  "bytes_word [a, b, c, d] =
     push_bit 24 (ucast a) OR push_bit 16 (ucast b) OR push_bit 8 (ucast c) OR ucast d"
| "bytes_word _ = 0"

definition sms4_tau :: "u32 \<Rightarrow> u32" where
  "sms4_tau w = bytes_word (map (\<lambda>b. s_box ! unat b) (word_bytes w))"

definition sms4_L :: "u32 \<Rightarrow> u32" where
  "sms4_L b = b XOR word_rotl 2 b XOR word_rotl 10 b XOR word_rotl 18 b XOR word_rotl 24 b"

definition sms4_L_key :: "u32 \<Rightarrow> u32" where
  "sms4_L_key b = b XOR word_rotl 13 b XOR word_rotl 23 b"

fun sms4_round :: "u32 \<Rightarrow> block \<Rightarrow> block" where
  "sms4_round rk (x0, x1, x2, x3) = (x1, x2, x3, x0 XOR sms4_L (sms4_tau (x1 XOR x2 XOR x3 XOR rk)))"

fun sms4_rounds :: "u32 list \<Rightarrow> block \<Rightarrow> block" where
  "sms4_rounds [] X = X"
| "sms4_rounds (rk # rks) X = sms4_rounds rks (sms4_round rk X)"

fun to_block :: "u8 list \<Rightarrow> block" where
  "to_block bs = (bytes_word (take 4 bs), bytes_word (take 4 (drop 4 bs)),
     bytes_word (take 4 (drop 8 bs)), bytes_word (take 4 (drop 12 bs)))"

fun from_block :: "block \<Rightarrow> u8 list" where
  "from_block (x0, x1, x2, x3) = word_bytes x0 @ word_bytes x1 @ word_bytes x2 @ word_bytes x3"

fun swap_block :: "block \<Rightarrow> block" where
  "swap_block (x0, x1, x2, x3) = (x3, x2, x1, x0)"

definition sms4_encrypt :: "u32 list \<Rightarrow> u8 list \<Rightarrow> u8 list" where
  "sms4_encrypt rks bs = from_block (swap_block (sms4_rounds rks (to_block bs)))"

text \<open>The key schedule; \<open>sms4_ck i\<close> consists of the bytes \<open>7 * (4 * i + j) mod 256\<close>.\<close>

definition sms4_ck :: "nat \<Rightarrow> u32" where
  "sms4_ck i = bytes_word (map (\<lambda>j. of_nat (7 * (4 * i + j))) [0..<4])"

fun sms4_key_round :: "nat \<Rightarrow> block \<Rightarrow> block" where
  "sms4_key_round i (k0, k1, k2, k3) =
     (k1, k2, k3, k0 XOR sms4_L_key (sms4_tau (k1 XOR k2 XOR k3 XOR sms4_ck i)))"

fun sms4_keys :: "nat list \<Rightarrow> block \<Rightarrow> u32 list" where
  "sms4_keys [] K = []"
| "sms4_keys (i # is) K =
     (case sms4_key_round i K of (k1, k2, k3, rk) \<Rightarrow> rk # sms4_keys is (k1, k2, k3, rk))"

definition sms4_schedule :: "u8 list \<Rightarrow> u32 list" where
  "sms4_schedule mk = (case to_block mk of (m0, m1, m2, m3) \<Rightarrow>
     sms4_keys [0..<32] (m0 XOR 0xA3B1BAC6, m1 XOR 0x56AA3350, m2 XOR 0x677D9197, m3 XOR 0xB27022DC))"

subsection \<open>Words and their bytes\<close>

lemma four_Suc: "(4 :: nat) = Suc (Suc (Suc (Suc 0)))"
  by simp

lemma four_elements: "length xs = 4 \<Longrightarrow> \<exists>a b c d. xs = [a, b, c, d]"
  by (auto simp: four_Suc length_Suc_conv)

lemma word_bytes_word [simp]: "bytes_word (word_bytes w) = w"
proof (rule bit_word_eqI)
  fix n assume "n < LENGTH(32)"
  then show "bit (bytes_word (word_bytes w)) n = bit w n"
    by (cases "n < 8"; cases "n < 16"; cases "n < 24") (auto simp: word_bytes_def bit_simps)
qed

lemma no_high_bit [simp]: "8 \<le> k \<Longrightarrow> \<not> bit (b :: u8) (k + n)"
  by (auto dest!: bit_imp_le_length)

lemma word_bytes_bytes:
  assumes "length bs = 4"
  shows "word_bytes (bytes_word bs) = bs"
proof -
  from four_elements [OF assms] obtain a b c d where "bs = [a, b, c, d]" by blast
  then show ?thesis
    by (auto simp: word_bytes_def bit_simps intro!: bit_word_eqI)
qed

lemma length_word_bytes [simp]: "length (word_bytes w) = 4"
  by (simp add: word_bytes_def)

lemma byte_mask: "(0xFF :: u32) = mask 8"
  by (simp add: mask_eq_exp_minus_1)

lemma gather_word: 
  assumes "length bs = 4"
  shows "gather 0 bs = bytes_word bs"
proof -
  from four_elements [OF assms] obtain a b c d where "bs = [a, b, c, d]" by blast
  then show ?thesis
    by (simp only: gather.simps bytes_word.simps push_bit_or push_bit_push_bit push_bit_of_0) 
      (simp add: ac_simps)
qed

lemma low_byte: "ucast (w AND 0xFF) = (ucast (w :: u32) :: u8)"
  by (rule bit_word_eqI) (simp add: byte_mask bit_simps)

lemma low_byte_nat: "unat (w AND 0xFF) = unat (ucast (w :: u32) :: u8)"
  by (simp add: byte_mask take_bit_eq_mask [symmetric] unat_simps)

lemma shifted_byte:
  "m + 8 \<le> 32 \<Longrightarrow> n = 24 - m \<Longrightarrow> ucast (drop_bit 24 (push_bit m (w :: u32))) = (ucast (drop_bit n w) :: u8)"
  by (rule bit_word_eqI) (auto simp: bit_simps dest: bit_imp_le_length)

lemma shifted_bytes:
  "ucast (drop_bit 24 (push_bit 8 w)) = (ucast (drop_bit 16 (w :: u32)) :: u8)"
  "ucast (drop_bit 24 (push_bit 16 w)) = (ucast (drop_bit 8 (w :: u32)) :: u8)"
  "ucast (drop_bit 24 (push_bit 24 w)) = (ucast (w :: u32) :: u8)"
  by (simp_all only: shifted_byte [of 8 16] shifted_byte [of 16 8] shifted_byte [of 24 0]) simp_all

lemma scatter_word: "scatter 4 w = word_bytes w"
  by (simp only: four_Suc scatter.simps low_byte push_bit_push_bit word_bytes_def)
    (simp only: numeral_plus_numeral add_num_simps shifted_bytes)

lemma t_transform_tau: "t_transform w = sms4_tau w"
  by (simp only: t_transform_def four_Suc t_loop.simps Let_def low_byte_nat push_bit_push_bit
      numeral_plus_numeral add_num_simps shifted_bytes push_bit_or push_bit_of_0
      sms4_tau_def word_bytes_def list.map bytes_word.simps) (simp add: ac_simps)

subsection \<open>Parity\<close>

fun parity_of :: "nat \<Rightarrow> (nat \<Rightarrow> bool) \<Rightarrow> bool" where
  "parity_of 0 f = False"
| "parity_of (Suc n) f = (f n \<noteq> parity_of n f)"

lemma parity_of_add: "parity_of (m + n) f = (parity_of m f \<noteq> parity_of n (\<lambda>k. f (m + k)))"
  by (induction n) auto

lemma parity_of_cong: "(\<And>k. k < n \<Longrightarrow> f k = g k) \<Longrightarrow> parity_of n f = parity_of n g"
  by (induction n) auto

lemma parity_of_8: "parity_of 8 f =
    (f 7 \<noteq> (f 6 \<noteq> (f 5 \<noteq> (f 4 \<noteq> (f 3 \<noteq> (f 2 \<noteq> (f 1 \<noteq> f 0)))))))"
  by (simp add: eval_nat_numeral)

lemma s_xstate_parity:
  "s_xstate = map (\<lambda>k. of_bool (parity_of 8 (bit (of_nat k :: u8)))) [0..<256]"
  by code_simp

lemma s_xstate_nth: "s_xstate ! unat b = of_bool (parity_of 8 (bit (b :: u8)))"
  using unat_u8_lt [of b] by (simp add: s_xstate_parity)

lemma parity_rotate:
  assumes "0 < n"
  shows "parity_of n (\<lambda>k. f ((k + m) mod n)) = parity_of n f"
proof (induction m)
  case 0
  show ?case by (rule parity_of_cong) simp
next
  case (Suc m)
  let ?g = "\<lambda>k. f ((k + m) mod n)"
  obtain l where n: "n = Suc l" using assms by (cases n) auto
  have "parity_of n (\<lambda>k. f ((k + Suc m) mod n)) = (f ((l + Suc m) mod n) \<noteq> parity_of l (\<lambda>k. ?g (1 + k)))"
    by (simp add: n)
  also have "f ((l + Suc m) mod n) = ?g 0"
    using n by (metis add.commute add_0 add_Suc_right mod_add_self1)
  also have "(?g 0 \<noteq> parity_of l (\<lambda>k. ?g (1 + k))) = parity_of n ?g"
    using parity_of_add [of 1 l ?g] by (auto simp: n)
  finally show ?case using Suc.IH by simp
qed

lemma parity_macro: "PARITY_MACRO v = of_bool (parity_of 32 (bit v))"
proof -
  have top: "unat (drop_bit 24 v) = unat (ucast (drop_bit 24 v) :: u8)"
    using unat_u32_lt [of v] by (simp add: unat_simps)
  have "PARITY_MACRO v = of_bool (parity_of 8 (bit (ucast (drop_bit 24 v) :: u8)))
      XOR of_bool (parity_of 8 (bit (ucast (drop_bit 16 v) :: u8)))
      XOR of_bool (parity_of 8 (bit (ucast (drop_bit 8 v) :: u8)))
      XOR of_bool (parity_of 8 (bit (ucast v :: u8)))"
    by (simp only: PARITY_MACRO_def top low_byte_nat s_xstate_nth)
  moreover have "parity_of 8 (bit (ucast (drop_bit m v) :: u8)) = parity_of 8 (\<lambda>k. bit v (m + k))" for m
    by (rule parity_of_cong) (simp add: bit_simps)
  moreover have "parity_of 8 (bit (ucast v :: u8)) = parity_of 8 (bit v)"
    by (rule parity_of_cong) (simp add: bit_simps)
  moreover have "parity_of 32 (bit v) = (parity_of 8 (bit v) \<noteq> (parity_of 8 (\<lambda>k. bit v (8 + k)) \<noteq>
      (parity_of 8 (\<lambda>k. bit v (16 + k)) \<noteq> parity_of 8 (\<lambda>k. bit v (24 + k)))))"
    using parity_of_add [of 8 24 "bit v"] parity_of_add [of 8 16 "\<lambda>k. bit v (8 + k)"]
      parity_of_add [of 8 8 "\<lambda>k. bit v (16 + k)"] by simp
  ultimately show ?thesis by (auto simp: of_bool_def)
qed

subsection \<open>Circular multiplication\<close>

lemma rotate_basis: "drop_bit 1 basis OR push_bit 31 (basis AND 1) = word_rotr 1 (basis :: u32)"
proof (rule bit_word_eqI)
  fix n assume "n < LENGTH(32)"
  then show "bit (drop_bit 1 basis OR push_bit 31 (basis AND 1)) n = bit (word_rotr 1 basis) n"
    by (cases "n = 31") (auto simp: bit_simps dest: bit_imp_le_length)
qed

lemma rotr_0 [simp]: "word_rotr 0 w = (w :: u32)"
  by (rule bit_word_eqI) (simp add: bit_simps)

lemma circular_loop_bits:
  "n \<le> 32 \<Longrightarrow> k < 32 \<Longrightarrow> bit (circular_loop n w basis new_word) k =
     (if k < n then parity_of 32 (bit (w AND word_rotr (n - 1 - k) basis)) else bit new_word (k - n))"
proof (induction n arbitrary: basis new_word)
  case (Suc n)
  let ?new = "push_bit 1 new_word OR ucast (PARITY_MACRO (w AND basis)) :: u32"
  have "bit (circular_loop (Suc n) w basis new_word) k =
      (if k < n then parity_of 32 (bit (w AND word_rotr (n - 1 - k) (word_rotr 1 basis)))
       else bit ?new (k - n))"
    using Suc by (simp only: circular_loop.simps rotate_basis)
  moreover have "bit ?new (k - n) = bit new_word (k - Suc n)" if "n < k"
  proof -
    have "k - n - 1 = k - Suc n" "1 \<le> k - n" "k - n < 32" using that Suc.prems by simp_all
    moreover have "\<not> bit (ucast (PARITY_MACRO (w AND basis)) :: u32) (k - n)"
      using that by (simp add: parity_macro bit_simps of_bool_def)
    ultimately show ?thesis by (simp only: bit_or_iff bit_push_bit_iff) simp
  qed
  moreover have "bit ?new 0 = parity_of 32 (bit (w AND basis))"
    by (simp only: bit_or_iff bit_push_bit_iff) (simp add: parity_macro bit_simps of_bool_def)
  moreover have "word_rotr (n - 1 - k) (word_rotr 1 basis) = word_rotr (n - k) basis" if "k < n"
    using that by (simp add: word_rotr_word_rotr_eq Suc_diff_Suc)
  ultimately show ?case
    by (cases k n rule: linorder_cases) simp_all
qed simp

lemma multiplycircular_bit:
  assumes "k < 32"
  shows "bit (multiplycircular w basis) k = parity_of 32 (\<lambda>i. bit w ((i + (k + 1)) mod 32) \<and> bit basis i)"
proof -
  let ?f = "\<lambda>i. bit w ((i + (k + 1)) mod 32) \<and> bit basis i"
  have "bit (multiplycircular w basis) k = parity_of 32 (bit (w AND word_rotr (31 - k) basis))"
    using assms by (simp add: multiplycircular_def circular_loop_bits)
  also have "\<dots> = parity_of 32 (\<lambda>j. ?f ((j + (31 - k)) mod 32))"
  proof (rule parity_of_cong)
    fix j :: nat assume j: "j < 32"
    have "31 - k + (k + 1) = 32" using assms by simp
    then have "((j + (31 - k)) mod 32 + (k + 1)) mod 32 = j"
      using j by (simp only: mod_add_left_eq add.assoc) simp
    then show "bit (w AND word_rotr (31 - k) basis) j = ?f ((j + (31 - k)) mod 32)"
      using j by (simp add: bit_simps)
  qed
  also have "\<dots> = parity_of 32 ?f" by (rule parity_rotate) simp
  finally show ?thesis .
qed

lemma parity_of_numeral [simp]:
  "parity_of (numeral v) f = (f (pred_numeral v) \<noteq> parity_of (pred_numeral v) f)"
  by (simp add: numeral_eq_Suc)

lemma parity_of_one [simp]: "parity_of (Suc 0) f = f 0"
  by simp

lemma parity_of_text:
  "parity_of 32 (\<lambda>i. g i \<and> bit TEXT_MULTIPLIER i) = (g 31 \<noteq> (g 29 \<noteq> (g 21 \<noteq> (g 13 \<noteq> g 7))))"
  by (simp del: parity_of.simps)

lemma parity_of_key:
  "parity_of 32 (\<lambda>i. g i \<and> bit KEY_MULTIPLIER i) = (g 31 \<noteq> (g 18 \<noteq> g 8))"
  by (simp del: parity_of.simps)

lemma L_TRANSFORM_text: "L_TRANSFORM_MACRO w False = sms4_L w"
proof (rule bit_word_eqI)
  fix k assume "k < LENGTH(32)"
  then have k: "k < 32" by simp
  then have "bit (L_TRANSFORM_MACRO w False) k =
      (bit w ((31 + (k + 1)) mod 32) \<noteq> (bit w ((29 + (k + 1)) mod 32) \<noteq> (bit w ((21 + (k + 1)) mod 32)
       \<noteq> (bit w ((13 + (k + 1)) mod 32) \<noteq> bit w ((7 + (k + 1)) mod 32)))))"
    by (simp only: L_TRANSFORM_MACRO_def multiplycircular_bit if_False if_True parity_of_text parity_of_key)
  moreover have "bit (sms4_L w) k =
      (bit w k \<noteq> (bit w ((k + 30) mod 32) \<noteq> (bit w ((k + 22) mod 32)
       \<noteq> (bit w ((k + 14) mod 32) \<noteq> bit w ((k + 8) mod 32)))))"
    using k by (auto simp: sms4_L_def bit_simps)
  moreover have "(31 + (k + 1)) mod 32 = k" "29 + (k + 1) = k + 30" "21 + (k + 1) = k + 22"
    "13 + (k + 1) = k + 14" "7 + (k + 1) = k + 8"
    using k by simp_all
  ultimately show "bit (L_TRANSFORM_MACRO w False) k = bit (sms4_L w) k" by metis
qed

lemma L_TRANSFORM_key: "L_TRANSFORM_MACRO w True = sms4_L_key w"
proof (rule bit_word_eqI)
  fix k assume "k < LENGTH(32)"
  then have k: "k < 32" by simp
  then have "bit (L_TRANSFORM_MACRO w True) k =
      (bit w ((31 + (k + 1)) mod 32) \<noteq> (bit w ((18 + (k + 1)) mod 32) \<noteq> bit w ((8 + (k + 1)) mod 32)))"
    by (simp only: L_TRANSFORM_MACRO_def multiplycircular_bit if_False if_True parity_of_text parity_of_key)
  moreover have "bit (sms4_L_key w) k =
      (bit w k \<noteq> (bit w ((k + 19) mod 32) \<noteq> bit w ((k + 9) mod 32)))"
    using k by (auto simp: sms4_L_key_def bit_simps)
  moreover have "(31 + (k + 1)) mod 32 = k" "18 + (k + 1) = k + 19" "8 + (k + 1) = k + 9"
    using k by simp_all
  ultimately show "bit (L_TRANSFORM_MACRO w True) k = bit (sms4_L_key w) k" by metis
qed

subsection \<open>The rotating array and the sliding window\<close>

text \<open>What the array of four words holds before turn \<open>i\<close>, oldest word first.\<close>

definition window :: "nat \<Rightarrow> u32 list \<Rightarrow> block" where
  "window i X = (X ! (i mod 4), X ! ((i + 1) mod 4), X ! ((i + 2) mod 4), X ! ((i + 3) mod 4))"

lemma mod4_cases:
  fixes i :: nat
  obtains "i mod 4 = 0" "(i + 1) mod 4 = 1" "(i + 2) mod 4 = 2" "(i + 3) mod 4 = 3"
  | "i mod 4 = 1" "(i + 1) mod 4 = 2" "(i + 2) mod 4 = 3" "(i + 3) mod 4 = 0"
  | "i mod 4 = 2" "(i + 1) mod 4 = 3" "(i + 2) mod 4 = 0" "(i + 3) mod 4 = 1"
  | "i mod 4 = 3" "(i + 1) mod 4 = 0" "(i + 2) mod 4 = 1" "(i + 3) mod 4 = 2"
proof -
  have "i mod 4 = 0 \<or> i mod 4 = 1 \<or> i mod 4 = 2 \<or> i mod 4 = 3" by presburger
  moreover have "i mod 4 = 0 \<Longrightarrow> (i + 1) mod 4 = 1 \<and> (i + 2) mod 4 = 2 \<and> (i + 3) mod 4 = 3"
    "i mod 4 = 1 \<Longrightarrow> (i + 1) mod 4 = 2 \<and> (i + 2) mod 4 = 3 \<and> (i + 3) mod 4 = 0"
    "i mod 4 = 2 \<Longrightarrow> (i + 1) mod 4 = 3 \<and> (i + 2) mod 4 = 0 \<and> (i + 3) mod 4 = 1"
    "i mod 4 = 3 \<Longrightarrow> (i + 1) mod 4 = 0 \<and> (i + 2) mod 4 = 1 \<and> (i + 3) mod 4 = 2"
    by presburger+
  ultimately show thesis using that by metis
qed

lemma cipherdataidx_nth:
  "cipherdataidx ! (i mod 4) = [(i + 3) mod 4, (i + 2) mod 4, (i + 1) mod 4, i mod 4]"
  by (cases i rule: mod4_cases) (simp_all only:, simp_all add: cipherdataidx_def)

lemma iterate_eq:
  "iterate key rk X (i mod 4) =
    (let x = X ! (i mod 4) XOR L_TRANSFORM_MACRO (sms4_tau (X ! ((i + 1) mod 4) XOR X ! ((i + 2) mod 4)
         XOR X ! ((i + 3) mod 4) XOR rk)) key
     in (x, X[i mod 4 := x]))"
  by (simp add: iterate_def cipherdataidx_nth t_transform_tau Let_def
      xor.assoc xor.commute xor.left_commute)

lemma window_update:
  assumes "length X = 4"
  shows "window (i + 1) (X[i mod 4 := x]) = (X ! ((i + 1) mod 4), X ! ((i + 2) mod 4), X ! ((i + 3) mod 4), x)"
proof -
  have "(i + 1 + 1) mod 4 = (i + 2) mod 4" "(i + 1 + 2) mod 4 = (i + 3) mod 4"
    "(i + 1 + 3) mod 4 = i mod 4" by (simp_all add: add.commute)
  then show ?thesis
    unfolding window_def by (cases i rule: mod4_cases) (simp_all only:, simp_all add: assms)
qed

lemma run_round:
  assumes "length X = 4"
  shows "window (i + 1) (snd (iterate False rk X (i mod 4))) = sms4_round rk (window i X)"
  by (simp only: iterate_eq Let_def snd_conv L_TRANSFORM_text window_update [OF assms])
    (simp only: window_def sms4_round.simps)

lemma length_iterate [simp]: "length (snd (iterate key rk X c)) = length X"
  by (simp add: iterate_def Let_def)

lemma run_loop_rounds:
  "length X = 4 \<Longrightarrow> window (i + n) (run_loop ks [i..<i + n] X) = sms4_rounds (map ((!) ks) [i..<i + n]) (window i X)"
proof (induction n arbitrary: i X)
  case (Suc n)
  have "[i..<i + Suc n] = i # [i + 1..<i + 1 + n]" by (simp add: upt_conv_Cons)
  then show ?case
    using Suc.IH [of "snd (iterate False (ks ! i) X (i mod 4))" "i + 1"] Suc.prems
    by (simp only: run_loop.simps list.map sms4_rounds.simps run_round [OF Suc.prems] length_iterate) simp
qed simp

lemma length_run_loop [simp]: "length (run_loop ks is X) = length X"
  by (induction "is" arbitrary: X) simp_all

lemma window_map: "window 0 (map f [0..<4]) = (f 0, f 1, f 2, f 3)"
proof -
  have "map f [0..<4] ! (k mod 4) = f (k mod 4)" for k by simp
  from this [of 0] this [of 1] this [of 2] this [of 3] show ?thesis by (simp add: window_def)
qed

lemma input_word_bytes:
  "length bs = 16 \<Longrightarrow> j < 4 \<Longrightarrow> input_word bs j = bytes_word (take 4 (drop (4 * j) bs))"
  unfolding input_word_def by (rule gather_word) simp

lemma input_word_block:
  "length bs = 16 \<Longrightarrow> window 0 (map (input_word bs) [0..<4]) = to_block bs"
  by (simp only: window_map) (simp add: input_word_bytes)

lemma output_block:
  "concat (map (\<lambda>j. scatter 4 (X ! (3 - j))) [0..<4]) = from_block (swap_block (window 32 X))"
  by (simp only: scatter_word) (simp add: window_def upt_conv_Cons)

lemma SMS4_Run_encrypt:
  assumes "length ks = 32" and "length bs = 16"
  shows "SMS4_Run ks bs = sms4_encrypt ks bs"
proof -
  let ?X = "map (input_word bs) [0..<4]"
  have "window (0 + 32) (run_loop ks [0..<0 + 32] ?X) = sms4_rounds (map ((!) ks) [0..<0 + 32]) (window 0 ?X)"
    by (rule run_loop_rounds) simp
  moreover have "map ((!) ks) [0..<32] = ks" using map_nth [of ks] assms(1) by simp
  ultimately show ?thesis
    by (simp only: SMS4_Run_def Let_def output_block sms4_encrypt_def input_word_block [OF assms(2)]
        add_0)
qed

lemma g_nextinputtable_ck: "g_nextinputtable = map sms4_ck [0..<32]"
  by (simp add: g_nextinputtable_def sms4_ck_def upt_conv_Cons)

lemma enkey_loop_keys:
  "length K = 4 \<Longrightarrow> i + n \<le> 32 \<Longrightarrow> enkey_loop [i..<i + n] K = sms4_keys [i..<i + n] (window i K)"
proof (induction n arbitrary: i K)
  case (Suc n)
  have up: "[i..<i + Suc n] = i # [i + 1..<i + 1 + n]" by (simp add: upt_conv_Cons)
  obtain rk K' where it: "iterate True (sms4_ck i) K (i mod 4) = (rk, K')" by fastforce
  then have K': "K' = K[i mod 4 := rk]" and rk: "rk = K ! (i mod 4) XOR sms4_L_key (sms4_tau
      (K ! ((i + 1) mod 4) XOR K ! ((i + 2) mod 4) XOR K ! ((i + 3) mod 4) XOR sms4_ck i))"
    by (auto simp: iterate_eq Let_def L_TRANSFORM_key)
  have "g_nextinputtable ! i = sms4_ck i" using Suc.prems by (simp add: g_nextinputtable_ck)
  moreover have "enkey_loop [i + 1..<i + 1 + n] K' = sms4_keys [i + 1..<i + 1 + n] (window (i + 1) K')"
    using Suc.prems K' by (intro Suc.IH) simp_all
  moreover have "window (i + 1) K' = (K ! ((i + 1) mod 4), K ! ((i + 2) mod 4), K ! ((i + 3) mod 4), rk)"
    unfolding K' by (rule window_update [OF Suc.prems(1)])
  ultimately have "enkey_loop (i # [i + 1..<i + 1 + n]) K = rk # sms4_keys [i + 1..<i + 1 + n]
      (K ! ((i + 1) mod 4), K ! ((i + 2) mod 4), K ! ((i + 3) mod 4), rk)"
    using it by (simp only: enkey_loop.simps prod.case)
  moreover have "sms4_keys (i # [i + 1..<i + 1 + n]) (window i K) = rk # sms4_keys [i + 1..<i + 1 + n]
      (K ! ((i + 1) mod 4), K ! ((i + 2) mod 4), K ! ((i + 3) mod 4), rk)"
    by (simp only: window_def sms4_keys.simps sms4_key_round.simps prod.case rk)
  ultimately show ?case by (simp only: up)
qed simp

lemma length_enkey_loop [simp]: "length (enkey_loop is K) = length is"
  by (induction "is" arbitrary: K) (auto split: prod.splits)

lemma length_calculateenkey [simp]: "length (calculateenkey key) = 32"
  by (simp add: calculateenkey_def)

lemma calculateenkey_schedule:
  assumes "length key = 16"
  shows "calculateenkey key = sms4_schedule key"
proof -
  let ?K = "map (\<lambda>j. input_word key j XOR fk_parameter ! j) [0..<4]"
  have "enkey_loop [0..<0 + 32] ?K = sms4_keys [0..<0 + 32] (window 0 ?K)"
    by (rule enkey_loop_keys) simp_all
  moreover have "(input_word key 0, input_word key 1, input_word key 2, input_word key 3) = to_block key"
    using input_word_block [OF assms] by (simp only: window_map)
  ultimately show ?thesis
    by (simp only: calculateenkey_def sms4_schedule_def window_map add_0 prod.case)
      (simp only: fk_parameter_def to_block.simps prod.inject, simp)
qed

subsection \<open>What the cipher promises\<close>

text \<open>A round undoes itself on the swapped block, so the reversed keys decrypt.\<close>

lemma sms4_round_involution: "sms4_round rk (swap_block (sms4_round rk X)) = swap_block X"
  by (cases X) (simp add: ac_simps)

lemma sms4_rounds_append: "sms4_rounds (xs @ ys) X = sms4_rounds ys (sms4_rounds xs X)"
  by (induction xs arbitrary: X) simp_all

lemma sms4_rounds_rev: "sms4_rounds (rev rks) (swap_block (sms4_rounds rks X)) = swap_block X"
  by (induction rks arbitrary: X) (simp_all add: sms4_rounds_append sms4_round_involution)

lemma swap_swap [simp]: "swap_block (swap_block X) = X"
  by (cases X) simp

lemma to_from_block [simp]: "to_block (from_block X) = X"
  by (cases X) simp

lemma from_to_block:
  assumes "length bs = 16"
  shows "from_block (to_block bs) = bs"
proof -
  have "from_block (to_block bs) = take 4 bs @ take 4 (drop 4 bs) @ take 4 (drop 8 bs) @ take 4 (drop 12 bs)"
    using assms by (simp add: word_bytes_bytes)
  also have "\<dots> = bs"
    using assms by (simp add: append_eq_conv_conj take_add [symmetric] flip: take_drop) 
  finally show ?thesis .
qed

lemma length_from_block [simp]: "length (from_block X) = 16"
  by (cases X) simp

lemma length_SMS4_Run [simp]: "length (SMS4_Run ks bs) = 16"
  by (simp only: SMS4_Run_def Let_def output_block length_from_block)

lemma length_sms4_keys [simp]: "length (sms4_keys is K) = length is"
  by (induction "is" arbitrary: K) (auto split: prod.splits)

text \<open>
  C6. The cipher of the driver is SMS4 as the standard defines it: parities and circular
  multiplication are the linear transforms by rotations, the rotating array is the sliding
  window, the tables are the system parameters.
\<close>

theorem sms4_is_standard:
  assumes "length key = 16" and "length bs = 16"
  shows "SMS4_Run (calculateenkey key) bs = sms4_encrypt (sms4_schedule key) bs"
  unfolding SMS4_Run_encrypt [OF length_calculateenkey assms(2)]
  by (simp only: calculateenkey_schedule [OF assms(1)])

text \<open>The example of the standard: key and plaintext \<open>0123456789abcdeffedcba9876543210\<close>.\<close>

definition sms4_example :: "u8 list" where
  "sms4_example = [0x01, 0x23, 0x45, 0x67, 0x89, 0xab, 0xcd, 0xef, 0xfe, 0xdc, 0xba, 0x98, 0x76, 0x54, 0x32, 0x10]"

definition sms4_example_keys :: "u32 list" where
  "sms4_example_keys =
    [0xf12186f9, 0x41662b61, 0x5a6ab19a, 0x7ba92077,
     0x367360f4, 0x776a0c61, 0xb6bb89b3, 0x24763151,
     0xa520307c, 0xb7584dbd, 0xc30753ed, 0x7ee55b57,
     0x6988608c, 0x30d895b7, 0x44ba14af, 0x104495a1,
     0xd120b428, 0x73b55fa3, 0xcc874966, 0x92244439,
     0xe89e641f, 0x98ca015a, 0xc7159060, 0x99e1fd2e,
     0xb79bd80c, 0x1d2115b0, 0x0e228aeb, 0xf1780c81,
     0x428d3654, 0x62293496, 0x01cf72e5, 0x9124a012]"

lemma rotl_shift:
  assumes "0 < n" "n < 32"
  shows "word_rotl n w = push_bit n w OR drop_bit (32 - n) (w :: u32)"
proof (rule bit_word_eqI)
  fix k assume k: "k < LENGTH(32)"
  have "k + (32 - n) = 32 + k - n" "32 - n + k = k + (32 - n)" using assms by simp_all
  then show "bit (word_rotl n w) k = bit (push_bit n w OR drop_bit (32 - n) w) k"
    using assms k by (cases "k < n") (auto simp: bit_simps mod_if dest: bit_imp_le_length)
qed

lemmas sms4_eval = sms4_tau_def sms4_L_def sms4_L_key_def rotl_shift word_bytes_def s_box_def

text \<open>The schedule with each key computed before the next one is asked for.\<close>

definition key_cons :: "nat list \<Rightarrow> block \<Rightarrow> u32 list" where
  "key_cons is K = (case K of (k1, k2, k3, rk) \<Rightarrow> rk # sms4_keys is K)"

lemma key_cons: "key_cons is (a, b, c, rk) = rk # sms4_keys is (a, b, c, rk)"
  by (simp add: key_cons_def)

lemma sms4_keys_cons: "sms4_keys (i # is) K = key_cons is (sms4_key_round i K)"
  by (simp add: key_cons_def split: prod.splits)

lemma sms4_example_schedule: "sms4_schedule sms4_example = sms4_example_keys"
proof -
  have "to_block sms4_example = (0x01234567, 0x89abcdef, 0xfedcba98, 0x76543210)"
    by (simp add: sms4_example_def)
  then show ?thesis
    by (simp only: sms4_schedule_def prod.case)
      (simp add: sms4_example_keys_def sms4_ck_def sms4_eval upt_conv_Cons key_cons sms4_keys_cons
        del: sms4_keys.simps(2))
qed

lemma sms4_example_value:
  "sms4_encrypt sms4_example_keys sms4_example =
    [0x68, 0x1e, 0xdf, 0x34, 0xd2, 0x06, 0x96, 0x5e, 0x86, 0xb3, 0xe9, 0x4f, 0x53, 0x6e, 0x42, 0x46]"
  by (simp add: sms4_encrypt_def sms4_example_def sms4_example_keys_def sms4_eval)

theorem sms4_is_standard_witness:
  "SMS4_Run (calculateenkey sms4_example) sms4_example =
    [0x68, 0x1e, 0xdf, 0x34, 0xd2, 0x06, 0x96, 0x5e, 0x86, 0xb3, 0xe9, 0x4f, 0x53, 0x6e, 0x42, 0x46]"
  by (subst sms4_is_standard) (simp_all only: sms4_example_schedule sms4_example_value, simp_all add: sms4_example_def)

text \<open>
  Running the cipher with the round keys in reverse order gives the block back: for every
  key the cipher is a permutation of the blocks.
\<close>

lemma sms4_inverse:
  assumes "length ks = 32" and "length bs = 16"
  shows "SMS4_Run (rev ks) (SMS4_Run ks bs) = bs"
proof -
  have "SMS4_Run (rev ks) (SMS4_Run ks bs) = sms4_encrypt (rev ks) (sms4_encrypt ks bs)"
    using assms by (simp add: SMS4_Run_encrypt [symmetric] del: SMS4_Run_encrypt)
  also have "\<dots> = bs"
    by (simp add: sms4_encrypt_def sms4_rounds_rev from_to_block [OF assms(2)] del: to_block.simps from_block.simps)
  finally show ?thesis .
qed

end
