(* ===== verification/Wapi.thy ===== *)
theory Wapi
  imports Sms4 "HOL-Library.Monad_Syntax"
begin

text \<open>
  WAPI encryption and decryption of the Wi-Fi driver (\<open>wcn/wifi/sc2331/6.0/wlan_wapi.c\<close>,
  \<open>wlan_wapi.h\<close> and the callers in \<open>wlan_core.c\<close>): SMS4 in output feedback mode, the message
  integrity code by block chaining, the frames that are sent and received, and the counter the
  initial vectors come from.

  A pointer into a buffer is the list of the bytes from there to the end of the buffer; a
  function that reads or writes past it returns \<open>None\<close>.
\<close>

subsection \<open>Definitions\<close>

text \<open>
  The loop of \<open>WapiCryptoSms4\<close>: \<open>p\<close> is the pair of buffers that take turns as input and
  output of the cipher, \<open>n\<close> counts the bytes that are left.
\<close>

fun crypt_loop :: "u32 list \<Rightarrow> u8 list \<Rightarrow> u32 \<Rightarrow> u8 list \<Rightarrow> nat \<Rightarrow> nat \<Rightarrow> u8 list list \<Rightarrow> nat
    \<Rightarrow> u8 list option" where
  "crypt_loop key_store input len mic 0 i p j = Some []"
| "crypt_loop key_store input len mic (Suc n) i p j =
     (let (p, j) = (if i mod 16 = 0 then (p[j := SMS4_Run key_store (p ! (1 - j))], 1 - j) else (p, j)) in
      do {
        b \<leftarrow> (if of_nat i < len - 16 then byte_at i input else byte_at (unat (of_nat i - len + 16)) mic);
        out \<leftarrow> crypt_loop key_store input len mic n (i + 1) p j;
        Some ((b XOR p ! (1 - j) ! (i mod 16)) # out) })"

definition WapiCryptoSms4 :: "u8 list \<Rightarrow> u8 list \<Rightarrow> u8 list \<Rightarrow> u32 \<Rightarrow> u8 list \<Rightarrow> u8 list option" where
  "WapiCryptoSms4 iv key input len mic =
     crypt_loop (calculateenkey key) input len mic (unat len) 0 [replicate 16 0, take 16 iv] 0"

text \<open>
  The loop of \<open>WapiCryptoSms4Mic\<close>: \<open>hl\<close>, \<open>hp\<close> and \<open>dl\<close> are the bytes left of the header, of
  its padding and of the data; the result is \<open>sms4Input\<close> at the end of the loop.
\<close>

fun mic_loop :: "u32 list \<Rightarrow> u8 list \<Rightarrow> u8 list \<Rightarrow> nat \<Rightarrow> nat \<Rightarrow> nat \<Rightarrow> u32 \<Rightarrow> u32 \<Rightarrow> u32
    \<Rightarrow> u8 list \<Rightarrow> u8 list \<Rightarrow> u8 list option" where
  "mic_loop ks header input 0 i j hl hp dl inp outp = Some inp"
| "mic_loop ks header input (Suc n) i j hl hp dl inp outp =
     (let outp = (if i mod 16 = 0 then SMS4_Run ks inp else outp);
          chain = (\<lambda>b. inp[i mod 16 := b XOR outp ! (i mod 16)]) in
      if dl = 0 \<and> hl = 0 then mic_loop ks header input n (i + 1) j hl hp dl (chain 0) outp
      else if hl = 0 \<and> hp = 0 then do {
        b \<leftarrow> byte_at j input;
        mic_loop ks header input n (i + 1) (j + 1) hl hp (dl - 1) (chain b) outp }
      else if hl = 0 then mic_loop ks header input n (i + 1) j hl (hp - 1) dl (chain 0) outp
      else do {
        b \<leftarrow> byte_at i header;
        mic_loop ks header input n (i + 1) j (hl - 1) hp dl (chain b) outp })"

definition padding_length :: "u32 \<Rightarrow> u32" where
  "padding_length len = (if len AND 15 = 0 then 0 else 16 - (len AND 15))"

definition WapiCryptoSms4Mic ::
  "u8 list \<Rightarrow> u8 list \<Rightarrow> u8 list \<Rightarrow> u32 \<Rightarrow> u8 list \<Rightarrow> u32 \<Rightarrow> u8 list option" where
  "WapiCryptoSms4Mic iv key header headerlength input datalength =
     (let hp = padding_length headerlength;
          totallength = headerlength + datalength + hp + padding_length datalength;
          ks = calculateenkey key in
      map_option (SMS4_Run ks)
        (mic_loop ks header input (unat totallength) 0 0 headerlength hp datalength (take 16 iv) (replicate 16 0)))"

text \<open>The part of \<open>wlan_vif_t\<close> that the functions use.\<close>

record wapi_vif =
  bssid :: "u8 list"                 \<comment> \<open>6 bytes\<close>
  key_index :: u8                    \<comment> \<open>of the pairwise key\<close>
  group_key :: "u8 list list"        \<comment> \<open>\<open>key[0]\<close>, 4 keys\<close>
  pairwise_key :: "u8 list list"     \<comment> \<open>\<open>key[1]\<close>, 4 keys\<close>
  key_txrsc :: "u8 list"             \<comment> \<open>\<open>key_txrsc[1]\<close>\<close>

fun carry_loop :: "nat \<Rightarrow> u8 list \<Rightarrow> u8 list" where
  "carry_loop 0 t = t"
| "carry_loop (Suc i) t = (let t = t[i := t ! i + 1] in if t ! i \<noteq> 0 then t else carry_loop i t)"

definition inc_wapi_pairwise_key_txrsc :: "wapi_vif \<Rightarrow> wapi_vif" where
  "inc_wapi_pairwise_key_txrsc vif =
     (let t = (key_txrsc vif)[15 := key_txrsc vif ! 15 + 2] in
      vif\<lparr>key_txrsc := (if t ! 15 = 0 then carry_loop 15 t else t)\<rparr>)"

text \<open>The getters return \<open>NULL\<close> (here \<open>None\<close>) for a key index of 3 and more.\<close>

definition mget_pkt_key :: "u8 list list \<Rightarrow> u8 \<Rightarrow> u8 list option" where
  "mget_pkt_key keys i = (if unat i \<ge> 3 then None else Some (keys ! unat i))"

definition mget_mic_key :: "u8 list list \<Rightarrow> u8 \<Rightarrow> u8 list option" where
  "mget_mic_key keys i = (if unat i \<ge> 3 then None else Some (drop 16 (keys ! unat i)))"

definition is_group :: "u8 list \<Rightarrow> bool" where
  "is_group addr \<longleftrightarrow> hd addr AND 1 \<noteq> 0"

definition eth_type_at :: "u8 list \<Rightarrow> u16 option" where
  "eth_type_at data = do {
     a \<leftarrow> byte_at 12 data; b \<leftarrow> byte_at 13 data;
     Some (push_bit 8 (ucast a) OR ucast b) }"

definition is_snap_type :: "u16 \<Rightarrow> bool" where
  "is_snap_type t \<longleftrightarrow> t = 0x0806 \<or> t = 0x0800 \<or> t = 0x888E \<or> t = 0x8100 \<or> t = 0x88B4 \<or> t = 0x86DD \<or> t = 0x88D9"

text \<open>An ARP request or answer gets the source address of the frame; the old bytes are kept.\<close>

definition arp_patch :: "u16 \<Rightarrow> u8 list \<Rightarrow> (u8 list option \<times> u8 list) option" where
  "arp_patch eth_type data =
    (if eth_type = 0x0806 then do {
       a \<leftarrow> byte_at 20 data;
       b \<leftarrow> (if a = 0 then byte_at 21 data else Some 0);
       (if a = 0 \<and> (b = 2 \<or> b = 1) then do {
          arp_backup \<leftarrow> get_bytes 22 6 data;
          src \<leftarrow> get_bytes 6 6 data;
          data \<leftarrow> put_bytes 22 src data;
          Some (Some arp_backup, data) }
        else Some (None, data)) }
     else Some (None, data))"

definition tx_ptk_header :: "wapi_vif \<Rightarrow> u8 list \<Rightarrow> u8 list \<Rightarrow> u16 \<Rightarrow> u8 list" where
  "tx_ptk_header vif src dst data_len =
     [8, 65] @ bssid vif @ src @ [0, 0] @ dst @ replicate 6 0 @ [key_index vif, 0] @ be16 data_len @ replicate 4 0"

text \<open>The code from the message integrity code to the encryption into \<open>p_outputdata + 18\<close>.\<close>

definition tx_seal :: "wapi_vif \<Rightarrow> u8 list \<Rightarrow> u8 list \<Rightarrow> u8 list \<Rightarrow> u16 \<Rightarrow> u8 list \<Rightarrow> u8 list option" where
  "tx_seal vif src dst data_pos data_len ouput_buf =
    (let iv = key_txrsc vif in do {
       mic_key \<leftarrow> mget_mic_key (pairwise_key vif) (key_index vif);
       data_mic \<leftarrow> WapiCryptoSms4Mic iv mic_key (tx_ptk_header vif src dst data_len) 32 data_pos (ucast data_len);
       pkt_key \<leftarrow> mget_pkt_key (pairwise_key vif) (key_index vif);
       enc \<leftarrow> WapiCryptoSms4 iv pkt_key data_pos (ucast (data_len + 16)) data_mic;
       put_bytes 18 enc ouput_buf })"

text \<open>The result: the length, the frame buffer as it is left, the output buffer, the interface.\<close>

definition wlan_tx_wapi_encryption ::
  "wapi_vif \<Rightarrow> u8 list \<Rightarrow> u16 \<Rightarrow> u8 list \<Rightarrow> (u16 \<times> u8 list \<times> u8 list \<times> wapi_vif) option" where
  "wlan_tx_wapi_encryption vif data len ouput_buf =
    (let vif = inc_wapi_pairwise_key_txrsc vif in do {
       src \<leftarrow> get_bytes 6 6 data;
       dst \<leftarrow> get_bytes 0 6 data;
       eth_type \<leftarrow> eth_type_at data;
       (data_len, data, out) \<leftarrow>
         (if is_snap_type eth_type then do {
            (arp_backup, data) \<leftarrow> arp_patch eth_type data;
            snap_backup \<leftarrow> get_bytes 6 8 data;
            ty \<leftarrow> get_bytes 12 2 data;
            data \<leftarrow> put_bytes 6 ([0xAA, 0xAA, 0x03, 0, 0, 0] @ ty) data;
            out \<leftarrow> tx_seal vif src dst (drop 6 data) (len + 8) ouput_buf;
            data \<leftarrow> put_bytes 6 snap_backup data;
            data \<leftarrow> (case arp_backup of Some old \<Rightarrow> put_bytes 22 old data | None \<Rightarrow> Some data);
            Some (len + 8, data, out) }
          else do {
            out \<leftarrow> tx_seal vif src dst (drop 14 data) len ouput_buf;
            Some (len, data, out) });
       out \<leftarrow> put_bytes 0 ([key_index vif, 0] @ rev (take 16 (key_txrsc vif))) out;
       Some (data_len + 16 + 1 + 1 + 16, data, out, vif) })"

text \<open>\<open>wlan_xmit\<close>: the frame that takes the place of the one to send.\<close>

definition xmit_wapi :: "wapi_vif \<Rightarrow> u8 list \<Rightarrow> (u8 list \<times> u8 list \<times> wapi_vif) option" where
  "xmit_wapi vif skb = do {
     head \<leftarrow> get_bytes 0 14 skb;
     (addr_len, skb', out, vif) \<leftarrow>
       wlan_tx_wapi_encryption vif skb (of_nat (length skb - 14)) (replicate (length skb + 100 - 14) 0);
     body \<leftarrow> get_bytes 0 (unat addr_len) out;
     Some (head @ body, skb', vif) }"

text \<open>
  The header over which the receiver computes the code, and the offset of the key index; the
  second mask is zero.
\<close>

definition rx_ptk_header :: "wapi_vif \<Rightarrow> u8 list \<Rightarrow> (u8 list \<times> nat) option" where
  "rx_ptk_header vif input = do {
     fc \<leftarrow> get_bytes 0 2 input;
     (let f0 = hd fc AND 0x8F; f1 = fc ! 1 AND 0xC7; qos_in = (f0 AND 0x80 \<noteq> 0);
          valid_addr4 = (f1 AND 3 = 3) in do {
        addr1 \<leftarrow> get_bytes 4 6 input;
        sq \<leftarrow> get_bytes 22 2 input;
        addr3 \<leftarrow> get_bytes 16 6 input;
        addr4 \<leftarrow> (if valid_addr4 then get_bytes 22 6 input else Some (replicate 6 0));
        (let offset = (if valid_addr4 then 28 else 22) + 2 in do {
           qos \<leftarrow> (if qos_in then get_bytes offset 2 input else Some []);
           Some ([f0, f1] @ addr1 @ bssid vif @ [hd sq AND 0x0F, sq ! 1 AND 0] @ addr3 @ addr4 @ qos,
                 offset + (if qos_in then 4 else 0)) }) }) }"

text \<open>
  The result: the length (0 for a frame that is refused), whether the frame was reported as
  malformed, and the output buffer.
\<close>

definition wlan_rx_wapi_decryption ::
  "wapi_vif \<Rightarrow> u8 list \<Rightarrow> u16 \<Rightarrow> u16 \<Rightarrow> u8 list \<Rightarrow> (u16 \<times> bool \<times> u8 list) option" where
  "wlan_rx_wapi_decryption vif input_ptk header_len data_len output_buf = do {
     (ptk, offset) \<leftarrow> rx_ptk_header vif input_ptk;
     keyid \<leftarrow> byte_at offset input_ptk;
     reserved \<leftarrow> byte_at (offset + 1) input_ptk;
     (let encryp_data_len = data_len - 1 - 1 - 16;
          ral_data_len = data_len - 1 - 1 - 16 - 16;
          is_group_ptk = is_group (drop 2 ptk);
          keys = (if is_group_ptk then group_key vif else pairwise_key vif);
          ptk_header = take 36 (ptk @ [keyid, reserved] @ be16 ral_data_len @ replicate 4 0);
          body = unat header_len + 1 + 1 + 16 in do {
        pn \<leftarrow> get_bytes (offset + 2) 16 input_ptk;
        (let iv = rev pn in
         if \<not> is_group_ptk \<and> iv ! 15 AND 1 \<noteq> 1 then Some (0, False, output_buf)
         else case mget_pkt_key keys keyid of
           None \<Rightarrow> Some (0, True, output_buf)
         | Some key \<Rightarrow> do {
             dec \<leftarrow> WapiCryptoSms4 iv key (drop body input_ptk) (ucast encryp_data_len)
               (drop (body + unat encryp_data_len - 16) input_ptk);
             output_buf \<leftarrow> put_bytes 0 dec output_buf;
             data_mic \<leftarrow> get_bytes (unat ral_data_len) 16 output_buf;
             (case mget_mic_key keys keyid of
                None \<Rightarrow> Some (0, True, output_buf)
              | Some mic_key \<Rightarrow> do {
                  calc \<leftarrow> WapiCryptoSms4Mic iv mic_key ptk_header (of_nat (length ptk + 4)) output_buf (ucast ral_data_len);
                  Some (if calc \<noteq> data_mic then 0 else ral_data_len, False, output_buf) }) }) }) }"

text \<open>
  \<open>wlan_rx_wapi_process\<close>: \<open>pData\<close> points into the block read from the chip, \<open>len\<close> is the
  length of the message; the result is the Ethernet frame given to the network, if any.
\<close>

definition wlan_rx_wapi_process :: "wapi_vif \<Rightarrow> u8 list \<Rightarrow> u16 \<Rightarrow> u8 list option option" where
  "wlan_rx_wapi_process vif pData len =
    (if len = 0 then Some None
     else do {
       (n, malformed, out) \<leftarrow> wlan_rx_wapi_decryption vif pData 24 (len - 24) (replicate (unat len - 12) 0);
       (if n = 0 then Some None
        else do {
          snap \<leftarrow> get_bytes 0 6 out;
          addr1 \<leftarrow> get_bytes 4 6 pData;
          addr2 \<leftarrow> get_bytes 10 6 pData;
          addr3 \<leftarrow> get_bytes 16 6 pData;
          (if snap = [0xAA, 0xAA, 0x03, 0, 0, 0] then do {
             frame \<leftarrow> get_bytes 0 (unat n + 6) (addr1 @ addr2 @ drop 6 out);
             Some (Some frame) }
           else do {
             frame \<leftarrow> get_bytes 0 (unat n + 12) (addr3 @ addr2 @ out);
             Some (Some frame) }) }) })"

subsection \<open>Output feedback\<close>

text \<open>The reference: every byte meets its byte of the iterated cipher.\<close>

definition ofb_byte :: "(u8 list \<Rightarrow> u8 list) \<Rightarrow> u8 list \<Rightarrow> nat \<Rightarrow> u8" where
  "ofb_byte E iv k = (E ^^ (k div 16 + 1)) iv ! (k mod 16)"

definition ofb :: "(u8 list \<Rightarrow> u8 list) \<Rightarrow> u8 list \<Rightarrow> u8 list \<Rightarrow> u8 list" where
  "ofb E iv xs = map (\<lambda>k. xs ! k XOR ofb_byte E iv k) [0..<length xs]"

lemma length_ofb [simp]: "length (ofb E iv xs) = length xs"
  by (simp add: ofb_def)

lemma ofb_ofb [simp]: "ofb E iv (ofb E iv xs) = xs"
  by (rule nth_equalityI) (simp_all add: ofb_def xor.assoc)

text \<open>The byte the loop takes at index \<open>k\<close>, from the data or from the integrity code.\<close>

definition crypt_source :: "u8 list \<Rightarrow> u32 \<Rightarrow> u8 list \<Rightarrow> nat \<Rightarrow> u8 option" where
  "crypt_source input len mic k =
     (if of_nat k < len - 16 then byte_at k input else byte_at (unat (of_nat k - len + 16)) mic)"

lemma crypt_loop_ofb:
  assumes "length p = 2" and "j \<le> 1" and "p ! (1 - j) = (SMS4_Run ks ^^ ((i + 15) div 16)) iv"
    and "\<And>k. i \<le> k \<Longrightarrow> k < i + n \<Longrightarrow> crypt_source input len mic k = Some (f k)"
  shows "crypt_loop ks input len mic n i p j = Some (map (\<lambda>k. f k XOR ofb_byte (SMS4_Run ks) iv k) [i..<i + n])"
  using assms
proof (induction n arbitrary: i p j)
  case (Suc n)
  define q where "q = (if i mod 16 = 0 then (p[j := SMS4_Run ks (p ! (1 - j))], 1 - j) else (p, j))"
  obtain p' j' where q: "q = (p', j')" by fastforce
  have next16: "(i + 1 + 15) div 16 = i div 16 + 1" by simp
  have p': "length p' = 2" "j' \<le> 1" "p' ! (1 - j') = (SMS4_Run ks ^^ (i div 16 + 1)) iv"
  proof -
    show "length p' = 2" "j' \<le> 1" using q Suc.prems(1,2) by (auto simp: q_def split: if_splits)
    show "p' ! (1 - j') = (SMS4_Run ks ^^ (i div 16 + 1)) iv"
    proof (cases "i mod 16 = 0")
      case True
      then have "(i + 15) div 16 = i div 16" by (simp add: div_add1_eq [of i 15])
      with True q Suc.prems(1-3) show ?thesis by (auto simp: q_def)
    next
      case False
      then have "(i mod 16 + 15) div 16 = 1" by (intro div_nat_eqI) simp_all
      then have "(i + 15) div 16 = i div 16 + 1" by (simp add: div_add1_eq [of i 15])
      with False q Suc.prems(3) show ?thesis by (simp add: q_def)
    qed
  qed
  have "crypt_loop ks input len mic n (i + 1) p' j'
      = Some (map (\<lambda>k. f k XOR ofb_byte (SMS4_Run ks) iv k) [i + 1..<i + 1 + n])"
    using p' by (intro Suc.IH) (simp_all only: next16, simp_all add: Suc.prems(4))
  moreover have "crypt_source input len mic i = Some (f i)" by (rule Suc.prems(4)) simp_all
  moreover have "crypt_loop ks input len mic (Suc n) i p j = do {
      b \<leftarrow> crypt_source input len mic i;
      out \<leftarrow> crypt_loop ks input len mic n (i + 1) p' j';
      Some ((b XOR p' ! (1 - j') ! (i mod 16)) # out) }"
    by (simp only: crypt_loop.simps q_def [symmetric] q crypt_source_def Let_def prod.case)
  moreover have "[i..<i + Suc n] = i # [i + 1..<i + 1 + n]" by (simp add: upt_conv_Cons)
  ultimately show ?case using p'(3) by (simp only: list.map ofb_byte_def bind.bind_lunit)
qed simp

lemma WapiCryptoSms4_ofb:
  assumes "16 \<le> unat len" and "unat len \<le> length input + 16" and "16 \<le> length mic"
  shows "WapiCryptoSms4 iv key input len mic =
    Some (ofb (SMS4_Run (calculateenkey key)) (take 16 iv) (take (unat len - 16) input @ take 16 mic))"
proof -
  let ?xs = "take (unat len - 16) input @ take 16 mic"
  have len: "length ?xs = unat len" using assms by simp
  have sub: "unat (len - 16) = unat len - 16"
    using assms(1) by (simp add: unat_sub word_le_nat_alt)
  have "crypt_source input len mic k = Some (?xs ! k)" if "0 \<le> k" "k < 0 + unat len" for k
  proof -
    have k: "unat (of_nat k :: u32) = k"
      using that unat_u32_lt [of len] by (simp add: unat_of_nat)
    have "(of_nat k - len + 16 :: u32) = of_nat k - (len - 16)" by simp
    moreover have "unat (of_nat k - (len - 16) :: u32) = k - (unat len - 16)" if "unat len - 16 \<le> k"
      using that k sub by (subst unat_sub) (simp_all add: word_le_nat_alt)
    ultimately have "unat (of_nat k - len + 16 :: u32) = k - (unat len - 16)" if "unat len - 16 \<le> k"
      using that by (simp only:)
    then show ?thesis
      using that assms k sub
      by (cases "k < unat len - 16") (simp_all add: crypt_source_def byte_at_def word_less_nat_alt nth_append)
  qed
  then have "crypt_loop (calculateenkey key) input len mic (unat len) 0 [replicate 16 0, take 16 iv] 0 =
      Some (map (\<lambda>k. ?xs ! k XOR ofb_byte (SMS4_Run (calculateenkey key)) (take 16 iv) k) [0..<0 + unat len])"
    by (intro crypt_loop_ofb) simp_all
  then show ?thesis by (simp only: WapiCryptoSms4_def ofb_def len add_0)
qed

subsection \<open>Chaining\<close>

text \<open>The reference: the header and the data, each padded with zeros to whole blocks, chained.\<close>

definition pad16 :: "u8 list \<Rightarrow> u8 list" where
  "pad16 xs = xs @ replicate ((16 - length xs mod 16) mod 16) 0"

fun cbc_chain :: "(u8 list \<Rightarrow> u8 list) \<Rightarrow> u8 list \<Rightarrow> u8 list \<Rightarrow> u8 list" where
  "cbc_chain E s [] = s"
| "cbc_chain E s (x # xs) = cbc_chain E (map2 (XOR) (x # take 15 xs) (E s)) (drop 15 xs)"

definition cbc_mac :: "(u8 list \<Rightarrow> u8 list) \<Rightarrow> u8 list \<Rightarrow> u8 list \<Rightarrow> u8 list \<Rightarrow> u8 list" where
  "cbc_mac E iv header data = E (cbc_chain E iv (pad16 header @ pad16 data))"

text \<open>In between: the loop over the bytes of the padded message.\<close>

fun mac_bytes :: "(u8 list \<Rightarrow> u8 list) \<Rightarrow> nat \<Rightarrow> u8 list \<Rightarrow> u8 list \<Rightarrow> u8 list \<Rightarrow> u8 list" where
  "mac_bytes E i inp outp [] = inp"
| "mac_bytes E i inp outp (x # xs) =
     (let outp = (if i mod 16 = 0 then E inp else outp) in
      mac_bytes E (i + 1) (inp[i mod 16 := x XOR outp ! (i mod 16)]) outp xs)"

lemma mac_bytes_inside:
  assumes "length inp = 16" and "length outp = 16" and "i mod 16 + length xs \<le> 16" and "i mod 16 \<noteq> 0"
  shows "mac_bytes E i inp outp (xs @ ys) = mac_bytes E (i + length xs)
    (take (i mod 16) inp @ map2 (XOR) xs (drop (i mod 16) outp) @ drop (i mod 16 + length xs) inp) outp ys"
  using assms
proof (induction xs arbitrary: i inp)
  case (Cons x xs)
  show ?case
  proof (cases xs)
    case Nil
    with Cons.prems show ?thesis
      by (simp add: upd_conv_take_nth_drop Cons_nth_drop_Suc [symmetric])
  next
    case (Cons y zs)
    with Cons.prems have i1: "(i + 1) mod 16 = i mod 16 + 1" by (simp add: mod_Suc)
    let ?inp = "inp[i mod 16 := x XOR outp ! (i mod 16)]"
    have "mac_bytes E (i + 1) ?inp outp (xs @ ys) = mac_bytes E (i + 1 + length xs)
      (take ((i + 1) mod 16) ?inp @ map2 (XOR) xs (drop ((i + 1) mod 16) outp) @ drop ((i + 1) mod 16 + length xs) ?inp) outp ys"
      using Cons.prems i1 by (intro Cons.IH) simp_all
    moreover have "take (i mod 16 + 1) ?inp = take (i mod 16) inp @ [x XOR outp ! (i mod 16)]"
      using Cons.prems by (simp add: take_Suc_conv_app_nth)
    moreover have "drop (i mod 16) outp = outp ! (i mod 16) # drop (i mod 16 + 1) outp"
      using Cons.prems by (simp add: Cons_nth_drop_Suc)
    ultimately show ?thesis using Cons.prems i1 by simp
  qed
qed simp

text \<open>
  What the chaining needs of a cipher: blocks of 16 bytes. The byte loop is then the chain of
  the blocks.
\<close>

locale block_cipher =
  fixes E :: "u8 list \<Rightarrow> u8 list"
  assumes length_block: "length (E b) = 16"
begin

declare length_block [simp]

lemma mac_bytes_block:
  assumes "length inp = 16" and "length xs = 16" and "i mod 16 = 0"
  shows "mac_bytes E i inp outp (xs @ ys) =
    mac_bytes E (i + 16) (map2 (XOR) xs (E inp)) (E inp) ys"
proof -
  obtain x xs' where xs: "xs = x # xs'" "length xs' = 15" using assms(2) by (cases xs) auto
  let ?out = "E inp"
  have i1: "(i + 1) mod 16 = 1" using assms(3) by (simp add: mod_Suc)
  have out: "?out = ?out ! 0 # drop 1 ?out"
    using Cons_nth_drop_Suc [of 0 ?out] by simp
  let ?inp = "inp[0 := x XOR ?out ! 0]"
  have "take 1 ?inp = [x XOR ?out ! 0]"
    using assms(1) by (cases inp) auto
  then have "mac_bytes E (i + 1) ?inp ?out (xs' @ ys) = mac_bytes E (i + 1 + 15)
      ([x XOR ?out ! 0] @ map2 (XOR) xs' (drop 1 ?out) @ drop 16 ?inp) ?out ys"
    using mac_bytes_inside [of ?inp ?out "i + 1" xs' E ys] assms(1) xs(2) i1 by simp
  moreover have "map2 (XOR) xs ?out = [x XOR ?out ! 0] @ map2 (XOR) xs' (drop 1 ?out)"
    by (subst out) (simp add: xs)
  ultimately show ?thesis using assms xs by (simp add: Let_def add.commute)
qed

lemma mac_bytes_chain:
  assumes "length inp = 16" and "i mod 16 = 0" and "length xs mod 16 = 0"
  shows "mac_bytes E i inp outp xs = cbc_chain E inp xs"
  using assms
proof (induction xs arbitrary: i inp outp rule: measure_induct_rule [of length])
  case (less xs)
  show ?case
  proof (cases xs)
    case (Cons x zs)
    with less.prems(3) have l: "15 \<le> length zs" by (simp add: mod_Suc split: if_splits)
    let ?b = "x # take 15 zs"
    have "mac_bytes E i inp outp (?b @ drop 15 zs) =
        mac_bytes E (i + 16) (map2 (XOR) ?b (E inp)) (E inp) (drop 15 zs)"
      using less.prems(1,2) l by (intro mac_bytes_block) simp_all
    also have "\<dots> = cbc_chain E (map2 (XOR) ?b (E inp)) (drop 15 zs)"
    proof -
      have "length xs = 16 + length (drop 15 zs)" using Cons l by simp
      with less.prems(3) have "length (drop 15 zs) mod 16 = 0" by (metis mod_add_self1)
      moreover have "length (drop 15 zs) < length xs" using \<open>length xs = 16 + _\<close> by simp
      moreover have "(i + 16) mod 16 = 0" using less.prems(2) by simp
      moreover have "length (map2 (XOR) ?b (E inp)) = 16" using l by simp
      ultimately show ?thesis by (intro less.IH)
    qed
    finally show ?thesis using Cons by simp
  qed simp
qed

lemma length_mac: "length (cbc_mac E iv h d) = 16"
  by (simp add: cbc_mac_def)

end

interpretation sms4: block_cipher "SMS4_Run ks" for ks
  by unfold_locales simp

text \<open>The loop of the driver phase by phase, from its end to its start.\<close>

lemma mic_loop_end:
  "mic_loop ks header input n i j 0 hp 0 inp outp = Some (mac_bytes (SMS4_Run ks) i inp outp (replicate n 0))"
  by (induction n arbitrary: i inp outp) (simp_all add: Let_def)

lemma u32_Suc:
  assumes "Suc m = unat (w :: u32)"
  shows "w \<noteq> 0 \<and> unat w = Suc (unat (w - 1)) \<and> m = unat (w - 1)"
proof -
  have "w \<noteq> 0" using assms by auto
  moreover have "unat (w - 1) = unat w - 1" using \<open>w \<noteq> 0\<close> by (rule unat_minus_one)
  ultimately show ?thesis using assms by simp
qed

lemma mic_loop_data:
  assumes "j + unat dl \<le> length input"
  shows "mic_loop ks header input (unat dl + n) i j 0 0 dl inp outp =
    Some (mac_bytes (SMS4_Run ks) i inp outp (take (unat dl) (drop j input) @ replicate n 0))"
  using assms
proof (induction "unat dl" arbitrary: dl i j inp outp)
  case 0
  then have "dl = 0" by (metis unat_eq_0)
  then show ?case by (simp add: mic_loop_end)
next
  case (Suc m)
  then have d: "dl \<noteq> 0" "unat dl = Suc (unat (dl - 1))" "m = unat (dl - 1)"
    using u32_Suc [of m dl] by auto
  have "drop j input = input ! j # drop (j + 1) input"
    using Suc d by (simp add: Cons_nth_drop_Suc)
  then show ?case
    using Suc d(1) Suc.hyps(1) [OF d(3), of "j + 1"] by (simp add: d(2) Let_def byte_at_def)
qed

lemma mic_loop_pad:
  assumes "length input \<ge> unat dl" 
  shows "mic_loop ks header input (unat hp + unat dl + n) i 0 0 hp dl inp outp =
    Some (mac_bytes (SMS4_Run ks) i inp outp (replicate (unat hp) 0 @ take (unat dl) input @ replicate n 0))"
proof (cases "dl = 0")
  case True
  then show ?thesis by (simp add: mic_loop_end replicate_add [symmetric])
next
  case False
  show ?thesis
  proof (induction "unat hp" arbitrary: hp i inp outp)
    case 0
    then have "hp = 0" by (metis unat_eq_0)
    then show ?case using mic_loop_data [of 0 dl input] assms by simp
  next
    case (Suc m)
    then have d: "hp \<noteq> 0" "unat hp = Suc (unat (hp - 1))" "m = unat (hp - 1)"
      using u32_Suc [of m hp] by auto
    show ?case using Suc.hyps(1) [OF d(3)] d(1) False by (simp add: d(2) Let_def)
  qed
qed

lemma mic_loop_header:
  assumes "length input \<ge> unat dl" and "i + unat hl \<le> length header"
  shows "mic_loop ks header input (unat hl + unat hp + unat dl + n) i 0 hl hp dl inp outp =
    Some (mac_bytes (SMS4_Run ks) i inp outp
      (take (unat hl) (drop i header) @ replicate (unat hp) 0 @ take (unat dl) input @ replicate n 0))"
  using assms(2)
proof (induction "unat hl" arbitrary: hl i inp outp)
  case 0
  then have "hl = 0" by (metis unat_eq_0)
  then show ?case using mic_loop_pad [OF assms(1)] by simp
next
  case (Suc m)
  then have d: "hl \<noteq> 0" "unat hl = Suc (unat (hl - 1))" "m = unat (hl - 1)"
    using u32_Suc [of m hl] by auto
  have "drop i header = header ! i # drop (i + 1) header"
    using Suc d by (simp add: Cons_nth_drop_Suc)
  then show ?case
    using Suc d(1) Suc.hyps(1) [OF d(3), of "i + 1"] by (simp add: d(2) Let_def byte_at_def)
qed

lemma padding_length: "unat (padding_length len) = (16 - unat len mod 16) mod 16"
proof -
  have m: "len AND 15 = take_bit 4 len" by (simp add: take_bit_eq_mask mask_eq_exp_minus_1)
  then have u: "unat (len AND 15) = unat len mod 16" by (simp add: unat_take_bit)
  then have "len AND 15 \<le> 16" by (simp add: word_le_nat_alt)
  then have "unat (16 - (len AND 15)) = 16 - unat len mod 16" using u by (simp add: unat_sub)
  moreover have "len AND 15 = 0 \<longleftrightarrow> unat len mod 16 = 0" using u by (metis unat_eq_0)
  ultimately show ?thesis by (auto simp: padding_length_def)
qed

lemma length_pad16: "length (pad16 xs) mod 16 = 0"
proof -
  have "(length xs + (16 - length xs mod 16) mod 16) mod 16 = (length xs mod 16 + (16 - length xs mod 16)) mod 16"
    by (simp only: mod_add_eq mod_add_right_eq mod_add_left_eq)
  also have "length xs mod 16 + (16 - length xs mod 16) = 16" by (simp add: less_imp_le)
  finally show ?thesis by (simp add: pad16_def)
qed

lemma mic_chain:
  assumes "unat headerlength \<le> length header" and "unat datalength \<le> length input"
    and "unat headerlength + unat datalength < 4294967296 - 32" and "16 \<le> length iv"
  shows "WapiCryptoSms4Mic iv key header headerlength input datalength =
    Some (cbc_mac (SMS4_Run (calculateenkey key)) (take 16 iv) (take (unat headerlength) header) (take (unat datalength) input))"
proof -
  let ?hp = "padding_length headerlength" and ?dp = "padding_length datalength"
  let ?h = "take (unat headerlength) header" and ?d = "take (unat datalength) input"
  have "unat ?hp < 16" "unat ?dp < 16" by (simp_all add: padding_length)
  then have total: "unat (headerlength + datalength + ?hp + ?dp)
      = unat headerlength + unat ?hp + unat datalength + unat ?dp"
    using assms(3) by (simp add: unat_word_ariths)
  have "pad16 ?h @ pad16 ?d = ?h @ replicate (unat ?hp) 0 @ ?d @ replicate (unat ?dp) 0"
    using assms(1,2) by (simp add: pad16_def padding_length)
  moreover have "mic_loop ks header input (unat headerlength + unat ?hp + unat datalength + unat ?dp) 0 0
      headerlength ?hp datalength (take 16 iv) outp =
    Some (mac_bytes (SMS4_Run ks) 0 (take 16 iv) outp (?h @ replicate (unat ?hp) 0 @ ?d @ replicate (unat ?dp) 0))" for ks outp
    using mic_loop_header [OF assms(2), of 0 headerlength header] assms(1) by simp
  moreover have "length (pad16 ?h @ pad16 ?d) mod 16 = 0"
    using length_pad16 [of ?h] length_pad16 [of ?d] by (simp add: mod_add_eq [symmetric])
  ultimately show ?thesis
    using assms(4) by (simp add: WapiCryptoSms4Mic_def Let_def total cbc_mac_def sms4.mac_bytes_chain)
qed

text \<open>
  The integrity code of the driver is the chained code of the zero-padded header and the
  zero-padded data, for all lengths.
\<close>

lemma mic_is_chained:
  assumes "unat headerlength \<le> length header" and "unat datalength \<le> length input"
    and "unat headerlength + unat datalength < 4294967296 - 32" and "16 \<le> length iv"
  shows "WapiCryptoSms4Mic iv key header headerlength input datalength =
    Some (cbc_mac (SMS4_Run (calculateenkey key)) (take 16 iv) (take (unat headerlength) header) (take (unat datalength) input))"
  using assms by (rule mic_chain)

lemma mic_is_chained_witness:
  "WapiCryptoSms4Mic (replicate 16 7) [] [1, 2] 2 [3, 4, 5] 3 =
    Some (cbc_mac (SMS4_Run (calculateenkey [])) (replicate 16 7) [1, 2] [3, 4, 5])"
  using mic_is_chained [of 2 "[1, 2]" 3 "[3, 4, 5]" "replicate 16 7" "[]"] by simp

subsection \<open>The counter of the initial vectors\<close>

definition be_value :: "u8 list \<Rightarrow> nat" where
  "be_value bs = foldl (\<lambda>v b. v * 256 + unat b) 0 bs"

lemma be_value_snoc [simp]: "be_value (bs @ [b]) = be_value bs * 256 + unat b"
  by (simp add: be_value_def)

lemma be_value_Nil [simp]: "be_value [] = 0"
  by (simp add: be_value_def)

lemma be_value_bound: "be_value bs < 256 ^ length bs"
proof (induction bs rule: rev_induct)
  case (snoc b bs)
  then have "be_value bs * 256 + 256 \<le> 256 ^ length bs * 256" by linarith
  with unat_u8_lt [of b] show ?case by simp
qed simp

lemma length_carry_loop [simp]: "length (carry_loop i t) = length t"
  by (induction i arbitrary: t) (simp_all add: Let_def)

lemma drop_carry_loop: "drop i (carry_loop i t) = drop i t"
proof (induction i arbitrary: t)
  case (Suc i)
  have "drop (Suc i) (carry_loop i (t[i := x])) = drop (Suc i) t" for x
    using Suc.IH [of "t[i := x]"] by (metis drop_drop drop_update_cancel lessI plus_1_eq_Suc)
  then show ?case by (simp add: Let_def)
qed simp

lemma carry_loop_nth:
  assumes "i \<le> k" and "k < length t"
  shows "carry_loop i t ! k = t ! k"
proof -
  have "drop i (carry_loop i t) ! (k - i) = drop i t ! (k - i)" by (simp only: drop_carry_loop)
  then show ?thesis using assms by simp
qed

lemma u8_succ: "unat ((x :: u8) + 1) = (if unat x = 255 then 0 else unat x + 1)"
  using unat_u8_lt [of x] by (auto simp: unat_word_ariths mod_if)

lemma carry_loop_value:
  "i \<le> length t \<Longrightarrow> be_value (take i (carry_loop i t)) = (be_value (take i t) + 1) mod 256 ^ i"
proof (induction i arbitrary: t)
  case (Suc i)
  let ?t = "t[i := t ! i + 1]"
  have tk: "take (Suc i) ?t = take i t @ [t ! i + 1]" "take (Suc i) t = take i t @ [t ! i]"
    using Suc.prems by (simp_all add: take_Suc_conv_app_nth)
  have bound: "be_value (take i t) < 256 ^ i" using be_value_bound [of "take i t"] Suc.prems by simp
  have zero: "t ! i + 1 = 0 \<longleftrightarrow> unat (t ! i) = 255"
    using u8_succ [of "t ! i"] by (metis add_is_0 one_neq_zero unat_eq_0)
  show ?case
  proof (cases "unat (t ! i) = 255")
    case False
    then have "be_value (take i t) * 256 + (unat (t ! i) + 1) < 256 ^ i * 256"
      using bound unat_u8_lt [of "t ! i"] by linarith
    then show ?thesis using False zero Suc.prems tk by (simp add: Let_def u8_succ)
  next
    case True
    have "take (Suc i) (carry_loop i ?t) = take i (carry_loop i ?t) @ [0]"
      using Suc.prems True zero by (simp add: take_Suc_conv_app_nth carry_loop_nth)
    moreover have "be_value (take i (carry_loop i ?t)) = (be_value (take i t) + 1) mod 256 ^ i"
      using Suc.IH [of ?t] Suc.prems by simp
    moreover have "(be_value (take i t) * 256 + 255 + 1) mod 256 ^ Suc i = (be_value (take i t) + 1) mod 256 ^ i * 256"
      using mult_mod_left [of "be_value (take i t) + 1" "256 ^ i" 256] by (simp add: algebra_simps)
    ultimately show ?thesis using True zero Suc.prems tk by (simp add: Let_def)
  qed
qed simp

definition tx_counter :: "wapi_vif \<Rightarrow> nat" where
  "tx_counter vif = be_value (take 16 (key_txrsc vif))"

lemma inc_wapi_value:
  assumes "16 \<le> length (key_txrsc vif)" and "even (unat (key_txrsc vif ! 15))"
  shows "16 \<le> length (key_txrsc (inc_wapi_pairwise_key_txrsc vif))" (is ?len)
    and "even (unat (key_txrsc (inc_wapi_pairwise_key_txrsc vif) ! 15))" (is ?even)
    and "tx_counter (inc_wapi_pairwise_key_txrsc vif) = (tx_counter vif + 2) mod 256 ^ 16" (is ?val)
proof -
  let ?t = "key_txrsc vif" and ?u = "(key_txrsc vif)[15 := key_txrsc vif ! 15 + 2]"
  have tk: "take 16 t = take 15 t @ [t ! 15]" if "16 \<le> length t" for t :: "u8 list"
    using that take_Suc_conv_app_nth [of 15 t] by simp
  have bound: "be_value (take 15 ?t) < 256 ^ 15" using be_value_bound [of "take 15 ?t"] assms(1) by simp
  have low: "unat (?t ! 15 + 2) = (if unat (?t ! 15) = 254 then 0 else unat (?t ! 15) + 2)"
    using unat_u8_lt [of "?t ! 15"] assms(2) by (auto simp: unat_word_ariths mod_if elim!: evenE)
  have "?len \<and> ?even \<and> ?val"
  proof (cases "unat (?t ! 15) = 254")
    case True
    with low have z: "?t ! 15 + 2 = 0" by (metis unat_eq_0)
    have "carry_loop 15 ?u ! 15 = 0" using carry_loop_nth [of 15 15 ?u] z assms(1) by simp
    moreover have "be_value (take 15 (carry_loop 15 ?u)) = (be_value (take 15 ?t) + 1) mod 256 ^ 15"
      using carry_loop_value [of 15 ?u] assms(1) by simp
    moreover have "(be_value (take 15 ?t) * 256 + 254 + 2) mod 256 ^ 16 = (be_value (take 15 ?t) + 1) mod 256 ^ 15 * 256"
      using mult_mod_left [of "be_value (take 15 ?t) + 1" "256 ^ 15" 256] by (simp add: algebra_simps)
    ultimately show ?thesis
      using True z assms(1) tk [of "carry_loop 15 ?u"] tk [of ?t]
      by (simp add: inc_wapi_pairwise_key_txrsc_def Let_def tx_counter_def)
  next
    case False
    then have z: "?t ! 15 + 2 \<noteq> 0" and l: "unat (?t ! 15 + 2) = unat (?t ! 15) + 2"
      using low by (auto simp del: unat_eq_0)
    have "be_value (take 15 ?t) * 256 + (unat (?t ! 15) + 2) < 256 ^ 16"
      using bound unat_u8_lt [of "?t ! 15 + 2"] l by simp
    then show ?thesis
      using z l assms tk [of ?u] tk [of ?t]
      by (simp add: inc_wapi_pairwise_key_txrsc_def Let_def tx_counter_def)
  qed
  then show ?len ?even ?val by blast+
qed

lemma inc_wapi_iterated:
  assumes "16 \<le> length (key_txrsc vif)" and "even (unat (key_txrsc vif ! 15))"
  shows "16 \<le> length (key_txrsc ((inc_wapi_pairwise_key_txrsc ^^ n) vif)) \<and>
    even (unat (key_txrsc ((inc_wapi_pairwise_key_txrsc ^^ n) vif) ! 15)) \<and>
    tx_counter ((inc_wapi_pairwise_key_txrsc ^^ n) vif) mod 256 ^ 16 = (tx_counter vif + 2 * n) mod 256 ^ 16"
proof (induction n)
  case (Suc n)
  let ?v = "(inc_wapi_pairwise_key_txrsc ^^ n) vif"
  have l: "16 \<le> length (key_txrsc ?v)" and e: "even (unat (key_txrsc ?v ! 15))"
    and v: "tx_counter ?v mod 256 ^ 16 = (tx_counter vif + 2 * n) mod 256 ^ 16"
    using Suc.IH by blast+
  have "(tx_counter ?v + 2) mod 256 ^ 16 = (tx_counter vif + 2 * n + 2) mod 256 ^ 16"
    using v by (metis mod_add_left_eq)
  with inc_wapi_value [OF l e] show ?case by simp
qed (use assms in simp)

text \<open>What \<open>itm_wlan_add_cipher_key\<close> stores with a new key.\<close>

definition pn_key :: "u8 list" where
  "pn_key = [0x5c, 0x36, 0x5c, 0x36, 0x5c, 0x36, 0x5c, 0x36, 0x5c, 0x36, 0x5c, 0x36, 0x5c, 0x36, 0x5c, 0x36]"

text \<open>
  C18. No two frames under one key use the same initial vector: from the value that comes with
  a new key, and from any other even one, the counter repeats only after \<open>2 ^ 127\<close> frames.
\<close>

theorem wapi_iv_never_reused:
  assumes "16 \<le> length (key_txrsc vif)" and "even (unat (key_txrsc vif ! 15))"
    and "m < n" and "n - m < 2 ^ 127"
  shows "take 16 (key_txrsc ((inc_wapi_pairwise_key_txrsc ^^ m) vif))
    \<noteq> take 16 (key_txrsc ((inc_wapi_pairwise_key_txrsc ^^ n) vif))"
proof
  assume eq: "take 16 (key_txrsc ((inc_wapi_pairwise_key_txrsc ^^ m) vif))
    = take 16 (key_txrsc ((inc_wapi_pairwise_key_txrsc ^^ n) vif))"
  have "(tx_counter vif + 2 * m) mod 2 ^ 128 = (tx_counter vif + 2 * n) mod 2 ^ 128"
    using inc_wapi_iterated [OF assms(1,2), of m] inc_wapi_iterated [OF assms(1,2), of n] eq
    by (simp add: tx_counter_def)
  then have "2 ^ 128 dvd (tx_counter vif + 2 * n) - (tx_counter vif + 2 * m)"
    by (metis mod_eq_dvd_iff_nat assms(3) add_le_cancel_left less_imp_le mult_le_mono2)
  then have "(2 :: nat) ^ 128 dvd 2 * (n - m)" by (simp add: diff_mult_distrib2)
  then have "(2 :: nat) ^ 128 \<le> 2 * (n - m)" using assms(3) by (intro dvd_imp_le) simp_all
  with assms(4) show False by simp
qed

definition demo_vif :: wapi_vif where
  "demo_vif = \<lparr>bssid = [1, 2, 3, 4, 5, 6], key_index = 0, group_key = replicate 4 (replicate 32 1),
     pairwise_key = replicate 4 (replicate 32 2), key_txrsc = pn_key\<rparr>"

theorem wapi_iv_never_reused_witness:
  "take 16 (key_txrsc ((inc_wapi_pairwise_key_txrsc ^^ 7) demo_vif))
    \<noteq> take 16 (key_txrsc ((inc_wapi_pairwise_key_txrsc ^^ 1000) demo_vif))"
  by (rule wapi_iv_never_reused) (simp_all add: demo_vif_def pn_key_def)

subsection \<open>Sent frames\<close>

definition wapi_wf :: "wapi_vif \<Rightarrow> bool" where
  "wapi_wf vif \<longleftrightarrow> length (bssid vif) = 6 \<and> 16 \<le> length (key_txrsc vif) \<and> unat (key_index vif) < 3"

text \<open>
  The payload that is encrypted: behind a logical-link header for the protocols the driver knows,
  with the sender address of an ARP message replaced.
\<close>

definition eth_type :: "u8 list \<Rightarrow> u16" where
  "eth_type data = push_bit 8 (ucast (data ! 12)) OR ucast (data ! 13)"

definition is_arp_message :: "u8 list \<Rightarrow> bool" where
  "is_arp_message data \<longleftrightarrow> eth_type data = 0x0806 \<and> data ! 20 = 0 \<and> (data ! 21 = 2 \<or> data ! 21 = 1)"

definition tx_text :: "u8 list \<Rightarrow> u8 list" where
  "tx_text data =
     (if is_snap_type (eth_type data) then [0xAA, 0xAA, 0x03, 0, 0, 0] @ drop 12
        (if is_arp_message data then take 22 data @ take 6 (drop 6 data) @ drop 28 data else data)
      else drop 14 data)"

text \<open>The integrity code goes behind the payload, and both through the output feedback.\<close>

definition sealed :: "wapi_vif \<Rightarrow> u8 list \<Rightarrow> u8 list \<Rightarrow> u8 list" where
  "sealed vif data msdu =
     (let iv = take 16 (key_txrsc vif); k = pairwise_key vif ! unat (key_index vif);
          header = take 32 (tx_ptk_header vif (take 6 (drop 6 data)) (take 6 data) (of_nat (length msdu))) in
      ofb (SMS4_Run (calculateenkey k)) iv (msdu @ cbc_mac (SMS4_Run (calculateenkey (drop 16 k))) iv header msdu))"

text \<open>A frame the network layer hands over: a whole header, an ARP message complete.\<close>

definition sendable :: "u8 list \<Rightarrow> bool" where
  "sendable data \<longleftrightarrow> 14 \<le> length data \<and> (eth_type data = 0x0806 \<longrightarrow> 28 \<le> length data) \<and> length data \<le> 60000"

declare sms4.length_mac [simp]

lemma length_tx_ptk_header [simp]:
  "length (bssid vif) = 6 \<Longrightarrow> length src = 6 \<Longrightarrow> length dst = 6 \<Longrightarrow> length (tx_ptk_header vif src dst n) = 36"
  by (simp add: tx_ptk_header_def)

lemma unat_of_nat_u16: "n < 65536 \<Longrightarrow> unat (of_nat n :: u16) = n"
  by (simp add: unat_of_nat)

lemma unat_ucast_u32: "unat (ucast (w :: u16) :: u32) = unat w"
  using unat_u16_lt [of w] by (simp add: unat_ucast_mod)

lemma tx_seal_sealed:
  assumes "wapi_wf vif" and "14 \<le> length data" and "length msdu < 65000" and "length msdu + 34 \<le> length out"
    and "src = take 6 (drop 6 data)" and "dst = take 6 data"
  shows "tx_seal vif src dst msdu (of_nat (length msdu)) out
    = Some (take 18 out @ sealed vif data msdu @ drop (length msdu + 34) out)"
proof -
  let ?n = "of_nat (length msdu) :: u16"
  let ?iv = "take 16 (key_txrsc vif)" and ?k = "pairwise_key vif ! unat (key_index vif)"
  let ?h = "tx_ptk_header vif src dst ?n"
  have n: "unat ?n = length msdu" using assms(3) by (simp add: unat_of_nat_u16)
  have n16: "?n + 16 = of_nat (length msdu + 16)" by simp
  have "unat (?n + 16) = length msdu + 16" unfolding n16 using assms(3) by (intro unat_of_nat_u16) simp
  then have len: "unat (ucast (?n + 16) :: u32) = length msdu + 16" by (simp only: unat_ucast_u32)
  have h: "length ?h = 36" using assms(1,2,5,6) by (simp add: wapi_wf_def)
  have "WapiCryptoSms4Mic (key_txrsc vif) (drop 16 ?k) ?h 32 msdu (ucast ?n)
      = Some (cbc_mac (SMS4_Run (calculateenkey (drop 16 ?k))) ?iv (take 32 ?h) msdu)" (is "_ = Some ?mac")
    using mic_chain [of 32 ?h "ucast ?n" msdu "key_txrsc vif" "drop 16 ?k"] assms(1,3) h n
    by (simp add: wapi_wf_def unat_ucast_u32)
  moreover have "WapiCryptoSms4 (key_txrsc vif) ?k msdu (ucast (?n + 16)) ?mac
      = Some (ofb (SMS4_Run (calculateenkey ?k)) ?iv (msdu @ ?mac))"
    using WapiCryptoSms4_ofb [of "ucast (?n + 16)" msdu ?mac "key_txrsc vif" ?k] by (simp add: len)
  ultimately show ?thesis
    using assms by (simp add: tx_seal_def wapi_wf_def mget_mic_key_def mget_pkt_key_def Let_def
        put_bytes_def sealed_def add.commute)
qed

lemma length_sealed [simp]: "length (sealed vif data msdu) = length msdu + 16"
  by (simp add: sealed_def Let_def)

lemma length_tx_text:
  assumes "sendable data"
  shows "length (tx_text data) = (if is_snap_type (eth_type data) then length data - 6 else length data - 14)"
  using assms by (auto simp: tx_text_def sendable_def is_arp_message_def)

lemma eth_type_at: "14 \<le> length data \<Longrightarrow> eth_type_at data = Some (eth_type data)"
  by (simp add: eth_type_at_def byte_at_def eth_type_def)

lemma arp_patch_eq:
  assumes "sendable data"
  shows "arp_patch (eth_type data) data =
    (if is_arp_message data
     then Some (Some (take 6 (drop 22 data)), take 22 data @ take 6 (drop 6 data) @ drop 28 data)
     else Some (None, data))"
  using assms by (auto simp: arp_patch_def sendable_def is_arp_message_def byte_at_def get_bytes_def put_bytes_def)

text \<open>
  Overwriting and restoring. \<open>put_bytes\<close> on a list that is long enough, in terms of pieces.
\<close>

lemma put_bytes_some:
  "i + length xs \<le> length buf \<Longrightarrow> put_bytes i xs buf = Some (take i buf @ xs @ drop (i + length xs) buf)"
  by (simp add: put_bytes_def)

lemma put_bytes_restore:
  assumes "put_bytes i xs buf = Some buf'" and "get_bytes i (length xs) buf = Some old"
  shows "put_bytes i old buf' = Some buf"
proof -
  have l: "i + length xs \<le> length buf" and old: "old = take (length xs) (drop i buf)"
    and buf': "buf' = take i buf @ xs @ drop (i + length xs) buf"
    using assms by (auto simp: put_bytes_def get_bytes_def split: if_splits)
  then have "put_bytes i old buf' = Some (take i buf @ old @ drop (i + length xs) buf)"
    by (simp add: put_bytes_def)
  also have "take i buf @ old @ drop (i + length xs) buf = buf"
    unfolding old by (metis add.commute append_take_drop_id drop_drop)
  finally show ?thesis .
qed

lemma wlan_tx_frame:
  assumes "wapi_wf vif" and "sendable data" and "length data + 28 \<le> length out"
    and "vif' = inc_wapi_pairwise_key_txrsc vif"
  shows "wlan_tx_wapi_encryption vif data (of_nat (length data - 14)) out
    = Some (of_nat (length (tx_text data) + 34), data,
        [key_index vif, 0] @ rev (take 16 (key_txrsc vif')) @ sealed vif' data (tx_text data)
          @ drop (length (tx_text data) + 34) out, vif')"
proof -
  have wf: "wapi_wf vif'" and ki: "key_index vif' = key_index vif"
    using assms(1,4) by (simp_all add: wapi_wf_def inc_wapi_pairwise_key_txrsc_def Let_def)
  have l14: "14 \<le> length data" using assms(2) by (simp add: sendable_def)
  let ?t = "tx_text data"
  have tl: "length ?t < 65000" "length ?t + 34 \<le> length out"
    using assms(2,3) length_tx_text [OF assms(2)] by (auto simp: sendable_def split: if_splits)
  note seal = tx_seal_sealed [OF wf l14 tl refl refl]
  have fin: "put_bytes 0 ([key_index vif', 0] @ rev (take 16 (key_txrsc vif')))
      (take 18 out @ sealed vif' data ?t @ drop (length ?t + 34) out)
    = Some ([key_index vif, 0] @ rev (take 16 (key_txrsc vif')) @ sealed vif' data ?t @ drop (length ?t + 34) out)"
    using wf tl by (simp add: put_bytes_def ki wapi_wf_def)
  show ?thesis
  proof (cases "is_snap_type (eth_type data)")
    case False
    then have t: "?t = drop 14 data" by (simp add: tx_text_def)
    have n: "of_nat (length data - 14) = (of_nat (length ?t) :: u16)" by (simp add: t)
    show ?thesis
      using seal fin l14 False unfolding n
      by (simp add: wlan_tx_wapi_encryption_def assms(4) [symmetric] Let_def get_bytes_def eth_type_at t ac_simps)
  next
    case True
    have t: "length ?t = length data - 6" using length_tx_text [OF assms(2)] True by simp
    then have n: "of_nat (length data - 14) + 8 = (of_nat (length ?t) :: u16)"
    proof -
      obtain m where "length data = 14 + m" using l14 le_Suc_ex by blast
      with t show ?thesis by simp
    qed
    define d where "d = (if is_arp_message data then take 22 data @ take 6 (drop 6 data) @ drop 28 data else data)"
    define old where "old = (if is_arp_message data then Some (take 6 (drop 22 data)) else None)"
    have patch: "arp_patch (eth_type data) data = Some (old, d)"
      using arp_patch_eq [OF assms(2)] by (simp add: d_def old_def)
    have dl: "length d = length data" "take 22 d = take 22 data"
      using assms(2) by (auto simp: d_def sendable_def is_arp_message_def)
    obtain d2 where d2: "put_bytes 6 ([0xAA, 0xAA, 0x03, 0, 0, 0] @ take 2 (drop 12 d)) d = Some d2"
      using dl l14 by (simp add: put_bytes_def)
    have drop2: "drop 6 d2 = ?t"
    proof -
      have "d2 = take 6 d @ ([0xAA, 0xAA, 0x03, 0, 0, 0] @ take 2 (drop 12 d)) @ drop 14 d"
        using d2 dl l14 by (simp add: put_bytes_def split: if_splits)
      moreover have "length (take 6 d) = 6" using dl l14 by simp
      moreover have "take 2 (drop 12 d) @ drop 14 d = drop 12 d"
        using append_take_drop_id [of 2 "drop 12 d"] by simp
      ultimately have "drop 6 d2 = [0xAA, 0xAA, 0x03, 0, 0, 0] @ drop 12 d"
        by (simp only: drop_append drop_all length_take append_assoc) simp
      then show ?thesis using True by (simp only: tx_text_def d_def if_True)
    qed
    have undo: "put_bytes 6 (take 8 (drop 6 d)) d2 = Some d"
      using dl l14 by (intro put_bytes_restore [OF d2]) (simp add: get_bytes_def min_def)
    have undo2: "(case old of Some b \<Rightarrow> put_bytes 22 b d | None \<Rightarrow> Some d) = Some data"
    proof (cases "is_arp_message data")
      case True
      then have l28: "28 \<le> length data" using assms(2) by (simp add: is_arp_message_def sendable_def)
      then have "length (take 6 (drop 6 data)) = 6" by simp
      moreover have "put_bytes 22 (take 6 (drop 6 data)) data = Some d"
        using True l28 by (simp add: d_def put_bytes_def)
      ultimately have "put_bytes 22 (take 6 (drop 22 data)) d = Some data"
        using put_bytes_restore [of 22 "take 6 (drop 6 data)" data d] l28 by (simp add: get_bytes_def)
      with True show ?thesis by (simp add: old_def)
    next
      case False
      then show ?thesis by (simp add: old_def d_def)
    qed
    show ?thesis
      using seal fin l14 True patch d2 drop2 undo undo2 dl n
      by (simp add: wlan_tx_wapi_encryption_def assms(4) [symmetric] Let_def get_bytes_def eth_type_at ac_simps)
  qed
qed

text \<open>
  What goes to the air for a frame of the network layer: its Ethernet header, the key index,
  the initial vector of this frame byte by byte backwards, and the sealed payload. The frame buffer, which
  the encryption rewrites in place, is as it was; no access leaves a buffer.
\<close>

lemma xmit_wapi_frame:
  assumes "wapi_wf vif" and "sendable skb" and "vif' = inc_wapi_pairwise_key_txrsc vif"
  shows "xmit_wapi vif skb = Some (take 14 skb @ [key_index vif, 0] @ rev (take 16 (key_txrsc vif'))
      @ sealed vif' skb (tx_text skb), skb, vif')"
proof -
  let ?out = "replicate (length skb + 100 - 14) 0 :: u8 list"
  have l: "14 \<le> length skb" "length skb \<le> 60000" using assms(2) by (simp_all add: sendable_def)
  have "length (tx_text skb) + 34 < 65536"
    using length_tx_text [OF assms(2)] l by (auto split: if_splits)
  then have "unat (of_nat (length (tx_text skb) + 34) :: u16) = length (tx_text skb) + 34"
    by (rule unat_of_nat_u16)
  moreover have "length skb + 28 \<le> length ?out" using l by simp
  moreover have "16 \<le> length (key_txrsc vif')"
    using assms(1,3) by (simp add: wapi_wf_def inc_wapi_pairwise_key_txrsc_def Let_def)
  moreover define f where "f = [key_index vif, 0] @ rev (take 16 (key_txrsc vif')) @ sealed vif' skb (tx_text skb)"
  ultimately have "length f = length (tx_text skb) + 34" by simp
  then have "get_bytes 0 (length (tx_text skb) + 34) (f @ rest) = Some f" for rest
    by (simp add: get_bytes_def)
  with \<open>unat _ = _\<close> show ?thesis
    using wlan_tx_frame [OF assms(1,2) _ assms(3), of ?out] \<open>length skb + 28 \<le> _\<close> l
    by (simp add: xmit_wapi_def get_bytes_def [of 0 14] f_def del: of_nat_add)
qed

definition demo_arp :: "u8 list" where
  "demo_arp = [255, 255, 255, 255, 255, 255, 2, 0, 0, 0, 0, 9, 8, 6, 0, 1, 8, 0, 6, 4, 0, 1,
     3, 3, 3, 3, 3, 3, 10, 0, 0, 1, 0, 0, 0, 0, 0, 0, 10, 0, 0, 2]"

lemma xmit_wapi_frame_witness:
  "xmit_wapi demo_vif demo_arp = Some (take 14 demo_arp @ [0, 0]
     @ rev (take 16 (key_txrsc (inc_wapi_pairwise_key_txrsc demo_vif)))
     @ sealed (inc_wapi_pairwise_key_txrsc demo_vif) demo_arp
         ([0xAA, 0xAA, 3, 0, 0, 0, 8, 6, 0, 1, 8, 0, 6, 4, 0, 1, 2, 0, 0, 0, 0, 9, 10, 0, 0, 1,
           0, 0, 0, 0, 0, 0, 10, 0, 0, 2]), demo_arp, inc_wapi_pairwise_key_txrsc demo_vif)"
proof -
  have "wapi_wf demo_vif" by (simp add: wapi_wf_def demo_vif_def pn_key_def)
  moreover have "sendable demo_arp" by (simp add: sendable_def demo_arp_def)
  moreover have "tx_text demo_arp = [0xAA, 0xAA, 3, 0, 0, 0, 8, 6, 0, 1, 8, 0, 6, 4, 0, 1, 2, 0, 0, 0, 0, 9, 10, 0, 0, 1,
      0, 0, 0, 0, 0, 0, 10, 0, 0, 2]"
    by (simp add: tx_text_def eth_type_def is_arp_message_def is_snap_type_def demo_arp_def)
  moreover have "key_index demo_vif = 0" by (simp add: demo_vif_def)
  ultimately show ?thesis using xmit_wapi_frame [of demo_vif demo_arp] by simp
qed

subsection \<open>Received frames\<close>

text \<open>
  A header of three addresses without a service field, the only kind the caller's fixed length
  of 24 bytes fits; the key it selects; the header the integrity code covers.
\<close>

definition plain_header :: "u8 list \<Rightarrow> bool" where
  "plain_header h \<longleftrightarrow> length h = 24 \<and> h ! 0 AND 0x80 = 0 \<and> h ! 1 AND 3 \<noteq> 3"

definition rx_key :: "wapi_vif \<Rightarrow> u8 list \<Rightarrow> u8 \<Rightarrow> u8 list" where
  "rx_key vif h keyid = (if is_group (drop 4 h) then group_key vif else pairwise_key vif) ! unat keyid"

definition rx_covered :: "wapi_vif \<Rightarrow> u8 list \<Rightarrow> u8 \<Rightarrow> u8 \<Rightarrow> nat \<Rightarrow> u8 list" where
  "rx_covered vif h keyid res n = [h ! 0 AND 0x8F, h ! 1 AND 0xC7] @ take 6 (drop 4 h) @ bssid vif
     @ [h ! 22 AND 0x0F, 0] @ take 6 (drop 16 h) @ replicate 6 0 @ [keyid, res] @ be16 (of_nat n)"

definition rx_mac :: "wapi_vif \<Rightarrow> u8 list \<Rightarrow> u8 \<Rightarrow> u8 \<Rightarrow> u8 list \<Rightarrow> u8 list \<Rightarrow> u8 list" where
  "rx_mac vif h keyid res iv msdu = cbc_mac (SMS4_Run (calculateenkey (drop 16 (rx_key vif h keyid)))) iv
     (rx_covered vif h keyid res (length msdu)) msdu"

definition rx_plain :: "wapi_vif \<Rightarrow> u8 list \<Rightarrow> u8 \<Rightarrow> u8 list \<Rightarrow> u8 list \<Rightarrow> u8 list" where
  "rx_plain vif h keyid iv c = ofb (SMS4_Run (calculateenkey (rx_key vif h keyid))) iv c"

lemma length_rx_plain [simp]: "length (rx_plain vif h keyid iv c) = length c"
  by (simp add: rx_plain_def)

lemma length_rx_covered [simp]:
  "plain_header h \<Longrightarrow> length (bssid vif) = 6 \<Longrightarrow> length (rx_covered vif h keyid res n) = 32"
  by (simp add: rx_covered_def plain_header_def)

lemma get_bytes_append: "i + n \<le> length xs \<Longrightarrow> get_bytes i n (xs @ ys) = Some (take n (drop i xs))"
  by (simp add: get_bytes_def)

lemma and_and_8: "(x AND (a :: u8)) AND b = x AND (a AND b)"
  by (rule and.assoc)

lemma rx_ptk_header_plain:
  assumes "plain_header h"
  shows "rx_ptk_header vif (h @ rest) =
    Some ([h ! 0 AND 0x8F, h ! 1 AND 0xC7] @ take 6 (drop 4 h) @ bssid vif
      @ [h ! 22 AND 0x0F, 0] @ take 6 (drop 16 h) @ replicate 6 0, 24)"
proof -
  have l: "length h = 24" using assms by (simp add: plain_header_def)
  have "get_bytes 0 2 (h @ rest) = Some [h ! 0, h ! 1]"
    using l take_Suc_conv_app_nth [of 0 h] take_Suc_conv_app_nth [of 1 h]
    by (simp add: get_bytes_append numeral_2_eq_2)
  moreover have "get_bytes 22 2 (h @ rest) = Some [h ! 22, h ! 23]"
    using l Cons_nth_drop_Suc [of 22 h] Cons_nth_drop_Suc [of 23 h] by (simp add: get_bytes_append)
  moreover have "(h ! 0 AND 0x8F) AND 0x80 = 0" "(h ! 1 AND 0xC7) AND 3 \<noteq> 3"
    using assms by (simp_all only: plain_header_def and_and_8) simp_all
  ultimately show ?thesis
    using l by (simp add: rx_ptk_header_def get_bytes_append Let_def)
qed

lemma wlan_rx_frame:
  assumes "length (bssid vif) = 6" and "plain_header h" and "length iv = 16" and "unat keyid < 3"
    and "is_group (drop 4 h) \<or> iv ! 15 AND 1 = 1"
    and "16 \<le> length c" and "length c + 18 < 65536" and "length c \<le> length out"
    and "p = rx_plain vif h keyid iv c" and "n = length c - 16"
  shows "wlan_rx_wapi_decryption vif (h @ [keyid, res] @ rev iv @ c @ rest) 24 (of_nat (length c + 18)) out
    = Some (if rx_mac vif h keyid res iv (take n p) = drop n p then of_nat n else 0, False,
        p @ drop (length c) out)"
proof -
  let ?F = "h @ [keyid, res] @ rev iv @ c @ rest"
  let ?key = "rx_key vif h keyid"
  have l: "length h = 24" using assms(2) by (simp add: plain_header_def)
  have c16: "of_nat (length c + 18) - 1 - 1 - 16 = (of_nat (length c) :: u16)" by simp
  have cn: "of_nat (length c) - 16 = (of_nat n :: u16)"
  proof -
    obtain m where "length c = 16 + m" using assms(6) le_Suc_ex by blast
    with assms(10) show ?thesis by simp
  qed
  have uc: "unat (of_nat (length c) :: u16) = length c" using assms(7) by (intro unat_of_nat_u16) simp
  have un: "unat (of_nat n :: u16) = n" using assms(7,10) by (intro unat_of_nat_u16) simp
  have drops: "drop 42 ?F = c @ rest" using l assms(3) by simp
  have "42 + length c - 16 = n + 42" using assms(6,10) by simp
  then have "drop (42 + length c - 16) ?F = drop n (drop 42 ?F)" by (simp only: drop_drop)
  then have tail: "drop (42 + length c - 16) ?F = drop n c @ rest" using assms(10) by (simp only: drops) simp
  have "take (length c - 16) (c @ rest) @ take 16 (drop n c @ rest) = c"
    using assms(6,10) by simp
  then have dec: "WapiCryptoSms4 iv ?key (c @ rest) (ucast (of_nat (length c) :: u16)) (drop n c @ rest) = Some p"
    using WapiCryptoSms4_ofb [of "ucast (of_nat (length c) :: u16)" "c @ rest" "drop n c @ rest" iv ?key]
      assms(3,6,9,10) uc by (simp add: unat_ucast_u32 rx_plain_def)
  have pl: "length p = length c" using assms(9) by simp
  then have put: "put_bytes 0 p out = Some (p @ drop (length c) out)" using assms(8) by (simp add: put_bytes_def)
  have mic: "get_bytes n 16 (p @ drop (length c) out) = Some (drop n p)"
    using pl assms(6,10) by (simp add: get_bytes_append)
  let ?cov = "rx_covered vif h keyid res n"
  have cov: "length ?cov = 32" using assms(1,2) by simp
  have "WapiCryptoSms4Mic iv (drop 16 ?key) (take 36 (?cov @ replicate 4 0)) 32 (p @ drop (length c) out)
      (ucast (of_nat n :: u16)) = Some (cbc_mac (SMS4_Run (calculateenkey (drop 16 ?key))) iv ?cov (take n p))"
    using mic_chain [of 32 "take 36 (?cov @ replicate 4 0)" "ucast (of_nat n :: u16)" "p @ drop (length c) out" iv "drop 16 ?key"]
      assms(3,7,10) cov un pl by (simp add: unat_ucast_u32)
  then have calc: "WapiCryptoSms4Mic iv (drop 16 ?key) (take 36 (?cov @ replicate 4 0)) 32 (p @ drop (length c) out)
      (ucast (of_nat n :: u16)) = Some (rx_mac vif h keyid res iv (take n p))"
    using pl assms(10) by (simp add: rx_mac_def)
  have at: "byte_at 24 ?F = Some keyid" "byte_at (24 + 1) ?F = Some res"
    using l by (simp_all add: byte_at_def nth_append)
  have pn: "get_bytes 26 16 ?F = Some (rev iv)"
    using l assms(3) by (simp add: get_bytes_def)
  have body: "unat (24 :: u16) + 1 + 1 + 16 = 42" by simp
  let ?ptk = "[h ! 0 AND 0x8F, h ! 1 AND 0xC7] @ take 6 (drop 4 h) @ bssid vif
      @ [h ! 22 AND 0x0F, 0] @ take 6 (drop 16 h) @ replicate 6 0"
  have covered: "take 36 (?ptk @ [keyid, res] @ be16 (of_nat n) @ replicate 4 0) = take 36 (?cov @ replicate 4 0)"
    by (simp add: rx_covered_def)
  have group: "is_group (drop 2 ?ptk) = is_group (drop 4 h)"
    using l by (simp add: is_group_def)
  have hl: "of_nat (length ?ptk + 4) = (32 :: u32)" using l assms(1) by simp
  have keys: "mget_pkt_key (if is_group (drop 4 h) then group_key vif else pairwise_key vif) keyid = Some ?key"
    "mget_mic_key (if is_group (drop 4 h) then group_key vif else pairwise_key vif) keyid = Some (drop 16 ?key)"
    using assms(4) by (simp_all add: mget_pkt_key_def mget_mic_key_def rx_key_def)
  have odd: "\<not> (\<not> is_group (drop 4 h) \<and> iv ! 15 AND 1 \<noteq> 1)" using assms(5) by simp
  show ?thesis
    unfolding wlan_rx_wapi_decryption_def rx_ptk_header_plain [OF assms(2)] Let_def
    by (simp only: bind.bind_lunit prod.case Let_def at pn body c16 cn uc un covered group hl keys odd
      if_False option.case drops tail dec put mic calc rev_rev_ident numeral_plus_numeral add_num_simps one_add_one
      of_nat_eq_iff) simp
qed

lemma wlan_rx_refused:
  assumes "length (bssid vif) = 6" and "plain_header h" and "length iv = 16"
    and "(\<not> is_group (drop 4 h) \<and> iv ! 15 AND 1 \<noteq> 1) \<or> 3 \<le> unat keyid"
  shows "wlan_rx_wapi_decryption vif (h @ [keyid, res] @ rev iv @ c @ rest) 24 n out
    = Some (0, is_group (drop 4 h) \<or> iv ! 15 AND 1 = 1, out)"
proof -
  let ?F = "h @ [keyid, res] @ rev iv @ c @ rest"
  have l: "length h = 24" using assms(2) by (simp add: plain_header_def)
  have at: "byte_at 24 ?F = Some keyid" "byte_at (24 + 1) ?F = Some res"
    using l by (simp_all add: byte_at_def nth_append)
  have pn: "get_bytes (24 + 2) 16 ?F = Some (rev iv)"
    using l assms(3) by (simp add: get_bytes_def)
  have group: "is_group (drop 2 ([h ! 0 AND 0x8F, h ! 1 AND 0xC7] @ take 6 (drop 4 h) @ bssid vif
      @ [h ! 22 AND 0x0F, 0] @ take 6 (drop 16 h) @ replicate 6 0)) = is_group (drop 4 h)"
    using l by (simp add: is_group_def)
  show ?thesis
    unfolding wlan_rx_wapi_decryption_def rx_ptk_header_plain [OF assms(2)] Let_def
    by (simp only: bind.bind_lunit prod.case at pn group rev_rev_ident)
      (use assms(4) in \<open>auto simp: mget_pkt_key_def\<close>)
qed

text \<open>
  C4. What the receiver makes of a frame with the header of 24 bytes: a frame for this station with
  an even initial vector is refused, and one with a key index of three and more is refused and
  reported; of any other the ciphertext is decrypted into the output buffer, and it is accepted,
  with the length of the payload, exactly when the code in it is the code of the decrypted payload
  under this header.
\<close>

theorem wapi_rx_accepts_iff:
  assumes "length (bssid vif) = 6" and "plain_header h" and "length iv = 16"
    and "length c = n + 16" and "n + 34 < 65536" and "length c \<le> length out"
  shows "wlan_rx_wapi_decryption vif (h @ [keyid, res] @ rev iv @ c @ rest) 24 (of_nat (n + 34)) out
    = Some (if \<not> is_group (drop 4 h) \<and> iv ! 15 AND 1 \<noteq> 1 then (0, False, out)
        else if 3 \<le> unat keyid then (0, True, out)
        else (let p = rx_plain vif h keyid iv c in
          (if rx_mac vif h keyid res iv (take n p) = drop n p then of_nat n else 0, False, p @ drop (length c) out)))"
proof (cases "(\<not> is_group (drop 4 h) \<and> iv ! 15 AND 1 \<noteq> 1) \<or> 3 \<le> unat keyid")
  case True
  show ?thesis
    unfolding wlan_rx_refused [OF assms(1-3) True] using True by auto
next
  case False
  have "of_nat (n + 34) = (of_nat (length c + 18) :: u16)" using assms(4) by simp
  moreover have "wlan_rx_wapi_decryption vif (h @ [keyid, res] @ rev iv @ c @ rest) 24 (of_nat (length c + 18)) out
    = Some (if rx_mac vif h keyid res iv (take n (rx_plain vif h keyid iv c)) = drop n (rx_plain vif h keyid iv c) then of_nat n else 0,
        False, rx_plain vif h keyid iv c @ drop (length c) out)"
    by (rule wlan_rx_frame [OF assms(1-3)]) (use False assms in auto)
  ultimately show ?thesis using False by (simp only: Let_def) auto
qed

definition demo_header :: "u8 list" where
  "demo_header = [0x08, 0x42, 0, 0, 2, 0, 0, 0, 0, 9, 1, 2, 3, 4, 5, 6, 7, 7, 7, 7, 7, 7, 0, 0]"

lemma demo_header_plain: "plain_header demo_header" "drop 4 demo_header = 2 # drop 5 demo_header"
  by (simp_all add: plain_header_def demo_header_def)

theorem wapi_rx_accepts_iff_witness:
  "wlan_rx_wapi_decryption demo_vif (demo_header @ [1, 0] @ rev (replicate 16 1) @ replicate 24 5 @ []) 24
      (of_nat (8 + 34)) (replicate 50 0)
    = Some (if \<not> is_group (drop 4 demo_header) \<and> replicate 16 1 ! 15 AND 1 \<noteq> (1 :: u8) then (0, False, replicate 50 0)
        else if 3 \<le> unat (1 :: u8) then (0, True, replicate 50 0)
        else (let p = rx_plain demo_vif demo_header 1 (replicate 16 1) (replicate 24 5) in
          (if rx_mac demo_vif demo_header 1 0 (replicate 16 1) (take 8 p) = drop 8 p then of_nat 8 else 0,
            False, p @ drop (length (replicate 24 (5 :: u8))) (replicate 50 0))))"
  by (rule wapi_rx_accepts_iff) (simp_all add: demo_header_plain demo_vif_def)

text \<open>A frame as the other side seals it, under the keys it shares with this station.\<close>

definition wapi_frame :: "wapi_vif \<Rightarrow> u8 list \<Rightarrow> u8 \<Rightarrow> u8 \<Rightarrow> u8 list \<Rightarrow> u8 list \<Rightarrow> u8 list" where
  "wapi_frame vif h keyid res iv msdu = h @ [keyid, res] @ rev iv
     @ ofb (SMS4_Run (calculateenkey (rx_key vif h keyid))) iv (msdu @ rx_mac vif h keyid res iv msdu)"

lemma length_rx_mac [simp]: "length (rx_mac vif h keyid res iv msdu) = 16"
  by (simp add: rx_mac_def)

text \<open>
  C32. A sealed frame with the header of 24 bytes (three addresses, no service field), a key index
  below three and, when it is not for a group, an odd initial vector is delivered, if its payload has six
  bytes or more and the frame less than 2^16: the network layer gets its payload behind the addresses,
  with the logical-link header taken off, whatever follows the frame in the block from the chip.
\<close>

theorem wapi_frame_delivered:
  assumes "length (bssid vif) = 6" and "plain_header h" and "length iv = 16" and "unat keyid < 3"
    and "is_group (drop 4 h) \<or> iv ! 15 AND 1 = 1"
    and "6 \<le> length msdu" and "length msdu + 58 < 65536"
  shows "wlan_rx_wapi_process vif (wapi_frame vif h keyid res iv msdu @ rest) (of_nat (length msdu + 58))
    = Some (Some (if take 6 msdu = [0xAA, 0xAA, 0x03, 0, 0, 0]
        then take 6 (drop 4 h) @ take 6 (drop 10 h) @ drop 6 msdu
        else take 6 (drop 16 h) @ take 6 (drop 10 h) @ msdu))"
proof -
  let ?n = "length msdu"
  define c where "c = ofb (SMS4_Run (calculateenkey (rx_key vif h keyid))) iv (msdu @ rx_mac vif h keyid res iv msdu)"
  have cl: "length c = ?n + 16" by (simp add: c_def)
  have l: "length h = 24" using assms(2) by (simp add: plain_header_def)
  have p: "rx_plain vif h keyid iv c = msdu @ rx_mac vif h keyid res iv msdu"
    by (simp add: rx_plain_def c_def)
  have F: "wapi_frame vif h keyid res iv msdu @ rest = h @ [keyid, res] @ rev iv @ c @ rest"
    by (simp add: wapi_frame_def c_def)
  have un: "unat (of_nat ?n :: u16) = ?n" "unat (of_nat (?n + 58) :: u16) = ?n + 58"
    using assms(7) by (intro unat_of_nat_u16; simp)+
  have nz: "(of_nat ?n :: u16) \<noteq> 0" "(of_nat (?n + 58) :: u16) \<noteq> 0"
    using un assms(6) by (metis unat_0 le_zero_eq zero_neq_numeral, metis add_is_0 unat_0 zero_neq_numeral)
  have n34: "of_nat (?n + 58) - 24 = (of_nat (length c + 18) :: u16)" by (simp add: cl)
  let ?out = "replicate (?n + 58 - 12) 0 :: u8 list"
  have rx: "wlan_rx_wapi_decryption vif (h @ [keyid, res] @ rev iv @ c @ rest) 24 (of_nat (length c + 18)) ?out
    = Some (of_nat ?n, False, msdu @ rx_mac vif h keyid res iv msdu @ drop (length c) ?out)"
    using assms cl p
    by (subst wlan_rx_frame [where p = "rx_plain vif h keyid iv c" and n = ?n]) (simp_all)
  have snap: "get_bytes 0 6 (msdu @ rx_mac vif h keyid res iv msdu @ drop (length c) ?out) = Some (take 6 msdu)"
    using assms(6) by (simp add: get_bytes_append)
  have addrs: "get_bytes 4 6 (h @ ys) = Some (take 6 (drop 4 h))" "get_bytes 10 6 (h @ ys) = Some (take 6 (drop 10 h))"
    "get_bytes 16 6 (h @ ys) = Some (take 6 (drop 16 h))" for ys
    using l by (simp_all add: get_bytes_append)
  have with_snap: "get_bytes 0 (?n + 6) (take 6 (drop 4 h) @ take 6 (drop 10 h)
      @ drop 6 (msdu @ rx_mac vif h keyid res iv msdu @ zs)) = Some (take 6 (drop 4 h) @ take 6 (drop 10 h) @ drop 6 msdu)" for zs
    using l assms(6) by (simp add: get_bytes_def)
  have without: "get_bytes 0 (?n + 12) (take 6 (drop 16 h) @ take 6 (drop 10 h)
      @ msdu @ rx_mac vif h keyid res iv msdu @ zs) = Some (take 6 (drop 16 h) @ take 6 (drop 10 h) @ msdu)" for zs
    using l assms(6) by (simp add: get_bytes_def)
  note unfold = wlan_rx_wapi_process_def F n34 un nz if_False if_True rx bind.bind_lunit prod.case snap addrs
    with_snap without
  show ?thesis
  proof (cases "take 6 msdu = [0xAA, 0xAA, 0x03, 0, 0, 0]")
    case True
    then show ?thesis by (simp only: unfold refl)
  next
    case False
    then show ?thesis by (simp only: unfold)
  qed
qed

theorem wapi_frame_delivered_witness:
  "wlan_rx_wapi_process demo_vif
     (wapi_frame demo_vif demo_header 1 0 (replicate 16 1) [0xAA, 0xAA, 0x03, 0, 0, 0, 8, 0, 0x45] @ [0, 0, 0])
     (of_nat (length [0xAA, 0xAA, 0x03, 0, 0, 0, 8, 0, 0x45 :: u8] + 58))
   = Some (Some ([2, 0, 0, 0, 0, 9, 1, 2, 3, 4, 5, 6, 8, 0, 0x45]))"
proof -
  let ?m = "[0xAA, 0xAA, 0x03, 0, 0, 0, 8, 0, 0x45] :: u8 list"
  have "wlan_rx_wapi_process demo_vif (wapi_frame demo_vif demo_header 1 0 (replicate 16 1) ?m @ [0, 0, 0])
     (of_nat (length ?m + 58)) = Some (Some (if take 6 ?m = [0xAA, 0xAA, 0x03, 0, 0, 0]
        then take 6 (drop 4 demo_header) @ take 6 (drop 10 demo_header) @ drop 6 ?m
        else take 6 (drop 16 demo_header) @ take 6 (drop 10 demo_header) @ ?m))"
    by (rule wapi_frame_delivered) (simp_all add: demo_header_plain demo_vif_def)
  then show ?thesis by (simp add: demo_header_def del: of_nat_add)
qed

subsection \<open>Short frames\<close>

lemma length_crypt_loop: "crypt_loop ks input len mic n i p j = Some out \<Longrightarrow> length out = n"
  by (induction n arbitrary: i p j out) (auto simp: Let_def bind_eq_Some_conv split: prod.splits if_splits)

text \<open>
  A frame too short for its own integrity code is not refused: the unsigned lengths wrap
  around and the decryption leaves its buffers, whatever the bytes after the initial vector are.
\<close>

lemma short_wapi_frame_overruns:
  assumes "length (bssid vif) = 6" and "plain_header h" and "unat keyid < 3"
    and "length pn = 16" and "is_group (drop 4 h) \<or> hd pn AND 1 = 1" and "0 < len" and "len < 58"
  shows "wlan_rx_wapi_process vif (h @ [keyid, res] @ pn @ rest) len = None"
proof -
  let ?F = "h @ [keyid, res] @ pn @ rest"
  have l: "length h = 24" using assms(2) by (simp add: plain_header_def)
  have L: "0 < unat len" "unat len < 58" using assms(6,7) by (simp_all add: word_less_nat_alt)
  let ?e = "len - 24 - 1 - 1 - 16" and ?n = "len - 24 - 1 - 1 - 16 - 16"
  let ?out = "replicate (unat len - 12) 0 :: u8 list"
  have n: "unat ?n = 65536 + unat len - 58"
  proof -
    have "?n = len - 58" by simp
    moreover have "unat (len - 58) = (if unat (58 :: u16) \<le> unat len then unat len - unat (58 :: u16)
        else unat len + 2 ^ LENGTH(16) - unat (58 :: u16))"
      by (rule unat_sub_if')
    ultimately show ?thesis using L by simp
  qed
  have at: "byte_at 24 ?F = Some keyid" "byte_at (24 + 1) ?F = Some res"
    using l by (simp_all add: byte_at_def nth_append)
  have pn: "get_bytes (24 + 2) 16 ?F = Some pn" using l assms(4) by (simp add: get_bytes_def)
  have iv: "rev pn ! 15 = hd pn" using assms(4) by (cases pn) (simp_all add: nth_append)
  have out: "put_bytes 0 dec ?out \<bind> (\<lambda>b. get_bytes (unat ?n) 16 b \<bind> f b) = None" for dec f
    using n L by (auto simp: put_bytes_def get_bytes_def bind_eq_None_conv split: if_splits)
  have none: "x \<bind> (\<lambda>dec. put_bytes 0 dec ?out \<bind> (\<lambda>b. get_bytes (unat ?n) 16 b \<bind> f b)) = None" for x f
    by (cases x) (simp_all only: bind.simps out)
  let ?ptk = "[h ! 0 AND 0x8F, h ! 1 AND 0xC7] @ take 6 (drop 4 h) @ bssid vif
      @ [h ! 22 AND 0x0F, 0] @ take 6 (drop 16 h) @ replicate 6 0"
  have group: "is_group (drop 2 ?ptk) = is_group (drop 4 h)"
    using l by (simp add: is_group_def)
  have key: "mget_pkt_key (if is_group (drop 4 h) then group_key vif else pairwise_key vif) keyid
      = Some (rx_key vif h keyid)"
    using assms(3) by (simp add: mget_pkt_key_def rx_key_def)
  have odd: "\<not> (\<not> is_group (drop 4 h) \<and> rev pn ! 15 AND 1 \<noteq> 1)" using assms(5) iv by simp
  have "wlan_rx_wapi_decryption vif ?F 24 (len - 24) ?out = None"
    unfolding wlan_rx_wapi_decryption_def rx_ptk_header_plain [OF assms(2)] Let_def
    by (simp only: bind.bind_lunit prod.case at pn group key odd if_False option.case none)
  then show ?thesis using assms(6) by (simp add: wlan_rx_wapi_process_def)
qed

lemma short_wapi_frame_overruns_witness:
  "wlan_rx_wapi_process demo_vif (demo_header @ [1, 0] @ replicate 16 1 @ replicate 100 0) 50 = None"
  by (rule short_wapi_frame_overruns) (simp_all add: demo_header_plain demo_vif_def)

end
