(* ===== verification/WlanQueue.thy ===== *)
theory WlanQueue
  imports Prelude "HOL-Library.Monad_Syntax"
begin

text \<open>
  The queues of the Wi-Fi driver (\<open>wcn/wifi/sc2331/6.0\<close>): the message queues between the
  network layer and the core thread (\<open>wlan_msg_q.c\<close>), the ring of received blocks and the byte
  ring of messages to the chip (\<open>wlan_fifo.c\<close>), and the loop that moves messages from a queue
  to the byte ring (\<open>wlan_tx\<close> in \<open>wlan_core.c\<close>).

  Locks are left out: each queue has one thread on each side, and the operations are the steps
  that interleave; for the byte ring the reading side is split where it hands its frame to the
  bus. A store outside an array makes an operation return \<open>None\<close>.
\<close>

subsection \<open>Message queues\<close>

record 'm msg_q =
  q_wt :: nat
  q_rd :: nat
  q_mem :: "'m list"        \<comment> \<open>\<open>num\<close> messages of \<open>size\<close> bytes\<close>
  q_num :: nat
  q_wt_cnt :: u32
  q_rd_cnt :: u32

text \<open>\<open>mem\<close> is the memory \<open>kmalloc\<close> returns.\<close>

definition msg_q_alloc :: "'m list option \<Rightarrow> nat \<Rightarrow> 'm msg_q option" where
  "msg_q_alloc mem num = (case mem of
     None \<Rightarrow> None
   | Some m \<Rightarrow> Some \<lparr>q_wt = 0, q_rd = 0, q_mem = m, q_num = num, q_wt_cnt = 0, q_rd_cnt = 0\<rparr>)"

definition msg_q_in :: "'m \<Rightarrow> 'm msg_q \<Rightarrow> 'm msg_q option" where
  "msg_q_in m q =
     (if (q_wt q + 1) mod q_num q = q_rd q then None
      else Some (q\<lparr>q_mem := (q_mem q)[q_wt q := m], q_wt := ring_next (q_num q) (q_wt q),
             q_wt_cnt := q_wt_cnt q + 1\<rparr>))"

definition msg_get :: "'m msg_q \<Rightarrow> 'm option" where
  "msg_get q = (if q_wt q = q_rd q then None else Some (q_mem q ! q_rd q))"

definition msg_free :: "'m msg_q \<Rightarrow> 'm msg_q option" where
  "msg_free q = (if q_rd q = q_wt q then None
     else Some (q\<lparr>q_rd := ring_next (q_num q) (q_rd q), q_rd_cnt := q_rd_cnt q + 1\<rparr>))"

definition msg_num :: "'m msg_q \<Rightarrow> int" where
  "msg_num q = sint (q_wt_cnt q - q_rd_cnt q)"

subsection \<open>The ring of received blocks\<close>

record rxfifo =
  rx_WT :: nat
  rx_RD :: nat
  block_num :: nat
  rx_mem :: "u8 list list"

text \<open>The callback returns a code and what it left in the block.\<close>

definition rx_fifo_in :: "int \<times> u8 list \<Rightarrow> rxfifo \<Rightarrow> int \<times> rxfifo" where
  "rx_fifo_in res f =
    (let full = (if rx_WT f \<ge> rx_RD f then rx_WT f - rx_RD f \<ge> block_num f - 1 else rx_RD f - rx_WT f = 1) in
     if full then (-1, f)
     else (let f = f\<lparr>rx_mem := (rx_mem f)[rx_WT f := snd res]\<rparr> in
       (fst res, if fst res = 0 then f\<lparr>rx_WT := ring_next (block_num f) (rx_WT f)\<rparr> else f)))"

text \<open>The block given to the callback, if any.\<close>

definition rx_fifo_out :: "rxfifo \<Rightarrow> (u8 list \<times> rxfifo) option" where
  "rx_fifo_out f = (if rx_WT f = rx_RD f then None
     else Some (rx_mem f ! rx_RD f, f\<lparr>rx_RD := ring_next (block_num f) (rx_RD f)\<rparr>))"

definition rx_fifo_used :: "rxfifo \<Rightarrow> nat" where
  "rx_fifo_used f = (if rx_WT f \<ge> rx_RD f then rx_WT f - rx_RD f else block_num f - (rx_RD f - rx_WT f))"

definition rx_fifo_alloc :: "u8 list list \<Rightarrow> rxfifo" where
  "rx_fifo_alloc blocks = \<lparr>rx_WT = 0, rx_RD = 0, block_num = 8, rx_mem = blocks\<rparr>"

subsection \<open>The byte ring to the chip\<close>

text \<open>
  A message of the core thread: its header fields, its first slice. Offsets in \<open>fmem\<close> count
  from the start of the allocation; the ring begins behind the room for a frame header of 64
  bytes.
\<close>

record tx_msg =
  mtype :: u8               \<comment> \<open>7 bits\<close>
  mmode :: bool
  msubtype :: u8
  mlen :: u16
  slice :: "u8 list option"

abbreviation (input) HOST_SC2331_CMD :: u8 where "HOST_SC2331_CMD \<equiv> 0"
abbreviation (input) HOST_SC2331_PKT :: u8 where "HOST_SC2331_PKT \<equiv> 2"
abbreviation (input) WIFI_CMD_MAX :: nat where "WIFI_CMD_MAX \<equiv> 53"

definition hdr_bytes :: "tx_msg \<Rightarrow> u8 list" where
  "hdr_bytes m = [mtype m OR (if mmode m then 0x80 else 0), msubtype m] @ le16 (mlen m)"

definition hdr_type :: "u8 list \<Rightarrow> u8" where "hdr_type h = h ! 0 AND 0x7F"
definition hdr_len :: "u8 list \<Rightarrow> nat" where "hdr_len h = unat (from_le16 (drop 2 h))"

definition ALIGN_4BYTE :: "nat \<Rightarrow> nat" where "ALIGN_4BYTE a = (a + 3) div 4 * 4"

definition TX_MSG_HEAD_FILED :: "u8 \<Rightarrow> nat" where
  "TX_MSG_HEAD_FILED t = 4 + (if t = HOST_SC2331_PKT then 34 else 0)"

definition TX_MSG_UNIT_LEN :: "u8 list \<Rightarrow> nat" where
  "TX_MSG_UNIT_LEN h = ALIGN_4BYTE (TX_MSG_HEAD_FILED (hdr_type h) + hdr_len h)"

record txfifo =
  WT :: nat
  RD :: nat
  LASTWT :: "nat option"    \<comment> \<open>\<open>None\<close> is -1\<close>
  fmem :: "u8 list"
  fsize :: nat
  cp2_txRam :: nat
  max_msg_num :: nat
  wt_cnt :: u32
  rd_cnt :: u32
  seq1 :: u32
  seq2 :: u32

definition tx_fifo_alloc :: "u8 list option \<Rightarrow> nat \<Rightarrow> nat \<Rightarrow> txfifo option" where
  "tx_fifo_alloc mem ram num = (case mem of
     None \<Rightarrow> None
   | Some m \<Rightarrow> Some \<lparr>WT = 0, RD = 0, LASTWT = None, fmem = m, fsize = length m - (64 + 1024),
       cp2_txRam = ram, max_msg_num = num, wt_cnt = 0, rd_cnt = 0, seq1 = 0, seq2 = 0\<rparr>)"

text \<open>Where the next message goes, or \<open>TX_FIFO_FULL\<close> (an outer \<open>None\<close>).\<close>

definition tx_place :: "nat \<Rightarrow> txfifo \<Rightarrow> txfifo option" where
  "tx_place unitLen f =
    (if WT f \<ge> RD f then
       (if unitLen > fsize f - WT f then
          (if unitLen + 64 > RD f then None else Some (f\<lparr>LASTWT := Some (WT f), WT := 0\<rparr>))
        else Some f)
     else if unitLen + 64 > RD f - WT f then None else Some f)"

abbreviation (input) TX_OK :: int where "TX_OK \<equiv> 0"
abbreviation (input) TX_FIFO_FULL :: int where "TX_FIFO_FULL \<equiv> -2"
abbreviation (input) HW_WRITE_ERROR :: int where "HW_WRITE_ERROR \<equiv> -4"
abbreviation (input) TX_NOTHING :: int where "TX_NOTHING \<equiv> -5"

definition tx_fifo_in :: "tx_msg \<Rightarrow> txfifo \<Rightarrow> (int \<times> txfifo) option" where
  "tx_fifo_in m f =
    (let h = hdr_bytes m; unitLen = TX_MSG_UNIT_LEN h in
     case tx_place unitLen f of
       None \<Rightarrow> Some (TX_FIFO_FULL, f)
     | Some f \<Rightarrow> do {
         mem \<leftarrow> put_bytes (64 + WT f) h (fmem f);
         mem \<leftarrow> (case slice m of
             None \<Rightarrow> Some mem
           | Some d \<Rightarrow> do {
               d \<leftarrow> get_bytes 0 (unat (mlen m)) d;
               put_bytes (64 + WT f + TX_MSG_HEAD_FILED (hdr_type h)) d mem });
         (mem, sq) \<leftarrow> (if hdr_type h = HOST_SC2331_PKT then do {
             mem \<leftarrow> put_bytes (64 + WT f + 4) (le32 (seq1 f)) mem;
             Some (mem, seq1 f + 1) }
           else Some (mem, seq1 f));
         Some (TX_OK, f\<lparr>fmem := mem, seq1 := sq, wt_cnt := wt_cnt f + 1, WT := WT f + unitLen\<rparr>) })"

text \<open>
  The loop of \<open>tx_fifo_out\<close>: \<open>n\<close> turns left, the read position \<open>pos\<close>, the length so far; it
  returns the position behind the messages taken and their headers.
\<close>

fun tx_collect :: "u8 list \<Rightarrow> nat \<Rightarrow> nat \<Rightarrow> nat \<Rightarrow> nat \<Rightarrow> nat \<Rightarrow> (nat \<times> u8 list list) option" where
  "tx_collect mem ram readMax 0 pos len = Some (pos, [])"
| "tx_collect mem ram readMax (Suc n) pos len =
     (if pos \<ge> readMax then Some (pos, [])
      else do {
        h \<leftarrow> get_bytes (64 + pos) 4 mem;
        (let len = len + TX_MSG_UNIT_LEN h in
         if len \<ge> ram then Some (pos, [])
         else if hdr_type h > 2 \<or> unat (h ! 1) \<ge> WIFI_CMD_MAX then Some (pos, [])
         else do {
           (to, hs) \<leftarrow> tx_collect mem ram readMax n (pos + TX_MSG_UNIT_LEN h) len;
           Some (to, h # hs) }) })"

text \<open>The jump back to \<open>restart\<close> when everything up to the mark of the writer was read.\<close>

definition tx_rewind :: "txfifo \<Rightarrow> txfifo" where
  "tx_rewind f = (if RD f \<noteq> WT f \<and> WT f < RD f \<and> LASTWT f = Some (RD f)
     then f\<lparr>RD := 0, LASTWT := None\<rparr> else f)"

text \<open>
  What the reading side keeps while the bus works: offsets, the length of the frame and the number
  of messages in it.
\<close>

record tx_pending =
  p_wt :: nat
  p_readMax :: nat
  p_from :: nat
  p_readTo :: nat
  p_num :: nat
  p_len :: nat

text \<open>
  \<open>tx_big_hdr_t\<close>: mode, number of messages, length, up to 14 headers and the counter the bus
  driver fills in.
\<close>

definition big_hdr :: "u8 \<Rightarrow> nat \<Rightarrow> nat \<Rightarrow> u8 list list \<Rightarrow> u8 list option" where
  "big_hdr netif_id num len hs =
    (if num \<le> 14 then Some ([netif_id, of_nat num] @ le16 (of_nat len) @ concat hs @ replicate (4 * (14 - num)) 0 @ replicate 4 0)
     else None)"

definition tx_out_begin :: "u8 \<Rightarrow> txfifo \<Rightarrow> (tx_pending \<times> txfifo) option" where
  "tx_out_begin netif_id f =
    (let f = tx_rewind f; wt = WT f;
         readMax = (if RD f = wt \<or> wt < RD f then (case LASTWT f of None \<Rightarrow> 0 | Some l \<Rightarrow> l) else wt) in do {
       mem \<leftarrow> put_bytes (RD f) (replicate 64 0) (fmem f);
       (readTo, hs) \<leftarrow> tx_collect mem (cp2_txRam f) readMax (max_msg_num f) (RD f) 64;
       (let len = 64 + (readTo - RD f) in do {
          big \<leftarrow> big_hdr netif_id (length hs) len hs;
          mem \<leftarrow> put_bytes (RD f) big mem;
          Some (\<lparr>p_wt = wt, p_readMax = readMax, p_from = RD f, p_readTo = readTo, p_num = length hs, p_len = len\<rparr>,
                f\<lparr>fmem := mem, seq2 := seq2 f + of_nat (length (filter (\<lambda>h. hdr_type h = HOST_SC2331_PKT) hs))\<rparr>) }) })"

text \<open>The rest, with the result of the bus if the frame had a message.\<close>

definition tx_out_sends :: "tx_pending \<Rightarrow> bool" where
  "tx_out_sends p \<longleftrightarrow> p_len p \<ge> 64 + 4"

definition tx_out_end :: "int option \<Rightarrow> tx_pending \<Rightarrow> txfifo \<Rightarrow> int \<times> txfifo" where
  "tx_out_end bus p f =
    (if bus \<noteq> None \<and> bus \<noteq> Some TX_OK then (HW_WRITE_ERROR, f)
     else (if bus = None then TX_NOTHING else TX_OK,
       (if RD f > p_wt p \<and> p_readTo p \<le> p_readMax p \<and> p_readMax p - p_readTo p < 4 then f\<lparr>RD := 0, LASTWT := None\<rparr>
        else f\<lparr>RD := p_readTo p\<rparr>)\<lparr>rd_cnt := rd_cnt f + of_nat (p_num p)\<rparr>))"

text \<open>\<open>pfunc\<close> gets the offset and the length of the frame and may change the memory.\<close>

definition tx_fifo_out :: "u8 \<Rightarrow> (nat \<Rightarrow> nat \<Rightarrow> u8 list \<Rightarrow> (int \<times> u8 list \<times> 'x) option) \<Rightarrow> txfifo
    \<Rightarrow> (int \<times> nat \<times> 'x option \<times> txfifo) option" where
  "tx_fifo_out netif_id pfunc f = do {
     (p, f) \<leftarrow> tx_out_begin netif_id f;
     (if tx_out_sends p then do {
        (bus, mem, x) \<leftarrow> pfunc (p_from p) (p_len p) (fmem f);
        (case tx_out_end (Some bus) p (f\<lparr>fmem := mem\<rparr>) of (ret, f) \<Rightarrow> Some (ret, p_num p, Some x, f)) }
      else (case tx_out_end None p f of (ret, f) \<Rightarrow> Some (ret, p_num p, None, f))) }"

text \<open>
  The bus driver: whether the chip has stopped, whether the write succeeds, the counter of frames,
  the frame in memory. It returns what goes over the bus, rounded up to 1024 bytes.
\<close>

definition hw_tx_len :: "nat \<Rightarrow> nat" where
  "hw_tx_len len = unat ((of_nat len + 1023 :: u32) AND 0xFC00)"

definition hw_tx :: "bool \<Rightarrow> bool \<Rightarrow> u32 \<Rightarrow> nat \<Rightarrow> nat \<Rightarrow> u8 list \<Rightarrow> (int \<times> u8 list \<times> u8 list option \<times> u32) option" where
  "hw_tx stopped ok tx_cnt buf len mem = do {
     n \<leftarrow> get_bytes (buf + 1) 1 mem;
     (if 12 < unat (hd n) \<or> hd n = 0 then Some (-1, mem, None, tx_cnt)
      else do {
        mem \<leftarrow> put_bytes (buf + 60) (le32 tx_cnt) mem;
        (if stopped then Some (-1, mem, None, tx_cnt)
         else do {
           out \<leftarrow> get_bytes buf (hw_tx_len len) mem;
           Some (if ok then (TX_OK, mem, Some out, tx_cnt + 1) else (HW_WRITE_ERROR, mem, None, tx_cnt)) }) }) }"

definition tx_fifo_in_pkt :: "txfifo \<Rightarrow> u32" where
  "tx_fifo_in_pkt f = wt_cnt f - rd_cnt f"

definition tx_fifo_used :: "txfifo \<Rightarrow> nat" where
  "tx_fifo_used f = (case LASTWT f of None \<Rightarrow> WT f - RD f | Some l \<Rightarrow> (l - RD f) + WT f)"

subsection \<open>From the queue to the ring\<close>

text \<open>
  \<open>wlan_tx\<close>: the number of messages moved, or the code of the last attempt (-1 when there was
  none). The message in the queue is cleared before its slot is given back.
\<close>

definition msg_clear :: "tx_msg msg_q \<Rightarrow> tx_msg msg_q" where
  "msg_clear q = q\<lparr>q_mem := (q_mem q)[q_rd q :=
     \<lparr>mtype = 0, mmode = False, msubtype = 0, mlen = 0, slice = None\<rparr>]\<rparr>"

fun wlan_tx_loop :: "nat \<Rightarrow> nat \<Rightarrow> int \<Rightarrow> txfifo \<Rightarrow> tx_msg msg_q \<Rightarrow> (nat \<times> int \<times> txfifo \<times> tx_msg msg_q) option" where
  "wlan_tx_loop 0 tx_cnt ret f q = Some (tx_cnt, ret, f, q)"
| "wlan_tx_loop (Suc n) tx_cnt ret f q =
     (case msg_get q of
        None \<Rightarrow> Some (tx_cnt, ret, f, q)
      | Some m \<Rightarrow> do {
          (ret, f) \<leftarrow> tx_fifo_in m f;
          (if ret = TX_FIFO_FULL then Some (tx_cnt, ret, f, q)
           else do {
             q \<leftarrow> msg_free (msg_clear q);
             wlan_tx_loop n (tx_cnt + 1) ret f q }) })"

definition wlan_tx :: "nat \<Rightarrow> txfifo \<Rightarrow> tx_msg msg_q \<Rightarrow> (int \<times> txfifo \<times> tx_msg msg_q) option" where
  "wlan_tx cnt f q = do {
     (tx_cnt, ret, f, q) \<leftarrow> wlan_tx_loop cnt 0 (-1) f q;
     Some (if tx_cnt \<noteq> 0 then int tx_cnt else ret, f, q) }"

subsection \<open>The rings of slots\<close>

definition msg_q_wf :: "'m msg_q \<Rightarrow> bool" where
  "msg_q_wf q \<longleftrightarrow> length (q_mem q) = q_num q \<and> q_wt q < q_num q \<and> q_rd q < q_num q"

definition msg_q_contents :: "'m msg_q \<Rightarrow> 'm list" where
  "msg_q_contents q = map ((!) (q_mem q)) (ring_slots (q_num q) (q_rd q) (q_wt q))"

definition msg_q_out :: "'m msg_q \<Rightarrow> ('m \<times> 'm msg_q) option" where
  "msg_q_out q = do { m \<leftarrow> msg_get q; q \<leftarrow> msg_free q; Some (m, q) }"

lemma map_nth_update: "i \<notin> set is \<Longrightarrow> map ((!) (xs[i := x])) is = map ((!) xs) is"
proof (rule map_cong [OF refl])
  fix j assume "i \<notin> set is" "j \<in> set is"
  then have "i \<noteq> j" by blast
  then show "xs[i := x] ! j = xs ! j" by (rule nth_list_update_neq)
qed

lemma msg_q_in_law:
  assumes "msg_q_wf q" and "msg_q_in m q = Some q'"
  shows "msg_q_wf q' \<and> msg_q_contents q' = msg_q_contents q @ [m]"
proof -
  from assms have n: "ring_next (q_num q) (q_wt q) \<noteq> q_rd q"
    and q': "q' = q\<lparr>q_mem := (q_mem q)[q_wt q := m], q_wt := ring_next (q_num q) (q_wt q), q_wt_cnt := q_wt_cnt q + 1\<rparr>"
    by (auto simp: msg_q_in_def msg_q_wf_def ring_next_mod split: if_splits)
  then show ?thesis
    using assms(1) ring_slots_put [of "q_rd q" "q_num q" "q_wt q"] ring_slots_free [of "q_rd q" "q_num q" "q_wt q"]
    by (auto simp: msg_q_wf_def msg_q_contents_def ring_next_less map_nth_update simp del: list_update_beyond)
qed

lemma msg_q_get_law:
  assumes "msg_q_wf q"
  shows "msg_get q = (case msg_q_contents q of [] \<Rightarrow> None | m # _ \<Rightarrow> Some m)"
  using assms ring_slots_empty [of "q_rd q" "q_num q" "q_wt q"] ring_slots_get [of "q_rd q" "q_num q" "q_wt q"]
  by (cases "q_rd q = q_wt q") (auto simp: msg_get_def msg_q_wf_def msg_q_contents_def)

lemma msg_q_free_law:
  assumes "msg_q_wf q" and "msg_free q = Some q'"
  shows "msg_q_wf q' \<and> msg_q_contents q' = tl (msg_q_contents q)"
  using assms ring_slots_get [of "q_rd q" "q_num q" "q_wt q"]
  by (auto simp: msg_free_def msg_q_wf_def msg_q_contents_def ring_next_less split: if_splits)

lemma msg_q_out_empty: "msg_q_wf q \<Longrightarrow> (msg_q_out q = None) = (msg_q_contents q = [])"
  using ring_slots_empty [of "q_rd q" "q_num q" "q_wt q"]
  by (auto simp: msg_q_out_def msg_free_def msg_get_def msg_q_wf_def msg_q_contents_def)

lemma msg_q_out_law:
  assumes "msg_q_wf q" and "msg_q_out q = Some (m, q')"
  shows "msg_q_wf q' \<and> msg_q_contents q = m # msg_q_contents q'"
  using assms msg_q_free_law [OF assms(1)]
  by (auto simp: msg_q_out_def msg_q_get_law split: list.splits option.splits bind_splits)

interpretation wlan_msg_q: fifo msg_q_in msg_q_out msg_q_contents msg_q_wf
  by unfold_locales (erule (1) msg_q_in_law, erule msg_q_out_empty, erule (1) msg_q_out_law)

lemma msg_q_alloc_empty:
  "msg_q_alloc (Some mem) num = Some q \<Longrightarrow> length mem = num \<Longrightarrow> 0 < num \<Longrightarrow> msg_q_wf q \<and> msg_q_contents q = []"
  by (auto simp: msg_q_alloc_def msg_q_wf_def msg_q_contents_def ring_slots_def)

text \<open>The ring of received blocks, with a bus that delivered a block.\<close>

definition rx_wf :: "rxfifo \<Rightarrow> bool" where
  "rx_wf f \<longleftrightarrow> length (rx_mem f) = block_num f \<and> rx_WT f < block_num f \<and> rx_RD f < block_num f"

definition rx_contents :: "rxfifo \<Rightarrow> u8 list list" where
  "rx_contents f = map ((!) (rx_mem f)) (ring_slots (block_num f) (rx_RD f) (rx_WT f))"

definition rx_put :: "u8 list \<Rightarrow> rxfifo \<Rightarrow> rxfifo option" where
  "rx_put b f = (case rx_fifo_in (0, b) f of (ret, f) \<Rightarrow> if ret = 0 then Some f else None)"

lemma rx_full_iff:
  assumes "rx_wf f"
  shows "(if rx_WT f \<ge> rx_RD f then rx_WT f - rx_RD f \<ge> block_num f - 1 else rx_RD f - rx_WT f = 1)
    \<longleftrightarrow> ring_next (block_num f) (rx_WT f) = rx_RD f"
  using assms by (auto simp: rx_wf_def ring_next_def)

lemma rx_put_law:
  assumes "rx_wf f" and "rx_put b f = Some f'"
  shows "rx_wf f' \<and> rx_contents f' = rx_contents f @ [b]"
proof -
  from assms have n: "ring_next (block_num f) (rx_WT f) \<noteq> rx_RD f"
    and f': "f' = f\<lparr>rx_mem := (rx_mem f)[rx_WT f := b], rx_WT := ring_next (block_num f) (rx_WT f)\<rparr>"
    unfolding rx_put_def rx_fifo_in_def Let_def rx_full_iff [OF assms(1)] by (auto split: if_splits)
  then show ?thesis
    using assms(1) ring_slots_put [of "rx_RD f" "block_num f" "rx_WT f"] ring_slots_free [of "rx_RD f" "block_num f" "rx_WT f"]
    by (auto simp: rx_wf_def rx_contents_def ring_next_less map_nth_update simp del: list_update_beyond)
qed

lemma rx_out_empty: "rx_wf f \<Longrightarrow> (rx_fifo_out f = None) = (rx_contents f = [])"
  using ring_slots_empty [of "rx_RD f" "block_num f" "rx_WT f"]
  by (auto simp: rx_fifo_out_def rx_wf_def rx_contents_def)

lemma rx_out_law:
  assumes "rx_wf f" and "rx_fifo_out f = Some (b, f')"
  shows "rx_wf f' \<and> rx_contents f = b # rx_contents f'"
  using assms ring_slots_get [of "rx_RD f" "block_num f" "rx_WT f"]
  by (auto simp: rx_fifo_out_def rx_wf_def rx_contents_def ring_next_less split: if_splits)

interpretation wlan_rx_fifo: fifo rx_put rx_fifo_out rx_contents rx_wf
  by unfold_locales (erule (1) rx_put_law, erule rx_out_empty, erule (1) rx_out_law)

lemma rx_fifo_used_contents: "rx_wf f \<Longrightarrow> rx_fifo_used f = length (rx_contents f)"
  by (auto simp: rx_fifo_used_def rx_contents_def rx_wf_def ring_slots_def ring_distance)

subsection \<open>Units of the byte ring\<close>

lemma ALIGN_4BYTE_ge: "a \<le> ALIGN_4BYTE a"
  unfolding ALIGN_4BYTE_def by linarith

lemma unit_len_ge: "TX_MSG_HEAD_FILED (hdr_type h) + hdr_len h \<le> TX_MSG_UNIT_LEN h"
  using ALIGN_4BYTE_ge [of "TX_MSG_HEAD_FILED (hdr_type h) + hdr_len h"] by (simp add: TX_MSG_UNIT_LEN_def)

lemma unit_len_ge4: "4 \<le> TX_MSG_UNIT_LEN h"
  using unit_len_ge [of h] by (simp add: TX_MSG_HEAD_FILED_def)

lemma unit_len_pkt: "hdr_type h = HOST_SC2331_PKT \<Longrightarrow> 8 \<le> TX_MSG_UNIT_LEN h"
  using unit_len_ge [of h] by (simp add: TX_MSG_HEAD_FILED_def)

lemma length_hdr_bytes [simp]: "length (hdr_bytes m) = 4"
  by (simp add: hdr_bytes_def)

lemma hdr_len_bytes [simp]: "hdr_len (hdr_bytes m) = unat (mlen m)"
  using from_le16_le16 [of "mlen m" "[]"] by (simp add: hdr_len_def hdr_bytes_def)

definition is_unit :: "u8 list \<Rightarrow> bool" where
  "is_unit u \<longleftrightarrow> 4 \<le> length u \<and> length u = TX_MSG_UNIT_LEN (take 4 u)"

text \<open>A unit holds a message: its header, and its data behind the room for the packet's number.\<close>

definition carries :: "tx_msg \<Rightarrow> u8 list \<Rightarrow> bool" where
  "carries m u \<longleftrightarrow> take 4 u = hdr_bytes m \<and> length u = TX_MSG_UNIT_LEN (hdr_bytes m) \<and>
     (case slice m of None \<Rightarrow> True
      | Some d \<Rightarrow> take (unat (mlen m)) (drop (TX_MSG_HEAD_FILED (hdr_type (hdr_bytes m))) u) = take (unat (mlen m)) d)"

lemma carries_unit: "carries m u \<Longrightarrow> is_unit u"
  using unit_len_ge4 [of "hdr_bytes m"] by (simp add: carries_def is_unit_def)

text \<open>Stores within \<open>[a, b)\<close>, and the bytes \<open>[a, b)\<close> of the ring.\<close>

definition stores :: "nat \<Rightarrow> nat \<Rightarrow> 'a list \<Rightarrow> 'a list \<Rightarrow> bool" where
  "stores a b mem mem' \<longleftrightarrow> length mem' = length mem \<and> (\<forall>k. k < length mem \<longrightarrow> k < a \<or> b \<le> k \<longrightarrow> mem' ! k = mem ! k)"

definition seg :: "u8 list \<Rightarrow> nat \<Rightarrow> nat \<Rightarrow> u8 list" where
  "seg mem a b = take (b - a) (drop (64 + a) mem)"

lemma stores_refl [simp]: "stores a b mem mem"
  by (simp add: stores_def)

lemma stores_trans: "stores a b m1 m2 \<Longrightarrow> stores a b m2 m3 \<Longrightarrow> stores a b m1 m3"
  by (auto simp: stores_def)

lemma stores_put: "put_bytes i xs mem = Some mem' \<Longrightarrow> a \<le> i \<Longrightarrow> i + length xs \<le> b \<Longrightarrow> stores a b mem mem'"
  by (auto simp: stores_def put_bytes_nth put_bytes_length)

lemma stores_get:
  assumes "stores a b mem mem'" and "i + n \<le> a \<or> b \<le> i"
  shows "get_bytes i n mem' = get_bytes i n mem"
proof (cases "i + n \<le> length mem")
  case True
  then have "take n (drop i mem') = take n (drop i mem)"
    using assms by (intro nth_equalityI) (auto simp: stores_def)
  with assms(1) show ?thesis by (simp add: get_bytes_def stores_def)
qed (use assms(1) in \<open>simp add: get_bytes_def stores_def\<close>)

lemma seg_get: "a \<le> b \<Longrightarrow> 64 + b \<le> length mem \<Longrightarrow> get_bytes (64 + a) (b - a) mem = Some (seg mem a b)"
  by (simp add: get_bytes_def seg_def)

lemma stores_seg:
  assumes "stores i j mem mem'" and "64 + b \<le> length mem" and "64 + b \<le> i \<or> j \<le> 64 + a"
  shows "seg mem' a b = seg mem a b"
proof (cases "a \<le> b")
  case True
  from assms(1) have "length mem' = length mem" by (simp add: stores_def)
  moreover have "get_bytes (64 + a) (b - a) mem' = get_bytes (64 + a) (b - a) mem"
    using assms True by (intro stores_get) auto
  ultimately show ?thesis using seg_get [OF True] assms(2) by simp
qed (simp add: seg_def)

lemma length_seg: "64 + b \<le> length mem \<Longrightarrow> length (seg mem a b) = b - a"
  by (simp add: seg_def)

lemma seg_split: "a \<le> b \<Longrightarrow> b \<le> c \<Longrightarrow> seg mem a c = seg mem a b @ seg mem b c"
  using take_add [of "b - a" "c - b" "drop (64 + a) mem"] by (simp add: seg_def add.commute)

lemma seg_same [simp]: "seg mem a a = []"
  by (simp add: seg_def)

subsection \<open>What the byte ring holds\<close>

definition tx_end :: "txfifo \<Rightarrow> nat" where
  "tx_end f = (case LASTWT f of None \<Rightarrow> WT f | Some l \<Rightarrow> l)"

text \<open>
  The ring holds the units \<open>us\<close> from the read position to the end or to the mark, and the units
  \<open>vs\<close> behind its start once the writer has gone round.
\<close>

definition tx_holds :: "txfifo \<Rightarrow> u8 list list \<Rightarrow> u8 list list \<Rightarrow> bool" where
  "tx_holds f us vs \<longleftrightarrow> length (fmem f) = 64 + fsize f + 1024 \<and> RD f \<le> tx_end f \<and> tx_end f \<le> fsize f \<and>
     (if LASTWT f = None then vs = [] else WT f + 64 \<le> RD f \<and> concat vs = seg (fmem f) 0 (WT f)) \<and>
     concat us = seg (fmem f) (RD f) (tx_end f) \<and> list_all is_unit (us @ vs)"

lemma tx_fifo_alloc_holds:
  "tx_fifo_alloc (Some mem) ram num = Some f \<Longrightarrow> 1088 \<le> length mem \<Longrightarrow> tx_holds f [] []"
  by (auto simp: tx_fifo_alloc_def tx_holds_def tx_end_def)

text \<open>Where a message goes: three cases.\<close>

lemma tx_place_cases:
  assumes "tx_holds f us vs" and "tx_place n f = Some g"
  obtains (go_on) "g = f" "LASTWT f = None" "WT f + n \<le> fsize f"
  | (wrap) "g = f\<lparr>LASTWT := Some (WT f), WT := 0\<rparr>" "LASTWT f = None" "n + 64 \<le> RD f"
  | (behind) l where "g = f" "LASTWT f = Some l" "WT f + n + 64 \<le> RD f"
proof (cases "LASTWT f")
  case None
  then show ?thesis using assms go_on wrap by (auto simp: tx_holds_def tx_end_def tx_place_def split: if_splits)
next
  case (Some l)
  then show ?thesis using assms behind by (auto simp: tx_holds_def tx_end_def tx_place_def split: if_splits)
qed

text \<open>What the stores of \<open>tx_fifo_in\<close> leave.\<close>

lemma tx_fifo_in_stores:
  assumes "tx_place (TX_MSG_UNIT_LEN (hdr_bytes m)) f = Some g"
    and "64 + WT g + TX_MSG_UNIT_LEN (hdr_bytes m) \<le> length (fmem g)"
    and "case slice m of None \<Rightarrow> True | Some d \<Rightarrow> unat (mlen m) \<le> length d"
  obtains mem sq where
    "tx_fifo_in m f = Some (TX_OK, g\<lparr>fmem := mem, seq1 := sq, wt_cnt := wt_cnt g + 1,
       WT := WT g + TX_MSG_UNIT_LEN (hdr_bytes m)\<rparr>)"
    "stores (64 + WT g) (64 + WT g + TX_MSG_UNIT_LEN (hdr_bytes m)) (fmem g) mem"
    "carries m (seg mem (WT g) (WT g + TX_MSG_UNIT_LEN (hdr_bytes m)))"
proof -
  let ?h = "hdr_bytes m" let ?u = "TX_MSG_UNIT_LEN ?h" let ?a = "64 + WT g" let ?n = "unat (mlen m)"
  let ?p = "TX_MSG_HEAD_FILED (hdr_type ?h)"
  have pu: "?p + ?n \<le> ?u" using unit_len_ge [of ?h] by simp
  have p4: "4 \<le> ?p" by (simp add: TX_MSG_HEAD_FILED_def)
  obtain m1 where m1: "put_bytes ?a ?h (fmem g) = Some m1"
    using assms(2) unit_len_ge4 [of ?h] by (cases "put_bytes ?a ?h (fmem g)") (auto simp: put_bytes_eq_None)
  have s1: "stores ?a (?a + ?u) (fmem g) m1" and l1: "length m1 = length (fmem g)"
    using stores_put [OF m1] put_bytes_length [OF m1] unit_len_ge4 [of ?h] by auto
  have h1: "get_bytes ?a 4 m1 = Some ?h" using get_put_same [OF m1] by simp
  obtain m2 where m2: "(case slice m of None \<Rightarrow> Some m1 | Some d \<Rightarrow> do {
        d \<leftarrow> get_bytes 0 ?n d; put_bytes (?a + ?p) d m1 }) = Some m2"
      and s2: "stores ?a (?a + ?u) m1 m2" and h2: "get_bytes ?a 4 m2 = Some ?h"
      and d2: "case slice m of None \<Rightarrow> True | Some d \<Rightarrow> get_bytes (?a + ?p) ?n m2 = Some (take ?n d)"
  proof (cases "slice m")
    case None
    with that [of m1] h1 show ?thesis by simp
  next
    case (Some d)
    have g: "get_bytes 0 ?n d = Some (take ?n d)" and ld: "length (take ?n d) = ?n"
      using assms(3) Some by (auto simp: get_bytes_def)
    obtain m2 where m2: "put_bytes (?a + ?p) (take ?n d) m1 = Some m2"
      using assms(2) pu ld l1 by (cases "put_bytes (?a + ?p) (take ?n d) m1") (auto simp: put_bytes_eq_None)
    show ?thesis
    proof (rule that [of m2])
      show "stores ?a (?a + ?u) m1 m2" using stores_put [OF m2] pu ld by simp
      show "get_bytes ?a 4 m2 = Some ?h" using get_put_before [OF m2, of ?a 4] p4 h1 by simp
      show "case slice m of None \<Rightarrow> True | Some d \<Rightarrow> get_bytes (?a + ?p) ?n m2 = Some (take ?n d)"
        using get_put_same [OF m2] Some ld by simp
    qed (use Some g m2 in simp)
  qed
  have l2: "length m2 = length (fmem g)" using s2 l1 by (simp add: stores_def)
  obtain m3 sq where m3: "(if hdr_type ?h = HOST_SC2331_PKT then do {
        mem \<leftarrow> put_bytes (?a + 4) (le32 (seq1 g)) m2; Some (mem, seq1 g + 1) } else Some (m2, seq1 g)) = Some (m3, sq)"
      and s3: "stores ?a (?a + ?u) m2 m3" and h3: "get_bytes ?a 4 m3 = Some ?h"
      and d3: "get_bytes (?a + ?p) ?n m3 = get_bytes (?a + ?p) ?n m2"
  proof (cases "hdr_type ?h = HOST_SC2331_PKT")
    case False
    with that [of m2 "seq1 g"] h2 show ?thesis by simp
  next
    case True
    obtain m3 where m3: "put_bytes (?a + 4) (le32 (seq1 g)) m2 = Some m3"
      using assms(2) unit_len_pkt [OF True] l2 by (cases "put_bytes (?a + 4) (le32 (seq1 g)) m2") (auto simp: put_bytes_eq_None)
    show ?thesis
    proof (rule that [of m3 "seq1 g + 1"])
      show "stores ?a (?a + ?u) m2 m3" using stores_put [OF m3] unit_len_pkt [OF True] by simp
      show "get_bytes ?a 4 m3 = Some ?h" using get_put_before [OF m3, of ?a 4] h2 by simp
      show "get_bytes (?a + ?p) ?n m3 = get_bytes (?a + ?p) ?n m2"
        using get_put_after [OF m3, of "?a + ?p" ?n] True by (simp add: TX_MSG_HEAD_FILED_def)
    qed (use True m3 in simp)
  qed
  have l3: "length m3 = length (fmem g)" using s3 l2 by (simp add: stores_def)
  show ?thesis
  proof (rule that [of sq m3])
    show "tx_fifo_in m f = Some (TX_OK, g\<lparr>fmem := m3, seq1 := sq, wt_cnt := wt_cnt g + 1, WT := WT g + ?u\<rparr>)"
      using assms(1) m1 m2 m3 by (simp add: tx_fifo_in_def Let_def)
    show "stores ?a (?a + ?u) (fmem g) m3" using s1 s2 s3 by (blast intro: stores_trans)
    have "take 4 (drop ?a m3) = ?h" using h3 by (simp add: get_bytes_def split: if_splits)
    moreover have "case slice m of None \<Rightarrow> True | Some d \<Rightarrow> take ?n (drop (?a + ?p) m3) = take ?n d"
      using d2 d3 by (auto simp: get_bytes_def split: option.splits if_splits)
    ultimately show "carries m (seg m3 (WT g) (WT g + ?u))"
      using assms(2) l3 pu unit_len_ge4 [of ?h]
      by (auto simp: carries_def seg_def min_def drop_take add_ac split: option.splits)
  qed
qed

text \<open>The writer leaves alone what the reading side works on.\<close>

definition tx_kept :: "txfifo \<Rightarrow> txfifo \<Rightarrow> bool" where
  "tx_kept f f' \<longleftrightarrow> RD f' = RD f \<and> (LASTWT f \<noteq> None \<longrightarrow> LASTWT f' = LASTWT f) \<and> fsize f' = fsize f \<and>
     cp2_txRam f' = cp2_txRam f \<and> max_msg_num f' = max_msg_num f \<and>
     (\<forall>n. RD f + n \<le> 64 + tx_end f \<longrightarrow> get_bytes (RD f) n (fmem f') = get_bytes (RD f) n (fmem f))"

definition slice_ok :: "tx_msg \<Rightarrow> bool" where
  "slice_ok m \<longleftrightarrow> (case slice m of None \<Rightarrow> True | Some d \<Rightarrow> unat (mlen m) \<le> length d)"

lemma tx_fifo_in_holds:
  assumes h: "tx_holds f us vs" and m: "slice_ok m"
  obtains (full) "tx_fifo_in m f = Some (TX_FIFO_FULL, f)"
  | (taken) f' u where "tx_fifo_in m f = Some (TX_OK, f')" "carries m u" "tx_kept f f'"
      "(vs = [] \<and> tx_holds f' (us @ [u]) vs) \<or> tx_holds f' us (vs @ [u])"
proof (cases "tx_place (TX_MSG_UNIT_LEN (hdr_bytes m)) f")
  case None
  then show ?thesis using full by (simp add: tx_fifo_in_def Let_def)
next
  case (Some g)
  let ?n = "TX_MSG_UNIT_LEN (hdr_bytes m)"
  have m': "case slice m of None \<Rightarrow> True | Some d \<Rightarrow> unat (mlen m) \<le> length d" using m by (simp add: slice_ok_def)
  have fits: "64 + WT g + ?n \<le> length (fmem g)"
    by (rule tx_place_cases [OF h Some]) (use h in \<open>auto simp: tx_holds_def tx_end_def\<close>)
  obtain mem sq where in': "tx_fifo_in m f = Some (TX_OK, g\<lparr>fmem := mem, seq1 := sq, wt_cnt := wt_cnt g + 1, WT := WT g + ?n\<rparr>)"
    and st: "stores (64 + WT g) (64 + WT g + ?n) (fmem g) mem"
    and u: "carries m (seg mem (WT g) (WT g + ?n))"
    by (rule tx_fifo_in_stores [OF Some fits m'])
  let ?f' = "g\<lparr>fmem := mem, seq1 := sq, wt_cnt := wt_cnt g + 1, WT := WT g + ?n\<rparr>"
  have len: "length mem = length (fmem g)" using st by (simp add: stores_def)
  show ?thesis
    using h Some
  proof (cases rule: tx_place_cases)
    case go_on
    have fr: "seg mem (RD f) (WT f) = seg (fmem f) (RD f) (WT f)"
      using stores_seg [OF st, of "WT f" "RD f"] go_on h by (simp add: tx_holds_def)
    have kept: "tx_kept f ?f'"
      using go_on stores_get [OF st, of "RD f"] by (auto simp: tx_kept_def tx_end_def)
    have "tx_holds ?f' (us @ [seg mem (WT g) (WT g + ?n)]) vs"
      using h go_on len fr carries_unit [OF u] seg_split [of "RD f" "WT f" "WT f + ?n" mem]
      by (auto simp: tx_holds_def tx_end_def)
    with taken [OF in' u kept] h go_on show ?thesis by (auto simp: tx_holds_def)
  next
    case wrap
    have fr: "seg mem (RD f) (WT f) = seg (fmem f) (RD f) (WT f)"
      using stores_seg [OF st, of "WT f" "RD f"] wrap h by (simp add: tx_holds_def tx_end_def)
    have kept: "tx_kept f ?f'"
      using wrap stores_get [OF st, of "RD f"] by (auto simp: tx_kept_def tx_end_def)
    have "tx_holds ?f' us (vs @ [seg mem (WT g) (WT g + ?n)])"
      using h wrap len fr carries_unit [OF u] by (auto simp: tx_holds_def tx_end_def)
    with taken [OF in' u kept] show ?thesis by auto
  next
    case (behind l)
    have fr: "seg mem (RD f) l = seg (fmem f) (RD f) l" "seg mem 0 (WT f) = seg (fmem f) 0 (WT f)"
      using stores_seg [OF st, of l "RD f"] stores_seg [OF st, of "WT f" 0] behind h
      by (auto simp: tx_holds_def tx_end_def)
    have kept: "tx_kept f ?f'"
      using behind stores_get [OF st, of "RD f"] by (auto simp: tx_kept_def tx_end_def)
    have "tx_holds ?f' us (vs @ [seg mem (WT g) (WT g + ?n)])"
      using h behind len fr carries_unit [OF u] seg_split [of 0 "WT f" "WT f + ?n" mem]
      by (auto simp: tx_holds_def tx_end_def)
    with taken [OF in' u kept] show ?thesis by auto
  qed
qed

subsection \<open>What the reading side takes\<close>

lemma units_nonempty: "list_all is_unit us \<Longrightarrow> concat us = [] \<longleftrightarrow> us = []"
  by (cases us) (auto simp: is_unit_def)

text \<open>A message the loop does not stop at.\<close>

definition chip_takes :: "nat \<Rightarrow> u8 list \<Rightarrow> bool" where
  "chip_takes room u \<longleftrightarrow> hdr_type (take 4 u) \<le> 2 \<and> unat (take 4 u ! 1) < WIFI_CMD_MAX \<and> length u < room"

text \<open>The loop takes the first messages of the stretch, as many as the frame has room for.\<close>

lemma tx_collect_units:
  assumes "concat us = seg mem pos readMax" and "list_all is_unit us"
    and "pos \<le> readMax" and "64 + readMax \<le> length mem" and "len < ram"
  obtains k where "tx_collect mem ram readMax n pos len = Some (pos + length (concat (take k us)), map (take 4) (take k us))"
    and "k \<le> length us" and "k \<le> n" and "len + length (concat (take k us)) < ram"
    and "us \<noteq> [] \<Longrightarrow> n \<noteq> 0 \<Longrightarrow> k \<noteq> 0 \<longleftrightarrow> chip_takes (ram - len) (hd us)"
  using assms
proof (induction n arbitrary: us pos len thesis)
  case 0
  show ?case by (rule 0(1) [of 0]) (use 0(6) in simp_all)
next
  case (Suc n)
  show ?case
  proof (cases us)
    case Nil
    then have "length (seg mem pos readMax) = 0" using Suc.prems(2) by simp
    then have "pos = readMax" using Suc.prems(4,5) by (simp add: length_seg)
    then show ?thesis by (intro Suc.prems(1) [of 0]) (use Suc.prems(6) Nil in simp_all)
  next
    case (Cons u vs)
    let ?h = "take 4 u" let ?p = "pos + length u"
    have u: "4 \<le> length u" "TX_MSG_UNIT_LEN ?h = length u" and vs: "list_all is_unit vs"
      using Suc.prems(3) Cons by (simp_all add: is_unit_def [of u])
    have lens: "length u + length (concat vs) = readMax - pos"
    proof -
      have "length (concat us) = readMax - pos" unfolding Suc.prems(2) by (rule length_seg [OF Suc.prems(5)])
      then show ?thesis by (simp add: Cons)
    qed
    have p: "pos < readMax" "?p \<le> readMax" using lens u(1) by simp_all
    have sp: "u @ concat vs = seg mem pos ?p @ seg mem ?p readMax"
      using Suc.prems(2) Cons seg_split [of pos ?p readMax mem] p by simp
    moreover have "length (seg mem pos ?p) = length u" using length_seg [of ?p mem pos] p Suc.prems(5) by simp
    ultimately have us: "u = seg mem pos ?p" "concat vs = seg mem ?p readMax" by simp_all
    have get: "get_bytes (64 + pos) 4 mem = Some ?h"
    proof -
      have "take 4 (seg mem pos ?p) = take 4 (drop (64 + pos) mem)" using u(1) by (simp add: seg_def min_def)
      then show ?thesis using us(1) u(1) p Suc.prems(5) by (simp add: get_bytes_def)
    qed
    let ?stop = "len + length u \<ge> ram \<or> hdr_type ?h > 2 \<or> unat (?h ! 1) \<ge> WIFI_CMD_MAX"
    show ?thesis
    proof (cases ?stop)
      case True
      then have "tx_collect mem ram readMax (Suc n) pos len = Some (pos, [])"
        using p get u(2) by (auto simp: Let_def)
      moreover have "\<not> chip_takes (ram - len) (hd us)" using True Cons by (auto simp: chip_takes_def)
      ultimately show ?thesis by (intro Suc.prems(1) [of 0]) (use Suc.prems(6) in simp_all)
    next
      case False
      then have "len + length u < ram" by simp
      from Suc.IH [OF _ us(2) vs p(2) Suc.prems(5) this] obtain k where
        k: "tx_collect mem ram readMax n ?p (len + length u) = Some (?p + length (concat (take k vs)), map (take 4) (take k vs))"
        "k \<le> length vs" "k \<le> n" "len + length u + length (concat (take k vs)) < ram" by blast
      have "tx_collect mem ram readMax (Suc n) pos len = Some (pos + length (concat (take (Suc k) us)), map (take 4) (take (Suc k) us))"
        using False p get k(1) Cons by (simp add: Let_def add.assoc u(2))
      then show ?thesis by (rule Suc.prems(1)) (use k Cons False in \<open>auto simp: chip_takes_def not_less not_le\<close>)
    qed
  qed
qed

text \<open>The frame of the units \<open>us\<close> up to the counter the bus driver fills in.\<close>

definition tx_frame60 :: "u8 \<Rightarrow> u8 list list \<Rightarrow> u8 list" where
  "tx_frame60 netif_id us = [netif_id, of_nat (length us)] @ le16 (of_nat (64 + length (concat us))) @
     concat (map (take 4) us) @ replicate (4 * (14 - length us)) 0"

lemma length_unit_headers: "list_all is_unit us \<Longrightarrow> length (concat (map (take 4) us)) = 4 * length us"
  by (induction us) (auto simp: is_unit_def)

lemma length_tx_frame60: "list_all is_unit us \<Longrightarrow> length us \<le> 14 \<Longrightarrow> length (tx_frame60 netif_id us) = 60"
  by (simp add: tx_frame60_def length_unit_headers)

text \<open>The driver's settings: 12 messages to a frame, of at most 13312 - 64 bytes.\<close>

definition tx_conf :: "txfifo \<Rightarrow> bool" where
  "tx_conf f \<longleftrightarrow> 64 < cp2_txRam f \<and> cp2_txRam f \<le> 13248 \<and> max_msg_num f \<le> 12"

text \<open>What holds of a frame that waits for the bus.\<close>

definition tx_waits :: "u8 \<Rightarrow> tx_pending \<Rightarrow> txfifo \<Rightarrow> u8 list list \<Rightarrow> bool" where
  "tx_waits netif_id p f us \<longleftrightarrow> p_num p \<le> length us \<and> p_num p \<le> 12 \<and> p_from p = RD f \<and>
     p_readTo p = RD f + length (concat (take (p_num p) us)) \<and>
     p_len p = 64 + length (concat (take (p_num p) us)) \<and> p_len p < 13248 \<and>
     get_bytes (RD f) 60 (fmem f) = Some (tx_frame60 netif_id (take (p_num p) us)) \<and>
     (p_wt p < RD f \<longrightarrow> LASTWT f = Some (p_readMax p))"

lemma tx_rewind_holds:
  assumes "tx_holds f us vs"
  obtains us' vs' where "tx_holds (tx_rewind f) us' vs'" and "us' @ vs' = us @ vs" and "us' = [] \<Longrightarrow> vs' = []"
proof (cases "RD f \<noteq> WT f \<and> WT f < RD f \<and> LASTWT f = Some (RD f)")
  case True
  then have "us = []"
    using assms units_nonempty [of us] by (auto simp: tx_holds_def tx_end_def)
  with True assms have "tx_holds (tx_rewind f) vs []"
    by (auto simp: tx_holds_def tx_end_def tx_rewind_def)
  with that [of vs "[]"] \<open>us = []\<close> show ?thesis by simp
next
  case False
  then have "us = [] \<Longrightarrow> vs = []"
    using assms by (cases "LASTWT f") (auto simp: tx_holds_def tx_end_def seg_def)
  with that [of us vs] assms False show ?thesis by (simp add: tx_rewind_def del: not_less)
qed

lemma tx_rewind_same [simp]: "fmem (tx_rewind f) = fmem f" "tx_conf (tx_rewind f) = tx_conf f"
  "max_msg_num (tx_rewind f) = max_msg_num f" "cp2_txRam (tx_rewind f) = cp2_txRam f"
  by (simp_all add: tx_rewind_def tx_conf_def)

lemma tx_out_begin_holds:
  assumes h0: "tx_holds f0 us0 vs0" and c0: "tx_conf f0"
  obtains p f us vs where "tx_out_begin netif_id f0 = Some (p, f)" and "tx_holds f us vs" and "us @ vs = us0 @ vs0"
    and "tx_waits netif_id p f us" and "tx_conf f"
    and "us0 @ vs0 \<noteq> [] \<Longrightarrow> max_msg_num f0 \<noteq> 0 \<Longrightarrow> p_num p \<noteq> 0 \<longleftrightarrow> chip_takes (cp2_txRam f0 - 64) (hd (us0 @ vs0))"
proof -
  obtain us vs where h: "tx_holds (tx_rewind f0) us vs" and uv: "us @ vs = us0 @ vs0"
    and ne: "us = [] \<Longrightarrow> vs = []"
    by (rule tx_rewind_holds [OF h0]) (rule that)
  define f where "f = tx_rewind f0"
  have c: "tx_conf f" using c0 by (simp add: f_def)
  have h: "tx_holds f us vs" using h by (simp add: f_def)
  let ?rm = "if RD f = WT f \<or> WT f < RD f then (case LASTWT f of None \<Rightarrow> 0 | Some l \<Rightarrow> l) else WT f"
  have rd: "RD f \<le> tx_end f" "tx_end f \<le> fsize f" "length (fmem f) = 1088 + fsize f"
    using h by (simp_all add: tx_holds_def)
  obtain m1 where m1: "put_bytes (RD f) (replicate 64 0) (fmem f) = Some m1"
    using rd by (cases "put_bytes (RD f) (replicate 64 (0 :: u8)) (fmem f)") (auto simp: put_bytes_eq_None)
  have s1: "stores (RD f) (RD f + 64) (fmem f) m1" and l1: "length m1 = length (fmem f)"
    using stores_put [OF m1] put_bytes_length [OF m1] by auto
  have us: "concat us = seg m1 (RD f) (tx_end f)" "list_all is_unit us"
    using h rd stores_seg [OF s1, of "tx_end f" "RD f"] by (simp_all add: tx_holds_def)
  obtain k where
    k: "tx_collect m1 (cp2_txRam f) ?rm (max_msg_num f) (RD f) 64 =
          Some (RD f + length (concat (take k us)), map (take 4) (take k us))"
       "k \<le> length us" "k \<le> max_msg_num f" "64 + length (concat (take k us)) < cp2_txRam f"
       "us \<noteq> [] \<Longrightarrow> max_msg_num f \<noteq> 0 \<Longrightarrow> k \<noteq> 0 \<longleftrightarrow> chip_takes (cp2_txRam f - 64) (hd us)"
  proof (cases "LASTWT f = None \<and> RD f = WT f")
    case True
    then have "tx_collect m1 (cp2_txRam f) ?rm (max_msg_num f) (RD f) 64 = Some (RD f, [])"
      by (cases "max_msg_num f") simp_all
    moreover have "us = []" using True us units_nonempty [OF us(2)] by (simp add: tx_end_def)
    ultimately show ?thesis using that [of 0] c by (simp add: tx_conf_def)
  next
    case False
    then have rm: "?rm = tx_end f" using h by (cases "LASTWT f") (auto simp: tx_end_def tx_holds_def)
    have room: "64 + tx_end f \<le> length m1" "64 < cp2_txRam f" using rd l1 c by (auto simp: tx_conf_def)
    show ?thesis unfolding rm by (rule tx_collect_units [OF us rd(1) room]) (rule that, subst rm, assumption+)
  qed
  let ?ks = "take k us"
  let ?big = "[netif_id, of_nat (length ?ks)] @ le16 (of_nat (64 + length (concat ?ks))) @ concat (map (take 4) ?ks) @
      replicate (4 * (14 - length ?ks)) 0 @ replicate 4 0"
  have k12: "k \<le> 12" and lk: "length ?ks = k" using k c by (simp_all add: tx_conf_def)
  have uk: "list_all is_unit ?ks" using us(2) by (metis append_take_drop_id list_all_append)
  have big: "?big = tx_frame60 netif_id ?ks @ replicate 4 0" by (simp add: tx_frame60_def)
  have lf: "length (tx_frame60 netif_id ?ks) = 60" using length_tx_frame60 [OF uk] k12 lk by simp
  obtain m2 where m2: "put_bytes (RD f) ?big m1 = Some m2"
    using rd l1 lf unfolding big by (cases "put_bytes (RD f) (tx_frame60 netif_id ?ks @ replicate 4 0) m1") (auto simp: put_bytes_eq_None)
  have s2: "stores (RD f) (RD f + 64) m1 m2"
    using stores_put [OF m2, of "RD f" "RD f + 64"] lf unfolding big by simp
  have s: "stores (RD f) (RD f + 64) (fmem f) m2" by (rule stores_trans [OF s1 s2])
  have l2: "length m2 = length (fmem f)" using s by (simp add: stores_def)
  have frame: "get_bytes (RD f) 60 m2 = Some (tx_frame60 netif_id ?ks)"
  proof -
    have "get_bytes (RD f) 64 m2 = Some (tx_frame60 netif_id ?ks @ replicate 4 0)"
      using get_put_same [OF m2] lf unfolding big by simp
    then have t: "take 64 (drop (RD f) m2) = tx_frame60 netif_id ?ks @ replicate 4 0" and l: "RD f + 64 \<le> length m2"
      by (auto simp: get_bytes_def split: if_splits)
    have "take 60 (drop (RD f) m2) = take 60 (take 64 (drop (RD f) m2))" by (simp add: min_def)
    also have "\<dots> = tx_frame60 netif_id ?ks" unfolding t using lf by simp
    finally show ?thesis using l by (simp add: get_bytes_def)
  qed
  let ?p = "\<lparr>p_wt = WT f, p_readMax = ?rm, p_from = RD f, p_readTo = RD f + length (concat ?ks), p_num = k, p_len = 64 + length (concat ?ks)\<rparr>"
  let ?f = "f\<lparr>fmem := m2, seq2 := seq2 f + of_nat (length (filter (\<lambda>h. hdr_type h = HOST_SC2331_PKT) (map (take 4) ?ks)))\<rparr>"
  show ?thesis
  proof (rule that)
    show "tx_out_begin netif_id f0 = Some (?p, ?f)"
      unfolding tx_out_begin_def Let_def f_def [symmetric]
      using m1 k(1) m2 k12 lk by (simp add: big_hdr_def)
    have "seg m2 (RD f) (tx_end f) = seg (fmem f) (RD f) (tx_end f)"
      using stores_seg [OF s] rd by simp
    moreover have "seg m2 0 (WT f) = seg (fmem f) 0 (WT f)" if "LASTWT f \<noteq> None"
      by (rule stores_seg [OF s]) (use rd that h in \<open>auto simp: tx_holds_def\<close>)
    ultimately show "tx_holds ?f us vs" using h l2 by (auto simp: tx_holds_def tx_end_def)
    show "tx_waits netif_id ?p ?f us"
      using k k12 frame c h by (cases "LASTWT f") (auto simp: tx_waits_def tx_conf_def tx_holds_def tx_end_def)
    show "p_num ?p \<noteq> 0 \<longleftrightarrow> chip_takes (cp2_txRam f0 - 64) (hd (us0 @ vs0))" if "us0 @ vs0 \<noteq> []" "max_msg_num f0 \<noteq> 0"
    proof -
      have "us \<noteq> []" using that(1) uv ne by (cases us) auto
      moreover have "hd us = hd (us0 @ vs0)" using \<open>us \<noteq> []\<close> unfolding uv [symmetric] by simp
      ultimately show ?thesis using k(5) that by (simp add: f_def)
    qed
  qed (use uv c in \<open>simp_all add: tx_conf_def\<close>)
qed

lemma tx_waits_kept:
  assumes "tx_waits netif_id p f us" and "tx_holds f us vs" and "tx_kept f f'"
  shows "tx_waits netif_id p f' us" and "tx_waits netif_id p f' (us @ [u])"
  using assms by (auto simp: tx_waits_def tx_holds_def tx_kept_def)

lemma tx_out_end_holds:
  assumes h: "tx_holds f us vs" and w: "tx_waits netif_id p f us" and bus: "bus = None \<or> bus = Some TX_OK"
  obtains f' us' vs' where "tx_out_end bus p f = (if bus = None then TX_NOTHING else TX_OK, f')" and "tx_holds f' us' vs'"
    and "us' @ vs' = drop (p_num p) us @ vs" and "tx_conf f' = tx_conf f"
proof -
  let ?k = "p_num p" let ?to = "p_readTo p"
  have to: "?to = RD f + length (concat (take ?k us))" using w by (simp add: tx_waits_def)
  have split: "concat us = concat (take ?k us) @ concat (drop ?k us)" by (metis append_take_drop_id concat_append)
  have room: "64 + tx_end f \<le> length (fmem f)" "RD f \<le> tx_end f" using h by (auto simp: tx_holds_def)
  have len: "length (concat us) = tx_end f - RD f"
    using h length_seg [OF room(1), of "RD f"] by (simp add: tx_holds_def)
  have le: "RD f \<le> ?to" "?to \<le> tx_end f"
    using to len room(2) arg_cong [OF split, of length] by simp_all
  have "concat (take ?k us) @ concat (drop ?k us) = seg (fmem f) (RD f) ?to @ seg (fmem f) ?to (tx_end f)"
    using h split seg_split [OF le, of "fmem f"] by (simp add: tx_holds_def)
  moreover have "length (seg (fmem f) (RD f) ?to) = length (concat (take ?k us))"
    using length_seg [of ?to "fmem f" "RD f"] le room to by simp
  ultimately have rest: "concat (drop ?k us) = seg (fmem f) ?to (tx_end f)" by simp
  have uk: "list_all is_unit (drop ?k us)" "list_all is_unit vs"
    using h by (auto simp: tx_holds_def list_all_iff dest: in_set_dropD)
  show ?thesis
  proof (cases "RD f > p_wt p \<and> ?to \<le> p_readMax p \<and> p_readMax p - ?to < 4")
    case True
    then have l: "LASTWT f = Some (p_readMax p)" using w by (simp add: tx_waits_def)
    then have "length (concat (drop ?k us)) < 4"
      using True rest length_seg [OF room(1), of ?to] by (simp add: tx_end_def)
    then have "drop ?k us = []"
      using uk(1) by (cases "drop ?k us") (auto simp: is_unit_def)
    moreover have "tx_holds (f\<lparr>RD := 0, LASTWT := None, rd_cnt := rd_cnt f + of_nat ?k\<rparr>) vs []"
      using h l by (auto simp: tx_holds_def tx_end_def)
    ultimately show ?thesis
      using that [of "f\<lparr>RD := 0, LASTWT := None, rd_cnt := rd_cnt f + of_nat ?k\<rparr>" vs "[]"] True bus
      by (auto simp: tx_out_end_def tx_conf_def)
  next
    case False
    have "tx_holds (f\<lparr>RD := ?to, rd_cnt := rd_cnt f + of_nat ?k\<rparr>) (drop ?k us) vs"
      using h le rest uk by (auto simp: tx_holds_def tx_end_def)
    then show ?thesis
      using that [of "f\<lparr>RD := ?to, rd_cnt := rd_cnt f + of_nat ?k\<rparr>" "drop ?k us" vs] False bus
      by (auto simp: tx_out_end_def tx_conf_def)
  qed
qed

subsection \<open>On the bus\<close>

lemma and_mask_round: "n AND 64512 = n div 1024 * (1024 :: nat)" if "n < 65536"
proof -
  have t: "take_bit 16 n = n" using that by (simp add: take_bit_nat_eq_self)
  have "(64512 :: nat) = push_bit 10 (mask 6)" by (simp add: mask_eq_exp_minus_1 push_bit_eq_mult)
  then have "take_bit 16 n AND 64512 = push_bit 10 (drop_bit 10 (take_bit 16 n))"
    by (auto simp: bit_eq_iff bit_simps)
  then show ?thesis unfolding t by (simp add: push_bit_eq_mult drop_bit_eq_div)
qed

lemma hw_tx_len_round: "hw_tx_len len = (len + 1023) div 1024 * 1024" if "len < 64000"
proof -
  have "unat (of_nat len + 1023 :: u32) = len + 1023"
    using that by (simp add: unat_word_ariths unat_of_nat)
  then show ?thesis
    using that and_mask_round [of "len + 1023"] by (simp add: hw_tx_len_def unsigned_and_eq)
qed

lemma hw_tx_len_bounds:
  assumes "len < 64000"
  shows "len \<le> hw_tx_len len \<and> hw_tx_len len \<le> len + 1023"
proof -
  have "hw_tx_len len + (len + 1023) mod 1024 = len + 1023"
    unfolding hw_tx_len_round [OF assms] by (rule div_mult_mod_eq)
  moreover have "(len + 1023) mod 1024 < 1024" by simp
  ultimately show ?thesis by linarith
qed

text \<open>A frame on the bus: the header of its units, the counter, the units, and what follows up to 1024 bytes.\<close>

definition tx_wire :: "u8 list list \<Rightarrow> u8 list \<Rightarrow> bool" where
  "tx_wire us w \<longleftrightarrow> us \<noteq> [] \<and> length us \<le> 12 \<and> length w = hw_tx_len (64 + length (concat us)) \<and>
     (\<exists>netif_id cnt pad. w = tx_frame60 netif_id us @ le32 cnt @ concat us @ pad)"

lemma tx_sends_iff:
  assumes "tx_waits netif_id p f us" and "tx_holds f us vs"
  shows "tx_out_sends p \<longleftrightarrow> p_num p \<noteq> 0"
proof (cases "take (p_num p) us")
  case (Cons u ks)
  then have "4 \<le> length u" using assms(2) in_set_takeD [of u "p_num p" us]
    by (auto simp: tx_holds_def list_all_iff is_unit_def unit_len_ge4)
  then show ?thesis using assms(1) Cons by (cases "p_num p") (auto simp: tx_out_sends_def tx_waits_def)
qed (use assms(1) in \<open>auto simp: tx_out_sends_def tx_waits_def\<close>)

lemma get_bytes_nth: "get_bytes i n buf = Some xs \<Longrightarrow> j < n \<Longrightarrow> buf ! (i + j) = xs ! j"
  by (auto simp: get_bytes_def split: if_splits)

lemma get_bytes_one: "i < length buf \<Longrightarrow> get_bytes i 1 buf = Some [buf ! i]"
  by (simp add: get_bytes_def take_Suc hd_drop_conv_nth)

lemma take_chain: "take a xs @ take b (drop a xs) @ take c (drop (a + b) xs) @ drop (a + b + c) xs = xs"
proof -
  have "take b (drop a xs) @ drop (a + b) xs = drop a xs"
    using append_take_drop_id [of b "drop a xs"] unfolding drop_drop by (simp only: add.commute)
  moreover have "take c (drop (a + b) xs) @ drop (a + b + c) xs = drop (a + b) xs"
    using append_take_drop_id [of c "drop (a + b) xs"] unfolding drop_drop by (simp only: add.commute)
  ultimately show ?thesis using append_take_drop_id [of a xs] by simp
qed

lemma hw_tx_waits:
  assumes h: "tx_holds f us vs" and w: "tx_waits netif_id p f us" and sends: "p_num p \<noteq> 0"
  obtains ret mem out cnt' where "hw_tx stopped ok cnt (p_from p) (p_len p) (fmem f) = Some (ret, mem, out, cnt')"
    and "tx_holds (f\<lparr>fmem := mem\<rparr>) us vs" and "tx_waits netif_id p (f\<lparr>fmem := mem\<rparr>) us"
    and "if ok \<and> \<not> stopped then ret = TX_OK \<and> (\<exists>d. out = Some d \<and> tx_wire (take (p_num p) us) d) else ret \<noteq> TX_OK \<and> out = None"
proof -
  let ?k = "p_num p" let ?ks = "take ?k us" let ?fr = "tx_frame60 netif_id ?ks"
  have k: "?k \<le> length us" "?k \<le> 12" "p_from p = RD f" "p_len p = 64 + length (concat ?ks)" "p_len p < 13248"
    and fr: "get_bytes (RD f) 60 (fmem f) = Some ?fr"
    using w by (simp_all add: tx_waits_def)
  have uk: "list_all is_unit ?ks" using h by (auto simp: tx_holds_def list_all_iff dest: in_set_takeD)
  have lf: "length ?fr = 60" using length_tx_frame60 [OF uk] k by simp
  have room: "RD f \<le> tx_end f" "tx_end f \<le> fsize f" "length (fmem f) = 1088 + fsize f"
    using h by (simp_all add: tx_holds_def)
  have split: "concat us = concat ?ks @ concat (drop ?k us)" by (metis append_take_drop_id concat_append)
  have lus: "length (concat us) = tx_end f - RD f"
    using h length_seg [of "tx_end f" "fmem f" "RD f"] room by (simp add: tx_holds_def)
  have fits: "RD f + p_len p \<le> 64 + tx_end f"
    using arg_cong [OF split, of length] lus k(4) room(1) by simp
  have n: "get_bytes (RD f + 1) 1 (fmem f) = Some [of_nat ?k]"
  proof -
    have "fmem f ! (RD f + 1) = ?fr ! 1" using get_bytes_nth [OF fr, of 1] by simp
    also have "\<dots> = of_nat ?k" using k(1) by (simp add: tx_frame60_def)
    finally show ?thesis using room get_bytes_one [of "RD f + 1" "fmem f"] by simp
  qed
  have nk: "unat (of_nat ?k :: u8) = ?k" using k(2) by (simp add: unat_of_nat)
  then have nz: "(of_nat ?k :: u8) \<noteq> 0" using sends by (metis unat_0)
  obtain mem where mem: "put_bytes (RD f + 60) (le32 cnt) (fmem f) = Some mem"
    using room by (cases "put_bytes (RD f + 60) (le32 cnt) (fmem f)") (auto simp: put_bytes_eq_None)
  have st: "stores (RD f + 60) (RD f + 64) (fmem f) mem" using stores_put [OF mem] by simp
  have lm: "length mem = length (fmem f)" using st by (simp add: stores_def)
  have sg: "seg mem (RD f) (tx_end f) = seg (fmem f) (RD f) (tx_end f)" using stores_seg [OF st] room by simp
  have "seg mem 0 (WT f) = seg (fmem f) 0 (WT f)" if "LASTWT f \<noteq> None"
    by (rule stores_seg [OF st]) (use room that h in \<open>auto simp: tx_holds_def\<close>)
  with sg h lm have h': "tx_holds (f\<lparr>fmem := mem\<rparr>) us vs" by (auto simp: tx_holds_def tx_end_def)
  have fr': "get_bytes (RD f) 60 mem = Some ?fr" using stores_get [OF st, of "RD f" 60] fr by simp
  with w have w': "tx_waits netif_id p (f\<lparr>fmem := mem\<rparr>) us" by (simp add: tx_waits_def)
  let ?n = "hw_tx_len (p_len p)"
  have b: "p_len p \<le> ?n" "?n \<le> p_len p + 1023" using hw_tx_len_bounds [of "p_len p"] k(5) by auto
  obtain out where out: "get_bytes (RD f) ?n mem = Some out" and lo: "length out = ?n"
    using b fits room lm by (auto simp: get_bytes_def)
  have "\<exists>pad. out = ?fr @ le32 cnt @ concat ?ks @ pad"
  proof -
    have o: "out = take ?n (drop (RD f) mem)" using out by (auto simp: get_bytes_def split: if_splits)
    have "take 60 out = ?fr" using fr' b(1) k(4) by (auto simp: o get_bytes_def min_def split: if_splits)
    moreover have "take 4 (drop 60 out) = le32 cnt"
      using get_put_same [OF mem] b(1) k(4)
      by (auto simp: o get_bytes_def drop_take min_def add.commute split: if_splits)
    moreover have "take (length (concat ?ks)) (drop 64 out) = concat ?ks"
    proof -
      have "take (length (concat ?ks)) (drop 64 out) = take (length (concat ?ks)) (drop (64 + RD f) mem)"
        using b(1) k(4) by (simp add: o drop_take min_def add.commute)
      also have "\<dots> = take (length (concat ?ks)) (seg mem (RD f) (tx_end f))"
        using fits k(4) by (simp add: seg_def min_def)
      also have "seg mem (RD f) (tx_end f) = concat ?ks @ concat (drop ?k us)"
        unfolding split [symmetric] using sg h by (simp add: tx_holds_def)
      finally show ?thesis by simp
    qed
    ultimately have "out = ?fr @ le32 cnt @ concat ?ks @ drop (60 + 4 + length (concat ?ks)) out"
      using take_chain [of 60 out 4 "length (concat ?ks)"] by simp
    then show ?thesis by blast
  qed
  then have wire: "tx_wire ?ks out"
    using sends k lo by (auto simp: tx_wire_def)
  show ?thesis
  proof (cases "ok \<and> \<not> stopped")
    case True
    then show ?thesis
      by (intro that [of TX_OK mem "Some out" "cnt + 1", OF _ h' w'])
        (use n nk nz k(2,3) mem out wire in \<open>simp_all add: hw_tx_def\<close>)
  next
    case False
    then show ?thesis
      by (intro that [of "if stopped then -1 else HW_WRITE_ERROR" mem None cnt, OF _ h' w'])
        (use n nk nz k(2,3) mem out in \<open>simp_all add: hw_tx_def\<close>)
  qed
qed

subsection \<open>The two threads\<close>

text \<open>
  The core thread puts messages into the ring, the bus thread takes frames out of it, and the
  writer may come between the two halves of \<open>tx_fifo_out\<close>. \<open>taken\<close> and \<open>on_bus\<close> are what was
  accepted and what was sent. \<open>tx_fifo_in\<close> is one step although it holds the lock of the ring
  only while it sets \<open>LASTWT\<close>: that the bus thread sees a message and the new \<open>WT\<close> at once, or
  neither, is an assumption of the model (one writer, and stores seen in their order).
\<close>

record tx_sys =
  ring :: txfifo
  waiting :: "tx_pending option"
  frames :: u32
  taken :: "tx_msg list"
  on_bus :: "u8 list list"

datatype tx_evt = Msg tx_msg | Frame u8 | Bus bool bool

fun tx_evt_step :: "tx_evt \<Rightarrow> tx_sys \<Rightarrow> tx_sys option" where
  "tx_evt_step (Msg m) s =
     (if slice_ok m then do {
        (ret, f) \<leftarrow> tx_fifo_in m (ring s);
        Some (s\<lparr>ring := f, taken := taken s @ (if ret = TX_OK then [m] else [])\<rparr>) }
      else Some s)"
| "tx_evt_step (Frame netif_id) s =
     (case waiting s of
        Some p \<Rightarrow> Some s
      | None \<Rightarrow> do { (p, f) \<leftarrow> tx_out_begin netif_id (ring s); Some (s\<lparr>ring := f, waiting := Some p\<rparr>) })"
| "tx_evt_step (Bus stopped ok) s =
     (case waiting s of
        None \<Rightarrow> Some s
      | Some p \<Rightarrow> if tx_out_sends p then do {
          (ret, mem, w, n) \<leftarrow> hw_tx stopped ok (frames s) (p_from p) (p_len p) (fmem (ring s));
          Some (s\<lparr>ring := snd (tx_out_end (Some ret) p ((ring s)\<lparr>fmem := mem\<rparr>)), waiting := None, frames := n,
            on_bus := on_bus s @ (case w of None \<Rightarrow> [] | Some w \<Rightarrow> [w])\<rparr>) }
        else Some (s\<lparr>ring := snd (tx_out_end None p (ring s)), waiting := None\<rparr>))"

text \<open>\<open>None\<close>: a store or a read outside a buffer.\<close>

definition tx_step :: "tx_sys option \<Rightarrow> tx_evt \<Rightarrow> tx_sys option" where
  "tx_step so e = Option.bind so (tx_evt_step e)"

definition tx_start :: "tx_sys option \<Rightarrow> bool" where
  "tx_start so \<longleftrightarrow> (\<exists>mem f n. 1088 \<le> length mem \<and> tx_fifo_alloc (Some mem) (13312 - 64) 12 = Some f \<and>
     so = Some \<lparr>ring = f, waiting = None, frames = n, taken = [], on_bus = []\<rparr>)"

definition tx_holds_all :: "tx_sys \<Rightarrow> u8 list list list \<Rightarrow> u8 list list \<Rightarrow> u8 list list \<Rightarrow> bool" where
  "tx_holds_all s dss us vs \<longleftrightarrow> tx_holds (ring s) us vs \<and> tx_conf (ring s) \<and>
     (\<forall>p. waiting s = Some p \<longrightarrow> (\<exists>netif_id. tx_waits netif_id p (ring s) us)) \<and>
     list_all2 carries (taken s) (concat dss @ us @ vs) \<and> list_all2 tx_wire dss (on_bus s)"

definition tx_sys_ok :: "tx_sys option \<Rightarrow> bool" where
  "tx_sys_ok so \<longleftrightarrow> (\<exists>s dss us vs. so = Some s \<and> tx_holds_all s dss us vs)"

lemma tx_sys_okI: "tx_evt_step e s = Some s' \<Longrightarrow> tx_holds_all s' dss us vs \<Longrightarrow> tx_sys_ok (tx_step (Some s) e)"
  by (auto simp: tx_sys_ok_def tx_step_def)

lemma list_all2_snoc: "list_all2 P xs ys \<Longrightarrow> P x y \<Longrightarrow> list_all2 P (xs @ [x]) (ys @ [y])"
  by (simp add: list_all2_appendI)

lemma tx_msg_ok:
  assumes "tx_holds_all s dss us vs"
  shows "tx_sys_ok (tx_step (Some s) (Msg m))"
proof (cases "slice_ok m")
  case False
  then show ?thesis using assms by (intro tx_sys_okI [of _ _ s]) simp_all
next
  case True
  have h: "tx_holds (ring s) us vs" using assms by (simp add: tx_holds_all_def)
  show ?thesis
    using h True
  proof (cases rule: tx_fifo_in_holds)
    case full
    then show ?thesis using assms True by (intro tx_sys_okI [of _ s s dss us vs]) simp_all
  next
    case (taken f' u)
    have step: "tx_evt_step (Msg m) s = Some (s\<lparr>ring := f', taken := taken s @ [m]\<rparr>)" using taken True by simp
    have conf: "tx_conf f'" using taken(3) assms by (simp add: tx_kept_def tx_holds_all_def tx_conf_def)
    have w: "\<exists>i. tx_waits i p f' us \<and> tx_waits i p f' (us @ [u])" if "waiting s = Some p" for p
    proof -
      obtain i where "tx_waits i p (ring s) us" using assms \<open>waiting s = Some p\<close> by (auto simp: tx_holds_all_def)
      from tx_waits_kept [OF this h taken(3)] show ?thesis by blast
    qed
    have l: "list_all2 carries (taken s @ [m]) ((concat dss @ us @ vs) @ [u])"
      using assms taken(2) by (intro list_all2_snoc) (simp_all add: tx_holds_all_def)
    from taken(4) show ?thesis
    proof
      assume t: "vs = [] \<and> tx_holds f' (us @ [u]) vs"
      then have "tx_holds_all (s\<lparr>ring := f', taken := taken s @ [m]\<rparr>) dss (us @ [u]) vs"
        using assms conf l w by (fastforce simp: tx_holds_all_def)
      with step show ?thesis by (rule tx_sys_okI)
    next
      assume t: "tx_holds f' us (vs @ [u])"
      then have "tx_holds_all (s\<lparr>ring := f', taken := taken s @ [m]\<rparr>) dss us (vs @ [u])"
        using assms conf l w by (fastforce simp: tx_holds_all_def)
      with step show ?thesis by (rule tx_sys_okI)
    qed
  qed
qed

lemma tx_frame_ok:
  assumes "tx_holds_all s dss us vs"
  shows "tx_sys_ok (tx_step (Some s) (Frame netif_id))"
proof (cases "waiting s")
  case Some
  then show ?thesis using assms by (intro tx_sys_okI [of _ s s dss us vs]) simp_all
next
  case None
  obtain p f us' vs' where b: "tx_out_begin netif_id (ring s) = Some (p, f)" "tx_holds f us' vs'" "us' @ vs' = us @ vs"
      "tx_waits netif_id p f us'" "tx_conf f"
    by (rule tx_out_begin_holds [of "ring s" us vs netif_id]) (use assms in \<open>auto simp: tx_holds_all_def\<close>)
  then have "tx_holds_all (s\<lparr>ring := f, waiting := Some p\<rparr>) dss us' vs'"
    using assms by (auto simp: tx_holds_all_def)
  then show ?thesis by (intro tx_sys_okI [of _ s]) (simp_all add: None b)
qed

lemma tx_bus_ok:
  assumes "tx_holds_all s dss us vs"
  shows "tx_sys_ok (tx_step (Some s) (Bus stopped ok))"
proof (cases "waiting s")
  case None
  then show ?thesis using assms by (intro tx_sys_okI [of _ s s dss us vs]) simp_all
next
  case (Some p)
  then obtain i where h: "tx_holds (ring s) us vs" and w: "tx_waits i p (ring s) us" and c: "tx_conf (ring s)"
    using assms by (auto simp: tx_holds_all_def)
  have sends: "tx_out_sends p \<longleftrightarrow> p_num p \<noteq> 0" by (rule tx_sends_iff [OF w h])
  let ?ks = "take (p_num p) us"
  show ?thesis
  proof (cases "p_num p = 0")
    case True
    obtain f' us' vs' where e: "tx_out_end None p (ring s) = (TX_NOTHING, f')" "tx_holds f' us' vs'"
        "us' @ vs' = drop (p_num p) us @ vs" "tx_conf f' = tx_conf (ring s)"
      using tx_out_end_holds [OF h w, of None] by auto
    then have "tx_holds_all (s\<lparr>ring := f', waiting := None\<rparr>) dss us' vs'"
      using assms True by (simp add: tx_holds_all_def)
    then show ?thesis by (intro tx_sys_okI [of _ s]) (simp_all add: Some sends True e)
  next
    case False
    obtain ret mem out cnt' where b: "hw_tx stopped ok (frames s) (p_from p) (p_len p) (fmem (ring s)) = Some (ret, mem, out, cnt')"
        "tx_holds ((ring s)\<lparr>fmem := mem\<rparr>) us vs" "tx_waits i p ((ring s)\<lparr>fmem := mem\<rparr>) us"
        "if ok \<and> \<not> stopped then ret = TX_OK \<and> (\<exists>d. out = Some d \<and> tx_wire ?ks d) else ret \<noteq> TX_OK \<and> out = None"
      by (rule hw_tx_waits [OF h w False])
    show ?thesis
    proof (cases "ok \<and> \<not> stopped")
      case True
      then obtain d where d: "ret = TX_OK" "out = Some d" "tx_wire ?ks d" using b(4) by auto
      obtain f' us' vs' where e: "tx_out_end (Some TX_OK) p ((ring s)\<lparr>fmem := mem\<rparr>) = (TX_OK, f')" "tx_holds f' us' vs'"
          "us' @ vs' = drop (p_num p) us @ vs" "tx_conf f' = tx_conf ((ring s)\<lparr>fmem := mem\<rparr>)"
        using tx_out_end_holds [OF b(2,3), of "Some TX_OK"] by auto
      have "?ks @ us' @ vs' = (?ks @ drop (p_num p) us) @ vs" by (simp only: e(3) append_assoc)
      then have all: "?ks @ us' @ vs' = us @ vs" by simp
      have "tx_holds_all (s\<lparr>ring := f', waiting := None, frames := cnt', on_bus := on_bus s @ [d]\<rparr>) (dss @ [?ks]) us' vs'"
        using assms e(2,4) d(3) all by (simp add: tx_holds_all_def tx_conf_def list_all2_snoc)
      then show ?thesis by (intro tx_sys_okI [of _ s]) (simp_all add: Some sends False b(1) e(1) d)
    next
      case no: False
      then have "ret \<noteq> TX_OK" "out = None" using b(4) by (auto split: if_splits)
      moreover have "tx_holds_all (s\<lparr>ring := (ring s)\<lparr>fmem := mem\<rparr>, waiting := None, frames := cnt'\<rparr>) dss us vs"
        using assms b(2) by (simp add: tx_holds_all_def tx_conf_def)
      ultimately show ?thesis by (intro tx_sys_okI [of _ s]) (simp_all add: Some sends False b(1) tx_out_end_def)
    qed
  qed
qed

lemma tx_start_ok: "tx_start so \<Longrightarrow> tx_sys_ok so"
proof -
  assume "tx_start so"
  then obtain mem f n where m: "1088 \<le> length mem" "tx_fifo_alloc (Some mem) (13312 - 64) 12 = Some f"
    and so: "so = Some \<lparr>ring = f, waiting = None, frames = n, taken = [], on_bus = []\<rparr>"
    by (auto simp: tx_start_def)
  have "tx_conf f" using m(2) by (auto simp: tx_fifo_alloc_def tx_conf_def)
  with tx_fifo_alloc_holds [OF m(2,1)] have "tx_holds_all \<lparr>ring = f, waiting = None, frames = n, taken = [], on_bus = []\<rparr> [] [] []"
    by (simp add: tx_holds_all_def)
  with so show ?thesis unfolding tx_sys_ok_def by blast
qed

lemma tx_step_ok: "tx_sys_ok so \<Longrightarrow> tx_sys_ok (tx_step so e)"
  by (cases e) (auto simp: tx_sys_ok_def [of so] intro: tx_msg_ok tx_frame_ok tx_bus_ok)

interpretation wlan_tx_sys: transition_system tx_start tx_step tx_sys_ok
  by unfold_locales (erule tx_start_ok, erule tx_step_ok)

subsection \<open>Moving messages from a queue to the ring\<close>

lemma msg_clear_free:
  assumes "msg_q_wf q" and "msg_q_contents q = m # ms"
  obtains q' where "msg_free (msg_clear q) = Some q'" and "msg_q_wf q'" and "msg_q_contents q' = ms"
proof -
  have ne: "q_rd q \<noteq> q_wt q" and b: "q_rd q < q_num q" "q_wt q < q_num q"
    using assms ring_slots_empty [of "q_rd q" "q_num q" "q_wt q"] by (auto simp: msg_q_wf_def msg_q_contents_def)
  then have sl: "ring_slots (q_num q) (q_rd q) (q_wt q) = q_rd q # ring_slots (q_num q) (ring_next (q_num q) (q_rd q)) (q_wt q)"
    by (intro ring_slots_get)
  moreover have "distinct (ring_slots (q_num q) (q_rd q) (q_wt q))" using b by (intro ring_slots_distinct)
  ultimately have "q_rd q \<notin> set (ring_slots (q_num q) (ring_next (q_num q) (q_rd q)) (q_wt q))" by simp
  note out = this
  let ?q = "msg_clear q" let ?q' = "?q\<lparr>q_rd := ring_next (q_num q) (q_rd q), q_rd_cnt := q_rd_cnt q + 1\<rparr>"
  show ?thesis
  proof (rule that)
    show "msg_free ?q = Some ?q'" using ne by (simp add: msg_free_def msg_clear_def)
    show "msg_q_wf ?q'" using assms(1) by (simp add: msg_q_wf_def msg_clear_def ring_next_less)
    have "msg_q_contents ?q' = map ((!) (q_mem q)) (ring_slots (q_num q) (ring_next (q_num q) (q_rd q)) (q_wt q))"
      using out by (simp add: msg_q_contents_def msg_clear_def map_nth_update)
    then show "msg_q_contents ?q' = ms" using assms(2) by (simp add: msg_q_contents_def sl)
  qed
qed

lemma wlan_tx_loop_moves:
  assumes "msg_q_wf q" and "list_all slice_ok (msg_q_contents q)" and "tx_holds f us vs"
  obtains k f' q' us' vs' new where
    "wlan_tx_loop n c ret f q = Some (c + k, if k < n \<and> k < length (msg_q_contents q) then TX_FIFO_FULL else if k = 0 then ret else TX_OK, f', q')"
    "k \<le> n" "k \<le> length (msg_q_contents q)" "msg_q_wf q'" "msg_q_contents q' = drop k (msg_q_contents q)"
    "tx_holds f' us' vs'" "us' @ vs' = us @ vs @ new" "list_all2 carries (take k (msg_q_contents q)) new"
    "k < n \<Longrightarrow> k < length (msg_q_contents q) \<Longrightarrow> tx_fifo_in (msg_q_contents q ! k) f' = Some (TX_FIFO_FULL, f')"
  using assms
proof (induction n arbitrary: c ret f q us vs thesis)
  case 0
  show ?case by (rule 0(1) [of 0 f q us vs "[]"]) (use 0(2-) in simp_all)
next
  case (Suc n)
  show ?case
  proof (cases "msg_q_contents q")
    case Nil
    then have "msg_get q = None" using Suc.prems(2) by (simp add: msg_q_get_law)
    then show ?thesis by (intro Suc.prems(1) [of 0 f q us vs "[]"]) (use Suc.prems(2-) Nil in simp_all)
  next
    case (Cons m ms)
    then have g: "msg_get q = Some m" and m: "slice_ok m" and ms: "list_all slice_ok ms"
      using Suc.prems(2,3) by (simp_all add: msg_q_get_law)
    obtain q1 where q1: "msg_free (msg_clear q) = Some q1" "msg_q_wf q1" "msg_q_contents q1 = ms"
      by (rule msg_clear_free [OF Suc.prems(2) Cons])
    show ?thesis
      using Suc.prems(4) m
    proof (cases rule: tx_fifo_in_holds)
      case full
      then show ?thesis by (intro Suc.prems(1) [of 0 f q us vs "[]"]) (use Suc.prems(2-) Cons g in simp_all)
    next
      case (taken f1 u)
      then obtain us1 vs1 where h1: "tx_holds f1 us1 vs1" "us1 @ vs1 = us @ vs @ [u]" by auto
      have ms': "list_all slice_ok (msg_q_contents q1)" using ms q1(3) by simp
      obtain k f' q' us' vs' new where r0:
        "wlan_tx_loop n (c + 1) TX_OK f1 q1 = Some (c + 1 + k, if k < n \<and> k < length (msg_q_contents q1) then TX_FIFO_FULL else if k = 0 then TX_OK else TX_OK, f', q')"
        "k \<le> n" "k \<le> length (msg_q_contents q1)" "msg_q_wf q'" "msg_q_contents q' = drop k (msg_q_contents q1)"
        "tx_holds f' us' vs'" "us' @ vs' = us1 @ vs1 @ new" "list_all2 carries (take k (msg_q_contents q1)) new"
        "k < n \<Longrightarrow> k < length (msg_q_contents q1) \<Longrightarrow> tx_fifo_in (msg_q_contents q1 ! k) f' = Some (TX_FIFO_FULL, f')"
        by (rule Suc.IH [OF _ q1(2) ms' h1(1), of "c + 1" TX_OK]) (rule that)
      note r = r0 [unfolded q1(3)]
      show ?thesis
        by (rule Suc.prems(1) [of "Suc k" f' q' us' vs' "u # new"])
          (use r h1(2) taken g q1(1) Cons in simp_all)
    qed
  qed
qed

text \<open>
  \<open>wlan_tx\<close> moves the first messages of a queue into the ring, in order and without a store
  outside it: the ring holds what it held and then one unit for each message moved, the queue
  the messages that are left. It stops early only at a message the ring has no room for, and
  returns the number moved, \<open>TX_FIFO_FULL\<close> when the first one found no room, and -1 (not the
  \<open>TX_FIFO_EMPTY\<close> the core thread looks for) when there was nothing to move.
\<close>

lemma wlan_tx_moves_prefix:
  assumes "msg_q_wf q" and "list_all slice_ok (msg_q_contents q)" and "tx_holds f us vs"
  shows "\<exists>k f' q' us' vs' new.
    wlan_tx n f q = Some (if k \<noteq> 0 then int k else if n = 0 \<or> msg_q_contents q = [] then -1 else TX_FIFO_FULL, f', q') \<and>
    k \<le> n \<and> k \<le> length (msg_q_contents q) \<and> msg_q_contents q' = drop k (msg_q_contents q) \<and>
    tx_holds f' us' vs' \<and> us' @ vs' = us @ vs @ new \<and> list_all2 carries (take k (msg_q_contents q)) new \<and>
    (k = n \<or> k = length (msg_q_contents q) \<or> tx_fifo_in (msg_q_contents q ! k) f' = Some (TX_FIFO_FULL, f'))"
proof -
  obtain k f' q' us' vs' new where r:
    "wlan_tx_loop n 0 (-1) f q = Some (0 + k, if k < n \<and> k < length (msg_q_contents q) then TX_FIFO_FULL else if k = 0 then -1 else TX_OK, f', q')"
    "k \<le> n" "k \<le> length (msg_q_contents q)" "msg_q_wf q'" "msg_q_contents q' = drop k (msg_q_contents q)"
    "tx_holds f' us' vs'" "us' @ vs' = us @ vs @ new" "list_all2 carries (take k (msg_q_contents q)) new"
    "k < n \<Longrightarrow> k < length (msg_q_contents q) \<Longrightarrow> tx_fifo_in (msg_q_contents q ! k) f' = Some (TX_FIFO_FULL, f')"
    by (rule wlan_tx_loop_moves [OF assms, where n = n and c = 0 and ret = "-1"]) (rule that)
  have w: "wlan_tx n f q = Some (if k \<noteq> 0 then int k else if n = 0 \<or> msg_q_contents q = [] then -1 else TX_FIFO_FULL, f', q')"
    using r(1-3) by (auto simp: wlan_tx_def)
  have "k = n \<or> k = length (msg_q_contents q) \<or> tx_fifo_in (msg_q_contents q ! k) f' = Some (TX_FIFO_FULL, f')"
    using r(2,3,9) by linarith
  with w r show ?thesis by blast
qed

lemma wlan_tx_moves_prefix_witness:
  "\<exists>k f' q' us' vs' new.
    wlan_tx 5 (the (tx_fifo_alloc (Some (replicate 1088 0)) 13248 12))
       \<lparr>q_wt = 1, q_rd = 0, q_mem = [\<lparr>mtype = 0, mmode = False, msubtype = 7, mlen = 2, slice = Some [1, 2]\<rparr>,
         \<lparr>mtype = 0, mmode = False, msubtype = 0, mlen = 0, slice = None\<rparr>], q_num = 2,
        q_wt_cnt = 1, q_rd_cnt = 0\<rparr> = Some (if k \<noteq> 0 then int k else TX_FIFO_FULL, f', q') \<and>
    k \<le> 1 \<and> msg_q_contents q' = drop k [\<lparr>mtype = 0, mmode = False, msubtype = 7, mlen = 2, slice = Some [1, 2]\<rparr>] \<and>
    tx_holds f' us' vs' \<and>
    list_all2 carries (take k [\<lparr>mtype = 0, mmode = False, msubtype = 7, mlen = 2, slice = Some [1, 2]\<rparr>]) (us' @ vs')"
proof -
  let ?q = "\<lparr>q_wt = 1, q_rd = 0, q_mem = [\<lparr>mtype = 0, mmode = False, msubtype = 7, mlen = 2, slice = Some [1, 2]\<rparr>,
         \<lparr>mtype = 0, mmode = False, msubtype = 0, mlen = 0, slice = None\<rparr>],
    q_num = 2, q_wt_cnt = 1, q_rd_cnt = 0\<rparr>"
  have c: "msg_q_contents ?q = [\<lparr>mtype = 0, mmode = False, msubtype = 7, mlen = 2, slice = Some [1, 2]\<rparr>]"
    by (simp add: msg_q_contents_def ring_slots_def)
  have h: "tx_holds (the (tx_fifo_alloc (Some (replicate 1088 0)) 13248 12)) [] []"
    by (rule tx_fifo_alloc_holds [of "replicate 1088 0" 13248 12]) (simp_all add: tx_fifo_alloc_def)
  have w: "msg_q_wf ?q" "list_all slice_ok (msg_q_contents ?q)"
    by (simp add: msg_q_wf_def, unfold c, simp add: slice_ok_def)
  obtain k f' q' us' vs' new where r: "wlan_tx 5 (the (tx_fifo_alloc (Some (replicate 1088 0)) 13248 12)) ?q =
      Some (if k \<noteq> 0 then int k else if 5 = (0 :: nat) \<or> msg_q_contents ?q = [] then -1 else TX_FIFO_FULL, f', q')"
    "k \<le> length (msg_q_contents ?q)" "msg_q_contents q' = drop k (msg_q_contents ?q)" "tx_holds f' us' vs'"
    "us' @ vs' = [] @ [] @ new" "list_all2 carries (take k (msg_q_contents ?q)) new"
    using wlan_tx_moves_prefix [OF w h, of 5] by blast
  show ?thesis
    by (rule exI [of _ k], rule exI [of _ f'], rule exI [of _ q'], rule exI [of _ us'], rule exI [of _ vs'])
      (use r [unfolded c] in simp)
qed

subsection \<open>What the ring promises\<close>

text \<open>
  C1. From the start and under every interleaving of the two threads, whatever the bus answers,
  no access leaves a buffer, and the messages accepted are, in order and each exactly once, the
  units of the frames on the bus and then the units that are still in the ring. Each frame is
  well formed: its header counts and lists its units, at most 12 of them.
\<close>

theorem tx_messages_in_order:
  assumes "tx_start start"
  shows "\<exists>s dss us vs. run_steps tx_step start evts = Some s \<and> list_all2 tx_wire dss (on_bus s) \<and>
    tx_holds (ring s) us vs \<and> list_all2 carries (taken s) (concat dss @ us @ vs)"
  using wlan_tx_sys.inv_reachable [OF assms, of evts] by (auto simp: tx_sys_ok_def tx_holds_all_def)

theorem tx_messages_in_order_witness:
  "\<exists>s dss us vs. run_steps tx_step
      (map_option (\<lambda>f. \<lparr>ring = f, waiting = None, frames = 0, taken = [], on_bus = []\<rparr>)
        (tx_fifo_alloc (Some (replicate 2000 0)) (13312 - 64) 12))
      [Msg \<lparr>mtype = 0, mmode = False, msubtype = 7, mlen = 2, slice = Some [1, 2]\<rparr>, Frame 1, Bus False True] = Some s \<and>
    list_all2 tx_wire dss (on_bus s) \<and> tx_holds (ring s) us vs \<and> list_all2 carries (taken s) (concat dss @ us @ vs)"
  by (rule tx_messages_in_order) (auto simp: tx_start_def tx_fifo_alloc_def intro!: exI [of _ "replicate 2000 0"])

text \<open>One call of \<open>tx_fifo_out\<close> with the bus driver.\<close>

lemma tx_fifo_out_done:
  assumes h: "tx_holds f us vs" and c: "tx_conf f"
  obtains (none) p f' us' vs' where
      "tx_fifo_out netif_id (hw_tx False True cnt) f = Some (TX_NOTHING, 0, None, f')" "tx_holds f' us' vs'" "us' @ vs' = us @ vs"
      "tx_conf f'" "us @ vs = [] \<or> max_msg_num f = 0 \<or> \<not> chip_takes (cp2_txRam f - 64) (hd (us @ vs))"
  | (some) n w cnt' f' us' vs' where
      "tx_fifo_out netif_id (hw_tx False True cnt) f = Some (TX_OK, n, Some (Some w, cnt'), f')" "n \<noteq> 0"
      "tx_wire (take n (us @ vs)) w" "tx_holds f' us' vs'" "us' @ vs' = drop n (us @ vs)" "tx_conf f'"
      "us @ vs = [] \<or> max_msg_num f = 0 \<or> chip_takes (cp2_txRam f - 64) (hd (us @ vs))"
proof -
  obtain p g ug vg where b: "tx_out_begin netif_id f = Some (p, g)" "tx_holds g ug vg" "ug @ vg = us @ vs"
      "tx_waits netif_id p g ug" "tx_conf g"
      "us @ vs \<noteq> [] \<Longrightarrow> max_msg_num f \<noteq> 0 \<Longrightarrow> p_num p \<noteq> 0 \<longleftrightarrow> chip_takes (cp2_txRam f - 64) (hd (us @ vs))"
    by (rule tx_out_begin_holds [OF h c]) (rule that)
  have sends: "tx_out_sends p \<longleftrightarrow> p_num p \<noteq> 0" by (rule tx_sends_iff [OF b(4,2)])
  show ?thesis
  proof (cases "p_num p = 0")
    case True
    obtain f' us' vs' where "tx_out_end None p g = (TX_NOTHING, f')" "tx_holds f' us' vs'" "us' @ vs' = drop (p_num p) ug @ vg"
        "tx_conf f' = tx_conf g"
      using tx_out_end_holds [OF b(2,4), of None] by auto
    then show ?thesis using none [of f' us' vs'] b True sends by (auto simp: tx_fifo_out_def)
  next
    case False
    obtain ret mem out cnt' where w: "hw_tx False True cnt (p_from p) (p_len p) (fmem g) = Some (ret, mem, out, cnt')"
        "tx_holds (g\<lparr>fmem := mem\<rparr>) ug vg" "tx_waits netif_id p (g\<lparr>fmem := mem\<rparr>) ug"
        "if True \<and> \<not> False then ret = TX_OK \<and> (\<exists>d. out = Some d \<and> tx_wire (take (p_num p) ug) d) else ret \<noteq> TX_OK \<and> out = None"
      by (rule hw_tx_waits [OF b(2,4) False])
    then obtain d where d: "ret = TX_OK" "out = Some d" "tx_wire (take (p_num p) ug) d" by auto
    obtain f' us' vs' where e: "tx_out_end (Some TX_OK) p (g\<lparr>fmem := mem\<rparr>) = (TX_OK, f')" "tx_holds f' us' vs'"
        "us' @ vs' = drop (p_num p) ug @ vg" "tx_conf f' = tx_conf (g\<lparr>fmem := mem\<rparr>)"
      using tx_out_end_holds [OF w(2,3), of "Some TX_OK"] by auto
    have le: "p_num p \<le> length ug" using b(4) by (simp add: tx_waits_def)
    have out: "tx_fifo_out netif_id (hw_tx False True cnt) f = Some (TX_OK, p_num p, Some (Some d, cnt'), f')"
      using b(1) False sends w(1) d e(1) by (simp add: tx_fifo_out_def)
    show ?thesis
    proof (rule some [OF out False])
      show "tx_wire (take (p_num p) (us @ vs)) d" using d(3) le by (simp flip: b(3))
      show "us' @ vs' = drop (p_num p) (us @ vs)" using e(3) le by (simp flip: b(3))
    qed (use e b(5,6) False in \<open>auto simp: tx_conf_def\<close>)
  qed
qed

text \<open>
  C13. A call of \<open>tx_fifo_out\<close> makes progress: when the first message in the ring is one the chip
  takes (its type and command are known and it fits into the chip's buffer) and the bus works,
  the call puts a frame of one or more messages from the head of the ring on the bus and leaves
  the rest in the ring. Otherwise it sends nothing, answers -5 and the ring keeps all messages: a
  message the chip does not take, which \<open>tx_fifo_in\<close> accepts, holds up every later one.
\<close>

theorem tx_fifo_out_progress:
  assumes "tx_holds f us vs" and "tx_conf f" and "max_msg_num f \<noteq> 0" and "us @ vs \<noteq> []"
  shows "if chip_takes (cp2_txRam f - 64) (hd (us @ vs))
    then \<exists>n w cnt' f' us' vs'. tx_fifo_out netif_id (hw_tx False True cnt) f = Some (TX_OK, n, Some (Some w, cnt'), f') \<and>
      n \<noteq> 0 \<and> tx_wire (take n (us @ vs)) w \<and> tx_holds f' us' vs' \<and> us' @ vs' = drop n (us @ vs)
    else \<exists>f' us' vs'. tx_fifo_out netif_id (hw_tx False True cnt) f = Some (TX_NOTHING, 0, None, f') \<and>
      tx_holds f' us' vs' \<and> us' @ vs' = us @ vs"
  by (rule tx_fifo_out_done [OF assms(1,2), of netif_id cnt]) (use assms(3,4) in auto)

theorem tx_fifo_out_progress_witness:
  "\<exists>n w cnt' f' us' vs'. tx_fifo_out 1 (hw_tx False True 0)
      \<lparr>WT = 4, RD = 0, LASTWT = None, fmem = replicate 64 0 @ [0, 7, 0, 0] @ replicate 1532 0, fsize = 512, cp2_txRam = 13248,
       max_msg_num = 12, wt_cnt = 1, rd_cnt = 0, seq1 = 0, seq2 = 0\<rparr> = Some (TX_OK, n, Some (Some w, cnt'), f') \<and>
    n \<noteq> 0 \<and> tx_wire (take n ([[0, 7, 0, 0]] @ [])) w \<and> tx_holds f' us' vs' \<and> us' @ vs' = drop n ([[0, 7, 0, 0]] @ [])"
proof -
  let ?f = "\<lparr>WT = 4, RD = 0, LASTWT = None, fmem = replicate 64 0 @ [0, 7, 0, 0] @ replicate 1532 0, fsize = 512, cp2_txRam = 13248,
       max_msg_num = 12, wt_cnt = 1, rd_cnt = 0, seq1 = 0, seq2 = 0\<rparr>"
  have "is_unit [0, 7, 0, 0]"
    by (simp add: is_unit_def TX_MSG_UNIT_LEN_def TX_MSG_HEAD_FILED_def hdr_type_def hdr_len_def ALIGN_4BYTE_def)
  then have h: "tx_holds ?f [[0, 7, 0, 0]] []" by (simp add: tx_holds_def tx_end_def seg_def)
  have c: "tx_conf ?f" by (simp add: tx_conf_def)
  have "chip_takes (cp2_txRam ?f - 64) (hd ([[0, 7, 0, 0]] @ []))" by (simp add: chip_takes_def hdr_type_def)
  then show ?thesis
    using tx_fifo_out_progress [OF h c, of 1 0] by simp
qed

end
