(* ===== verification/WlanTcp.thy ===== *)
theory WlanTcp
  imports WlanQueue "HOL-Library.Sublist"
begin

text \<open>
  Suppression of TCP acknowledges in the Wi-Fi driver (\<open>wlan_tcp.c\<close>): received data opens and
  refreshes sessions, outgoing pure acknowledges of a session wait in the session's own queue,
  and the core thread sends some of them and drops the others. With it the loop that takes the
  messages of a received block apart (\<open>wlan_rx_process\<close> in \<open>wlan_core.c\<close>).

  A frame is the bytes of its buffer; a read behind them makes an operation return \<open>None\<close>.
  \<open>timeval\<close> has two words, and differences wrap around, as the kernel's compiler flags
  (\<open>-fno-strict-overflow\<close>) have it.
\<close>

subsection \<open>Looking into frames\<close>

type_synonym timeval = "u32 \<times> u32"

definition time_d_value :: "timeval \<Rightarrow> timeval \<Rightarrow> int" where
  "time_d_value start end' = sint ((fst end' - fst start) * 1000000 + (snd end' - snd start))"

definition get_ip_hdr :: "u8 list \<Rightarrow> nat option" where
  "get_ip_hdr frame = do { b \<leftarrow> byte_at 14 frame; Some (unat (b AND 0x0F) * 4) }"

text \<open>The offset of the TCP header, and its length.\<close>

definition get_tcp_hdr :: "u8 list \<Rightarrow> (nat \<times> nat) option" where
  "get_tcp_hdr frame = do {
     a \<leftarrow> byte_at 14 frame;
     (let t = 14 + unat (a AND 0x0F) * 4 in do { b \<leftarrow> byte_at (t + 12) frame; Some (t, unat (drop_bit 4 b) * 4) }) }"

definition is_tcp :: "u8 list \<Rightarrow> bool option" where
  "is_tcp frame = do {
     a \<leftarrow> byte_at 12 frame;
     b \<leftarrow> (if a = 0x08 then byte_at 13 frame else Some 1);
     (if a = 0x08 \<and> b = 0 then do { p \<leftarrow> byte_at 23 frame; Some (p = 0x06) } else Some False) }"

definition is_tcp_data :: "u8 list \<Rightarrow> int \<Rightarrow> bool option" where
  "is_tcp_data frame len =
     (if len \<le> 54 then Some False
      else do {
        tcp \<leftarrow> is_tcp frame;
        (if \<not> tcp then Some False
         else do {
           ip_hdr_len \<leftarrow> get_ip_hdr frame;
           (_, tcp_hdr_len) \<leftarrow> get_tcp_hdr frame;
           Some (\<not> len - (14 + int ip_hdr_len + int tcp_hdr_len) \<le> 0) }) })"

definition is_tcp_ack :: "u8 list \<Rightarrow> int \<Rightarrow> bool option" where
  "is_tcp_ack frame len = do {
     tcp \<leftarrow> is_tcp frame;
     (if \<not> tcp then Some False
      else do {
        ip_hdr_len \<leftarrow> get_ip_hdr frame;
        (_, tcp_hdr_len) \<leftarrow> get_tcp_hdr frame;
        Some (len - (14 + int ip_hdr_len + int tcp_hdr_len) = 0) }) }"

definition ack_no_loss :: "u8 list \<Rightarrow> int \<Rightarrow> bool option" where
  "ack_no_loss frame len =
     (if len = 54 then do { b \<leftarrow> byte_at 0x2f frame; Some (b \<noteq> 0x10) } else Some (len > 54))"

text \<open>A sequence number at an offset of the TCP header, without its highest bit.\<close>

definition get_seq :: "nat \<Rightarrow> u8 list \<Rightarrow> u32 option" where
  "get_seq off frame = do {
     (t, _) \<leftarrow> get_tcp_hdr frame;
     b \<leftarrow> get_bytes (t + off) 4 frame;
     Some (from_le32 (rev b) AND 0x7FFFFFFF) }"

abbreviation (input) get_data_seq :: "u8 list \<Rightarrow> u32 option" where "get_data_seq \<equiv> get_seq 4"
abbreviation (input) get_ack_seq :: "u8 list \<Rightarrow> u32 option" where "get_ack_seq \<equiv> get_seq 8"

definition tid_calc :: "u8 list \<Rightarrow> u32 option" where
  "tid_calc frame = do {
     src_ip \<leftarrow> get_bytes 0x1a 4 frame;
     dst_ip \<leftarrow> get_bytes 0x1e 4 frame;
     (t, _) \<leftarrow> get_tcp_hdr frame;
     src_port \<leftarrow> get_bytes t 2 frame;
     dst_port \<leftarrow> get_bytes (t + 2) 2 frame;
     Some (from_le32 src_ip XOR from_le32 dst_ip XOR ucast (from_le16 dst_port) XOR ucast (from_le16 src_port)) }"

subsection \<open>Sessions\<close>

record tcp_session =
  tid :: u32
  active :: bool
  data_seq :: u32
  ack_seq :: u32
  data_time :: timeval
  ack_time :: timeval
  ack_q :: "tx_msg msg_q"

definition tcp_session_del :: "tcp_session \<Rightarrow> tcp_session" where
  "tcp_session_del s = s\<lparr>tid := 0, active := False, data_seq := 0, ack_seq := 0, data_time := (0, 0), ack_time := (0, 0)\<rparr>"

definition expired :: "timeval \<Rightarrow> tcp_session \<Rightarrow> bool" where
  "expired cur s \<longleftrightarrow> sint (fst cur - fst (data_time s)) > 5"

fun find_index :: "('a \<Rightarrow> bool) \<Rightarrow> 'a list \<Rightarrow> nat option" where
  "find_index P [] = None"
| "find_index P (x # xs) = (if P x then Some 0 else map_option Suc (find_index P xs))"

definition tcp_session_updata :: "bool \<Rightarrow> timeval \<Rightarrow> u8 list \<Rightarrow> int \<Rightarrow> tcp_session list \<Rightarrow> tcp_session list option" where
  "tcp_session_updata tcp_ack_suppress cur frame len ss =
    (if \<not> tcp_ack_suppress then Some ss
     else do {
       dat \<leftarrow> is_tcp_data frame len;
       (if \<not> dat then Some ss
        else do {
          t \<leftarrow> tid_calc frame;
          seq \<leftarrow> get_data_seq frame;
          Some (case find_index (\<lambda>s. active s \<and> t = tid s) ss of
              None \<Rightarrow> (case find_index (\<lambda>s. \<not> active s \<or> expired cur s) ss of
                  None \<Rightarrow> ss
                | Some i \<Rightarrow>
                    let s = (if active (ss ! i) then tcp_session_del (ss ! i) else ss ! i) in
                    ss[i := s\<lparr>tid := t, ack_seq := seq, ack_time := cur, active := True, data_time := cur, data_seq := seq\<rparr>])
            | Some i \<Rightarrow>
                if expired cur (ss ! i) then ss[i := tcp_session_del (ss ! i)]
                else ss[i := (ss ! i)\<lparr>data_time := cur, data_seq := seq\<rparr>]) }) })"

text \<open>The session whose queue an outgoing frame belongs to.\<close>

definition wlan_q_match_ack :: "bool \<Rightarrow> u8 list \<Rightarrow> int \<Rightarrow> tcp_session list \<Rightarrow> nat option option" where
  "wlan_q_match_ack tcp_ack_suppress frame len ss =
    (if \<not> tcp_ack_suppress then Some None
     else do {
       ack \<leftarrow> is_tcp_ack frame len;
       (if \<not> ack then Some None
        else do { t \<leftarrow> tid_calc frame; Some (find_index (\<lambda>s. active s \<and> t = tid s) ss) }) })"

subsection \<open>Sending acknowledges\<close>

text \<open>
  The loop over the messages of a session, with the turns left, the clock and the number of its
  next reading; it returns also how many sends found no room and how many messages left the queue.
\<close>

fun ack_loop :: "(nat \<Rightarrow> timeval) \<Rightarrow> nat \<Rightarrow> nat \<Rightarrow> nat \<Rightarrow> nat \<Rightarrow> txfifo \<Rightarrow> tcp_session
    \<Rightarrow> (nat \<times> nat \<times> nat \<times> txfifo \<times> tcp_session) option" where
  "ack_loop clk 0 n retry gone f s = Some (n, retry, gone, f, s)"
| "ack_loop clk (Suc k) n retry gone f s =
     (case msg_get (ack_q s) of
        None \<Rightarrow> Some (n, retry, gone, f, s)
      | Some m \<Rightarrow> do {
          frame \<leftarrow> slice m;
          seq \<leftarrow> get_ack_seq frame;
          must \<leftarrow> (if k = 0 \<or> sint (seq - ack_seq s) \<ge> 20272 \<or> \<not> active s then Some True
                  else ack_no_loss frame (uint (mlen m)));
          (if must then do {
             (ret, f) \<leftarrow> tx_fifo_in m f;
             (if ret = TX_FIFO_FULL then ack_loop clk k n (retry + 1) gone f s
              else do {
                q \<leftarrow> msg_free (ack_q s);
                ack_loop clk k (n + 1) retry (gone + 1) f (s\<lparr>ack_seq := seq, ack_time := clk n, ack_q := q\<rparr>) }) }
           else do {
             q \<leftarrow> msg_free (ack_q s);
             ack_loop clk k n retry (gone + 1) f (s\<lparr>ack_q := q\<rparr>) }) })"

definition held_back :: "timeval \<Rightarrow> tcp_session \<Rightarrow> bool" where
  "held_back cur s \<longleftrightarrow>
     active s \<and> (if data_seq s \<ge> ack_seq s then sint (data_seq s - ack_seq s) else 0) < 23168 \<and>
     time_d_value (ack_time s) cur < 500"

fun sessions_loop :: "(nat \<Rightarrow> timeval) \<Rightarrow> timeval \<Rightarrow> nat \<Rightarrow> nat \<Rightarrow> nat \<Rightarrow> txfifo \<Rightarrow> tcp_session list
    \<Rightarrow> (nat \<times> nat \<times> nat \<times> txfifo \<times> tcp_session list) option" where
  "sessions_loop clk cur n retry gone f [] = Some (n, retry, gone, f, [])"
| "sessions_loop clk cur n retry gone f (s # ss) =
     (if msg_num (ack_q s) = 0 then do {
        (n, retry, gone, f, ss) \<leftarrow> sessions_loop clk cur n retry gone f ss;
        Some (n, retry, gone, f, s # ss) }
      else if held_back cur s then do {
        (n, retry, gone, f, ss) \<leftarrow> sessions_loop clk cur n (retry + 1) gone f ss;
        Some (n, retry, gone, f, s # ss) }
      else do {
        (n, retry, gone, f, s) \<leftarrow> ack_loop clk (nat (msg_num (ack_q s))) n retry gone f s;
        (n, retry, gone, f, ss) \<leftarrow> sessions_loop clk cur n retry gone f ss;
        Some (n, retry, gone, f, s # ss) })"

definition wlan_tcpack_tx :: "(nat \<Rightarrow> timeval) \<Rightarrow> txfifo \<Rightarrow> tcp_session list \<Rightarrow> (int \<times> nat \<times> txfifo \<times> tcp_session list) option" where
  "wlan_tcpack_tx clk f ss = do {
     (n, retry, gone, f, ss) \<leftarrow> sessions_loop clk (clk 0) 1 0 0 f ss;
     Some (if retry > 0 then -1 else 0, gone, f, ss) }"

subsection \<open>Received blocks\<close>

text \<open>
  What the loop does with a message: the bytes of a packet handed to the network, and for the
  other kinds the call of a handler, with the interface, the offset and the length.
\<close>

abbreviation (input) HOST_SC2331_WAPI :: u8 where "HOST_SC2331_WAPI \<equiv> 3"
abbreviation (input) SC2331_HOST_RSP :: u8 where "SC2331_HOST_RSP \<equiv> 1"

datatype rx_item = Rx_skb bool "u8 list" | Rx_wapi bool nat u16 | Rx_rsp bool nat | Rx_event bool u8 nat u16

definition hdr_mode :: "u8 list \<Rightarrow> bool" where "hdr_mode h = bit (h ! 0) 7"

text \<open>
  Nothing, or what happens with the message at offset \<open>p\<close> and whether the loop goes on. The
  buffer for a packet is taken to be had (\<open>dev_alloc_skb\<close>); without one \<open>wlan_rx_skb_process\<close>
  drops the packet unread, and the loop, which ignores its result, goes on all the same.
\<close>

definition rx_message :: "(bool \<Rightarrow> bool) \<Rightarrow> u8 list \<Rightarrow> nat \<Rightarrow> u8 list \<Rightarrow> (rx_item list \<times> bool) option" where
  "rx_message wapi buf p h =
    (let vif_id = hdr_mode h; pData = 8 + p + 4; len = from_le16 (drop 2 h) in
     if hdr_type h = HOST_SC2331_PKT then
       (let pData = pData + unat (h ! 1); len = len - ucast (h ! 1) in
        if len = 0 then Some ([], True)
        else do { d \<leftarrow> get_bytes pData (unat len) buf; Some ([Rx_skb vif_id d], True) })
     else if hdr_type h = HOST_SC2331_WAPI \<and> wapi vif_id then Some ([Rx_wapi vif_id pData len], True)
     else if hdr_type h = SC2331_HOST_RSP then Some ([Rx_rsp vif_id (8 + p)], True)
     else if hdr_type h = HOST_SC2331_CMD then Some ([Rx_event vif_id (h ! 1) pData len], True)
     else Some ([], False))"

definition rx_end :: "u8 list \<Rightarrow> bool" where
  "rx_end h \<longleftrightarrow> hdr_type h = 0x7F \<or> h ! 1 = 0xFF"

function rx_loop :: "(bool \<Rightarrow> bool) \<Rightarrow> u8 list \<Rightarrow> nat \<Rightarrow> nat \<Rightarrow> rx_item list option" where
  "rx_loop wapi buf max_len p =
    (if p \<ge> max_len then Some []
     else do {
       h \<leftarrow> get_bytes (8 + p) 4 buf;
       (if rx_end h then Some []
        else do {
          (items, more) \<leftarrow> rx_message wapi buf p h;
          (if \<not> more then Some []
           else do {
             rest \<leftarrow> rx_loop wapi buf max_len (p + 4 + ALIGN_4BYTE (hdr_len h));
             Some (items @ rest) }) }) })"
  by pat_completeness auto
termination by (relation "measure (\<lambda>(wapi, buf, max_len, p). max_len - p)") auto

declare rx_loop.simps [simp del]

definition wlan_rx_process :: "(bool \<Rightarrow> bool) \<Rightarrow> u8 list \<Rightarrow> nat \<Rightarrow> rx_item list option" where
  "wlan_rx_process wapi buf max_len =
    (if max_len = 0 then Some [] else rx_loop wapi buf (unat (of_nat max_len - 8 :: u32)) 0)"

text \<open>The walk of the bus thread over the same block, which only looks for TCP data.\<close>

type_synonym tcp_state = "bool \<Rightarrow> tcp_session list"

definition decode_message :: "(bool \<Rightarrow> bool) \<Rightarrow> timeval \<Rightarrow> u8 list \<Rightarrow> nat \<Rightarrow> u8 list \<Rightarrow> tcp_state \<Rightarrow> tcp_state option" where
  "decode_message suppress cur buf p h st =
    (if hdr_type h = HOST_SC2331_PKT then
       (let v = hdr_mode h; len = from_le16 (drop 2 h) - ucast (h ! 1) in do {
          ss \<leftarrow> tcp_session_updata (suppress v) cur (drop (8 + p + 4 + unat (h ! 1)) buf) (uint len) (st v);
          Some (st(v := ss)) })
     else Some st)"

function decode_loop :: "(bool \<Rightarrow> bool) \<Rightarrow> timeval \<Rightarrow> u8 list \<Rightarrow> nat \<Rightarrow> nat \<Rightarrow> tcp_state \<Rightarrow> tcp_state option" where
  "decode_loop suppress cur buf max_len p st =
    (if p \<ge> max_len then Some st
     else do {
       h \<leftarrow> get_bytes (8 + p) 4 buf;
       (if rx_end h then Some st
        else do {
          st \<leftarrow> decode_message suppress cur buf p h st;
          decode_loop suppress cur buf max_len (p + 4 + ALIGN_4BYTE (hdr_len h)) st }) })"
  by pat_completeness auto
termination by (relation "measure (\<lambda>(suppress, cur, buf, max_len, p, st). max_len - p)") auto

declare decode_loop.simps [simp del]

definition wlan_rx_buf_decode :: "(bool \<Rightarrow> bool) \<Rightarrow> timeval \<Rightarrow> u8 list \<Rightarrow> nat \<Rightarrow> tcp_state \<Rightarrow> tcp_state option" where
  "wlan_rx_buf_decode suppress cur buf max_len st =
    (if max_len = 0 then Some st else decode_loop suppress cur buf (unat (of_nat max_len - 8 :: u32)) 0 st)"

subsection \<open>Acknowledges sent and dropped\<close>

text \<open>A message of a session's queue: its frame has the TCP header the matching looked at.\<close>

definition ack_msg :: "tx_msg \<Rightarrow> bool" where
  "ack_msg m \<longleftrightarrow> (\<exists>d. slice m = Some d \<and> unat (mlen m) \<le> length d \<and> get_tcp_hdr d \<noteq> None)"

text \<open>One the suppression may not drop: it has flags besides the acknowledge, or options.\<close>

definition has_signal :: "tx_msg \<Rightarrow> bool" where
  "has_signal m \<longleftrightarrow> (case slice m of None \<Rightarrow> False | Some d \<Rightarrow> ack_no_loss d (uint (mlen m)) = Some True)"

lemma is_tcp_ack_hdr: "is_tcp_ack d len = Some True \<Longrightarrow> get_tcp_hdr d \<noteq> None"
  by (auto simp: is_tcp_ack_def split: bind_splits if_splits)

lemma get_tcp_hdr_Some: "get_tcp_hdr d = Some (t, l) \<Longrightarrow> t + 12 < length d"
  by (auto simp: get_tcp_hdr_def byte_at_def Let_def split: bind_splits if_splits)

lemma ack_msg_reads:
  assumes "ack_msg m"
  obtains d seq nl where "slice m = Some d" and "get_seq 8 d = Some seq" and "ack_no_loss d (uint (mlen m)) = Some nl"
    and "slice_ok m" and "nl \<longleftrightarrow> has_signal m"
proof -
  obtain d t l where d: "slice m = Some d" "unat (mlen m) \<le> length d" "get_tcp_hdr d = Some (t, l)"
    using assms by (auto simp: ack_msg_def)
  have "get_bytes (t + 8) 4 d = Some (take 4 (drop (t + 8) d))"
    using get_tcp_hdr_Some [OF d(3)] by (simp add: get_bytes_def)
  then obtain seq where seq: "get_seq 8 d = Some seq" using d(3) by (simp add: get_seq_def)
  have "uint (mlen m) = 54 \<Longrightarrow> 54 \<le> length d"
    using d(2) by (simp add: unat_eq_nat_uint)
  then obtain nl where nl: "ack_no_loss d (uint (mlen m)) = Some nl"
    by (cases "uint (mlen m) = 54") (auto simp: ack_no_loss_def byte_at_def)
  show ?thesis using that [OF d(1) seq nl] d nl by (auto simp: slice_ok_def has_signal_def)
qed

text \<open>
  \<open>c\<close> is the content of the session's queue, \<open>k\<close> the number of turns, \<open>j\<close> the number of messages
  that leave the queue, \<open>sent\<close> those of them that reach the ring.
\<close>

lemma ack_loop_spec:
  assumes "msg_q_wf (ack_q s)" and "msg_q_contents (ack_q s) = c" and "list_all ack_msg c" and "k \<le> length c" and "tx_holds f us vs"
  obtains n' retry' j sent f' s' us' vs' new where
    "ack_loop clk k n retry gone f s = Some (n', retry', gone + j, f', s')" "retry' + j = retry + k" "j \<le> k"
    "msg_q_wf (ack_q s')" "msg_q_contents (ack_q s') = drop j c"
    "subseq sent (take j c)" "filter has_signal sent = filter has_signal (take j c)"
    "j = k \<Longrightarrow> k \<noteq> 0 \<Longrightarrow> sent \<noteq> [] \<and> last sent = c ! (k - 1)"
    "tx_holds f' us' vs'" "us' @ vs' = us @ vs @ new" "list_all2 carries sent new"
  using assms
proof (induction k arbitrary: n retry gone f s c us vs thesis)
  case 0
  show ?case by (rule 0(1) [of n retry 0 f s "[]" us vs "[]"]) (use 0(2-) in simp_all)
next
  case (Suc k)
  obtain m c' where c: "c = m # c'" using Suc.prems(5) by (cases c) auto
  have get: "msg_get (ack_q s) = Some m" using Suc.prems(2,3) c by (simp add: msg_q_get_law)
  then obtain q where q: "msg_free (ack_q s) = Some q" by (auto simp: msg_get_def msg_free_def split: if_splits)
  have q': "msg_q_wf q" "msg_q_contents q = c'" using msg_q_free_law [OF Suc.prems(2) q] Suc.prems(3) c by simp_all
  have am: "ack_msg m" "list_all ack_msg c'" using Suc.prems(4) c by simp_all
  obtain d seq nl where m: "slice m = Some d" "get_seq 8 d = Some seq" "ack_no_loss d (uint (mlen m)) = Some nl"
      "slice_ok m" "nl \<longleftrightarrow> has_signal m"
    by (rule ack_msg_reads [OF am(1)])
  let ?must = "k = 0 \<or> sint (seq - ack_seq s) \<ge> 20272 \<or> \<not> active s \<or> nl"
  have kc: "k \<le> length c'" using Suc.prems(5) c by simp
  show ?case
  proof (cases ?must)
    case False
    have "msg_q_wf (ack_q (s\<lparr>ack_q := q\<rparr>))" "msg_q_contents (ack_q (s\<lparr>ack_q := q\<rparr>)) = c'" using q' by simp_all
    from Suc.IH [OF _ this am(2) kc Suc.prems(6), of n retry "gone + 1"] obtain n' retry' j sent f' s' us' vs' new where r:
      "ack_loop clk k n retry (gone + 1) f (s\<lparr>ack_q := q\<rparr>) = Some (n', retry', gone + 1 + j, f', s')" "retry' + j = retry + k" "j \<le> k"
      "msg_q_wf (ack_q s')" "msg_q_contents (ack_q s') = drop j c'" "subseq sent (take j c')"
      "filter has_signal sent = filter has_signal (take j c')" "j = k \<Longrightarrow> k \<noteq> 0 \<Longrightarrow> sent \<noteq> [] \<and> last sent = c' ! (k - 1)"
      "tx_holds f' us' vs'" "us' @ vs' = us @ vs @ new" "list_all2 carries sent new" by metis
    show ?thesis
      by (rule Suc.prems(1) [of n' retry' "Suc j" f' s' sent us' vs' new])
        (use r get m q False c in \<open>auto simp: nth_Cons'\<close>)
  next
    case True
    then have must: "(if k = 0 \<or> sint (seq - ack_seq s) \<ge> 20272 \<or> \<not> active s then Some True else ack_no_loss d (uint (mlen m))) = Some True"
      using m(3) by auto
    show ?thesis
      using Suc.prems(6) m(4)
    proof (cases rule: tx_fifo_in_holds)
      case full
      have kc': "k \<le> length c" using Suc.prems(5) by simp
      from Suc.IH [OF _ Suc.prems(2,3,4) kc' Suc.prems(6), of n "retry + 1" gone] obtain n' retry' j sent f' s' us' vs' new where r:
        "ack_loop clk k n (retry + 1) gone f s = Some (n', retry', gone + j, f', s')" "retry' + j = retry + 1 + k" "j \<le> k"
        "msg_q_wf (ack_q s')" "msg_q_contents (ack_q s') = drop j c" "subseq sent (take j c)"
        "filter has_signal sent = filter has_signal (take j c)"
        "tx_holds f' us' vs'" "us' @ vs' = us @ vs @ new" "list_all2 carries sent new" by metis
      show ?thesis
        by (rule Suc.prems(1) [of n' retry' j f' s' sent us' vs' new])
          (use r get m must full c in \<open>auto\<close>)
    next
      case (taken f1 u)
      then obtain us1 vs1 where h1: "tx_holds f1 us1 vs1" "us1 @ vs1 = us @ vs @ [u]" by auto
      let ?s = "s\<lparr>ack_seq := seq, ack_time := clk n, ack_q := q\<rparr>"
      have "msg_q_wf (ack_q ?s)" "msg_q_contents (ack_q ?s) = c'" using q' by simp_all
      from Suc.IH [OF _ this am(2) kc h1(1), of "n + 1" retry "gone + 1"] obtain n' retry' j sent f' s' us' vs' new where r:
        "ack_loop clk k (n + 1) retry (gone + 1) f1 ?s = Some (n', retry', gone + 1 + j, f', s')" "retry' + j = retry + k" "j \<le> k"
        "msg_q_wf (ack_q s')" "msg_q_contents (ack_q s') = drop j c'" "subseq sent (take j c')"
        "filter has_signal sent = filter has_signal (take j c')" "j = k \<Longrightarrow> k \<noteq> 0 \<Longrightarrow> sent \<noteq> [] \<and> last sent = c' ! (k - 1)"
        "tx_holds f' us' vs'" "us' @ vs' = us1 @ vs1 @ new" "list_all2 carries sent new" by metis
      show ?thesis
        by (rule Suc.prems(1) [of n' retry' "Suc j" f' s' "m # sent" us' vs' "u # new"])
          (use r get m q must taken h1(2) c in \<open>auto simp: nth_Cons'\<close>)
    qed
  qed
qed

text \<open>
  C10. Whatever the acknowledges of a session, the ring and the clock: the loop takes the first
  \<open>j\<close> of the \<open>k\<close> acknowledges out of the session's queue and leaves the others in it, those
  sent are among them and in order, and every one with a signal (a flag besides the acknowledge,
  or options) is sent. When the loop gets through, the last one is sent: an acknowledge is only
  dropped for the sake of a later one.
\<close>

theorem acks_dropped_are_superseded:
  assumes "msg_q_wf (ack_q s)" and "list_all ack_msg (msg_q_contents (ack_q s))" and "k \<le> length (msg_q_contents (ack_q s))"
    and "tx_holds f us vs"
  shows "\<exists>n' retry' j sent f' s' us' vs' new.
    ack_loop clk k n retry gone f s = Some (n', retry', gone + j, f', s') \<and> j \<le> k \<and> retry' + j = retry + k \<and>
    msg_q_contents (ack_q s') = drop j (msg_q_contents (ack_q s)) \<and>
    subseq sent (take j (msg_q_contents (ack_q s))) \<and>
    filter has_signal sent = filter has_signal (take j (msg_q_contents (ack_q s))) \<and>
    (j = k \<and> k \<noteq> 0 \<longrightarrow> sent \<noteq> [] \<and> last sent = msg_q_contents (ack_q s) ! (k - 1)) \<and>
    tx_holds f' us' vs' \<and> us' @ vs' = us @ vs @ new \<and> list_all2 carries sent new"
proof -
  obtain n' retry' j sent f' s' us' vs' new where r:
    "ack_loop clk k n retry gone f s = Some (n', retry', gone + j, f', s')" "retry' + j = retry + k" "j \<le> k"
    "msg_q_wf (ack_q s')" "msg_q_contents (ack_q s') = drop j (msg_q_contents (ack_q s))"
    "subseq sent (take j (msg_q_contents (ack_q s)))"
    "filter has_signal sent = filter has_signal (take j (msg_q_contents (ack_q s)))"
    "j = k \<Longrightarrow> k \<noteq> 0 \<Longrightarrow> sent \<noteq> [] \<and> last sent = msg_q_contents (ack_q s) ! (k - 1)"
    "tx_holds f' us' vs'" "us' @ vs' = us @ vs @ new" "list_all2 carries sent new"
    by (rule ack_loop_spec [OF assms(1) refl assms(2-4)]) (rule that)
  then show ?thesis by blast
qed

text \<open>A pure acknowledge, from and to port 0.\<close>

definition demo_ack :: "u8 \<Rightarrow> tx_msg" where
  "demo_ack x = \<lparr>mtype = 2, mmode = False, msubtype = 0, mlen = 54,
     slice = Some (replicate 12 0 @ [8, 0, 0x45] @ replicate 8 0 @ [6] @ replicate 20 0 @ [0, 0, 0, x, 0x50, 0x10] @ replicate 6 0)\<rparr>"

definition demo_session :: tcp_session where
  "demo_session = \<lparr>tid = 0, active = True, data_seq = 5, ack_seq = 0, data_time = (7, 0), ack_time = (7, 0),
     ack_q = \<lparr>q_wt = 2, q_rd = 0, q_mem = [demo_ack 1, demo_ack 2, demo_ack 3], q_num = 3, q_wt_cnt = 2, q_rd_cnt = 0\<rparr>\<rparr>"

lemma demo_session_q: "msg_q_wf (ack_q demo_session)" "msg_q_contents (ack_q demo_session) = [demo_ack 1, demo_ack 2]"
  by (simp_all add: demo_session_def msg_q_wf_def msg_q_contents_def ring_slots_def upt_rec)

lemma demo_ack_msg: "ack_msg (demo_ack x)"
  by (simp add: ack_msg_def demo_ack_def get_tcp_hdr_def byte_at_def Let_def nth_append nth_Cons')

theorem acks_dropped_are_superseded_witness:
  "\<exists>n' retry' j sent f' s' us' vs' new.
    ack_loop (\<lambda>n. (8, of_nat n)) 2 1 0 0 (the (tx_fifo_alloc (Some (replicate 2000 0)) 13248 12)) demo_session
      = Some (n', retry', j, f', s') \<and> retry' + j = 2 \<and>
    msg_q_contents (ack_q s') = drop j [demo_ack 1, demo_ack 2] \<and> subseq sent (take j [demo_ack 1, demo_ack 2]) \<and>
    tx_holds f' us' vs' \<and> list_all2 carries sent (us' @ vs')"
proof -
  have h: "tx_holds (the (tx_fifo_alloc (Some (replicate 2000 0)) 13248 12)) [] []"
    by (rule tx_fifo_alloc_holds [of "replicate 2000 0" 13248 12]) (simp_all add: tx_fifo_alloc_def)
  have a: "list_all ack_msg (msg_q_contents (ack_q demo_session))" "2 \<le> length (msg_q_contents (ack_q demo_session))"
    by (simp_all add: demo_session_q demo_ack_msg)
  obtain n' retry' j sent f' s' us' vs' new where r:
    "ack_loop (\<lambda>n. (8, of_nat n)) 2 1 0 0 (the (tx_fifo_alloc (Some (replicate 2000 0)) 13248 12)) demo_session
      = Some (n', retry', 0 + j, f', s')" "retry' + j = 0 + 2"
    "msg_q_contents (ack_q s') = drop j (msg_q_contents (ack_q demo_session))"
    "subseq sent (take j (msg_q_contents (ack_q demo_session)))"
    "tx_holds f' us' vs'" "us' @ vs' = [] @ [] @ new" "list_all2 carries sent new"
    using acks_dropped_are_superseded [OF demo_session_q(1) a h, of "\<lambda>n. (8, of_nat n)" 1 0 0] by blast
  show ?thesis
    by (rule exI [of _ n'], rule exI [of _ retry'], rule exI [of _ j], rule exI [of _ sent], rule exI [of _ f'],
      rule exI [of _ s'], rule exI [of _ us'], rule exI [of _ vs'])
      (use r [unfolded demo_session_q(2)] in simp)
qed

subsection \<open>The session table\<close>

text \<open>No connection has two sessions.\<close>

definition sessions_ok :: "tcp_session list \<Rightarrow> bool" where
  "sessions_ok ss \<longleftrightarrow> length ss = 10 \<and>
     (\<forall>i < 10. \<forall>j < 10. i \<noteq> j \<and> active (ss ! i) \<and> active (ss ! j) \<longrightarrow> tid (ss ! i) \<noteq> tid (ss ! j))"

lemma find_index_Some: "find_index P xs = Some i \<Longrightarrow> i < length xs \<and> P (xs ! i)"
  by (induction xs arbitrary: i) (auto split: if_splits)

lemma find_index_None: "find_index P xs = None \<longleftrightarrow> (\<forall>i < length xs. \<not> P (xs ! i))"
  by (induction xs) (auto simp: nth_Cons split: nat.splits)

lemma sessions_ok_update:
  assumes "sessions_ok ss" and "active s \<Longrightarrow> \<forall>j < 10. j \<noteq> i \<and> active (ss ! j) \<longrightarrow> tid (ss ! j) \<noteq> tid s"
  shows "sessions_ok (ss[i := s])"
  unfolding sessions_ok_def
proof (intro conjI allI impI)
  fix k j :: nat
  assume kj: "k < 10" "j < 10" "k \<noteq> j \<and> active (ss[i := s] ! k) \<and> active (ss[i := s] ! j)"
  have len: "length ss = 10" using assms(1) by (simp add: sessions_ok_def)
  consider "k = i" "j \<noteq> i" | "j = i" "k \<noteq> i" | "k \<noteq> i" "j \<noteq> i" using kj(3) by blast
  then show "tid (ss[i := s] ! k) \<noteq> tid (ss[i := s] ! j)"
    by cases (use assms kj len in \<open>auto simp: sessions_ok_def nth_list_update_neq\<close>)
qed (use assms(1) in \<open>simp add: sessions_ok_def\<close>)

lemma tcp_session_updata_ok:
  assumes "sessions_ok ss" and "tcp_session_updata spr cur frame len ss = Some ss'"
  shows "sessions_ok ss'"
proof -
  consider "ss' = ss" | t seq where "ss' = (case find_index (\<lambda>s. active s \<and> t = tid s) ss of
              None \<Rightarrow> (case find_index (\<lambda>s. \<not> active s \<or> expired cur s) ss of
                  None \<Rightarrow> ss
                | Some i \<Rightarrow>
                    let s = (if active (ss ! i) then tcp_session_del (ss ! i) else ss ! i) in
                    ss[i := s\<lparr>tid := t, ack_seq := seq, ack_time := cur, active := True, data_time := cur, data_seq := seq\<rparr>])
            | Some i \<Rightarrow>
                if expired cur (ss ! i) then ss[i := tcp_session_del (ss ! i)]
                else ss[i := (ss ! i)\<lparr>data_time := cur, data_seq := seq\<rparr>])"
    using assms(2) by (auto simp: tcp_session_updata_def split: if_splits bind_splits)
  then show ?thesis
  proof cases
    case 2
    show ?thesis
    proof (cases "find_index (\<lambda>s. active s \<and> t = tid s) ss")
      case None
      then have "\<forall>j < 10. active (ss ! j) \<longrightarrow> tid (ss ! j) \<noteq> t"
        using assms(1) by (auto simp: find_index_None sessions_ok_def)
      then show ?thesis
        using 2 None assms(1) by (auto simp: Let_def split: option.splits intro!: sessions_ok_update)
    next
      case (Some i)
      then have i: "i < 10" "active (ss ! i)" using find_index_Some [OF Some] assms(1) by (auto simp: sessions_ok_def)
      then have "\<forall>j < 10. j \<noteq> i \<and> active (ss ! j) \<longrightarrow> tid (ss ! j) \<noteq> tid (ss ! i)"
        using assms(1) unfolding sessions_ok_def by blast
      then show ?thesis
        using 2 Some assms(1) by (auto simp: tcp_session_del_def intro!: sessions_ok_update)
    qed
  qed (use assms(1) in simp)
qed

lemma decode_message_ok:
  assumes "\<forall>v. sessions_ok (st v)" and "decode_message spr cur buf p h st = Some st'"
  shows "\<forall>v. sessions_ok (st' v)"
proof (cases "hdr_type h = HOST_SC2331_PKT")
  case True
  let ?v = "hdr_mode h"
  obtain ss where "tcp_session_updata (spr ?v) cur (drop (8 + p + 4 + unat (h ! 1)) buf)
      (uint (from_le16 (drop 2 h) - ucast (h ! 1))) (st ?v) = Some ss" and st': "st' = st(?v := ss)"
    using assms(2) True by (auto simp: decode_message_def Let_def split: bind_splits)
  then have "sessions_ok ss" using tcp_session_updata_ok assms(1) by blast
  with st' assms(1) show ?thesis by simp
qed (use assms in \<open>simp add: decode_message_def\<close>)

lemma decode_loop_ok:
  "\<forall>v. sessions_ok (st v) \<Longrightarrow> decode_loop spr cur buf max_len p st = Some st' \<Longrightarrow> \<forall>v. sessions_ok (st' v)"
proof (induction spr cur buf max_len p st arbitrary: st' rule: decode_loop.induct)
  case (1 spr cur buf max_len p st)
  note IH = 1(1) and st = 1(2) and run = 1(3) [unfolded decode_loop.simps [of spr cur buf max_len p st]]
  show ?case
  proof (cases "p \<ge> max_len")
    case False
    then obtain h where h: "get_bytes (8 + p) 4 buf = Some h" using run by (auto split: bind_splits)
    show ?thesis
    proof (cases "rx_end h")
      case no: False
      obtain st1 where st1: "decode_message spr cur buf p h st = Some st1"
        and rest: "decode_loop spr cur buf max_len (p + 4 + ALIGN_4BYTE (hdr_len h)) st1 = Some st'"
        using run False h no by (auto split: bind_splits)
      from IH [OF False h no st1 decode_message_ok [OF st st1] rest] show ?thesis .
    qed (use run st h False in simp)
  qed (use run st in simp)
qed

text \<open>
  Whatever a received block holds, the session tables of both interfaces keep their ten
  entries and no connection gets two sessions.
\<close>

lemma sessions_stay_distinct:
  assumes "\<forall>v. sessions_ok (st v)" and "wlan_rx_buf_decode spr cur buf max_len st = Some st'"
  shows "sessions_ok (st' v)"
  using assms decode_loop_ok by (fastforce simp: wlan_rx_buf_decode_def split: if_splits)

lemma sessions_stay_distinct_witness:
  "\<exists>st'. wlan_rx_buf_decode (\<lambda>v. True) (9, 0) (replicate 8 0 @ [0x7F, 0, 0, 0])  12
      (\<lambda>v. demo_session # replicate 9 (tcp_session_del demo_session)) = Some st' \<and> sessions_ok (st' False)"
proof -
  let ?st = "\<lambda>v :: bool. demo_session # replicate 9 (tcp_session_del demo_session)"
  have ok: "\<forall>v. sessions_ok (?st v)"
    by (auto simp: sessions_ok_def demo_session_def tcp_session_del_def nth_Cons')
  have run: "wlan_rx_buf_decode (\<lambda>v. True) (9, 0) (replicate 8 0 @ [0x7F, 0, 0, 0]) 12 ?st = Some ?st"
    by (simp add: wlan_rx_buf_decode_def decode_loop.simps get_bytes_def rx_end_def hdr_type_def)
  show ?thesis using sessions_stay_distinct [OF ok run] run by blast
qed

subsection \<open>The clock of the window\<close>

lemma sint_negative:
  fixes w :: u32
  assumes "2 ^ 31 \<le> unat w"
  shows "sint w < 0"
proof -
  have "unat w < 2 ^ 32" using unsigned_less [of w] by simp
  with assms have "unat w div 2 ^ 31 = 1" by (intro div_nat_eqI) simp_all
  then have "uint w div 2 ^ 31 = 1" using zdiv_int [of "unat w" "2 ^ 31"] by simp
  then have "bit (uint w) 31" by (simp add: bit_iff_odd)
  then show ?thesis by (simp add: sint_uint signed_take_bit_negative_iff)
qed

text \<open>Between 2149 and 4293 seconds the difference in microseconds has wrapped into the negative.\<close>

lemma time_d_value_wraps:
  assumes "2149 \<le> d" and "d \<le> 4293" and "fst cur = fst start + of_nat d"
    and "unat (snd start) < 1000000" and "unat (snd cur) < 1000000"
  shows "time_d_value start cur < 0"
proof -
  let ?n = "d * 1000000 + unat (snd cur) - unat (snd start)"
  have n: "2 ^ 31 \<le> ?n" "?n < 2 ^ 32" using assms(1,2,4,5) by simp_all
  have "(fst cur - fst start) * 1000000 + (snd cur - snd start) = of_nat ?n"
    using assms n(1) by (simp add: of_nat_diff)
  then have t: "time_d_value start cur = sint (of_nat ?n :: u32)" by (simp only: time_d_value_def)
  have "unat (of_nat ?n :: u32) = ?n" using n(2) by (simp add: unat_of_nat)
  then show ?thesis unfolding t using n(1) by (intro sint_negative) simp
qed

lemma ack_loop_retry: "ack_loop clk k n retry gone f s = Some (n', retry', gone', f', s') \<Longrightarrow> retry \<le> retry'"
  by (induction clk k n retry gone f s rule: ack_loop.induct)
    (fastforce split: option.splits bind_splits if_splits)+

lemma sessions_loop_retry:
  "sessions_loop clk cur n retry gone f ss = Some (n', retry', gone', f', ss') \<Longrightarrow> retry \<le> retry'"
proof (induction clk cur n retry gone f ss arbitrary: n' retry' gone' f' ss' rule: sessions_loop.induct)
  case (2 clk cur n retry gone f s ss)
  show ?case
  proof (cases "msg_num (ack_q s) = 0 \<or> held_back cur s")
    case True
    then show ?thesis using 2(1,2,4) by (fastforce split: bind_splits if_splits)
  next
    case False
    then show ?thesis using 2(3,4) ack_loop_retry by (fastforce split: bind_splits if_splits)
  qed
qed simp

lemma sessions_loop_held:
  "sessions_loop clk cur n retry gone f ss = Some (n', retry', gone', f', ss') \<Longrightarrow> i < length ss \<Longrightarrow>
    msg_num (ack_q (ss ! i)) \<noteq> 0 \<Longrightarrow> held_back cur (ss ! i) \<Longrightarrow> ss' ! i = ss ! i \<and> 0 < retry'"
proof (induction clk cur n retry gone f ss arbitrary: i n' retry' gone' f' ss' rule: sessions_loop.induct)
  case (2 clk cur n retry gone f s ss)
  show ?case
  proof (cases i)
    case 0
    then have "msg_num (ack_q s) \<noteq> 0" "held_back cur s" using 2 by simp_all
    then show ?thesis using 0 2(4) sessions_loop_retry by (fastforce split: bind_splits)
  next
    case (Suc j)
    then show ?thesis using 2 by (fastforce split: bind_splits if_splits)
  qed
qed simp

text \<open>
  An acknowledge queued on a connection that was idle for 36 to 71 minutes (a keep-alive,
  say) is not sent: the time since the last acknowledge, which fits into no 32-bit number of
  microseconds, comes out negative and so below the half millisecond of the window. The session
  is left as it is and \<open>wlan_tcpack_tx\<close> asks to be called again, as long as that lasts.
\<close>

lemma idle_acknowledge_is_held:
  assumes "i < length ss" and "active (ss ! i)" and "msg_num (ack_q (ss ! i)) \<noteq> 0"
    and "data_seq (ss ! i) < ack_seq (ss ! i) \<or> sint (data_seq (ss ! i) - ack_seq (ss ! i)) < 23168"
    and "fst (clk 0) = fst (ack_time (ss ! i)) + of_nat d" and "2149 \<le> d" and "d \<le> 4293"
    and "unat (snd (ack_time (ss ! i))) < 1000000" and "unat (snd (clk 0)) < 1000000"
    and "wlan_tcpack_tx clk f ss = Some (ret, gone, f', ss')"
  shows "ret = -1 \<and> ss' ! i = ss ! i"
proof -
  have "held_back (clk 0) (ss ! i)"
    using assms(2,4) time_d_value_wraps [OF assms(6,7,5,8,9)] by (auto simp: held_back_def)
  with assms(1,3,10) show ?thesis
    by (auto simp: wlan_tcpack_tx_def split: bind_splits dest!: sessions_loop_held)
qed

lemma idle_acknowledge_is_held_witness:
  "\<exists>ret gone f' ss'. wlan_tcpack_tx (\<lambda>n. (7 + 3600, of_nat n)) (the (tx_fifo_alloc (Some (replicate 2000 0)) 13248 12)) [demo_session]
      = Some (ret, gone, f', ss') \<and> ret = -1 \<and> ss' ! 0 = demo_session"
proof -
  let ?f = "the (tx_fifo_alloc (Some (replicate 2000 0)) 13248 12)"
  have q: "msg_num (ack_q demo_session) = 2" by (simp add: demo_session_def msg_num_def)
  have "held_back (7 + 3600, 0) demo_session"
    using time_d_value_wraps [of 3600 "(7 + 3600, 0)" "(7, 0)"] by (simp add: held_back_def demo_session_def)
  then have run: "wlan_tcpack_tx (\<lambda>n. (7 + 3600, of_nat n)) ?f [demo_session] = Some (-1, 0, ?f, [demo_session])"
    using q by (simp add: wlan_tcpack_tx_def)
  have "-1 = (-1 :: int) \<and> [demo_session] ! 0 = [demo_session] ! 0"
    by (rule idle_acknowledge_is_held [of 0 _ "\<lambda>n. (7 + 3600, of_nat n)" 3600, OF _ _ _ _ _ _ _ _ _ run])
      (use q in \<open>simp_all add: demo_session_def\<close>)
  with run show ?thesis by auto
qed

subsection \<open>Messages of a block\<close>

record rx_msg =
  rmode :: bool
  rtype :: u8
  rsub :: u8
  rbody :: "u8 list"

definition rx_hdr :: "rx_msg \<Rightarrow> u8 list" where
  "rx_hdr m = [rtype m OR (if rmode m then 0x80 else 0), rsub m] @ le16 (of_nat (length (rbody m)))"

definition rx_unit :: "rx_msg \<Rightarrow> u8 list" where
  "rx_unit m = rx_hdr m @ rbody m @ replicate (ALIGN_4BYTE (length (rbody m)) - length (rbody m)) 0"

definition rx_msg_ok :: "(bool \<Rightarrow> bool) \<Rightarrow> rx_msg \<Rightarrow> bool" where
  "rx_msg_ok wapi m \<longleftrightarrow> length (rbody m) < 65536 \<and> rsub m \<noteq> 0xFF \<and>
     (rtype m = HOST_SC2331_CMD \<or> rtype m = SC2331_HOST_RSP \<or>
      rtype m = HOST_SC2331_PKT \<and> unat (rsub m) \<le> length (rbody m) \<or> rtype m = HOST_SC2331_WAPI \<and> wapi (rmode m))"

text \<open>What is to be done with a message whose header is at \<open>p\<close>.\<close>

definition rx_items_of :: "nat \<Rightarrow> rx_msg \<Rightarrow> rx_item list" where
  "rx_items_of p m =
    (if rtype m = HOST_SC2331_PKT then
       (if unat (rsub m) = length (rbody m) then [] else [Rx_skb (rmode m) (drop (unat (rsub m)) (rbody m))])
     else if rtype m = HOST_SC2331_WAPI then [Rx_wapi (rmode m) (8 + p + 4) (of_nat (length (rbody m)))]
     else if rtype m = SC2331_HOST_RSP then [Rx_rsp (rmode m) (8 + p)]
     else [Rx_event (rmode m) (rsub m) (8 + p + 4) (of_nat (length (rbody m)))])"

fun rx_items :: "nat \<Rightarrow> rx_msg list \<Rightarrow> rx_item list" where
  "rx_items p [] = []"
| "rx_items p (m # ms) = rx_items_of p m @ rx_items (p + length (rx_unit m)) ms"

lemma length_rx_hdr [simp]: "length (rx_hdr m) = 4"
  by (simp add: rx_hdr_def)

lemma length_rx_unit: "length (rx_unit m) = 4 + ALIGN_4BYTE (length (rbody m))"
  using ALIGN_4BYTE_ge [of "length (rbody m)"] by (simp add: rx_unit_def)

lemma rx_msg_ok_type: "rx_msg_ok wapi m \<Longrightarrow> rtype m \<in> {0, 1, 2, 3}"
  by (auto simp: rx_msg_ok_def)

lemma rx_hdr_fields:
  assumes "rx_msg_ok wapi m"
  shows "hdr_type (rx_hdr m) = rtype m" and "hdr_mode (rx_hdr m) = rmode m" and "rx_hdr m ! 1 = rsub m"
    and "from_le16 (drop 2 (rx_hdr m)) = of_nat (length (rbody m))" and "hdr_len (rx_hdr m) = length (rbody m)"
    and "\<not> rx_end (rx_hdr m)"
proof -
  show t: "hdr_type (rx_hdr m) = rtype m"
    using rx_msg_ok_type [OF assms] by (auto simp: hdr_type_def rx_hdr_def)
  show "hdr_mode (rx_hdr m) = rmode m"
    using rx_msg_ok_type [OF assms] by (auto simp: hdr_mode_def rx_hdr_def)
  show s: "rx_hdr m ! 1 = rsub m" by (simp add: rx_hdr_def)
  show l: "from_le16 (drop 2 (rx_hdr m)) = of_nat (length (rbody m))"
    using from_le16_le16 [of _ "[]"] by (simp add: rx_hdr_def)
  show "hdr_len (rx_hdr m) = length (rbody m)"
    using assms unfolding hdr_len_def l by (simp add: unat_of_nat rx_msg_ok_def)
  show "\<not> rx_end (rx_hdr m)"
    unfolding rx_end_def t s using assms by (auto simp: rx_msg_ok_def)
qed

lemma rx_message_unit:
  assumes "rx_msg_ok wapi m" and "drop (8 + p) buf = rx_unit m @ rest"
  shows "rx_message wapi buf p (rx_hdr m) = Some (rx_items_of p m, True)"
proof -
  note f = rx_hdr_fields [OF assms(1)]
  have body: "rbody m = take (length (rbody m)) (drop (8 + p + 4) buf)"
  proof -
    have "drop 4 (drop (8 + p) buf) = rbody m @ replicate (ALIGN_4BYTE (length (rbody m)) - length (rbody m)) 0 @ rest"
      unfolding assms(2) by (simp add: rx_unit_def)
    then show ?thesis by (simp add: add.commute)
  qed
  have room: "8 + p + 4 + length (rbody m) \<le> length buf"
    using arg_cong [OF assms(2), of length] length_rx_unit [of m] ALIGN_4BYTE_ge [of "length (rbody m)"]
    by (simp split: nat_diff_split_asm)
  show ?thesis
  proof (cases "rtype m = HOST_SC2331_PKT")
    case True
    then have le: "unat (rsub m) \<le> length (rbody m)" "length (rbody m) < 65536" using assms(1) by (auto simp: rx_msg_ok_def)
    have "of_nat (length (rbody m)) - ucast (rsub m) = (of_nat (length (rbody m) - unat (rsub m)) :: u16)"
      using le(1) by (simp add: of_nat_diff)
    moreover have "unat (of_nat (length (rbody m) - unat (rsub m)) :: u16) = length (rbody m) - unat (rsub m)"
      by (subst unat_of_nat) (use le in simp)
    moreover have "get_bytes (8 + p + 4 + unat (rsub m)) (length (rbody m) - unat (rsub m)) buf = Some (drop (unat (rsub m)) (rbody m))"
      using room le(1) by (subst body) (simp add: get_bytes_def drop_take add.commute)
    ultimately show ?thesis
      using f True le(1) by (auto simp: rx_message_def rx_items_of_def Let_def simp flip: unat_eq_0)
  next
    case False
    then show ?thesis
      using f assms(1) by (auto simp: rx_message_def rx_items_of_def Let_def rx_msg_ok_def)
  qed
qed

lemma rx_loop_units:
  assumes "list_all (rx_msg_ok wapi) ms" and "drop (8 + p) buf = concat (map rx_unit ms) @ rest"
    and "p + length (concat (map rx_unit ms)) = max_len \<or>
         p + length (concat (map rx_unit ms)) < max_len \<and> 4 \<le> length rest \<and> rx_end (take 4 rest)"
  shows "rx_loop wapi buf max_len p = Some (rx_items p ms)"
  using assms
proof (induction ms arbitrary: p)
  case Nil
  then have "rest = drop (8 + p) buf" by simp
  with Nil(3) show ?case by (auto simp: rx_loop.simps [of wapi buf max_len p] get_bytes_def)
next
  case (Cons m ms)
  let ?p = "p + length (rx_unit m)"
  have m: "rx_msg_ok wapi m" and d: "drop (8 + p) buf = rx_unit m @ concat (map rx_unit ms) @ rest"
    using Cons.prems by simp_all
  have "drop (length (rx_unit m)) (drop (8 + p) buf) = concat (map rx_unit ms) @ rest" unfolding d by simp
  then have d': "drop (8 + ?p) buf = concat (map rx_unit ms) @ rest" by (simp add: add_ac)
  have "?p + length (concat (map rx_unit ms)) = max_len \<or>
      ?p + length (concat (map rx_unit ms)) < max_len \<and> 4 \<le> length rest \<and> rx_end (take 4 rest)"
    using Cons.prems(3) by (simp add: add.assoc)
  with Cons.IH [OF _ d'] Cons.prems(1) have rest: "rx_loop wapi buf max_len ?p = Some (rx_items ?p ms)" by simp
  have "p < max_len" using Cons.prems(3) length_rx_unit [of m] by auto
  moreover have "take 4 (drop (8 + p) buf) = rx_hdr m" unfolding d by (simp add: rx_unit_def)
  moreover have "8 + p + 4 \<le> length buf"
    using arg_cong [OF d, of length] length_rx_unit [of m] by (simp split: nat_diff_split_asm)
  ultimately show ?case
    using rx_message_unit [OF m d] rx_hdr_fields [OF m] rest length_rx_unit [of m]
    by (simp add: rx_loop.simps [of wapi buf max_len p] get_bytes_def add.assoc)
qed

text \<open>What \<open>wlan_rx_process\<close> makes of such a block.\<close>

lemma rx_block_items:
  assumes "list_all (rx_msg_ok wapi) ms" and "length pre = 8" and "max_len < 2 ^ 32"
    and "8 + length (concat (map rx_unit ms)) = max_len \<or>
         8 + length (concat (map rx_unit ms)) < max_len \<and> 4 \<le> length rest \<and> rx_end (take 4 rest)"
  shows "wlan_rx_process wapi (pre @ concat (map rx_unit ms) @ rest) max_len = Some (rx_items 0 ms)"
proof -
  have m: "8 \<le> max_len" using assms(4) by auto
  then have "of_nat max_len - 8 = (of_nat (max_len - 8) :: u32)" by (simp add: of_nat_diff)
  moreover have "unat (of_nat (max_len - 8) :: u32) = max_len - 8"
    by (subst unat_of_nat) (use assms(3) in simp)
  ultimately have l: "unat (of_nat max_len - 8 :: u32) = max_len - 8" by simp
  have "rx_loop wapi (pre @ concat (map rx_unit ms) @ rest) (max_len - 8) 0 = Some (rx_items 0 ms)"
    by (rule rx_loop_units [OF assms(1), where rest = rest]) (use assms(2,4) in auto)
  with l m show ?thesis by (simp add: wlan_rx_process_def)
qed

text \<open>
  C5. A block of messages as the chip sends them (eight bytes, each message with its header and
  padded to four bytes, then a closing header unless the block is full) is taken apart into
  exactly those messages, in order: the packets go to the network with their bytes behind the
  \<open>subtype\<close> padding, every other message to the handler of its type. No read leaves the block.
\<close>

theorem rx_block_messages:
  assumes "list_all (rx_msg_ok wapi) ms" and "length pre = 8" and "max_len < 2 ^ 32"
    and "8 + length (concat (map rx_unit ms)) = max_len \<or>
         8 + length (concat (map rx_unit ms)) < max_len \<and> 4 \<le> length rest \<and> rx_end (take 4 rest)"
  shows "wlan_rx_process wapi (pre @ concat (map rx_unit ms) @ rest) max_len = Some (rx_items 0 ms)"
  by (rule rx_block_items [OF assms])

theorem rx_block_messages_witness:
  "wlan_rx_process (\<lambda>v. False)
     (replicate 8 0 @ concat (map rx_unit [\<lparr>rmode = True, rtype = 2, rsub = 1, rbody = [9, 1, 2]\<rparr>, \<lparr>rmode = False, rtype = 0, rsub = 7, rbody = []\<rparr>])
       @ [0x7F, 0, 0, 0, 5]) 64
   = Some [Rx_skb True [1, 2], Rx_event False 7 20 0]"
  using rx_block_messages [of "\<lambda>v. False" "[\<lparr>rmode = True, rtype = 2, rsub = 1, rbody = [9, 1, 2]\<rparr>, \<lparr>rmode = False, rtype = 0, rsub = 7, rbody = []\<rparr>]"
      "replicate 8 0" 64 "[0x7F, 0, 0, 0, 5]"]
  by (simp add: rx_msg_ok_def rx_items_of_def length_rx_unit ALIGN_4BYTE_def rx_end_def hdr_type_def)

text \<open>
  C3. A packet whose padding is longer than the packet makes the length wrap around: the copy
  for the network then runs behind the block.
\<close>

theorem rx_padding_overrun:
  assumes "length buf \<le> 12288" and "12 \<le> max_len" and "max_len \<le> length buf"
    and "hdr_type (take 4 (drop 8 buf)) = HOST_SC2331_PKT" and "buf ! 9 \<noteq> 0xFF"
    and "hdr_len (take 4 (drop 8 buf)) < unat (buf ! 9)"
  shows "wlan_rx_process wapi buf max_len = None"
proof -
  let ?h = "take 4 (drop 8 buf)" let ?l = "from_le16 (drop 2 ?h)"
  have h1: "?h ! 1 = buf ! 9" using assms(2,3) by simp
  have sub: "unat (buf ! 9) < 256" using unsigned_less [of "buf ! 9"] by simp
  have u: "unat (ucast (buf ! 9) :: u16) = unat (buf ! 9)" using sub by (simp add: unat_ucast_mod)
  have "unat (?l - ucast (buf ! 9)) = 65536 + unat ?l - unat (buf ! 9)"
    using assms(6) sub u unsigned_less [of ?l] by (simp add: unat_sub_if' hdr_len_def)
  then have big: "65280 \<le> unat (?l - ucast (buf ! 9))" using sub by simp
  then have "get_bytes (8 + 0 + 4 + unat (buf ! 9)) (unat (?l - ucast (buf ! 9))) buf = None"
    using assms(1) by (simp add: get_bytes_def)
  moreover have "?l - ucast (buf ! 9) \<noteq> 0" using big by auto
  ultimately have msg: "rx_message wapi buf 0 ?h = None" using assms(4) h1 by (simp add: rx_message_def Let_def)
  have "\<not> rx_end ?h" using assms(4,5) h1 by (simp add: rx_end_def)
  moreover have "of_nat max_len - 8 = (of_nat (max_len - 8) :: u32)" using assms(2) by (simp add: of_nat_diff)
  moreover have "unat (of_nat (max_len - 8) :: u32) = max_len - 8"
    by (subst unat_of_nat) (use assms(1,3) in simp)
  ultimately show ?thesis
    using msg assms(2,3) by (simp add: wlan_rx_process_def rx_loop.simps [of wapi buf _ 0] get_bytes_def)
qed

theorem rx_padding_overrun_witness:
  "wlan_rx_process (\<lambda>v. False) (replicate 8 0 @ [2, 3, 1, 0] @ replicate 88 0) 100 = None"
  by (rule rx_padding_overrun)
    (simp_all add: hdr_type_def hdr_len_def nth_append)

end
