(* ===== verification/WlanQos.thy ===== *)
theory WlanQos
  imports WlanTcp Wapi
begin

text \<open>
  The core thread of the Wi-Fi driver and what feeds it: the choice of a queue for a frame and
  the sharing of the ring among the queues (\<open>wlan_qos.c\<close>), frames from the network and commands
  (\<open>wlan_xmit\<close> in \<open>wlan_core.c\<close>, \<open>wlan_cmd_send_to_ic\<close> in \<open>wlan_cmd.c\<close>), and one interface's
  part of \<open>wlan_core_thread\<close>. Flow control of the network device, statistics, delays and the
  wake-up of threads are left out.
\<close>

subsection \<open>Quality of service\<close>

record qos =
  qenable :: bool
  qindex :: nat
  going :: "int list"        \<comment> \<open>4 entries\<close>
  wmm_report :: bool

definition fq_table :: "int list list" where
  "fq_table = [[0, 0, 0, 0], [8, 0, 0, 0], [1, 1, 0, 0], [1, 1, 1, 0], [1, 1, 1, 1]]"

definition wfq_table :: "int list list" where
  "wfq_table = [[0, 0, 0, 0], [10, 0, 0, 0], [20, 10, 0, 0], [30, 20, 10, 0], [40, 30, 20, 10]]"

definition fd_special_table :: "int list list" where
  "fd_special_table = [[15, 1], [15, 1]]"

definition qos_enable :: "qos \<Rightarrow> bool \<Rightarrow> qos" where
  "qos_enable q flag = q\<lparr>qenable := flag\<rparr>"

definition qos_match_q :: "qos \<Rightarrow> u8 list \<Rightarrow> nat option" where
  "qos_match_q q frame =
    (if \<not> qenable q then Some 0
     else do {
       a \<leftarrow> byte_at 12 frame;
       b \<leftarrow> byte_at 13 frame;
       (if push_bit 8 (ucast a) OR ucast b \<noteq> (0x0800 :: u16) then Some 0
        else do {
          p \<leftarrow> byte_at 15 frame;
          (let priority = p AND 0xE0 in
           Some (if priority = 0x20 \<or> priority = 0x40 then 3
             else if priority = 0x80 \<or> priority = 0xA0 then 1
             else if priority = 0xC0 \<or> priority = 0xE0 then 0
             else 2)) }) })"

text \<open>The queues with messages: \<open>num\<close> is what \<open>msg_num\<close> says of each.\<close>

definition busy_qs :: "(nat \<Rightarrow> int) \<Rightarrow> nat list" where
  "busy_qs num = filter (\<lambda>i. num i > 0) [0..<4]"

definition set_going :: "nat \<Rightarrow> int \<Rightarrow> qos \<Rightarrow> qos" where
  "set_going i g q = q\<lparr>going := (going q)[i := g]\<rparr>"

text \<open>The weighted variant, which nothing calls.\<close>

fun wfq_shares :: "(nat \<Rightarrow> int) \<Rightarrow> nat \<Rightarrow> int \<Rightarrow> nat list \<Rightarrow> qos \<Rightarrow> qos" where
  "wfq_shares num t weight [] qs = qs"
| "wfq_shares num t weight (q # is) qs =
     wfq_shares num t weight is (set_going q (wfq_table ! t ! q * num q div weight) qs)"

definition qos_wfq :: "(nat \<Rightarrow> int) \<Rightarrow> qos \<Rightarrow> qos" where
  "qos_wfq num qs =
    (let q = busy_qs num; t = length q in
     if t = 0 then qs else wfq_shares num t (sum_list (map (\<lambda>i. wfq_table ! t ! i) [0..<t])) q qs)"

fun fq_shares :: "(nat \<Rightarrow> int) \<Rightarrow> nat \<Rightarrow> nat \<Rightarrow> nat list \<Rightarrow> qos \<Rightarrow> qos" where
  "fq_shares num t i [] qs = qs"
| "fq_shares num t i (q # is) qs =
     fq_shares num t (i + 1) is
       (set_going q (if num q < fq_table ! t ! i then num q else fq_table ! t ! i) qs)"

definition fd_special :: "(nat \<Rightarrow> int) \<Rightarrow> nat \<Rightarrow> nat \<Rightarrow> nat \<Rightarrow> qos \<Rightarrow> qos" where
  "fd_special num row a b qs =
    (let qs = set_going a (fd_special_table ! row ! 0) qs; qs = set_going b (fd_special_table ! row ! 1) qs;
         qs = (if num a < going qs ! a then set_going a (num a) qs else qs) in
     if num b < going qs ! b then set_going b (num b) qs else qs)"

definition qos_fq :: "(nat \<Rightarrow> int) \<Rightarrow> qos \<Rightarrow> qos" where
  "qos_fq num qs =
    (let q = busy_qs num; t = length q in
     if t = 0 then qs
     else if t = 2 \<and> q ! 0 = 1 \<and> q ! 1 = 2 \<and> \<not> wmm_report qs then fd_special num 0 1 2 qs
     else if t = 2 \<and> q ! 0 = 2 \<and> q ! 1 = 3 then fd_special num 1 2 3 qs
     else fq_shares num t 0 q qs)"

fun sched_rounds :: "nat \<Rightarrow> (nat \<Rightarrow> int) \<Rightarrow> qos \<Rightarrow> qos" where
  "sched_rounds 0 num qs = qs"
| "sched_rounds (Suc r) num qs =
     (let qs = (if qindex qs = 0 \<and> going qs ! 0 = 0 then qos_fq num qs else qs) in
      if going qs ! qindex qs > 0 then qs
      else sched_rounds r num (qs\<lparr>qindex := ring_next 4 (qindex qs)\<rparr>))"

text \<open>The queue to serve and the number of messages.\<close>

definition qos_sched :: "(nat \<Rightarrow> int) \<Rightarrow> qos \<Rightarrow> nat \<times> int \<times> qos" where
  "qos_sched num qs =
    (if \<not> qenable qs then (0, num 0, qs)
     else (let qs = sched_rounds 4 num qs in (qindex qs, going qs ! qindex qs, qs)))"

subsection \<open>The interface and its core thread\<close>

record net_if =
  queues :: "tx_msg msg_q list"   \<comment> \<open>5 queues, the last one for commands\<close>
  if_qos :: qos
  if_ring :: txfifo
  sessions :: "tcp_session list"
  ack_suppress :: bool
  seals :: bool                \<comment> \<open>WAPI, connected and with a key\<close>
  if_wapi :: wapi_vif

definition if_num :: "net_if \<Rightarrow> nat \<Rightarrow> int" where
  "if_num v i = msg_num (queues v ! i)"

definition data_msg :: "bool \<Rightarrow> u8 list \<Rightarrow> tx_msg" where
  "data_msg vif_id d = \<lparr>mtype = HOST_SC2331_PKT, mmode = vif_id, msubtype = 0, mlen = of_nat (length d), slice = Some d\<rparr>"

text \<open>A full queue drops the frame; the chip has stopped when \<open>stopped\<close>.\<close>

definition wlan_xmit :: "bool \<Rightarrow> bool \<Rightarrow> u8 list \<Rightarrow> net_if \<Rightarrow> net_if option" where
  "wlan_xmit stopped vif_id skb v =
    (if stopped then Some v
     else do {
       sess \<leftarrow> wlan_q_match_ack (ack_suppress v) skb (int (length skb)) (sessions v);
       q_index \<leftarrow> (case sess of None \<Rightarrow> qos_match_q (if_qos v) skb | Some i \<Rightarrow> Some 0);
       wapi \<leftarrow> (if seals v then do { et \<leftarrow> get_bytes 12 2 skb; Some (et \<noteq> [0x88, 0xb4]) } else Some False);
       (d, v) \<leftarrow> (if wapi then do { (d, _, w) \<leftarrow> xmit_wapi (if_wapi v) skb; Some (d, v\<lparr>if_wapi := w\<rparr>) }
          else Some (skb, v));
       Some (case sess of
         Some i \<Rightarrow> (case msg_q_in (data_msg vif_id d) (ack_q (sessions v ! i)) of
             None \<Rightarrow> v
           | Some q \<Rightarrow> v\<lparr>sessions := (sessions v)[i := (sessions v ! i)\<lparr>ack_q := q\<rparr>]\<rparr>)
       | None \<Rightarrow> (case msg_q_in (data_msg vif_id d) (queues v ! q_index) of
             None \<Rightarrow> v
           | Some q \<Rightarrow> v\<lparr>queues := (queues v)[q_index := q]\<rparr>)) })"

text \<open>\<open>mem\<close> is whether the driver has the buffer for the answers.\<close>

definition wlan_cmd_send_to_ic :: "bool \<Rightarrow> bool \<Rightarrow> u8 list option \<Rightarrow> u8 \<Rightarrow> net_if \<Rightarrow> int \<times> net_if" where
  "wlan_cmd_send_to_ic mem vif_id data subtype v =
    (if \<not> mem then (-1, v)
     else let m = \<lparr>mtype = HOST_SC2331_CMD, mmode = vif_id, msubtype = subtype,
           mlen = (case data of None \<Rightarrow> 0 | Some d \<Rightarrow> of_nat (length d)),
           slice = (if data = Some [] then None else data)\<rparr> in
     case msg_q_in m (queues v ! 4) of
       None \<Rightarrow> (-1, v)
     | Some q \<Rightarrow> (0, v\<lparr>queues := (queues v)[4 := q]\<rparr>))"

text \<open>
  The turns of the core thread with the queue chosen: the number without room, the sum of the
  results, and the share left, which only counts with the scheduler on.
\<close>

fun core_turns :: "nat \<Rightarrow> bool \<Rightarrow> nat \<Rightarrow> int \<Rightarrow> txfifo \<Rightarrow> tx_msg msg_q \<Rightarrow> int
    \<Rightarrow> (nat \<times> int \<times> txfifo \<times> tx_msg msg_q \<times> int) option" where
  "core_turns 0 en retry done' f q g = Some (retry, done', f, q, g)"
| "core_turns (Suc n) en retry done' f q g = do {
     (ret, f, q) \<leftarrow> wlan_tx 1 f q;
     (if ret = TX_FIFO_FULL \<or> ret = -3 then core_turns n en (retry + 1) done' f q g
      else core_turns n en retry (done' + ret) f q (if en then g - 1 else g)) }"

definition core_cmds :: "net_if \<Rightarrow> net_if option" where
  "core_cmds v =
    (if if_num v 4 > 0 then do {
       (ret, f, q) \<leftarrow> wlan_tx (nat (if_num v 4)) (if_ring v) (queues v ! 4);
       Some (v\<lparr>if_ring := f, queues := (queues v)[4 := q]\<rparr>) }
     else Some v)"

definition core_acks :: "(nat \<Rightarrow> timeval) \<Rightarrow> net_if \<Rightarrow> net_if option" where
  "core_acks clk v = do {
     (ret, gone, f, ss) \<leftarrow> wlan_tcpack_tx clk (if_ring v) (sessions v);
     Some (v\<lparr>if_ring := f, sessions := ss\<rparr>) }"

text \<open>The sum of the results of its turns is what the thread takes for work done.\<close>

definition core_data :: "net_if \<Rightarrow> (int \<times> net_if) option" where
  "core_data v =
    (case qos_sched (if_num v) (if_qos v) of (i, need_tx, qs) \<Rightarrow> do {
       (retry, done', f, q, g) \<leftarrow> core_turns (nat need_tx) (qenable qs) 0 0 (if_ring v) (queues v ! i) (going qs ! qindex qs);
       Some (done', v\<lparr>if_ring := f, queues := (queues v)[i := q], if_qos := set_going (qindex qs) g qs\<rparr>) })"

text \<open>
  One round for one interface, without the received blocks the thread takes from their ring at its
  start. A round is one step: \<open>wlan_xmit\<close>, which another thread runs, adds to the queues before or
  after it, not in between.
\<close>

definition core_round :: "(nat \<Rightarrow> timeval) \<Rightarrow> net_if \<Rightarrow> (int \<times> net_if) option" where
  "core_round clk v = do { v \<leftarrow> core_cmds v; v \<leftarrow> core_acks clk v; core_data v }"

subsection \<open>Shares\<close>

text \<open>Every share is one the queue can fill.\<close>

definition qos_ok :: "(nat \<Rightarrow> int) \<Rightarrow> qos \<Rightarrow> bool" where
  "qos_ok num qs \<longleftrightarrow> length (going qs) = 4 \<and> qindex qs < 4 \<and>
     (\<forall>i < 4. 0 \<le> going qs ! i \<and> going qs ! i \<le> num i \<and> (\<not> qenable qs \<longrightarrow> going qs ! i = 0))"

lemma set_going_simps [simp]:
  "length (going (set_going i g qs)) = length (going qs)" "qindex (set_going i g qs) = qindex qs"
  "qenable (set_going i g qs) = qenable qs" "wmm_report (set_going i g qs) = wmm_report qs"
  by (simp_all add: set_going_def)

lemma set_going_nth: "i < length (going qs) \<Longrightarrow> going (set_going i g qs) ! j = (if j = i then g else going qs ! j)"
  by (auto simp: set_going_def nth_list_update)

lemma qos_ok_set:
  "qos_ok num qs \<Longrightarrow> qenable qs \<Longrightarrow> i < 4 \<Longrightarrow> 0 \<le> g \<Longrightarrow> g \<le> num i \<Longrightarrow> qos_ok num (set_going i g qs)"
  by (simp add: qos_ok_def set_going_nth)

lemma busy_qs_set: "set (busy_qs num) = {i. i < 4 \<and> 0 < num i}"
  by (auto simp: busy_qs_def)

lemma busy_qs_sorted: "sorted_wrt (<) (busy_qs num)"
  by (simp add: busy_qs_def sorted_wrt_filter)

lemma busy_qs_length: "length (busy_qs num) \<le> 4"
  using length_filter_le [of "\<lambda>i. num i > 0" "[0..<4]"] by (simp add: busy_qs_def)

lemma fq_table_pos: "t \<le> 4 \<Longrightarrow> i < t \<Longrightarrow> 1 \<le> fq_table ! t ! i \<and> fq_table ! t ! i \<le> 8"
proof -
  assume "t \<le> 4" "i < t"
  then have "t = 1 \<or> t = 2 \<or> t = 3 \<or> t = 4" "i = 0 \<or> i = 1 \<or> i = 2 \<or> i = 3" by linarith+
  with \<open>i < t\<close> show ?thesis by (auto simp: fq_table_def)
qed

text \<open>What a cycle gives a queue: something if it has a message, at most 15.\<close>

definition fair_share :: "(nat \<Rightarrow> int) \<Rightarrow> nat \<Rightarrow> int \<Rightarrow> bool" where
  "fair_share num i g \<longleftrightarrow> 1 \<le> g \<and> g \<le> 15 \<and> g \<le> num i"

text \<open>The queues of \<open>A\<close> get a fair share, the others keep theirs.\<close>

definition shared_out :: "(nat \<Rightarrow> int) \<Rightarrow> nat set \<Rightarrow> qos \<Rightarrow> qos \<Rightarrow> bool" where
  "shared_out num A qs qs' \<longleftrightarrow> length (going qs') = 4 \<and> qindex qs' = qindex qs \<and> qenable qs' = qenable qs \<and>
     (\<forall>j. if j \<in> A then fair_share num j (going qs' ! j) else going qs' ! j = going qs ! j)"

lemma shared_out_insert:
  assumes "shared_out num A (set_going q g qs) qs'" and "q \<notin> A" and "q < 4" and "length (going qs) = 4" and "fair_share num q g"
  shows "shared_out num (insert q A) qs qs'"
  unfolding shared_out_def
proof (intro conjI allI)
  fix j
  show "if j \<in> insert q A then fair_share num j (going qs' ! j) else going qs' ! j = going qs ! j"
  proof (cases "j = q")
    case True
    then have "going qs' ! j = g" using assms by (simp add: shared_out_def set_going_nth)
    then show ?thesis using True assms(5) by simp
  next
    case False
    then show ?thesis using assms(1,3,4) by (simp add: shared_out_def set_going_nth)
  qed
qed (use assms in \<open>simp_all add: shared_out_def\<close>)

lemma fq_shares_spec:
  assumes "length (going qs) = 4" and "set is \<subseteq> {i. i < 4 \<and> 0 < num i}" and "distinct is" and "i + length is \<le> t" and "t \<le> 4"
  shows "shared_out num (set is) qs (fq_shares num t i is qs)"
  using assms
proof (induction "is" arbitrary: i qs)
  case (Cons q "is")
  let ?g = "if num q < fq_table ! t ! i then num q else fq_table ! t ! i"
  have q: "q < 4" "0 < num q" "q \<notin> set is" using Cons.prems by auto
  have g: "fair_share num q ?g" using fq_table_pos [of t i] Cons.prems q by (auto simp: fair_share_def)
  have "shared_out num (set is) (set_going q ?g qs) (fq_shares num t (i + 1) is (set_going q ?g qs))"
    using Cons.IH [of "set_going q ?g qs" "i + 1"] Cons.prems by simp
  from shared_out_insert [OF this q(3,1) Cons.prems(1) g] show ?case by simp
qed (simp add: shared_out_def)

lemma fd_special_spec:
  assumes "length (going qs) = 4" and "a < 4" and "b < 4" and "a \<noteq> b" and "0 < num a" and "0 < num b" and "row < 2"
  shows "shared_out num {a, b} qs (fd_special num row a b qs)"
proof -
  have "row = 0 \<or> row = 1" using assms(7) by linarith
  then have r: "fd_special_table ! row ! 0 = 15" "fd_special_table ! row ! 1 = 1" by (auto simp: fd_special_table_def)
  show ?thesis
    using assms unfolding fd_special_def r Let_def
    by (auto simp: shared_out_def set_going_nth fair_share_def)
qed

lemma two_elements: "length xs = 2 \<Longrightarrow> xs ! 0 = a \<Longrightarrow> xs ! 1 = b \<Longrightarrow> set xs = {a, b}"
  by (cases xs; cases "tl xs") auto

lemma qos_fq_shares:
  assumes "length (going qs) = 4"
  shows "shared_out num (set (busy_qs num)) qs (qos_fq num qs)"
proof -
  let ?q = "busy_qs num"
  have shares: "shared_out num (set ?q) qs (fq_shares num (length ?q) 0 ?q qs)"
    using assms busy_qs_set [of num] busy_qs_sorted [of num] busy_qs_length [of num]
    by (intro fq_shares_spec) (auto simp: strict_sorted_iff)
  have fd: "shared_out num (set ?q) qs (fd_special num row a b qs)"
    if "length ?q = 2" "?q ! 0 = a" "?q ! 1 = b" "a \<noteq> b" "row < 2" for a b row
  proof -
    have s: "set ?q = {a, b}" by (rule two_elements [OF that(1-3)])
    then have "a < 4" "b < 4" "0 < num a" "0 < num b" using busy_qs_set [of num] by auto
    then show ?thesis using fd_special_spec [of qs a b num row] assms that s by simp
  qed
  let ?vibk = "length ?q = 2 \<and> ?q ! 0 = 1 \<and> ?q ! 1 = 2 \<and> \<not> wmm_report qs"
  let ?bkbe = "length ?q = 2 \<and> ?q ! 0 = 2 \<and> ?q ! 1 = 3"
  consider "length ?q = 0" | "?vibk" | "\<not> ?vibk" "?bkbe" | "length ?q \<noteq> 0" "\<not> ?vibk" "\<not> ?bkbe" by blast
  then show ?thesis
  proof cases
    case 1
    then have "qos_fq num qs = qs" "set ?q = {}" by (simp_all add: qos_fq_def Let_def)
    then show ?thesis using assms by (simp add: shared_out_def)
  next
    case 2
    then have "qos_fq num qs = fd_special num 0 1 2 qs" by (auto simp: qos_fq_def Let_def)
    then show ?thesis using fd [where a = 1 and b = 2 and row = 0] 2 by simp
  next
    case 3
    then have "qos_fq num qs = fd_special num 1 2 3 qs" by (auto simp: qos_fq_def Let_def)
    then show ?thesis using fd [where a = 2 and b = 3 and row = 1] 3 by simp
  next
    case 4
    then have "qos_fq num qs = fq_shares num (length ?q) 0 ?q qs" by (simp only: qos_fq_def Let_def 4 if_False)
    then show ?thesis using shares by simp
  qed
qed

lemma qos_fq_spec:
  assumes "length (going qs) = 4"
  shows "length (going (qos_fq num qs)) = 4" and "qindex (qos_fq num qs) = qindex qs" and "qenable (qos_fq num qs) = qenable qs"
    and "j < 4 \<Longrightarrow> 0 < num j \<Longrightarrow> fair_share num j (going (qos_fq num qs) ! j)"
    and "j < 4 \<Longrightarrow> \<not> 0 < num j \<Longrightarrow> going (qos_fq num qs) ! j = going qs ! j"
  using qos_fq_shares [OF assms, of num] unfolding shared_out_def busy_qs_set by (auto split: if_splits)

lemma qos_fq_ok:
  assumes "qos_ok num qs" and "qenable qs"
  shows "qos_ok num (qos_fq num qs)"
proof -
  have l: "length (going qs) = 4" using assms by (simp add: qos_ok_def)
  have "0 \<le> going (qos_fq num qs) ! i \<and> going (qos_fq num qs) ! i \<le> num i" if "i < 4" for i
    using qos_fq_spec(4,5) [OF l that, of num] assms(1) that by (cases "0 < num i") (auto simp: qos_ok_def fair_share_def)
  then show ?thesis using qos_fq_spec(1-3) [OF l] assms by (auto simp: qos_ok_def)
qed

lemma sched_rounds_ok: "qos_ok num qs \<Longrightarrow> qenable qs \<Longrightarrow> qos_ok num (sched_rounds r num qs) \<and> qenable (sched_rounds r num qs)"
proof (induction r arbitrary: qs)
  case (Suc r)
  let ?qs = "if qindex qs = 0 \<and> going qs ! 0 = 0 then qos_fq num qs else qs"
  have "qos_ok num ?qs" "qenable ?qs" using Suc.prems qos_fq_ok qos_fq_spec(3) [of qs num] by (auto simp: qos_ok_def)
  moreover from this have "qos_ok num (?qs\<lparr>qindex := ring_next 4 (qindex ?qs)\<rparr>)"
    by (auto simp: qos_ok_def ring_next_less)
  ultimately show ?case using Suc.IH [of "?qs\<lparr>qindex := ring_next 4 (qindex ?qs)\<rparr>"] by (simp add: Let_def)
qed simp

text \<open>
  One cycle of the scheduler: \<open>k\<close> calls in a row, each served in full, while the queues keep
  their numbers of messages.
\<close>

fun cycle :: "nat \<Rightarrow> (nat \<Rightarrow> int) \<Rightarrow> qos \<Rightarrow> (nat \<times> int) list" where
  "cycle 0 num qs = []"
| "cycle (Suc k) num qs =
     (case qos_sched num qs of (i, n, qs) \<Rightarrow> (i, n) # cycle k num (set_going i 0 qs))"

text \<open>The queues the index has still to pass.\<close>

definition waiting_qs :: "qos \<Rightarrow> nat list" where
  "waiting_qs qs = filter (\<lambda>i. 0 < going qs ! i) [qindex qs..<4]"

lemma sched_rounds_next:
  assumes "length (going qs) = 4" and "waiting_qs qs = i # is" and "4 \<le> r + qindex qs" and "qindex qs \<noteq> 0"
  shows "sched_rounds r num qs = qs\<lparr>qindex := i\<rparr>"
  using assms
proof (induction r arbitrary: qs)
  case 0
  then show ?case by (simp add: waiting_qs_def)
next
  case (Suc r)
  have lt: "qindex qs < 4" using Suc.prems(2) by (cases "qindex qs < 4") (simp_all add: waiting_qs_def)
  have nofq: "\<not> (qindex qs = 0 \<and> going qs ! 0 = 0)" using Suc.prems(4) by auto
  have w: "waiting_qs qs = (if 0 < going qs ! qindex qs then [qindex qs] else []) @ filter (\<lambda>i. 0 < going qs ! i) [Suc (qindex qs)..<4]"
    using lt by (simp add: waiting_qs_def upt_conv_Cons)
  show ?case
  proof (cases "0 < going qs ! qindex qs")
    case True
    then have "i = qindex qs" using Suc.prems(2) w by simp
    moreover have "sched_rounds (Suc r) num qs = qs" using True nofq by (simp only: sched_rounds.simps Let_def if_False if_True)
    ultimately show ?thesis by simp
  next
    case False
    then have w': "filter (\<lambda>i. 0 < going qs ! i) [Suc (qindex qs)..<4] = i # is" using Suc.prems(2) w by simp
    then have s: "Suc (qindex qs) < 4" by (cases "Suc (qindex qs) < 4") simp_all
    let ?qs = "qs\<lparr>qindex := ring_next 4 (qindex qs)\<rparr>"
    have n: "qindex ?qs = Suc (qindex qs)" using s by (simp add: ring_next_def)
    have "sched_rounds r num ?qs = ?qs\<lparr>qindex := i\<rparr>"
      using Suc.prems s w' n by (intro Suc.IH) (simp_all add: waiting_qs_def)
    moreover have "sched_rounds (Suc r) num qs = sched_rounds r num ?qs"
      using False nofq by (simp only: sched_rounds.simps Let_def if_False)
    ultimately show ?thesis by simp
  qed
qed

lemma waiting_first:
  assumes "waiting_qs qs = i # is" and "length (going qs) = 4"
  shows "i < 4" and "qindex qs \<le> i" and "0 < going qs ! i" and "waiting_qs (set_going i 0 (qs\<lparr>qindex := i\<rparr>)) = is"
proof -
  have i: "i \<in> set (waiting_qs qs)" using assms(1) by simp
  then show "i < 4" "qindex qs \<le> i" "0 < going qs ! i" by (auto simp: waiting_qs_def)
  have "sorted_wrt (<) (waiting_qs qs)" by (simp add: waiting_qs_def sorted_wrt_filter)
  then have "\<forall>j \<in> set is. i < j" using assms(1) by simp
  moreover have "[qindex qs..<4] = [qindex qs..<i] @ [i..<4]"
    using upt_add_eq_append [OF \<open>qindex qs \<le> i\<close>, of "4 - i"] \<open>i < 4\<close> by simp
  moreover have "filter (\<lambda>j. 0 < going qs ! j) [qindex qs..<i] = []"
  proof -
    have False if "j \<in> set (filter (\<lambda>j. 0 < going qs ! j) [qindex qs..<i])" for j
    proof -
      from that have "j \<in> set (waiting_qs qs)" "j < i" using i by (auto simp: waiting_qs_def)
      with assms(1) \<open>\<forall>j \<in> set is. i < j\<close> show False by auto
    qed
    then show ?thesis by (metis list.set_intros(1) neq_Nil_conv)
  qed
  ultimately have "filter (\<lambda>j. 0 < going qs ! j) [i..<4] = i # is" using assms(1) by (simp add: waiting_qs_def)
  then have "is = filter (\<lambda>j. 0 < going qs ! j) [Suc i..<4]"
    using i by (simp add: waiting_qs_def upt_conv_Cons)
  then show "waiting_qs (set_going i 0 (qs\<lparr>qindex := i\<rparr>)) = is"
    using \<open>i < 4\<close> assms(2)
    by (auto simp: waiting_qs_def upt_conv_Cons set_going_nth intro!: filter_cong)
qed

lemma cycle_waiting:
  assumes "qenable qs" and "length (going qs) = 4" and "waiting_qs qs = is" and "qindex qs \<noteq> 0"
  shows "cycle (length is) num qs = map (\<lambda>i. (i, going qs ! i)) is"
  using assms
proof (induction "is" arbitrary: qs)
  case (Cons i "is")
  note f = waiting_first [OF Cons.prems(3,2)]
  let ?qs = "set_going i 0 (qs\<lparr>qindex := i\<rparr>)"
  have "sched_rounds 4 num qs = qs\<lparr>qindex := i\<rparr>"
    using Cons.prems by (intro sched_rounds_next) simp_all
  then have s: "qos_sched num qs = (i, going qs ! i, qs\<lparr>qindex := i\<rparr>)"
    using Cons.prems(1) by (simp add: qos_sched_def Let_def)
  have sorted: "sorted_wrt (<) (i # is)" using Cons.prems(3) by (metis sorted_wrt_filter sorted_wrt_upt waiting_qs_def)
  have "cycle (length is) num ?qs = map (\<lambda>i. (i, going ?qs ! i)) is"
    using Cons.prems f by (intro Cons.IH) simp_all
  also have "\<dots> = map (\<lambda>i. (i, going qs ! i)) is"
    using sorted f(1) Cons.prems(2) by (auto simp: set_going_nth)
  finally show ?case using s by simp
qed simp

text \<open>
  C26. A cycle of the scheduler is fair among video, background and best effort: from a fresh
  start and with no voice message waiting, as many calls as there are busy queues serve each of
  them once, in order, with at least one message and at most 15, and never more than it has.
\<close>

theorem qos_cycle_is_fair:
  assumes "qenable qs" and "going qs = [0, 0, 0, 0]" and "qindex qs = 0" and "num 0 = 0"
  shows "map fst (cycle (length (busy_qs num)) num qs) = busy_qs num \<and>
    list_all (\<lambda>(i, n). fair_share num i n) (cycle (length (busy_qs num)) num qs)"
proof (cases "busy_qs num")
  case (Cons i "is")
  have l: "length (going qs) = 4" using assms(2) by simp
  let ?q1 = "(qos_fq num qs)\<lparr>qindex := 1\<rparr>"
  note fq = qos_fq_spec [OF l, where num = num]
  have pos: "0 < going ?q1 ! j \<longleftrightarrow> 0 < num j" if "j < 4" for j
  proof (cases "0 < num j")
    case True
    then show ?thesis using fq(4) [OF that] by (simp add: fair_share_def)
  next
    case False
    moreover have "going qs ! j = 0" using that assms(2) by (auto simp: nth_Cons split: nat.splits)
    ultimately show ?thesis using fq(5) [OF that] by simp
  qed
  have w: "waiting_qs ?q1 = busy_qs num"
  proof -
    have "[0..<4] = (0 :: nat) # [1..<4]" by (simp add: upt_conv_Cons)
    then show ?thesis using assms(4) pos by (auto simp: waiting_qs_def busy_qs_def intro!: filter_cong)
  qed
  have "sched_rounds (Suc 3) num qs = sched_rounds 3 num ?q1"
    using assms(2,3,4) fq(2) pos [of 0] by (simp only: sched_rounds.simps Let_def) (simp add: ring_next_def)
  also have "\<dots> = ?q1\<lparr>qindex := i\<rparr>" using w Cons fq(1) by (intro sched_rounds_next) simp_all
  also have "\<dots> = sched_rounds 4 num ?q1"
    using w Cons fq(1) by (intro sched_rounds_next [symmetric]) simp_all
  finally have "sched_rounds 4 num qs = sched_rounds 4 num ?q1" by simp
  then have "qos_sched num qs = qos_sched num ?q1" using assms(1) fq(3) by (simp add: qos_sched_def Let_def)
  then have "cycle (length (busy_qs num)) num qs = cycle (length (busy_qs num)) num ?q1" using Cons by simp
  also have "\<dots> = map (\<lambda>i. (i, going ?q1 ! i)) (busy_qs num)"
    using w assms(1) fq(1,3) by (intro cycle_waiting) simp_all
  finally show ?thesis
    using fq(4) busy_qs_set [of num] by (auto simp: list_all_iff comp_def)
qed simp

theorem qos_cycle_is_fair_witness:
  "map fst (cycle 2 ((!) [0, 5, 0, 20]) \<lparr>qenable = True, qindex = 0, going = [0, 0, 0, 0], wmm_report = False\<rparr>) = [1, 3] \<and>
   list_all (\<lambda>(i, n). fair_share ((!) [0, 5, 0, 20]) i n)
     (cycle 2 ((!) [0, 5, 0, 20]) \<lparr>qenable = True, qindex = 0, going = [0, 0, 0, 0], wmm_report = False\<rparr>)"
proof -
  have b: "busy_qs ((!) [0, 5, 0, 20]) = [1, 3]" by (simp add: busy_qs_def upt_rec)
  show ?thesis
    using qos_cycle_is_fair [of "\<lparr>qenable = True, qindex = 0, going = [0, 0, 0, 0], wmm_report = False\<rparr>" "(!) [0, 5, 0, 20]"]
    unfolding b by (simp add: numeral_2_eq_2)
qed

text \<open>The queues that calls in a row choose, each served in full, while messages come and go.\<close>

fun served :: "(nat \<Rightarrow> int) list \<Rightarrow> qos \<Rightarrow> nat list" where
  "served [] qs = []"
| "served (num # nums) qs = (case qos_sched num qs of (i, n, qs) \<Rightarrow> i # served nums (set_going i 0 qs))"

lemma sched_voice:
  assumes "qenable qs" and "length (going qs) = 4" and "0 \<le> going qs ! 0" and "qindex qs = 0" and "0 < num 0" and "0 < r"
  obtains qs' where "sched_rounds r num qs = qs'" and "qindex qs' = 0" and "qenable qs'" and "length (going qs') = 4"
    and "0 < going qs' ! 0"
proof -
  let ?q = "if going qs ! 0 = 0 then qos_fq num qs else qs"
  have q: "length (going ?q) = 4" "qindex ?q = 0" "qenable ?q"
    using qos_fq_spec(1-3) [OF assms(2), where num = num] assms by auto
  have g: "0 < going ?q ! 0"
    using assms(3) qos_fq_spec(4) [OF assms(2), where j = 0 and num = num] assms(5) by (auto simp: fair_share_def)
  obtain k where "r = Suc k" using assms(6) by (cases r) auto
  then have "sched_rounds r num qs = ?q"
    using assms(4) q(2) g by (simp only: sched_rounds.simps Let_def) simp
  then show thesis by (rule that) (use q g in auto)
qed

text \<open>Past the last share that is left the index comes back to the voice queue.\<close>

lemma sched_back_to_voice:
  assumes "qenable qs" and "length (going qs) = 4" and "0 \<le> going qs ! 0" and "0 < qindex qs" and "qindex qs < 4"
    and "0 < num 0" and "waiting_qs qs = []" and "5 \<le> r + qindex qs"
  shows "qindex (sched_rounds r num qs) = 0 \<and> qenable (sched_rounds r num qs) \<and> length (going (sched_rounds r num qs)) = 4 \<and>
    0 < going (sched_rounds r num qs) ! 0"
  using assms
proof (induction r arbitrary: qs)
  case (Suc r)
  have w: "\<not> 0 < going qs ! qindex qs"
    using Suc.prems(5,7) by (auto simp: waiting_qs_def upt_conv_Cons split: if_splits)
  then have next': "sched_rounds (Suc r) num qs = sched_rounds r num (qs\<lparr>qindex := ring_next 4 (qindex qs)\<rparr>)"
    using Suc.prems(4) by (simp add: Let_def)
  show ?case
  proof (cases "qindex qs = 3")
    case True
    then have k: "0 < r" using Suc.prems(8) by simp
    obtain qs' where "sched_rounds r num (qs\<lparr>qindex := 0\<rparr>) = qs'" "qindex qs' = 0" "qenable qs'" "length (going qs') = 4"
        "0 < going qs' ! 0"
      by (rule sched_voice [of "qs\<lparr>qindex := 0\<rparr>" num r]) (use Suc.prems k in simp_all)
    with True next' show ?thesis by (simp add: ring_next_def)
  next
    case False
    then have n: "ring_next 4 (qindex qs) = Suc (qindex qs)" using Suc.prems(5) by (simp add: ring_next_def)
    have "waiting_qs (qs\<lparr>qindex := Suc (qindex qs)\<rparr>) = []"
      using Suc.prems(5,7) w by (simp add: waiting_qs_def upt_conv_Cons)
    then show ?thesis unfolding next' n by (intro Suc.IH) (use Suc.prems False in simp_all)
  qed
qed simp

lemma voice_only:
  assumes "qenable qs" and "length (going qs) = 4" and "0 \<le> going qs ! 0" and "qindex qs = 0" and "list_all (\<lambda>num. 0 < num 0) nums"
  shows "served nums qs = replicate (length nums) 0"
  using assms
proof (induction nums arbitrary: qs)
  case (Cons num nums)
  obtain qs' where q: "sched_rounds 4 num qs = qs'" "qindex qs' = 0" "qenable qs'" "length (going qs') = 4" "0 < going qs' ! 0"
    by (rule sched_voice [OF Cons.prems(1-4), of num 4]) (use Cons.prems(5) in simp_all)
  have "served nums (set_going 0 0 qs') = replicate (length nums) 0"
    using q Cons.prems(5) by (intro Cons.IH) (simp_all add: set_going_nth)
  then show ?case using Cons.prems(1) q by (simp add: qos_sched_def Let_def)
qed simp

text \<open>
  C30. Voice starves the others: as long as a voice message is there whenever the scheduler looks,
  the queues whose turn has come get what is left of their shares, each once, and from then on
  the voice queue is served and no other, for ever: the index stays on it and deals out new shares each time.
\<close>

theorem voice_starves_the_rest:
  assumes "qenable qs" and "length (going qs) = 4" and "0 \<le> going qs ! 0" and "qindex qs < 4"
    and "list_all (\<lambda>num. 0 < num 0) nums"
  shows "served nums qs = take (length nums) ((if qindex qs = 0 then [] else waiting_qs qs) @ replicate (length nums) 0)"
  using assms
proof (induction nums arbitrary: qs)
  case (Cons num nums)
  show ?case
  proof (cases "qindex qs = 0")
    case True
    with voice_only [OF Cons.prems(1-3) True Cons.prems(5)] show ?thesis by simp
  next
    case False
    show ?thesis
    proof (cases "waiting_qs qs")
      case Nil
      let ?q = "sched_rounds 4 num qs"
      have q: "qindex ?q = 0 \<and> qenable ?q \<and> length (going ?q) = 4 \<and> 0 < going ?q ! 0"
        using Cons.prems Nil False by (intro sched_back_to_voice) simp_all
      then have "qos_sched num qs = (0, going ?q ! 0, ?q)" using Cons.prems(1) by (simp add: qos_sched_def Let_def)
      moreover have "served nums (set_going 0 0 ?q) = replicate (length nums) 0"
        using q Cons.prems(5) by (intro voice_only) (simp_all add: set_going_nth)
      ultimately show ?thesis using Nil False by simp
    next
      case w: (Cons i "is")
      note f = waiting_first [OF w Cons.prems(2)]
      let ?qs = "set_going i 0 (qs\<lparr>qindex := i\<rparr>)"
      have i: "0 < i" using f(2) False by simp
      have "sched_rounds 4 num qs = qs\<lparr>qindex := i\<rparr>"
        using Cons.prems(2) w False by (intro sched_rounds_next) simp_all
      then have "qos_sched num qs = (i, going qs ! i, qs\<lparr>qindex := i\<rparr>)"
        using Cons.prems(1) by (simp add: qos_sched_def Let_def)
      moreover have "served nums ?qs = take (length nums) (is @ replicate (length nums) 0)"
        using Cons.IH [of ?qs] Cons.prems f(1,4) i by (simp add: set_going_nth)
      moreover have "take (length nums) (is @ replicate (Suc (length nums)) 0) = take (length nums) (is @ replicate (length nums) 0)"
        by (simp del: replicate_Suc add: take_replicate min_def)
      ultimately show ?thesis using w False by (simp del: replicate_Suc)
    qed
  qed
qed simp

theorem voice_starves_the_rest_witness:
  "served (replicate 20 ((!) [1, 9, 9, 9])) \<lparr>qenable = True, qindex = 1, going = [0, 2, 0, 5], wmm_report = False\<rparr> =
    take 20 ([1, 3] @ replicate 20 0)"
  using voice_starves_the_rest [of "\<lparr>qenable = True, qindex = 1, going = [0, 2, 0, 5], wmm_report = False\<rparr>" "replicate 20 ((!) [1, 9, 9, 9])"]
  by (simp add: list_all_iff waiting_qs_def upt_conv_Cons del: take_append)

subsection \<open>Queues with their counters\<close>

definition queue_ok :: "(tx_msg \<Rightarrow> bool) \<Rightarrow> tx_msg msg_q \<Rightarrow> bool" where
  "queue_ok P q \<longleftrightarrow> msg_q_wf q \<and> list_all P (msg_q_contents q) \<and> q_num q < 2 ^ 31 \<and>
     q_wt_cnt q - q_rd_cnt q = of_nat (length (msg_q_contents q))"

lemma msg_q_contents_length: "msg_q_wf q \<Longrightarrow> length (msg_q_contents q) < q_num q"
  by (auto simp: msg_q_wf_def msg_q_contents_def ring_slots_def)

lemma queue_ok_num: "queue_ok P q \<Longrightarrow> msg_num q = int (length (msg_q_contents q))"
  using msg_q_contents_length [of q] by (simp add: queue_ok_def msg_num_def sint_of_nat)

lemma queue_ok_in:
  assumes "queue_ok P q" and "P m" and "msg_q_in m q = Some q'"
  shows "queue_ok P q'" and "msg_q_contents q' = msg_q_contents q @ [m]"
proof -
  have w: "msg_q_wf q' \<and> msg_q_contents q' = msg_q_contents q @ [m]"
    using msg_q_in_law [of q m q'] assms by (simp add: queue_ok_def)
  have "q_wt_cnt q' = q_wt_cnt q + 1" "q_rd_cnt q' = q_rd_cnt q" "q_num q' = q_num q"
    using assms(3) by (auto simp: msg_q_in_def split: if_splits)
  then show "queue_ok P q'" using assms(1,2) w by (simp add: queue_ok_def algebra_simps)
  show "msg_q_contents q' = msg_q_contents q @ [m]" using w by simp
qed

lemma queue_ok_free:
  assumes "queue_ok P q" and "msg_free q = Some q'"
  shows "queue_ok P q'"
proof -
  have w: "msg_q_wf q'" "msg_q_contents q' = tl (msg_q_contents q)"
    using msg_q_free_law [of q q'] assms by (simp_all add: queue_ok_def)
  have c: "q_wt_cnt q' = q_wt_cnt q" "q_rd_cnt q' = q_rd_cnt q + 1" "q_num q' = q_num q" "q_rd q \<noteq> q_wt q"
    using assms(2) by (auto simp: msg_free_def split: if_splits)
  have "msg_q_contents q \<noteq> []"
    using c(4) assms(1) ring_slots_empty [of "q_rd q" "q_num q" "q_wt q"]
    by (auto simp: queue_ok_def msg_q_wf_def msg_q_contents_def)
  then obtain m ms where m: "msg_q_contents q = m # ms" by (cases "msg_q_contents q") auto
  have "q_wt_cnt q - q_rd_cnt q = of_nat (length ms) + 1" using assms(1) m by (simp add: queue_ok_def)
  then show ?thesis using assms(1) w c m by (simp add: queue_ok_def algebra_simps)
qed

lemma queue_ok_clear_free:
  assumes "queue_ok P q" and "msg_q_contents q = m # ms" and "msg_free (msg_clear q) = Some q'"
  shows "queue_ok P q'"
proof -
  have wf: "msg_q_wf q" using assms(1) by (simp add: queue_ok_def)
  obtain q2 where "msg_free (msg_clear q) = Some q2" "msg_q_wf q2" "msg_q_contents q2 = ms"
    by (rule msg_clear_free [OF wf assms(2)])
  with assms(3) have w: "msg_q_wf q'" "msg_q_contents q' = ms" by simp_all
  have c: "q_wt_cnt q' = q_wt_cnt q" "q_rd_cnt q' = q_rd_cnt q + 1" "q_num q' = q_num q"
    using assms(3) by (auto simp: msg_free_def msg_clear_def split: if_splits)
  have "q_wt_cnt q - q_rd_cnt q = of_nat (length ms) + 1" using assms(1,2) by (simp add: queue_ok_def)
  then show ?thesis using assms(1,2) w c by (simp add: queue_ok_def algebra_simps)
qed

text \<open>The ring between two steps.\<close>

definition ring_ok :: "txfifo \<Rightarrow> bool" where
  "ring_ok f \<longleftrightarrow> tx_conf f \<and> (\<exists>us vs. tx_holds f us vs)"

lemma ring_ok_in:
  assumes "ring_ok f" and "slice_ok m"
  obtains (full) "tx_fifo_in m f = Some (TX_FIFO_FULL, f)" | (taken) f' where "tx_fifo_in m f = Some (TX_OK, f')" "ring_ok f'"
proof -
  obtain us vs where h: "tx_holds f us vs" using assms(1) by (auto simp: ring_ok_def)
  show ?thesis
    using h assms(2)
  proof (cases rule: tx_fifo_in_holds)
    case (taken f' u)
    have "tx_conf f'" using taken(3) assms(1) by (simp add: tx_kept_def ring_ok_def tx_conf_def)
    then show ?thesis using that(2) taken by (auto simp: ring_ok_def)
  qed (rule that(1))
qed

lemma wlan_tx_loop_ok:
  assumes "queue_ok slice_ok q" and "ring_ok f"
  obtains k ret' f' q' where "wlan_tx_loop n c ret f q = Some (c + k, ret', f', q')" "queue_ok slice_ok q'" "ring_ok f'"
    "k \<le> n" "length (msg_q_contents q') + k = length (msg_q_contents q)"
    "k = 0 \<Longrightarrow> n \<noteq> 0 \<Longrightarrow> msg_q_contents q \<noteq> [] \<Longrightarrow> ret' = TX_FIFO_FULL"
  using assms
proof (induction n arbitrary: c ret f q thesis)
  case 0
  show ?case by (rule 0(1) [of 0 ret f q]) (use 0(2-) in simp_all)
next
  case (Suc n)
  have wf: "msg_q_wf q" using Suc.prems(2) by (simp add: queue_ok_def)
  show ?case
  proof (cases "msg_q_contents q")
    case Nil
    then show ?thesis by (intro Suc.prems(1) [of 0 ret f q]) (use Suc.prems(2-) msg_q_get_law [OF wf] in simp_all)
  next
    case (Cons m ms)
    then have g: "msg_get q = Some m" and m: "slice_ok m" using Suc.prems(2) msg_q_get_law [OF wf] by (simp_all add: queue_ok_def)
    obtain q1 where q1: "msg_free (msg_clear q) = Some q1" "msg_q_contents q1 = ms"
      by (rule msg_clear_free [OF wf Cons])
    have ok1: "queue_ok slice_ok q1" by (rule queue_ok_clear_free [OF Suc.prems(2) Cons q1(1)])
    show ?thesis
      using Suc.prems(3) m
    proof (cases rule: ring_ok_in)
      case full
      then show ?thesis by (intro Suc.prems(1) [of 0 TX_FIFO_FULL f q]) (use Suc.prems(2-) Cons g in simp_all)
    next
      case (taken f1)
      obtain k ret' f' q' where r: "wlan_tx_loop n (c + 1) TX_OK f1 q1 = Some (c + 1 + k, ret', f', q')" "queue_ok slice_ok q'" "ring_ok f'"
          "k \<le> n" "length (msg_q_contents q') + k = length (msg_q_contents q1)"
        by (rule Suc.IH [OF _ ok1 taken(2), of "c + 1" TX_OK])
      show ?thesis
        by (rule Suc.prems(1) [of "Suc k" ret' f' q']) (use r taken g q1 Cons in simp_all)
    qed
  qed
qed

lemma wlan_tx_ok:
  assumes "queue_ok slice_ok q" and "ring_ok f"
  obtains k ret f' q' where "wlan_tx n f q = Some (ret, f', q')" "queue_ok slice_ok q'" "ring_ok f'"
    "k \<le> n" "length (msg_q_contents q') + k = length (msg_q_contents q)" "k \<noteq> 0 \<Longrightarrow> ret = int k"
    "k = 0 \<Longrightarrow> n \<noteq> 0 \<Longrightarrow> msg_q_contents q \<noteq> [] \<Longrightarrow> ret = TX_FIFO_FULL"
proof -
  obtain k ret' f' q' where r: "wlan_tx_loop n 0 (-1) f q = Some (0 + k, ret', f', q')" "queue_ok slice_ok q'" "ring_ok f'"
      "k \<le> n" "length (msg_q_contents q') + k = length (msg_q_contents q)"
      "k = 0 \<Longrightarrow> n \<noteq> 0 \<Longrightarrow> msg_q_contents q \<noteq> [] \<Longrightarrow> ret' = TX_FIFO_FULL"
    by (rule wlan_tx_loop_ok [OF assms, of n 0 "-1"]) (rule that)
  show ?thesis
    by (rule that [of "if k = 0 then ret' else int k" f' q' k]) (use r in \<open>auto simp: wlan_tx_def\<close>)
qed

text \<open>The turns of the thread: with the scheduler on, the share stays within the queue.\<close>

lemma core_turns_ok:
  assumes "queue_ok slice_ok q" and "ring_ok f" and "n \<le> length (msg_q_contents q)"
    and "en \<Longrightarrow> int n \<le> g \<and> g \<le> int (length (msg_q_contents q))"
  obtains retry' d' f' q' g' where "core_turns n en retry d f q g = Some (retry', d', f', q', g')" "queue_ok slice_ok q'" "ring_ok f'"
    "d \<le> d'" "en \<Longrightarrow> 0 \<le> g' \<and> g' \<le> int (length (msg_q_contents q'))" "\<not> en \<Longrightarrow> g' = g"
  using assms
proof (induction n arbitrary: retry d f q g thesis)
  case 0
  show ?case by (rule 0(1) [of retry d f q g]) (use 0(2-) in simp_all)
next
  case (Suc n)
  obtain k ret f1 q1 where t: "wlan_tx 1 f q = Some (ret, f1, q1)" "queue_ok slice_ok q1" "ring_ok f1"
      "k \<le> 1" "length (msg_q_contents q1) + k = length (msg_q_contents q)" "k \<noteq> 0 \<Longrightarrow> ret = int k"
      "k = 0 \<Longrightarrow> (1 :: nat) \<noteq> 0 \<Longrightarrow> msg_q_contents q \<noteq> [] \<Longrightarrow> ret = TX_FIFO_FULL"
    by (rule wlan_tx_ok [OF Suc.prems(2,3), of 1]) (rule that)
  have ne: "msg_q_contents q \<noteq> []" using Suc.prems(4) by auto
  show ?case
  proof (cases "k = 0")
    case True
    then have ret: "ret = TX_FIFO_FULL" using t(7) ne by simp
    have "n \<le> length (msg_q_contents q1)" "en \<Longrightarrow> int n \<le> g \<and> g \<le> int (length (msg_q_contents q1))"
      using Suc.prems(4,5) t(5) True by auto
    then obtain retry' d' f' q' g' where r: "core_turns n en (retry + 1) d f1 q1 g = Some (retry', d', f', q', g')" "queue_ok slice_ok q'" "ring_ok f'"
        "d \<le> d'" "en \<Longrightarrow> 0 \<le> g' \<and> g' \<le> int (length (msg_q_contents q'))" "\<not> en \<Longrightarrow> g' = g"
      using Suc.IH [OF _ t(2,3), of "retry + 1" d g] by blast
    show ?thesis by (rule Suc.prems(1) [of retry' d' f' q' g']) (use r t(1) ret in simp_all)
  next
    case False
    then have k: "k = 1" "ret = 1" using t(4,6) by auto
    define g2 where "g2 = (if en then g - 1 else g)"
    have "n \<le> length (msg_q_contents q1)" "en \<Longrightarrow> int n \<le> g2 \<and> g2 \<le> int (length (msg_q_contents q1))"
      using Suc.prems(4,5) t(5) k by (auto simp: g2_def)
    then obtain retry' d' f' q' g' where r: "core_turns n en retry (d + 1) f1 q1 g2 = Some (retry', d', f', q', g')"
        "queue_ok slice_ok q'" "ring_ok f'"
        "d + 1 \<le> d'" "en \<Longrightarrow> 0 \<le> g' \<and> g' \<le> int (length (msg_q_contents q'))" "\<not> en \<Longrightarrow> g' = g2"
      using Suc.IH [OF _ t(2,3), of retry "d + 1" g2] by blast
    have step: "core_turns (Suc n) en retry d f q g = Some (retry', d', f', q', g')"
      using r(1) t(1) k by (simp add: g2_def)
    have "d \<le> d'" using r(4) by simp
    moreover have "\<not> en \<Longrightarrow> g' = g" using r(6) by (simp add: g2_def)
    ultimately show ?thesis by (intro Suc.prems(1) [OF step r(2,3) _ r(5)])
  qed
qed

lemma ack_loop_ok:
  assumes "queue_ok ack_msg (ack_q s)" and "ring_ok f"
  obtains n' retry' gone' f' s' where "ack_loop clk k n retry gone f s = Some (n', retry', gone', f', s')"
    "queue_ok ack_msg (ack_q s')" "ring_ok f'"
  using assms
proof (induction k arbitrary: n retry gone f s thesis)
  case 0
  show ?case by (rule 0(1) [of n retry gone f s]) (use 0(2-) in simp_all)
next
  case (Suc k)
  have wf: "msg_q_wf (ack_q s)" using Suc.prems(2) by (simp add: queue_ok_def)
  show ?case
  proof (cases "msg_q_contents (ack_q s)")
    case Nil
    then show ?thesis by (intro Suc.prems(1) [of n retry gone f s]) (use Suc.prems(2-) msg_q_get_law [OF wf] in simp_all)
  next
    case (Cons m ms)
    then have g: "msg_get (ack_q s) = Some m" and m: "ack_msg m"
      using Suc.prems(2) msg_q_get_law [OF wf] by (simp_all add: queue_ok_def)
    then obtain q where q: "msg_free (ack_q s) = Some q" by (auto simp: msg_get_def msg_free_def split: if_splits)
    have okq: "queue_ok ack_msg q" by (rule queue_ok_free [OF Suc.prems(2) q])
    obtain d seq nl where d: "slice m = Some d" "get_seq 8 d = Some seq" "ack_no_loss d (uint (mlen m)) = Some nl" "slice_ok m"
      by (rule ack_msg_reads [OF m])
    let ?must = "if k = 0 \<or> sint (seq - ack_seq s) \<ge> 20272 \<or> \<not> active s then Some True else ack_no_loss d (uint (mlen m))"
    obtain b where b: "?must = Some b" by (cases "k = 0 \<or> sint (seq - ack_seq s) \<ge> 20272 \<or> \<not> active s") (use d(3) in simp_all)
    show ?thesis
    proof (cases b)
      case False
      have "queue_ok ack_msg (ack_q (s\<lparr>ack_q := q\<rparr>))" using okq by simp
      then obtain n' retry' gone' f' s' where r: "ack_loop clk k n retry (gone + 1) f (s\<lparr>ack_q := q\<rparr>) = Some (n', retry', gone', f', s')"
          "queue_ok ack_msg (ack_q s')" "ring_ok f'"
        using Suc.IH [OF _ _ Suc.prems(3)] by blast
      show ?thesis by (rule Suc.prems(1) [of n' retry' gone' f' s']) (use r g d(1,2) b False q in simp_all)
    next
      case True
      show ?thesis
        using Suc.prems(3) d(4)
      proof (cases rule: ring_ok_in)
        case full
        obtain n' retry' gone' f' s' where r: "ack_loop clk k n (retry + 1) gone f s = Some (n', retry', gone', f', s')"
            "queue_ok ack_msg (ack_q s')" "ring_ok f'"
          using Suc.IH [OF _ Suc.prems(2,3)] by blast
        show ?thesis by (rule Suc.prems(1) [of n' retry' gone' f' s']) (use r g d(1,2) b True full in simp_all)
      next
        case (taken f1)
        let ?s = "s\<lparr>ack_seq := seq, ack_time := clk n, ack_q := q\<rparr>"
        have "queue_ok ack_msg (ack_q ?s)" using okq by simp
        then obtain n' retry' gone' f' s' where r: "ack_loop clk k (n + 1) retry (gone + 1) f1 ?s = Some (n', retry', gone', f', s')"
            "queue_ok ack_msg (ack_q s')" "ring_ok f'"
          using Suc.IH [OF _ _ taken(2)] by blast
        show ?thesis by (rule Suc.prems(1) [of n' retry' gone' f' s']) (use r g d(1,2) b True taken q in simp_all)
      qed
    qed
  qed
qed

lemma sessions_loop_ok:
  assumes "list_all (\<lambda>s. queue_ok ack_msg (ack_q s)) ss" and "ring_ok f"
  obtains n' retry' gone' f' ss' where "sessions_loop clk cur n retry gone f ss = Some (n', retry', gone', f', ss')"
    "list_all (\<lambda>s. queue_ok ack_msg (ack_q s)) ss'" "ring_ok f'"
  using assms
proof (induction ss arbitrary: n retry gone f thesis)
  case Nil
  then show ?case by simp
next
  case (Cons s ss)
  have ss: "list_all (\<lambda>s. queue_ok ack_msg (ack_q s)) ss" and s: "queue_ok ack_msg (ack_q s)" using Cons.prems(2) by simp_all
  note loop = Cons.IH [OF _ ss]
  consider "msg_num (ack_q s) = 0" | "msg_num (ack_q s) \<noteq> 0" "held_back cur s" | "msg_num (ack_q s) \<noteq> 0" "\<not> held_back cur s" by blast
  then show ?case
  proof cases
    case 1
    obtain n' retry' gone' f' ss' where r: "sessions_loop clk cur n retry gone f ss = Some (n', retry', gone', f', ss')"
        "list_all (\<lambda>s. queue_ok ack_msg (ack_q s)) ss'" "ring_ok f'" using loop [OF _ Cons.prems(3)] by blast
    show ?thesis by (rule Cons.prems(1) [of n' retry' gone' f' "s # ss'"]) (use r 1 s in simp_all)
  next
    case 2
    obtain n' retry' gone' f' ss' where r: "sessions_loop clk cur n (retry + 1) gone f ss = Some (n', retry', gone', f', ss')"
        "list_all (\<lambda>s. queue_ok ack_msg (ack_q s)) ss'" "ring_ok f'" using loop [OF _ Cons.prems(3)] by blast
    show ?thesis by (rule Cons.prems(1) [of n' retry' gone' f' "s # ss'"]) (use r 2 s in simp_all)
  next
    case 3
    obtain n1 r1 g1 f1 s1 where a: "ack_loop clk (nat (msg_num (ack_q s))) n retry gone f s = Some (n1, r1, g1, f1, s1)"
        "queue_ok ack_msg (ack_q s1)" "ring_ok f1"
      by (rule ack_loop_ok [OF s Cons.prems(3)])
    obtain n' retry' gone' f' ss' where r: "sessions_loop clk cur n1 r1 g1 f1 ss = Some (n', retry', gone', f', ss')"
        "list_all (\<lambda>s. queue_ok ack_msg (ack_q s)) ss'" "ring_ok f'" using loop [OF _ a(3)] by blast
    show ?thesis by (rule Cons.prems(1) [of n' retry' gone' f' "s1 # ss'"]) (use r 3 a in simp_all)
  qed
qed

subsection \<open>The interface\<close>

definition if_ok :: "net_if \<Rightarrow> bool" where
  "if_ok v \<longleftrightarrow> length (queues v) = 5 \<and> list_all (queue_ok slice_ok) (queues v) \<and>
     list_all (\<lambda>s. queue_ok ack_msg (ack_q s)) (sessions v) \<and> ring_ok (if_ring v) \<and> qos_ok (if_num v) (if_qos v) \<and> \<not> seals v"

lemma if_ok_queue: "if_ok v \<Longrightarrow> i < 5 \<Longrightarrow> queue_ok slice_ok (queues v ! i)"
  by (simp add: if_ok_def list_all_length)

lemma if_ok_num: "if_ok v \<Longrightarrow> i < 5 \<Longrightarrow> if_num v i = int (length (msg_q_contents (queues v ! i)))"
  using if_ok_queue [of v i] by (simp add: if_num_def queue_ok_num)

lemma qos_ok_mono: "qos_ok num qs \<Longrightarrow> (\<And>i. i < 4 \<Longrightarrow> num i \<le> num' i) \<Longrightarrow> qos_ok num' qs"
  unfolding qos_ok_def by (meson order.trans)

lemma list_all_update: "list_all P xs \<Longrightarrow> P x \<Longrightarrow> list_all P (xs[i := x])"
  using set_update_subset_insert [of xs i x] by (auto simp: list_all_iff)

lemma core_cmds_ok:
  assumes "if_ok v"
  obtains v' where "core_cmds v = Some v'" "if_ok v'"
proof (cases "if_num v 4 > 0")
  case True
  have q4: "queue_ok slice_ok (queues v ! 4)" and r: "ring_ok (if_ring v)" using if_ok_queue [OF assms, of 4] assms by (simp_all add: if_ok_def)
  obtain ret f' q' where t: "wlan_tx (nat (if_num v 4)) (if_ring v) (queues v ! 4) = Some (ret, f', q')" "queue_ok slice_ok q'" "ring_ok f'"
    by (rule wlan_tx_ok [OF q4 r]) (rule that)
  let ?v = "v\<lparr>if_ring := f', queues := (queues v)[4 := q']\<rparr>"
  have "qos_ok (if_num ?v) (if_qos v)"
    by (rule qos_ok_mono [of "if_num v"]) (use assms in \<open>simp_all add: if_ok_def if_num_def\<close>)
  then have "if_ok ?v" using assms t(2,3) by (simp add: if_ok_def list_all_update)
  then show ?thesis using that [of ?v] True t(1) by (simp add: core_cmds_def)
next
  case False
  then show ?thesis using that [of v] assms by (simp add: core_cmds_def)
qed

lemma core_acks_ok:
  assumes "if_ok v"
  obtains v' where "core_acks clk v = Some v'" "if_ok v'"
proof -
  have s: "list_all (\<lambda>s. queue_ok ack_msg (ack_q s)) (sessions v)" and r: "ring_ok (if_ring v)" using assms by (simp_all add: if_ok_def)
  obtain n' retry' gone' f' ss' where t: "sessions_loop clk (clk 0) 1 0 0 (if_ring v) (sessions v) = Some (n', retry', gone', f', ss')"
      "list_all (\<lambda>s. queue_ok ack_msg (ack_q s)) ss'" "ring_ok f'"
    by (rule sessions_loop_ok [OF s r]) (rule that)
  have "qos_ok (if_num (v\<lparr>if_ring := f', sessions := ss'\<rparr>)) (if_qos v)"
    by (rule qos_ok_mono [of "if_num v"]) (use assms in \<open>simp_all add: if_ok_def if_num_def\<close>)
  then show ?thesis
    using that [of "v\<lparr>if_ring := f', sessions := ss'\<rparr>"] t assms by (simp add: core_acks_def wlan_tcpack_tx_def if_ok_def)
qed

lemma qos_sched_ok:
  assumes "qos_ok num qs" and "qos_sched num qs = (i, n, qs')" and "0 \<le> num 0"
  shows "qos_ok num qs'" and "i < 4" and "0 \<le> n" and "n \<le> num i"
    and "qenable qs' = qenable qs" and "qenable qs \<Longrightarrow> i = qindex qs' \<and> n = going qs' ! i"
proof -
  have "qos_ok num qs' \<and> i < 4 \<and> 0 \<le> n \<and> n \<le> num i \<and> qenable qs' = qenable qs \<and> (qenable qs \<longrightarrow> i = qindex qs' \<and> n = going qs' ! i)"
  proof (cases "qenable qs")
    case True
    then have q: "qs' = sched_rounds 4 num qs" "i = qindex qs'" "n = going qs' ! i"
      using assms(2) by (auto simp: qos_sched_def Let_def)
    have o: "qos_ok num qs'" "qenable qs'" using sched_rounds_ok [OF assms(1) True, of 4] q(1) by simp_all
    then have "i < 4" using q(2) by (simp add: qos_ok_def)
    moreover from this o have "0 \<le> n" "n \<le> num i" using q(3) by (simp_all add: qos_ok_def)
    ultimately show ?thesis using o q True by simp
  next
    case False
    then show ?thesis using assms by (auto simp: qos_sched_def)
  qed
  then show "qos_ok num qs'" "i < 4" "0 \<le> n" "n \<le> num i" "qenable qs' = qenable qs" "qenable qs \<Longrightarrow> i = qindex qs' \<and> n = going qs' ! i"
    by simp_all
qed

lemma core_data_ok:
  assumes "if_ok v"
  obtains d v' where "core_data v = Some (d, v')" "if_ok v'" "0 \<le> d"
proof -
  obtain i n qs where s: "qos_sched (if_num v) (if_qos v) = (i, n, qs)" by (metis prod_cases3)
  have n0: "0 \<le> if_num v 0" using if_ok_num [OF assms, of 0] by simp
  have qo: "qos_ok (if_num v) (if_qos v)" using assms by (simp add: if_ok_def)
  note sch = qos_sched_ok [OF qo s n0]
  have qi: "queue_ok slice_ok (queues v ! i)" and ring: "ring_ok (if_ring v)"
    using if_ok_queue [OF assms, of i] sch(2) assms by (simp_all add: if_ok_def)
  have num: "if_num v i = int (length (msg_q_contents (queues v ! i)))" using if_ok_num [OF assms] sch(2) by simp
  have len: "nat n \<le> length (msg_q_contents (queues v ! i))" using sch(3,4) num by simp
  have gq: "qenable qs \<Longrightarrow> int (nat n) \<le> going qs ! qindex qs \<and> going qs ! qindex qs \<le> int (length (msg_q_contents (queues v ! i)))"
    using sch num by auto
  obtain retry' d' f' q' g' where t: "core_turns (nat n) (qenable qs) 0 0 (if_ring v) (queues v ! i) (going qs ! qindex qs) = Some (retry', d', f', q', g')"
      "queue_ok slice_ok q'" "ring_ok f'" "0 \<le> d'" "qenable qs \<Longrightarrow> 0 \<le> g' \<and> g' \<le> int (length (msg_q_contents q'))"
      "\<not> qenable qs \<Longrightarrow> g' = going qs ! qindex qs"
    by (rule core_turns_ok [where en = "qenable qs" and retry = 0 and d = 0, OF qi ring len gq]) (assumption, rule that)
  let ?v = "v\<lparr>if_ring := f', queues := (queues v)[i := q'], if_qos := set_going (qindex qs) g' qs\<rparr>"
  have l5: "length (queues v) = 5" using assms by (simp add: if_ok_def)
  have "qos_ok (if_num ?v) (set_going (qindex qs) g' qs)"
  proof (cases "qenable qs")
    case True
    have "if_num ?v j = if_num v j" if "j \<noteq> i" for j using that by (simp add: if_num_def)
    moreover have "if_num ?v i = int (length (msg_q_contents q'))"
      using l5 sch(2) queue_ok_num [OF t(2)] by (simp add: if_num_def)
    ultimately show ?thesis
      using sch(1,2,5,6) t(5) True by (auto simp: qos_ok_def set_going_nth)
  next
    case False
    have "0 \<le> if_num ?v j" if "j < 5" for j
    proof (cases "j = i")
      case True
      then show ?thesis using l5 sch(2) queue_ok_num [OF t(2)] by (simp add: if_num_def)
    next
      case False
      then show ?thesis using if_ok_num [OF assms that] by (simp add: if_num_def)
    qed
    then show ?thesis using sch(1) t(6) False by (auto simp: qos_ok_def set_going_nth)
  qed
  then have "if_ok ?v" using assms t(2,3) by (simp add: if_ok_def list_all_update)
  moreover have "core_data v = Some (d', ?v)" using s t(1) by (simp add: core_data_def)
  ultimately show ?thesis using that t(4) by blast
qed

lemma core_round_ok:
  assumes "if_ok v"
  obtains d v' where "core_round clk v = Some (d, v')" "if_ok v'" "0 \<le> d"
proof -
  obtain v1 where 1: "core_cmds v = Some v1" "if_ok v1" by (rule core_cmds_ok [OF assms])
  obtain v2 where 2: "core_acks clk v1 = Some v2" "if_ok v2" by (rule core_acks_ok [OF 1(2)])
  obtain d v3 where 3: "core_data v2 = Some (d, v3)" "if_ok v3" "0 \<le> d" by (rule core_data_ok [OF 2(2)])
  show ?thesis by (rule that [of d v3]) (use 1 2 3 in \<open>simp_all add: core_round_def\<close>)
qed

subsection \<open>Everything that happens to an interface\<close>

text \<open>
  A frame whose headers lie within it: the matching and the classification read fixed offsets
  and, for TCP, the header behind the IP header.
\<close>

definition frame_ok :: "u8 list \<Rightarrow> bool" where
  "frame_ok skb \<longleftrightarrow> 34 \<le> length skb \<and> (is_tcp skb = Some True \<longrightarrow> get_tcp_hdr skb \<noteq> None)"

lemma frame_ok_is_tcp: "frame_ok skb \<Longrightarrow> \<exists>b. is_tcp skb = Some b"
  by (auto simp: frame_ok_def is_tcp_def byte_at_def)

lemma frame_ok_tcp:
  assumes "frame_ok skb" and "is_tcp skb = Some True"
  obtains t l i d where "get_tcp_hdr skb = Some (t, l)" and "get_ip_hdr skb = Some i" and "tid_calc skb = Some d"
    and "\<exists>seq. get_seq 4 skb = Some seq"
proof -
  obtain t l where t: "get_tcp_hdr skb = Some (t, l)" using assms by (auto simp: frame_ok_def)
  have len: "t + 12 < length skb" "34 \<le> length skb" using get_tcp_hdr_Some [OF t] assms(1) by (simp_all add: frame_ok_def)
  obtain i where "get_ip_hdr skb = Some i" using len by (auto simp: get_ip_hdr_def byte_at_def)
  moreover obtain d where "tid_calc skb = Some d" using t len by (auto simp: tid_calc_def get_bytes_def)
  moreover have "\<exists>seq. get_seq 4 skb = Some seq" using t len by (simp add: get_seq_def get_bytes_def)
  ultimately show ?thesis using that t by blast
qed

lemma wlan_q_match_ack_ok:
  assumes "frame_ok skb"
  obtains sess where "wlan_q_match_ack sp skb (int (length skb)) ss = Some sess"
    and "\<And>i. sess = Some i \<Longrightarrow> i < length ss \<and> ack_msg (data_msg vif_id skb)"
proof (cases "sp \<and> is_tcp skb = Some True")
  case True
  obtain t l i d where h: "get_tcp_hdr skb = Some (t, l)" "get_ip_hdr skb = Some i" "tid_calc skb = Some d"
    by (rule frame_ok_tcp [OF assms]) (use True in blast)+
  have m: "ack_msg (data_msg vif_id skb)" using h(1) by (simp add: ack_msg_def data_msg_def unat_of_nat)
  obtain b where b: "is_tcp_ack skb (int (length skb)) = Some b" using True h by (simp add: is_tcp_ack_def)
  show ?thesis
  proof (cases b)
    case True
    then show ?thesis
      using that [of "find_index (\<lambda>s. active s \<and> d = tid s) ss"] b h(3) \<open>sp \<and> _\<close> m find_index_Some
      by (fastforce simp: wlan_q_match_ack_def)
  next
    case False
    then show ?thesis using that [of None] b \<open>sp \<and> _\<close> by (simp add: wlan_q_match_ack_def)
  qed
next
  case False
  then show ?thesis using that [of None] frame_ok_is_tcp [OF assms] by (auto simp: wlan_q_match_ack_def is_tcp_ack_def)
qed

lemma qos_match_q_ok:
  assumes "frame_ok skb"
  obtains i where "qos_match_q qs skb = Some i" and "i < 4"
proof -
  have "\<exists>i. qos_match_q qs skb = Some i \<and> i < 4"
    using assms by (auto simp: qos_match_q_def frame_ok_def byte_at_def Let_def)
  then show ?thesis using that by blast
qed

lemma data_msg_slice [simp]: "slice_ok (data_msg vif_id d)"
  by (simp add: slice_ok_def data_msg_def unat_of_nat)

lemma queue_put_ok:
  assumes "if_ok v" and "slice_ok m" and "msg_q_in m (queues v ! i) = Some q" and "i < 5"
  shows "if_ok (v\<lparr>queues := (queues v)[i := q]\<rparr>)"
proof -
  note q = queue_ok_in [OF if_ok_queue [OF assms(1,4)] assms(2,3)]
  have l5: "length (queues v) = 5" using assms(1) by (simp add: if_ok_def)
  have "qos_ok (if_num (v\<lparr>queues := (queues v)[i := q]\<rparr>)) (if_qos v)"
  proof (rule qos_ok_mono [of "if_num v"])
    fix j :: nat
    assume "j < 4"
    show "if_num v j \<le> if_num (v\<lparr>queues := (queues v)[i := q]\<rparr>) j"
    proof (cases "j = i")
      case True
      then show ?thesis
        using q assms(4) l5 if_ok_num [OF assms(1,4)] queue_ok_num [OF q(1)] by (simp add: if_num_def)
    qed (simp add: if_num_def)
  qed (use assms(1) in \<open>simp add: if_ok_def\<close>)
  then show ?thesis using assms(1) q(1) by (simp add: if_ok_def list_all_update)
qed

lemma wlan_xmit_ok:
  assumes "if_ok v" and "frame_ok skb"
  obtains v' where "wlan_xmit stopped vif_id skb v = Some v'" and "if_ok v'"
proof (cases stopped)
  case True
  then show ?thesis using that assms(1) by (simp add: wlan_xmit_def)
next
  case False
  have ns: "\<not> seals v" using assms(1) by (simp add: if_ok_def)
  obtain sess where s: "wlan_q_match_ack (ack_suppress v) skb (int (length skb)) (sessions v) = Some sess"
      "\<And>i. sess = Some i \<Longrightarrow> i < length (sessions v) \<and> ack_msg (data_msg vif_id skb)"
    by (rule wlan_q_match_ack_ok [OF assms(2)]) (rule that)
  show ?thesis
  proof (cases sess)
    case None
    obtain i where i: "qos_match_q (if_qos v) skb = Some i" "i < 4" by (rule qos_match_q_ok [OF assms(2)])
    show ?thesis
    proof (cases "msg_q_in (data_msg vif_id skb) (queues v ! i)")
      case none: None
      then show ?thesis using that [of v] False ns s(1) None i assms(1) by (simp add: wlan_xmit_def)
    next
      case (Some q)
      then have "wlan_xmit stopped vif_id skb v = Some (v\<lparr>queues := (queues v)[i := q]\<rparr>)"
        using False ns s(1) None i by (simp add: wlan_xmit_def)
      then show ?thesis using that queue_put_ok [OF assms(1) _ Some] i(2) by simp
    qed
  next
    case (Some i)
    note si = s(2) [OF Some]
    have qi: "queue_ok ack_msg (ack_q (sessions v ! i))" using assms(1) si by (simp add: if_ok_def list_all_length)
    show ?thesis
    proof (cases "msg_q_in (data_msg vif_id skb) (ack_q (sessions v ! i))")
      case none: None
      then show ?thesis using that [of v] False ns s(1) Some assms(1) by (simp add: wlan_xmit_def)
    next
      case q: (Some q)
      let ?v = "v\<lparr>sessions := (sessions v)[i := (sessions v ! i)\<lparr>ack_q := q\<rparr>]\<rparr>"
      have "queue_ok ack_msg q" using queue_ok_in(1) [OF qi _ q] si by simp
      moreover have "qos_ok (if_num ?v) (if_qos v)"
        by (rule qos_ok_mono [of "if_num v"]) (use assms(1) in \<open>simp_all add: if_ok_def if_num_def\<close>)
      ultimately have "if_ok ?v" using assms(1) by (simp add: if_ok_def list_all_update)
      then show ?thesis using that [of ?v] False ns s(1) Some q by (simp add: wlan_xmit_def)
    qed
  qed
qed

lemma wlan_cmd_ok:
  assumes "if_ok v"
  shows "if_ok (snd (wlan_cmd_send_to_ic mem vif_id data subtype v))"
proof -
  let ?m = "\<lparr>mtype = HOST_SC2331_CMD, mmode = vif_id, msubtype = subtype,
           mlen = (case data of None \<Rightarrow> 0 | Some d \<Rightarrow> of_nat (length d)), slice = (if data = Some [] then None else data)\<rparr>"
  have "slice_ok ?m" by (auto simp: slice_ok_def unat_of_nat split: option.splits)
  then show ?thesis
    using queue_put_ok [OF assms, of ?m 4] assms
    by (simp add: wlan_cmd_send_to_ic_def Let_def split: option.splits)
qed

lemma tcp_session_updata_queues:
  assumes "frame_ok frame" and "list_all (\<lambda>s. P (ack_q s)) ss"
  obtains ss' where "tcp_session_updata sp cur frame len ss = Some ss'" and "list_all (\<lambda>s. P (ack_q s)) ss'"
proof (cases "sp \<and> is_tcp_data frame len = Some True")
  case False
  moreover have "\<exists>b. is_tcp_data frame len = Some b"
  proof (cases "is_tcp frame = Some True")
    case True
    obtain t l i d where "get_tcp_hdr frame = Some (t, l)" "get_ip_hdr frame = Some i" "tid_calc frame = Some d"
      by (rule frame_ok_tcp [OF assms(1) True])
    with True show ?thesis by (cases "len \<le> 54") (auto simp: is_tcp_data_def)
  qed (use frame_ok_is_tcp [OF assms(1)] in \<open>auto simp: is_tcp_data_def\<close>)
  ultimately show ?thesis using that [of ss] assms(2) by (auto simp: tcp_session_updata_def)
next
  case True
  then have tcp: "is_tcp frame = Some True" by (auto simp: is_tcp_data_def split: if_splits bind_splits)
  obtain t l i d where h: "get_tcp_hdr frame = Some (t, l)" "tid_calc frame = Some d" and sq: "\<exists>seq. get_seq 4 frame = Some seq"
    by (rule frame_ok_tcp [OF assms(1) tcp])
  obtain seq where seq: "get_seq 4 frame = Some seq" using sq by blast
  have at: "P (ack_q (ss ! i))" if "find_index Q ss = Some i" for Q i
    using find_index_Some [OF that] assms(2) by (simp add: list_all_length)
  show ?thesis
  proof (cases "find_index (\<lambda>s. active s \<and> d = tid s) ss")
    case None
    show ?thesis
    proof (cases "find_index (\<lambda>s. \<not> active s \<or> expired cur s) ss")
      case none: None
      then show ?thesis using that [of ss] True h(2) seq None assms(2) by (simp add: tcp_session_updata_def)
    next
      case (Some j)
      show ?thesis
        using that True h(2) seq None Some at [OF Some] assms(2)
        by (simp add: tcp_session_updata_def Let_def list_all_update tcp_session_del_def)
    qed
  next
    case (Some j)
    show ?thesis
      using that True h(2) seq Some at [OF Some] assms(2)
      by (simp add: tcp_session_updata_def list_all_update tcp_session_del_def)
  qed
qed

datatype if_evt =
    If_xmit bool bool "u8 list"              \<comment> \<open>a frame of the network\<close>
  | If_cmd bool bool "u8 list option" u8     \<comment> \<open>a command\<close>
  | If_data timeval "u8 list" int            \<comment> \<open>received data\<close>
  | If_round "nat \<Rightarrow> timeval"        \<comment> \<open>a round of the core thread\<close>
  | If_bus u8 u32                            \<comment> \<open>a frame for the chip\<close>
  | If_wmm bool                              \<comment> \<open>parameters of the access point\<close>

text \<open>
  The interface seals nothing (no WAPI), and its scheduler stays on or off as it was at the start;
  the switch in \<open>/proc\<close> (\<open>qos_enable\<close>) is not an event, since it leaves the shares as they are:
  those of a scheduler switched off and on again can exceed a queue emptied in between.
\<close>

fun if_evt_step :: "if_evt \<Rightarrow> net_if \<Rightarrow> net_if option" where
  "if_evt_step (If_xmit stopped vif_id skb) v = (if frame_ok skb then wlan_xmit stopped vif_id skb v else Some v)"
| "if_evt_step (If_cmd mem vif_id data subtype) v = Some (snd (wlan_cmd_send_to_ic mem vif_id data subtype v))"
| "if_evt_step (If_data cur frame len) v =
     (if frame_ok frame then
        map_option (\<lambda>ss. v\<lparr>sessions := ss\<rparr>) (tcp_session_updata (ack_suppress v) cur frame len (sessions v))
      else Some v)"
| "if_evt_step (If_round clk) v = map_option snd (core_round clk v)"
| "if_evt_step (If_bus netif_id cnt) v =
     map_option (\<lambda>(ret, n, x, f). v\<lparr>if_ring := f\<rparr>) (tx_fifo_out netif_id (hw_tx False True cnt) (if_ring v))"
| "if_evt_step (If_wmm flag) v = Some (v\<lparr>if_qos := (if_qos v)\<lparr>wmm_report := flag\<rparr>\<rparr>)"

definition if_step :: "net_if option \<Rightarrow> if_evt \<Rightarrow> net_if option" where
  "if_step vo e = Option.bind vo (if_evt_step e)"

definition fresh_q :: "nat \<Rightarrow> tx_msg msg_q \<Rightarrow> bool" where
  "fresh_q n q \<longleftrightarrow> (\<exists>mem. length mem = n \<and> msg_q_alloc (Some mem) n = Some q)"

definition if_fresh :: "net_if \<Rightarrow> bool" where
  "if_fresh v \<longleftrightarrow> list_all2 fresh_q [256, 150, 150, 150, 5] (queues v) \<and> list_all (\<lambda>s. fresh_q 100 (ack_q s)) (sessions v) \<and>
     (\<exists>mem. 1088 \<le> length mem \<and> tx_fifo_alloc (Some mem) (13312 - 64) 12 = Some (if_ring v)) \<and>
     going (if_qos v) = [0, 0, 0, 0] \<and> qindex (if_qos v) = 0 \<and> \<not> seals v"

definition if_start :: "net_if option \<Rightarrow> bool" where
  "if_start vo \<longleftrightarrow> (\<exists>v. vo = Some v \<and> if_fresh v)"

definition if_inv :: "net_if option \<Rightarrow> bool" where
  "if_inv vo \<longleftrightarrow> (\<exists>v. vo = Some v \<and> if_ok v)"

lemma fresh_q_ok:
  assumes "fresh_q n q" and "0 < n" and "n < 2 ^ 31"
  shows "queue_ok P q"
proof -
  obtain mem where m: "length mem = n" "msg_q_alloc (Some mem) n = Some q" using assms(1) by (auto simp: fresh_q_def)
  have e: "msg_q_wf q \<and> msg_q_contents q = []" by (rule msg_q_alloc_empty [OF m(2,1) assms(2)])
  moreover have "q_num q = n" "q_wt_cnt q = 0" "q_rd_cnt q = 0" using m(2) by (auto simp: msg_q_alloc_def)
  ultimately show ?thesis using assms(3) by (simp add: queue_ok_def)
qed

lemma if_fresh_ok:
  assumes "if_fresh v"
  shows "if_ok v"
proof -
  have l5: "length (queues v) = 5" using assms by (auto simp: if_fresh_def dest: list_all2_lengthD)
  have q: "queue_ok slice_ok (queues v ! i)" if "i < 5" for i
  proof -
    have "fresh_q ([256, 150, 150, 150, 5] ! i) (queues v ! i)"
      using assms that l5 by (intro list_all2_nthD2 [where P = fresh_q]) (simp_all add: if_fresh_def)
    moreover have "i = 0 \<or> i = 1 \<or> i = 2 \<or> i = 3 \<or> i = 4" using that by linarith
    ultimately show ?thesis by (auto intro: fresh_q_ok)
  qed
  have num: "0 \<le> if_num v i" if "i < 5" for i using queue_ok_num [OF q [OF that]] by (simp add: if_num_def)
  obtain mem where m: "1088 \<le> length mem" "tx_fifo_alloc (Some mem) (13312 - 64) 12 = Some (if_ring v)"
    using assms by (auto simp: if_fresh_def)
  have "tx_conf (if_ring v)" using m(2) by (auto simp: tx_fifo_alloc_def tx_conf_def dest!: sym [of _ "if_ring v"])
  then have "ring_ok (if_ring v)" using tx_fifo_alloc_holds [OF m(2,1)] by (auto simp: ring_ok_def)
  moreover have "qos_ok (if_num v) (if_qos v)"
    unfolding qos_ok_def
  proof (intro conjI allI impI)
    fix i :: nat
    assume i: "i < 4"
    then have "going (if_qos v) ! i = 0" using assms by (auto simp: if_fresh_def nth_Cons split: nat.splits)
    then show "0 \<le> going (if_qos v) ! i" "going (if_qos v) ! i \<le> if_num v i" "going (if_qos v) ! i = 0" using num i by simp_all
  qed (use assms in \<open>simp_all add: if_fresh_def\<close>)
  moreover have "list_all (\<lambda>s. queue_ok ack_msg (ack_q s)) (sessions v)"
    using assms fresh_q_ok by (auto simp: if_fresh_def list_all_iff)
  ultimately show ?thesis using l5 q assms by (simp add: if_ok_def list_all_length if_fresh_def)
qed

lemma if_evt_step_ok:
  assumes "if_ok v"
  shows "\<exists>v'. if_evt_step e v = Some v' \<and> if_ok v'"
proof (cases e)
  case (If_xmit stopped vif_id skb)
  then show ?thesis using wlan_xmit_ok [OF assms, of skb stopped vif_id] assms by (cases "frame_ok skb") auto
next
  case (If_cmd mem vif_id data subtype)
  then show ?thesis using wlan_cmd_ok [OF assms] by simp
next
  case (If_data cur frame len)
  have s: "list_all (\<lambda>s. queue_ok ack_msg (ack_q s)) (sessions v)" using assms by (simp add: if_ok_def)
  show ?thesis
  proof (cases "frame_ok frame")
    case True
    obtain ss where ss: "tcp_session_updata (ack_suppress v) cur frame len (sessions v) = Some ss" "list_all (\<lambda>s. queue_ok ack_msg (ack_q s)) ss"
      by (rule tcp_session_updata_queues [OF True s])
    have "qos_ok (if_num (v\<lparr>sessions := ss\<rparr>)) (if_qos v)"
      by (rule qos_ok_mono [of "if_num v"]) (use assms in \<open>simp_all add: if_ok_def if_num_def\<close>)
    then show ?thesis using ss assms If_data True by (simp add: if_ok_def)
  qed (use assms If_data in simp)
next
  case (If_round clk)
  obtain d v' where "core_round clk v = Some (d, v')" "if_ok v'" by (rule core_round_ok [OF assms])
  then show ?thesis using If_round by simp
next
  case (If_bus netif_id cnt)
  obtain us vs where h: "tx_holds (if_ring v) us vs" and c: "tx_conf (if_ring v)" using assms by (auto simp: if_ok_def ring_ok_def)
  obtain ret n x f where t: "tx_fifo_out netif_id (hw_tx False True cnt) (if_ring v) = Some (ret, n, x, f)" "ring_ok f"
    by (rule tx_fifo_out_done [OF h c, of netif_id cnt]) (auto simp: ring_ok_def)
  have "qos_ok (if_num (v\<lparr>if_ring := f\<rparr>)) (if_qos v)"
    by (rule qos_ok_mono [of "if_num v"]) (use assms in \<open>simp_all add: if_ok_def if_num_def\<close>)
  then show ?thesis using t assms If_bus by (simp add: if_ok_def)
next
  case (If_wmm flag)
  have "qos_ok (if_num (v\<lparr>if_qos := (if_qos v)\<lparr>wmm_report := flag\<rparr>\<rparr>)) ((if_qos v)\<lparr>wmm_report := flag\<rparr>)"
    using assms by (simp add: if_ok_def qos_ok_def if_num_def)
  then show ?thesis using assms If_wmm by (simp add: if_ok_def)
qed

interpretation wlan_if: transition_system if_start if_step if_inv
  by unfold_locales (use if_fresh_ok if_evt_step_ok in \<open>fastforce simp: if_start_def if_inv_def if_step_def\<close>)+


text \<open>An interface that has just been opened, with one session.\<close>

definition demo_if :: "wapi_vif \<Rightarrow> net_if" where
  "demo_if w = \<lparr>queues = map (\<lambda>n. the (msg_q_alloc (Some (replicate n (demo_ack 0))) n)) [256, 150, 150, 150, 5],
     if_qos = \<lparr>qenable = True, qindex = 0, going = [0, 0, 0, 0], wmm_report = False\<rparr>,
     if_ring = the (tx_fifo_alloc (Some (replicate 2000 0)) (13312 - 64) 12),
     sessions = [demo_session\<lparr>active := False, ack_q := the (msg_q_alloc (Some (replicate 100 (demo_ack 0))) 100)\<rparr>],
     ack_suppress = True, seals = False, if_wapi = w\<rparr>"

lemma fresh_q_alloc: "0 < n \<Longrightarrow> fresh_q n (the (msg_q_alloc (Some (replicate n m)) n))"
  by (auto simp: fresh_q_def msg_q_alloc_def intro!: exI [of _ "replicate n m"])

lemma demo_if_start: "if_start (Some (demo_if w))"
proof -
  have "\<exists>mem. 1088 \<le> length mem \<and> tx_fifo_alloc (Some mem) (13312 - 64) 12 = Some (if_ring (demo_if w))"
    by (rule exI [of _ "replicate 2000 0"]) (simp add: demo_if_def tx_fifo_alloc_def)
  then show ?thesis by (simp add: if_start_def if_fresh_def) (simp add: demo_if_def fresh_q_alloc)
qed


end
