(* ===== verification/WlanCmd.thy ===== *)
theory WlanCmd
  imports WlanQos
begin

text \<open>
  Commands to the Wi-Fi chip and their answers (\<open>wlan_cmd.c\<close>): any number of callers take turns
  with the lock of the commands, the receiver puts an answer into the one buffer for answers
  and wakes the caller. A caller is split where others can run: before the lock, between lock,
  clearing the buffer, sending and waiting, and while it copies the answer under the lock of the buffer. The copy itself
  and the read of the buffer by \<open>wlan_cmd_npi_send_recv\<close> are one step each. Messages to the
  log are left out. The module exit ends the receiver before it frees the buffer; a message received
  after that is an access outside a buffer here.
\<close>

subsection \<open>Commands and answers\<close>

abbreviation (input) OK :: int where "OK \<equiv> 0"
abbreviation (input) ERROR :: int where "ERROR \<equiv> - 1"
abbreviation (input) WLAN_CMD_MEM_LEN :: nat where "WLAN_CMD_MEM_LEN \<equiv> 8192"
abbreviation (input) WIFI_CMD_GET_RSSI :: u8 where "WIFI_CMD_GET_RSSI \<equiv> 2"
abbreviation (input) WIFI_CMD_GET_TXRATE_TXFAILED :: u8 where "WIFI_CMD_GET_TXRATE_TXFAILED \<equiv> 3"
abbreviation (input) WIFI_CMD_SET_SCAN :: u8 where "WIFI_CMD_SET_SCAN \<equiv> 4"
abbreviation (input) WIFI_CMD_NPI_MSG :: u8 where "WIFI_CMD_NPI_MSG \<equiv> 33"

text \<open>
  The four functions that send a command and wait: a command with its data, two requests for
  values, and a message of the test tool with the bytes its caller has for the answer.
\<close>

datatype call =
    Send_recv bool "u8 list option" u8
  | Get_rssi bool
  | Get_txrate bool
  | Npi "u8 list" nat

datatype pc = Idle | Locking call | Sending call | Queueing call | Waiting call | Copying call

record cmd_ctx =
  mem :: "u8 list option"        \<comment> \<open>8192 bytes\<close>
  wakeup :: bool
  cmd_lock :: "nat option"       \<comment> \<open>the caller that holds it\<close>
  mem_lock :: "nat option"
  refcnt :: int
  sync_exit :: bool
  cp2_status :: int
  cmd_if :: net_if
  callers :: "pc list"
  returned :: "(nat \<times> call \<times> int \<times> u8 list) list"   \<comment> \<open>the calls that came back, with their values\<close>
  heard :: "u8 list list"        \<comment> \<open>what was put into the buffer since it was last cleared for a command\<close>

definition wlan_cmd_init :: "u8 list option \<Rightarrow> cmd_ctx \<Rightarrow> cmd_ctx" where
  "wlan_cmd_init mem' c = c\<lparr>mem := mem', refcnt := 0, cmd_lock := None, mem_lock := None, wakeup := False\<rparr>"

text \<open>The counts \<open>refs\<close> read until the deadline: whether one lets it go on.\<close>

definition wlan_cmd_deinit :: "int list \<Rightarrow> cmd_ctx \<Rightarrow> bool \<times> cmd_ctx" where
  "wlan_cmd_deinit refs c = (list_ex (\<lambda>r. \<not> r > 0) refs, c\<lparr>mem := None, wakeup := True\<rparr>)"

text \<open>The lock, up to where it blocks and from there on; \<open>None\<close> is an error.\<close>

definition wlan_cmd_lock_enter :: "cmd_ctx \<Rightarrow> cmd_ctx option" where
  "wlan_cmd_lock_enter c = (if sync_exit c then None else Some (c\<lparr>refcnt := refcnt c + 1\<rparr>))"

definition wlan_cmd_lock_take :: "nat \<Rightarrow> cmd_ctx \<Rightarrow> bool \<times> cmd_ctx" where
  "wlan_cmd_lock_take i c = (let c = c\<lparr>cmd_lock := Some i\<rparr> in (\<not> sync_exit c, c))"

definition wlan_cmd_unlock :: "cmd_ctx \<Rightarrow> cmd_ctx" where
  "wlan_cmd_unlock c = c\<lparr>cmd_lock := None, refcnt := refcnt c - 1\<rparr>"

definition wlan_cmd_clean :: "cmd_ctx \<Rightarrow> cmd_ctx" where
  "wlan_cmd_clean c = c\<lparr>wakeup := False\<rparr>"

text \<open>What a call sends.\<close>

fun call_msg :: "call \<Rightarrow> bool \<times> u8 list option \<times> u8" where
  "call_msg (Send_recv vif_id data subtype) = (vif_id, (if data = Some [] then None else data), subtype)"
| "call_msg (Get_rssi vif_id) = (vif_id, None, WIFI_CMD_GET_RSSI)"
| "call_msg (Get_txrate vif_id) = (vif_id, None, WIFI_CMD_GET_TXRATE_TXFAILED)"
| "call_msg (Npi data room) = (False, Some data, WIFI_CMD_NPI_MSG)"

text \<open>The bytes a caller has for an answer behind its header.\<close>

fun answer_room :: "call \<Rightarrow> nat" where
  "answer_room (Send_recv _ _ _) = 4"
| "answer_room (Get_rssi _) = 8"
| "answer_room (Get_txrate _) = 12"
| "answer_room (Npi _ room) = room"

text \<open>
  The answer in the buffer \<open>m\<close>, cut to that room and laid over zeros; a length that is too large
  is corrected in the buffer.
\<close>

definition cut_header :: "nat \<Rightarrow> u8 list \<Rightarrow> u8 list" where
  "cut_header room m = (if room < hdr_len m then take 2 m @ le16 (of_nat room) @ drop 4 m else m)"

definition take_answer :: "nat \<Rightarrow> u8 list \<Rightarrow> (u8 list \<times> u8 list) option" where
  "take_answer room m = (let m = cut_header room m in do {
     bytes \<leftarrow> get_bytes 0 (4 + hdr_len m) m;
     a \<leftarrow> put_bytes 0 bytes (replicate (4 + room) 0);
     Some (a, m) })"

definition matches :: "u8 \<Rightarrow> u8 list \<Rightarrow> bool" where
  "matches subtype m \<longleftrightarrow> hdr_type m = SC2331_HOST_RSP \<and> m ! 1 = subtype"

text \<open>
  What a call returns, and what it hands out: \<open>got\<close> is whether the wait was successful, \<open>m\<close> the
  answer or zeros. The buffer of the test tool may be too short.
\<close>

definition rssi_bytes :: "u8 list \<Rightarrow> u8 list" where
  "rssi_bytes m = (let rssi = from_le32 (drop 8 m) in
     [ucast (rssi OR 0xffff0000), ucast (drop_bit 16 (rssi OR 0x0000ffff))])"

fun call_result :: "int \<Rightarrow> call \<Rightarrow> bool \<Rightarrow> u8 list \<Rightarrow> int \<times> u8 list" where
  "call_result cp2 (Send_recv _ _ subtype) got m =
     ((if subtype = WIFI_CMD_SET_SCAN then sint (from_le32 (drop 4 m)) else OK), [])"
| "call_result cp2 (Get_rssi _) got m =
     (if \<not> got \<or> \<not> matches WIFI_CMD_GET_RSSI m then (ERROR, []) else (OK, rssi_bytes m))"
| "call_result cp2 (Get_txrate _) got m =
     (if \<not> got \<or> \<not> matches WIFI_CMD_GET_TXRATE_TXFAILED m then ((if cp2 = 2 then OK else ERROR), [])
      else (OK, take 8 (drop 8 m)))"
| "call_result cp2 (Npi _ room) got m =
     (if \<not> got \<or> \<not> matches WIFI_CMD_NPI_MSG m then (ERROR, []) else (OK, take (hdr_len m) (drop 4 m)))"

text \<open>A call that did not get the lock, or whose command could not be sent.\<close>

fun call_refused :: "int \<Rightarrow> call \<Rightarrow> int" where
  "call_refused cp2 (Send_recv _ _ _) = (if cp2 = 2 then OK else ERROR)"
| "call_refused cp2 (Get_rssi _) = ERROR"
| "call_refused cp2 (Get_txrate _) = (if cp2 = 2 then OK else ERROR)"
| "call_refused cp2 (Npi _ _) = ERROR"

definition returns :: "nat \<Rightarrow> call \<Rightarrow> int \<times> u8 list \<Rightarrow> cmd_ctx \<Rightarrow> cmd_ctx" where
  "returns i k r c = c\<lparr>callers := (callers c)[i := Idle], returned := returned c @ [(i, k, r)]\<rparr>"

subsection \<open>Steps\<close>

definition caller_pc :: "cmd_ctx \<Rightarrow> nat \<Rightarrow> pc" where
  "caller_pc c i = (if i < length (callers c) then callers c ! i else Idle)"

definition move_to :: "nat \<Rightarrow> pc \<Rightarrow> cmd_ctx \<Rightarrow> cmd_ctx" where
  "move_to i p c = c\<lparr>callers := (callers c)[i := p]\<rparr>"

definition enter_step :: "nat \<Rightarrow> call \<Rightarrow> cmd_ctx \<Rightarrow> cmd_ctx" where
  "enter_step i k c = (case wlan_cmd_lock_enter c of
     None \<Rightarrow> returns i k (call_refused (cp2_status c) k, []) c
   | Some c \<Rightarrow> move_to i (Locking k) c)"

definition lock_step :: "nat \<Rightarrow> call \<Rightarrow> cmd_ctx \<Rightarrow> cmd_ctx" where
  "lock_step i k c = (let (ok, c) = wlan_cmd_lock_take i c in
     if ok then move_to i (Sending k) c else returns i k (call_refused (cp2_status c) k, []) c)"

text \<open>Only \<open>wlan_cmd_send_recv\<close> looks at the result of sending.\<close>

definition sent_step :: "nat \<Rightarrow> call \<Rightarrow> int \<Rightarrow> cmd_ctx \<Rightarrow> cmd_ctx" where
  "sent_step i k ret c =
    (if ret \<noteq> OK \<and> (case k of Send_recv _ _ _ \<Rightarrow> True | _ \<Rightarrow> False) then
       returns i k (call_refused (cp2_status c) k, []) (wlan_cmd_unlock c)
     else move_to i (Waiting k) c)"

text \<open>
  \<open>wlan_cmd_send_to_ic\<close> in two steps: up to the end of \<open>wlan_cmd_clean\<close>, which blocks on the lock of
  the buffer, and the queue from there on.
\<close>

definition clean_step :: "nat \<Rightarrow> call \<Rightarrow> cmd_ctx \<Rightarrow> cmd_ctx" where
  "clean_step i k c =
    (if mem c = None then sent_step i k ERROR c
     else if mem_lock c \<noteq> None then c
     else move_to i (Queueing k) ((wlan_cmd_clean c)\<lparr>heard := []\<rparr>))"

definition queue_step :: "nat \<Rightarrow> call \<Rightarrow> cmd_ctx \<Rightarrow> cmd_ctx" where
  "queue_step i k c = (let (vif_id, data, subtype) = call_msg k;
      (ret, v) = wlan_cmd_send_to_ic True vif_id data subtype (cmd_if c) in
    sent_step i k ret (c\<lparr>cmd_if := v\<rparr>))"

definition finish :: "nat \<Rightarrow> call \<Rightarrow> bool \<Rightarrow> u8 list \<Rightarrow> cmd_ctx \<Rightarrow> cmd_ctx" where
  "finish i k got m c = returns i k (call_result (cp2_status c) k got m) (wlan_cmd_unlock c)"

text \<open>The wait ends: with the condition, or at the deadline, when it may just have become true.\<close>

definition wake_step :: "nat \<Rightarrow> call \<Rightarrow> cmd_ctx \<Rightarrow> cmd_ctx" where
  "wake_step i k c =
    (case k of
       Npi _ _ \<Rightarrow> move_to i (Copying k) (c\<lparr>wakeup := False\<rparr>)
     | _ \<Rightarrow> if sync_exit c then finish i k False (replicate (4 + answer_room k) 0) c
           else move_to i (Copying k) (c\<lparr>mem_lock := Some i, wakeup := False\<rparr>))"

definition timeout_step :: "nat \<Rightarrow> call \<Rightarrow> cmd_ctx \<Rightarrow> cmd_ctx" where
  "timeout_step i k c = finish i k False (replicate (4 + answer_room k) 0) (c\<lparr>wakeup := False\<rparr>)"

definition copy_step :: "nat \<Rightarrow> call \<Rightarrow> cmd_ctx \<Rightarrow> cmd_ctx option" where
  "copy_step i k c =
    (case k of
       Npi _ room \<Rightarrow>
         (case mem c of
            None \<Rightarrow> Some (finish i k False [] c)
          | Some m \<Rightarrow>
              if matches WIFI_CMD_NPI_MSG m then do {
                body \<leftarrow> get_bytes 4 (hdr_len m) m;
                buf \<leftarrow> put_bytes 0 body (replicate room 0);
                Some (finish i k True m c) }
              else Some (finish i k True m c))
     | _ \<Rightarrow> do {
         m \<leftarrow> mem c;
         (a, m) \<leftarrow> take_answer (answer_room k) m;
         Some (finish i k True a (c\<lparr>mem := Some m, mem_lock := None\<rparr>)) })"

text \<open>The receiver: \<open>msg\<close> is an answer with its header, and perhaps more behind it.\<close>

definition wlan_rx_rsp_process :: "u8 list \<Rightarrow> cmd_ctx \<Rightarrow> cmd_ctx option" where
  "wlan_rx_rsp_process msg c =
    (if mem_lock c \<noteq> None then Some c
     else if hdr_len msg + 4 > WLAN_CMD_MEM_LEN then Some c
     else do {
       m \<leftarrow> mem c;
       bytes \<leftarrow> get_bytes 0 (hdr_len msg + 4) msg;
       m \<leftarrow> put_bytes 0 bytes m;
       Some (c\<lparr>mem := Some m, wakeup := True, heard := heard c @ [bytes]\<rparr>) })"

datatype cmd_evt =
    Call nat call | Lock nat | Send_it nat | Queue_it nat | Rx "u8 list" | Wake nat | Timeout nat | Copy nat
  | Exit | Deinit | Cp2_reset

text \<open>A step that cannot be taken leaves the state; \<open>None\<close> is an access outside a buffer.\<close>

definition cmd_evt_step :: "cmd_ctx \<Rightarrow> cmd_evt \<Rightarrow> cmd_ctx option" where
  "cmd_evt_step c e = (case e of
     Call i k \<Rightarrow> Some (if i < length (callers c) \<and> caller_pc c i = Idle then enter_step i k c else c)
   | Lock i \<Rightarrow> Some (case caller_pc c i of Locking k \<Rightarrow> if cmd_lock c = None then lock_step i k c else c | _ \<Rightarrow> c)
   | Send_it i \<Rightarrow> Some (case caller_pc c i of Sending k \<Rightarrow> clean_step i k c | _ \<Rightarrow> c)
   | Queue_it i \<Rightarrow> Some (case caller_pc c i of Queueing k \<Rightarrow> queue_step i k c | _ \<Rightarrow> c)
   | Rx msg \<Rightarrow> wlan_rx_rsp_process msg c
   | Wake i \<Rightarrow> Some (case caller_pc c i of
         Waiting k \<Rightarrow> if (wakeup c \<or> sync_exit c) \<and> mem_lock c = None then wake_step i k c else c | _ \<Rightarrow> c)
   | Timeout i \<Rightarrow> Some (case caller_pc c i of Waiting k \<Rightarrow> timeout_step i k c | _ \<Rightarrow> c)
   | Copy i \<Rightarrow> (case caller_pc c i of Copying k \<Rightarrow> copy_step i k c | _ \<Rightarrow> Some c)
   | Exit \<Rightarrow> Some (c\<lparr>sync_exit := True, wakeup := wakeup c \<or> cp2_status c \<noteq> 1\<rparr>)
   | Deinit \<Rightarrow> Some (if sync_exit c then snd (wlan_cmd_deinit [] c) else c)
   | Cp2_reset \<Rightarrow> Some (c\<lparr>cp2_status := 2, sync_exit := True, wakeup := True\<rparr>))"

definition cmd_step :: "cmd_ctx option \<Rightarrow> cmd_evt \<Rightarrow> cmd_ctx option" where
  "cmd_step co e = (case co of None \<Rightarrow> None | Some c \<Rightarrow> cmd_evt_step c e)"

subsection \<open>One caller at a time\<close>

fun inside :: "pc \<Rightarrow> bool" where
  "inside Idle = False" | "inside (Locking k) = False" | "inside (Sending k) = True" | "inside (Queueing k) = True"
| "inside (Waiting k) = True" | "inside (Copying k) = True"

fun is_npi :: "call \<Rightarrow> bool" where
  "is_npi (Npi _ _) = True" | "is_npi _ = False"

fun holds_mem :: "pc \<Rightarrow> bool" where
  "holds_mem (Copying k) = (\<not> is_npi k)" | "holds_mem Idle = False" | "holds_mem (Locking k) = False"
| "holds_mem (Sending k) = False" | "holds_mem (Queueing k) = False" | "holds_mem (Waiting k) = False"

fun waits :: "pc \<Rightarrow> bool" where
  "waits (Waiting k) = True" | "waits Idle = False" | "waits (Locking k) = False" | "waits (Sending k) = False" | "waits (Queueing k) = True" | "waits (Copying k) = False"

lemma waits_inside: "waits p \<Longrightarrow> inside p"
  by (cases p) simp_all

lemma holds_inside: "holds_mem p \<Longrightarrow> inside p"
  by (cases p) simp_all

definition under_way :: "pc list \<Rightarrow> int" where
  "under_way ps = int (length (filter (\<lambda>p. p \<noteq> Idle) ps))"

lemma under_way_update: "i < length ps \<Longrightarrow> under_way (ps[i := p]) = under_way ps - (if ps ! i \<noteq> Idle then 1 else 0) + (if p \<noteq> Idle then 1 else 0)"
proof (induction ps arbitrary: i)
  case (Cons q ps)
  have [simp]: "under_way (r # rs) = (if r \<noteq> Idle then 1 else 0) + under_way rs" for r rs by (simp add: under_way_def)
  show ?case using Cons by (cases i) auto
qed simp

lemma under_way_pos: "i < length ps \<Longrightarrow> ps ! i \<noteq> Idle \<Longrightarrow> 1 \<le> under_way ps"
  using under_way_update [of i ps Idle] by (simp add: under_way_def)

text \<open>The last message put into the buffer is there and came after the buffer had been cleared.\<close>

definition fresh :: "cmd_ctx \<Rightarrow> bool" where
  "fresh c \<longleftrightarrow> (\<exists>m b. mem c = Some m \<and> heard c \<noteq> [] \<and> last (heard c) = b \<and> length b = hdr_len b + 4 \<and> take (length b) m = b)"

definition locks_ok :: "cmd_ctx \<Rightarrow> bool" where
  "locks_ok c \<longleftrightarrow> (\<forall>i. inside (caller_pc c i) \<longrightarrow> cmd_lock c = Some i) \<and>
     (\<forall>i. mem_lock c = Some i \<longleftrightarrow> holds_mem (caller_pc c i)) \<and>
     (\<not> sync_exit c \<longrightarrow> (\<forall>i. cmd_lock c = Some i \<longrightarrow> inside (caller_pc c i)))"

lemma locks_okI:
  assumes "\<And>i. inside (caller_pc c i) \<Longrightarrow> cmd_lock c = Some i" and "\<And>i. mem_lock c = Some i \<longleftrightarrow> holds_mem (caller_pc c i)"
    and "\<And>i. \<not> sync_exit c \<Longrightarrow> cmd_lock c = Some i \<Longrightarrow> inside (caller_pc c i)"
  shows "locks_ok c"
  unfolding locks_ok_def using assms by blast

lemma locks_okD:
  assumes "locks_ok c"
  shows "inside (caller_pc c i) \<Longrightarrow> cmd_lock c = Some i" and "mem_lock c = Some i \<longleftrightarrow> holds_mem (caller_pc c i)"
    and "\<not> sync_exit c \<Longrightarrow> cmd_lock c = Some i \<Longrightarrow> inside (caller_pc c i)"
  using assms unfolding locks_ok_def by blast+

definition count_ok :: "cmd_ctx \<Rightarrow> bool" where
  "count_ok c \<longleftrightarrow> under_way (callers c) \<le> refcnt c \<and> (\<not> sync_exit c \<longrightarrow> refcnt c = under_way (callers c))"

text \<open>Only the module exit frees the buffer.\<close>

definition buffer_ok :: "cmd_ctx \<Rightarrow> bool" where
  "buffer_ok c \<longleftrightarrow> (mem c = None \<longrightarrow> sync_exit c) \<and> (\<forall>m. mem c = Some m \<longrightarrow> length m = WLAN_CMD_MEM_LEN)"

definition answer_ok :: "cmd_ctx \<Rightarrow> bool" where
  "answer_ok c \<longleftrightarrow> buffer_ok c \<and>
     (\<forall>i. waits (caller_pc c i) \<longrightarrow> wakeup c \<longrightarrow> \<not> sync_exit c \<longrightarrow> fresh c) \<and>
     (\<forall>i. holds_mem (caller_pc c i) \<longrightarrow> mem c \<noteq> None \<longrightarrow> fresh c)"

definition cmd_ok :: "cmd_ctx \<Rightarrow> bool" where
  "cmd_ok c \<longleftrightarrow> locks_ok c \<and> count_ok c \<and> answer_ok c"

lemmas cmd_step_defs = move_to_def returns_def finish_def wlan_cmd_unlock_def wlan_cmd_lock_enter_def wlan_cmd_lock_take_def

lemma caller_pc_moved: "i < length (callers c) \<Longrightarrow> caller_pc (c\<lparr>callers := (callers c)[i := p]\<rparr>) j = (if j = i then p else caller_pc c j)"
  by (auto simp: caller_pc_def)

lemma caller_pc_busy: "caller_pc c i \<noteq> Idle \<Longrightarrow> i < length (callers c)"
  by (auto simp: caller_pc_def split: if_splits)

text \<open>A caller moves on: what it may change, and what then still holds.\<close>

lemma alone: "locks_ok c \<Longrightarrow> inside (caller_pc c i) \<Longrightarrow> inside (caller_pc c j) \<Longrightarrow> j = i"
  unfolding locks_ok_def by (metis option.inject)

lemma pc_simps [simp]:
  "caller_pc (c\<lparr>mem := a\<rparr>) i = caller_pc c i" "caller_pc (c\<lparr>wakeup := b\<rparr>) i = caller_pc c i"
  "caller_pc (c\<lparr>cmd_lock := d\<rparr>) i = caller_pc c i" "caller_pc (c\<lparr>mem_lock := d\<rparr>) i = caller_pc c i"
  "caller_pc (c\<lparr>refcnt := n\<rparr>) i = caller_pc c i" "caller_pc (c\<lparr>sync_exit := b\<rparr>) i = caller_pc c i"
  "caller_pc (c\<lparr>cp2_status := n\<rparr>) i = caller_pc c i" "caller_pc (c\<lparr>cmd_if := v\<rparr>) i = caller_pc c i"
  "caller_pc (c\<lparr>returned := r\<rparr>) i = caller_pc c i" "caller_pc (c\<lparr>heard := h\<rparr>) i = caller_pc c i"
  by (simp_all add: caller_pc_def)

text \<open>
  The moves of a caller: to the lock or away from it without having had it, with the lock, on
  while holding it, and back while giving it up.
\<close>

lemma pc_moved:
  assumes "i < length (callers c)" and "callers c' = (callers c)[i := p]"
  shows "caller_pc c' j = (if j = i then p else caller_pc c j)"
  using assms by (auto simp: caller_pc_def)

lemma locks_outside:
  assumes "locks_ok c" and "i < length (callers c)" and "\<not> inside (caller_pc c i)" and "\<not> inside p"
    and "callers c' = (callers c)[i := p]" and "cmd_lock c' = cmd_lock c \<or> cmd_lock c = None \<and> sync_exit c'"
    and "mem_lock c' = mem_lock c" and "sync_exit c' = sync_exit c"
  shows "locks_ok c'"
proof (rule locks_okI)
  note pc = pc_moved [OF assms(2,5)] and D = locks_okD [OF assms(1)]
  have m: "\<not> holds_mem p" "\<not> holds_mem (caller_pc c i)" using assms(3,4) holds_inside by blast+
  fix j
  show "cmd_lock c' = Some j" if "inside (caller_pc c' j)"
    using that D(1) [of j] assms(4,6) by (auto simp: pc split: if_splits)
  show "mem_lock c' = Some j \<longleftrightarrow> holds_mem (caller_pc c' j)"
    using D(2) [of j] m assms(7) by (simp add: pc)
  show "inside (caller_pc c' j)" if "\<not> sync_exit c'" "cmd_lock c' = Some j"
    using that D(3) [of j] assms(3,6,8) by (auto simp: pc)
qed

lemma locks_inside:
  assumes "locks_ok c" and "i < length (callers c)" and "inside (caller_pc c i)" and "inside p"
    and "callers c' = (callers c)[i := p]" and "cmd_lock c' = cmd_lock c" and "sync_exit c' = sync_exit c"
    and "mem_lock c' = (if holds_mem p then Some i else None)"
  shows "locks_ok c'"
proof (rule locks_okI)
  note pc = pc_moved [OF assms(2,5)] and D = locks_okD [OF assms(1)]
  have other: "\<not> inside (caller_pc c j)" if "j \<noteq> i" for j using alone [OF assms(1,3)] that by blast
  fix j
  show "cmd_lock c' = Some j" if "inside (caller_pc c' j)"
    using that D(1) [of j] D(1) [OF assms(3)] assms(6) by (auto simp: pc split: if_splits)
  show "mem_lock c' = Some j \<longleftrightarrow> holds_mem (caller_pc c' j)"
    using other [of j] holds_inside [of "caller_pc c j"] assms(8) by (auto simp: pc)
  show "inside (caller_pc c' j)" if "\<not> sync_exit c'" "cmd_lock c' = Some j"
    using that D(3) [of j] assms(4,6,7) by (auto simp: pc)
qed

lemma locks_taken:
  assumes "locks_ok c" and "i < length (callers c)" and "cmd_lock c = None"
    and "callers c' = (callers c)[i := Sending k]" and "cmd_lock c' = Some i" and "mem_lock c' = mem_lock c"
  shows "locks_ok c'"
proof (rule locks_okI)
  note pc = pc_moved [OF assms(2,4)] and D = locks_okD [OF assms(1)]
  have other: "\<not> inside (caller_pc c j)" for j using D(1) [of j] assms(3) by auto
  fix j
  show "cmd_lock c' = Some j" if "inside (caller_pc c' j)"
    using that other [of j] assms(5) by (auto simp: pc split: if_splits)
  show "mem_lock c' = Some j \<longleftrightarrow> holds_mem (caller_pc c' j)"
    using D(2) [of j] other [of j] holds_inside [of "caller_pc c j"] assms(6) by (auto simp: pc)
  show "inside (caller_pc c' j)" if "\<not> sync_exit c'" "cmd_lock c' = Some j"
    using that assms(5) by (auto simp: pc)
qed

lemma locks_back:
  assumes "locks_ok c" and "i < length (callers c)" and "inside (caller_pc c i)"
    and "callers c' = (callers c)[i := Idle]" and "cmd_lock c' = None" and "mem_lock c' = None"
  shows "locks_ok c'"
proof (rule locks_okI)
  note pc = pc_moved [OF assms(2,4)]
  have other: "\<not> inside (caller_pc c j)" if "j \<noteq> i" for j using alone [OF assms(1,3)] that by blast
  fix j
  show "cmd_lock c' = Some j" if "inside (caller_pc c' j)" using that other [of j] by (auto simp: pc split: if_splits)
  show "mem_lock c' = Some j \<longleftrightarrow> holds_mem (caller_pc c' j)"
    using other [of j] holds_inside [of "caller_pc c j"] assms(6) by (auto simp: pc)
  show "inside (caller_pc c' j)" if "cmd_lock c' = Some j" using that assms(5) by simp
qed

lemma mem_unlocked:
  assumes "locks_ok c" and "inside (caller_pc c i)" and "\<not> holds_mem (caller_pc c i)"
  shows "mem_lock c = None"
proof (rule ccontr)
  assume "mem_lock c \<noteq> None"
  then obtain j where j: "holds_mem (caller_pc c j)" using locks_okD(2) [OF assms(1)] by auto
  then have "j = i" using alone [OF assms(1,2), of j] holds_inside by blast
  then show False using j assms(3) by simp
qed

lemma count_move:
  assumes "count_ok c" and "i < length (callers c)" and "callers c' = (callers c)[i := p]"
    and "refcnt c + (if p \<noteq> Idle then 1 else 0) \<le> refcnt c' + (if callers c ! i \<noteq> Idle then 1 else 0)"
    and "\<not> sync_exit c' \<longrightarrow> refcnt c + (if p \<noteq> Idle then 1 else 0) = refcnt c' + (if callers c ! i \<noteq> Idle then 1 else 0)"
    and "sync_exit c' = sync_exit c"
  shows "count_ok c'"
  using assms under_way_update [OF assms(2), of p] by (auto simp: count_ok_def split: if_splits)

lemma answer_move:
  assumes "answer_ok c" and "i < length (callers c)" and "callers c' = (callers c)[i := p]"
    and "buffer_ok c'"
    and "waits p \<Longrightarrow> wakeup c' \<Longrightarrow> \<not> sync_exit c' \<Longrightarrow> fresh c'" and "holds_mem p \<Longrightarrow> mem c' \<noteq> None \<Longrightarrow> fresh c'"
    and "\<And>j. j \<noteq> i \<Longrightarrow> inside (caller_pc c j) \<Longrightarrow> mem c' = mem c \<and> heard c' = heard c \<and> wakeup c' = wakeup c \<and> sync_exit c' = sync_exit c"
  shows "answer_ok c'"
proof -
  note pc = pc_moved [OF assms(2,3)]
  have same: "fresh c' = fresh c" "wakeup c' = wakeup c" "sync_exit c' = sync_exit c" "mem c' = mem c" if "j \<noteq> i" "inside (caller_pc c j)" for j
    using assms(7) [OF that] by (simp_all add: fresh_def)
  have w: "fresh c'" if "waits (caller_pc c' j)" "wakeup c'" "\<not> sync_exit c'" for j
  proof (cases "j = i")
    case False
    then have "waits (caller_pc c j)" using that(1) by (simp add: pc)
    then show ?thesis using assms(1) same [OF False waits_inside] that(2,3) by (auto simp: answer_ok_def)
  qed (use that assms(5) in \<open>simp add: pc\<close>)
  have h: "fresh c'" if "holds_mem (caller_pc c' j)" "mem c' \<noteq> None" for j
  proof (cases "j = i")
    case False
    then have "holds_mem (caller_pc c j)" using that by (simp add: pc)
    then show ?thesis using assms(1) same(1,4) [OF False holds_inside] that(2) by (auto simp: answer_ok_def)
  qed (use that assms(6) in \<open>simp add: pc\<close>)
  show ?thesis using assms(4) w h by (auto simp: answer_ok_def)
qed

text \<open>Every step keeps the invariant.\<close>

lemma mem_ok: "answer_ok c \<Longrightarrow> buffer_ok c"
  by (simp add: answer_ok_def)

lemma buffer_same: "buffer_ok c \<Longrightarrow> mem c' = mem c \<Longrightarrow> sync_exit c' = sync_exit c \<Longrightarrow> buffer_ok c'"
  by (simp add: buffer_ok_def)

lemma buffer_there: "buffer_ok c \<Longrightarrow> \<not> sync_exit c \<Longrightarrow> \<exists>m. mem c = Some m \<and> length m = WLAN_CMD_MEM_LEN"
  by (auto simp: buffer_ok_def)

lemma outside_ok:
  assumes "cmd_ok c" and "i < length (callers c)" and "\<not> inside (caller_pc c i)" and "\<not> inside p"
    and "callers c' = (callers c)[i := p]" and "cmd_lock c' = cmd_lock c \<or> cmd_lock c = None \<and> sync_exit c'"
    and "mem_lock c' = mem_lock c" and "sync_exit c' = sync_exit c" and "mem c' = mem c" and "heard c' = heard c" and "wakeup c' = wakeup c"
    and "refcnt c' = refcnt c + (if p \<noteq> Idle \<and> callers c ! i = Idle then 1 else 0)" and "p = Idle \<and> callers c ! i \<noteq> Idle \<longrightarrow> sync_exit c"
  shows "cmd_ok c'"
  unfolding cmd_ok_def
proof (intro conjI)
  have o: "locks_ok c" "count_ok c" "answer_ok c" using assms(1) by (simp_all add: cmd_ok_def)
  show "locks_ok c'" by (rule locks_outside [OF o(1) assms(2-8)])
  show "count_ok c'" by (rule count_move [OF o(2) assms(2,5)]) (use assms(8,12,13) in auto)
  show "answer_ok c'"
    by (rule answer_move [OF o(3) assms(2,5) buffer_same [OF mem_ok [OF o(3)] assms(9,8)]])
      (use assms(4,8-11) waits_inside [of p] holds_inside [of p] in auto)
qed

lemma enter_ok:
  assumes "cmd_ok c" and "caller_pc c i = Idle" and "i < length (callers c)"
  shows "cmd_ok (enter_step i k c)"
proof -
  have i: "callers c ! i = Idle" using assms(2,3) by (simp add: caller_pc_def)
  have "cmd_ok (returns i k r c)" for r
    by (rule outside_ok [OF assms(1,3), of Idle]) (simp_all add: assms(2) returns_def i)
  moreover have "cmd_ok (move_to i (Locking k) (c\<lparr>refcnt := refcnt c + 1\<rparr>))"
    by (rule outside_ok [OF assms(1,3), of "Locking k"]) (simp_all add: assms(2) move_to_def i)
  ultimately show ?thesis by (simp add: enter_step_def wlan_cmd_lock_enter_def)
qed

lemma lock_ok:
  assumes "cmd_ok c" and "caller_pc c i = Locking k" and "cmd_lock c = None"
  shows "cmd_ok (lock_step i k c)"
proof -
  have l: "i < length (callers c)" using assms(2) caller_pc_busy by fastforce
  have i: "callers c ! i = Locking k" using assms(2) l by (simp add: caller_pc_def)
  have o: "locks_ok c" "count_ok c" "answer_ok c" using assms(1) by (simp_all add: cmd_ok_def)
  show ?thesis
  proof (cases "sync_exit c")
    case True
    let ?d = "returns i k (call_refused (cp2_status c) k, []) (c\<lparr>cmd_lock := Some i\<rparr>)"
    have "cmd_ok ?d"
      by (rule outside_ok [OF assms(1) l, of Idle]) (simp_all add: assms(2,3) i True returns_def)
    then show ?thesis using True by (simp add: lock_step_def wlan_cmd_lock_take_def Let_def)
  next
    case False
    let ?d = "move_to i (Sending k) (c\<lparr>cmd_lock := Some i\<rparr>)"
    have d: "callers ?d = (callers c)[i := Sending k]" by (simp add: move_to_def)
    have "cmd_ok ?d"
      unfolding cmd_ok_def
    proof (intro conjI)
      show "locks_ok ?d" by (rule locks_taken [OF o(1) l assms(3) d]) (simp_all add: move_to_def)
      show "count_ok ?d" by (rule count_move [OF o(2) l d]) (simp_all add: move_to_def i)
      show "answer_ok ?d" by (rule answer_move [OF o(3) l d]) (use mem_ok [OF o(3)] in \<open>simp_all add: move_to_def buffer_ok_def\<close>)
    qed
    then show ?thesis using False by (simp add: lock_step_def wlan_cmd_lock_take_def Let_def)
  qed
qed

lemma finish_ok:
  assumes "cmd_ok c" and "inside (caller_pc c i)"
    and "callers c' = callers c" and "refcnt c' = refcnt c" and "sync_exit c' = sync_exit c" and "mem_lock c' = None"
    and "buffer_ok c'"
  shows "cmd_ok (returns i k r (wlan_cmd_unlock c'))"
proof -
  have l: "i < length (callers c)" and i: "callers c ! i \<noteq> Idle" using assms(2) by (auto simp: caller_pc_def split: if_splits)
  have o: "locks_ok c" "count_ok c" "answer_ok c" using assms(1) by (simp_all add: cmd_ok_def)
  let ?d = "returns i k r (wlan_cmd_unlock c')"
  have d: "callers ?d = (callers c)[i := Idle]" "cmd_lock ?d = None" "mem_lock ?d = None" "refcnt ?d = refcnt c - 1" "sync_exit ?d = sync_exit c" "mem ?d = mem c'"
    using assms(3-6) by (simp_all add: returns_def wlan_cmd_unlock_def)
  have "buffer_ok ?d" by (rule buffer_same [OF assms(7)]) (simp_all add: d assms(5))
  then have "answer_ok ?d"
    using answer_move [OF o(3) l d(1)] alone [OF o(1) assms(2)] by auto
  moreover have "count_ok ?d" using count_move [OF o(2) l d(1)] d(4,5) i by simp
  ultimately show ?thesis using locks_back [OF o(1) l assms(2) d(1-3)] by (simp add: cmd_ok_def)
qed

text \<open>A caller with the lock goes on to wait, or gives up; it may have put its command into the queue.\<close>

lemma onward_ok:
  assumes "cmd_ok c" and "i < length (callers c)" and "inside (caller_pc c i)" and "\<not> holds_mem (caller_pc c i)" and "waits p"
    and "callers c' = (callers c)[i := p]" and "refcnt c' = refcnt c" and "sync_exit c' = sync_exit c" and "mem_lock c' = mem_lock c"
    and "mem c' = mem c" and "cmd_lock c' = cmd_lock c" and "wakeup c' \<Longrightarrow> \<not> sync_exit c' \<Longrightarrow> fresh c'"
  shows "cmd_ok c'"
  unfolding cmd_ok_def
proof (intro conjI)
  have o: "locks_ok c" "count_ok c" "answer_ok c" using assms(1) by (simp_all add: cmd_ok_def)
  have i: "callers c ! i \<noteq> Idle" using assms(2,3) by (auto simp: caller_pc_def)
  have p: "inside p" "\<not> holds_mem p" "p \<noteq> Idle" using assms(5) waits_inside by (cases p; simp)+
  have m: "mem_lock c = None" by (rule mem_unlocked [OF o(1) assms(3,4)])
  show "locks_ok c'" by (rule locks_inside [OF o(1) assms(2,3) p(1) assms(6,11,8)]) (simp add: p m assms(9))
  show "count_ok c'" by (rule count_move [OF o(2) assms(2,6)]) (simp_all add: p i assms(7,8))
  show "answer_ok c'"
    by (rule answer_move [OF o(3) assms(2,6) buffer_same [OF mem_ok [OF o(3)] assms(10,8)] assms(12)])
      (use p alone [OF o(1) assms(3)] in auto)
qed

lemma sent_ok:
  assumes "cmd_ok c" and "inside (caller_pc c i)" and "\<not> holds_mem (caller_pc c i)"
    and "callers c' = callers c" and "refcnt c' = refcnt c" and "sync_exit c' = sync_exit c" and "mem_lock c' = mem_lock c"
    and "mem c' = mem c" and "cmd_lock c' = cmd_lock c" and "wakeup c' = wakeup c" and "heard c' = heard c"
    and "wakeup c \<Longrightarrow> \<not> sync_exit c \<Longrightarrow> fresh c"
  shows "cmd_ok (sent_step i k ret c')"
proof -
  have o: "locks_ok c" "answer_ok c" using assms(1) by (simp_all add: cmd_ok_def)
  have l: "i < length (callers c)" using assms(2) by (auto simp: caller_pc_def split: if_splits)
  have m: "mem_lock c = None" by (rule mem_unlocked [OF o(1) assms(2,3)])
  have "cmd_ok (move_to i (Waiting k) c')"
    by (rule onward_ok [OF assms(1) l assms(2,3), of "Waiting k"]) (use assms(4-12) in \<open>simp_all add: move_to_def fresh_def\<close>)
  moreover have "cmd_ok (returns i k r (wlan_cmd_unlock c'))" for r
    by (rule finish_ok [OF assms(1,2,4-6) _ buffer_same [OF mem_ok [OF o(2)] assms(8,6)]]) (simp add: m assms(7))
  ultimately show ?thesis by (simp add: sent_step_def)
qed

lemma clean_ok:
  assumes "cmd_ok c" and "caller_pc c i = Sending k"
  shows "cmd_ok (clean_step i k c)"
proof -
  have l: "i < length (callers c)" using assms(2) caller_pc_busy by fastforce
  have o: "locks_ok c" "answer_ok c" using assms(1) by (simp_all add: cmd_ok_def)
  have "sync_exit c" if "mem c = None" using mem_ok [OF o(2)] that by (simp add: buffer_ok_def)
  then have "cmd_ok (sent_step i k ERROR c)" if "mem c = None"
    by (intro sent_ok [OF assms(1)]) (use assms(2) that in simp_all)
  moreover have "cmd_ok (move_to i (Queueing k) ((wlan_cmd_clean c)\<lparr>heard := []\<rparr>))"
    by (rule onward_ok [OF assms(1) l, of "Queueing k"]) (simp_all add: assms(2) move_to_def wlan_cmd_clean_def)
  ultimately show ?thesis using assms(1) by (simp add: clean_step_def)
qed

lemma queue_ok_step:
  assumes "cmd_ok c" and "caller_pc c i = Queueing k"
  shows "cmd_ok (queue_step i k c)"
proof -
  have "answer_ok c" using assms(1) by (simp add: cmd_ok_def)
  then have f: "wakeup c \<Longrightarrow> \<not> sync_exit c \<Longrightarrow> fresh c" using assms(2) by (auto simp: answer_ok_def dest!: spec [of _ i])
  have "cmd_ok (sent_step i k ret (c\<lparr>cmd_if := v\<rparr>))" for ret v
    by (rule sent_ok [OF assms(1)]) (use assms(2) f in simp_all)
  then show ?thesis by (simp add: queue_step_def split: prod.splits)
qed

lemma wake_ok:
  assumes "cmd_ok c" and "caller_pc c i = Waiting k" and "wakeup c \<or> sync_exit c"
  shows "cmd_ok (wake_step i k c)"
proof -
  have l: "i < length (callers c)" using assms(2) caller_pc_busy by fastforce
  have i: "callers c ! i = Waiting k" using assms(2) l by (simp add: caller_pc_def)
  have o: "locks_ok c" "count_ok c" "answer_ok c" using assms(1) by (simp_all add: cmd_ok_def)
  have m: "mem_lock c = None" using mem_unlocked [OF o(1), of i] assms(2) by simp
  have copy: "cmd_ok (move_to i (Copying k) c1)"
    if c1: "callers c1 = callers c" "mem_lock c1 = (if is_npi k then None else Some i)" "cmd_lock c1 = cmd_lock c" "sync_exit c1 = sync_exit c"
      "refcnt c1 = refcnt c" "mem c1 = mem c" "heard c1 = heard c" "\<not> is_npi k \<longrightarrow> \<not> sync_exit c" for c1
    unfolding cmd_ok_def
  proof (intro conjI)
    let ?d = "move_to i (Copying k) c1"
    have d: "callers ?d = (callers c)[i := Copying k]" by (simp add: move_to_def c1)
    show "locks_ok ?d" by (rule locks_inside [OF o(1) l _ _ d]) (simp_all add: assms(2) move_to_def c1)
    show "count_ok ?d" by (rule count_move [OF o(2) l d]) (simp_all add: move_to_def c1 i)
    have "fresh c" if "\<not> is_npi k" using o(3) assms(2,3) c1(8) that by (auto simp: answer_ok_def dest!: spec [of _ i])
    then show "answer_ok ?d"
      by (intro answer_move [OF o(3) l d]) (use mem_ok [OF o(3)] alone [OF o(1), of i] assms(2) in \<open>auto simp: move_to_def c1 fresh_def buffer_ok_def\<close>)
  qed
  have fin: "cmd_ok (finish i k False a c)" for a
    unfolding finish_def by (rule finish_ok [OF assms(1), of i]) (use assms(2) m mem_ok [OF o(3)] in simp_all)
  have "wake_step i k c = (if is_npi k then move_to i (Copying k) (c\<lparr>wakeup := False\<rparr>)
      else if sync_exit c then finish i k False (replicate (4 + answer_room k) 0) c
      else move_to i (Copying k) (c\<lparr>mem_lock := Some i, wakeup := False\<rparr>))"
    by (cases k) (simp_all add: wake_step_def)
  then show ?thesis using m by (simp add: fin copy)
qed

lemma timeout_ok:
  assumes "cmd_ok c" and "caller_pc c i = Waiting k"
  shows "cmd_ok (timeout_step i k c)"
proof -
  have o: "locks_ok c" "answer_ok c" using assms(1) by (simp_all add: cmd_ok_def)
  have m: "mem_lock c = None" using mem_unlocked [OF o(1), of i] assms(2) by simp
  show ?thesis
    unfolding timeout_step_def finish_def
    by (rule finish_ok [OF assms(1), of i]) (use assms(2) m mem_ok [OF o(2)] in \<open>simp_all add: buffer_ok_def\<close>)
qed

lemma cut_header_length: "length (cut_header room m) = (if length m < 4 \<and> room < hdr_len m then min 2 (length m) + 2 else length m)"
  by (auto simp: cut_header_def le16_def)

lemma copy_ok:
  assumes "cmd_ok c" and "caller_pc c i = Copying k" and "copy_step i k c = Some c'"
  shows "cmd_ok c'"
proof -
  have o: "locks_ok c" "answer_ok c" using assms(1) by (simp_all add: cmd_ok_def)
  have len: "length m = WLAN_CMD_MEM_LEN" if "mem c = Some m" for m using mem_ok [OF o(2)] that by (simp add: buffer_ok_def)
  have npi: "mem_lock c = None" if "is_npi k" using mem_unlocked [OF o(1), of i] assms(2) that by simp
  show ?thesis
  proof (cases "is_npi k")
    case True
    then obtain got m where "c' = finish i k got m c"
      using assms(3) by (cases k) (auto simp: copy_step_def split: bind_splits if_splits option.splits)
    then show ?thesis
      using finish_ok [OF assms(1), of i c] assms(2) npi [OF True] mem_ok [OF o(2)] by (simp add: finish_def)
  next
    case False
    then obtain m where m: "mem c = Some m" using assms(3) by (cases k) (auto simp: copy_step_def split: bind_splits)
    then obtain a where a: "take_answer (answer_room k) m = Some (a, cut_header (answer_room k) m)"
        "c' = finish i k True a (c\<lparr>mem := Some (cut_header (answer_room k) m), mem_lock := None\<rparr>)"
      using assms(3) False m by (cases k) (auto simp: copy_step_def take_answer_def Let_def split: bind_splits)
    show ?thesis
      unfolding a(2) finish_def
      by (rule finish_ok [OF assms(1), of i]) (use assms(2) len [OF m] in \<open>simp_all add: cut_header_length buffer_ok_def\<close>)
  qed
qed

lemma from_le16_take: "from_le16 (take 2 xs) = from_le16 xs"
  by (cases xs; cases "tl xs") (auto simp: numeral_2_eq_2)

lemma rx_ok:
  assumes "cmd_ok c" and "wlan_rx_rsp_process msg c = Some c'"
  shows "cmd_ok c'"
proof -
  have o: "locks_ok c" "count_ok c" "answer_ok c" using assms(1) by (simp_all add: cmd_ok_def)
  show ?thesis
  proof (cases "mem_lock c \<noteq> None \<or> hdr_len msg + 4 > WLAN_CMD_MEM_LEN")
    case True
    then have "wlan_rx_rsp_process msg c = Some c"
      unfolding wlan_rx_rsp_process_def by (metis (full_types))
    then show ?thesis using assms by simp
  next
    case False
    then obtain m where m: "mem c = Some m" using assms(2) by (auto simp: wlan_rx_rsp_process_def split: bind_splits)
    then have len: "length m = WLAN_CMD_MEM_LEN" using mem_ok [OF o(3)] by (simp add: buffer_ok_def)
    from False m obtain b m' where b: "get_bytes 0 (hdr_len msg + 4) msg = Some b" "put_bytes 0 b m = Some m'"
        "c' = c\<lparr>mem := Some m', wakeup := True, heard := heard c @ [b]\<rparr>"
      using assms(2) by (auto simp: wlan_rx_rsp_process_def split: bind_splits)
    have lb: "length b = hdr_len msg + 4" "b = take (hdr_len msg + 4) msg" using b(1) by (auto simp: get_bytes_def split: if_splits)
    have "take 2 (drop 2 b) = take 2 (drop 2 msg)"
      unfolding lb(2) by (simp only: drop_take take_take) (simp add: min_def)
    then have "hdr_len b = hdr_len msg" unfolding hdr_len_def by (metis from_le16_take)
    moreover have "take (length b) m' = b" using b(2) by (auto simp: put_bytes_def split: if_splits)
    ultimately have fresh: "fresh c'" using lb(1) by (simp add: fresh_def b(3))
    have "locks_ok c' = locks_ok c" unfolding locks_ok_def b(3) by simp
    moreover have "count_ok c'" using o(2) by (simp add: count_ok_def b(3))
    moreover have "answer_ok c'"
      using fresh put_bytes_length [OF b(2)] len by (simp add: answer_ok_def buffer_ok_def b(3))
    ultimately show ?thesis using o(1) by (simp add: cmd_ok_def)
  qed
qed

lemma exit_ok:
  assumes "cmd_ok c"
  shows "cmd_ok (c\<lparr>sync_exit := True, wakeup := w\<rparr>)" and "cmd_ok (c\<lparr>cp2_status := 2, sync_exit := True, wakeup := True\<rparr>)"
    and "sync_exit c \<Longrightarrow> cmd_ok (snd (wlan_cmd_deinit refs c))"
  using assms by (auto simp: cmd_ok_def locks_ok_def count_ok_def answer_ok_def fresh_def buffer_ok_def wlan_cmd_deinit_def)

theorem cmd_evt_ok:
  assumes "cmd_ok c" and "cmd_evt_step c e = Some c'"
  shows "cmd_ok c'"
  using assms
  by (auto simp: cmd_evt_step_def enter_ok lock_ok clean_ok queue_ok_step wake_ok timeout_ok exit_ok
      split: cmd_evt.splits pc.splits if_splits dest: rx_ok copy_ok)

definition cmd_start :: "cmd_ctx option \<Rightarrow> bool" where
  "cmd_start co \<longleftrightarrow> (\<exists>c m n. co = Some (wlan_cmd_init (Some m) c) \<and> length m = WLAN_CMD_MEM_LEN \<and> callers c = replicate n Idle \<and> heard c = [])"

definition cmd_inv :: "cmd_ctx option \<Rightarrow> bool" where
  "cmd_inv co \<longleftrightarrow> (case co of None \<Rightarrow> True | Some c \<Rightarrow> cmd_ok c)"

interpretation cmd: transition_system cmd_start cmd_step cmd_inv
proof
  show "cmd_inv co" if start: "cmd_start co" for co
  proof -
    obtain c m n where c: "co = Some (wlan_cmd_init (Some m) c)" "length m = WLAN_CMD_MEM_LEN" "callers c = replicate n Idle"
      using start unfolding cmd_start_def by blast
    have "caller_pc (wlan_cmd_init (Some m) c) i = Idle" for i using c(3) by (simp add: caller_pc_def wlan_cmd_init_def)
    moreover have "under_way (replicate n Idle) = 0" by (simp add: under_way_def)
    ultimately show ?thesis
      using c by (simp add: cmd_inv_def cmd_ok_def locks_ok_def count_ok_def answer_ok_def) (simp add: wlan_cmd_init_def buffer_ok_def)
  qed
  show "cmd_inv (cmd_step co e)" if "cmd_inv co" for co e
    using that cmd_evt_ok by (auto simp: cmd_inv_def cmd_step_def split: option.splits)
qed

text \<open>
  C23. One command at a time: whatever callers, receiver and resets do, only one caller is between
  taking the lock and giving it back, the count of the driver is never less than the number of
  callers under way, and equal to it until the driver is shut down or the chip is reset.
\<close>

theorem one_command_at_a_time:
  assumes "cmd_start co" and "run_steps cmd_step co es = Some c"
  shows "(\<forall>i j. inside (caller_pc c i) \<longrightarrow> inside (caller_pc c j) \<longrightarrow> i = j) \<and>
    under_way (callers c) \<le> refcnt c \<and> (\<not> sync_exit c \<longrightarrow> refcnt c = under_way (callers c))"
proof -
  have "cmd_ok c" using cmd.inv_reachable [OF assms(1), of es] assms(2) by (simp add: cmd_inv_def)
  then have o: "locks_ok c" "count_ok c" by (simp_all add: cmd_ok_def)
  show ?thesis using alone [OF o(1)] o(2) by (auto simp: count_ok_def)
qed

lemma reached_ok: "cmd_start co \<Longrightarrow> run_steps cmd_step co es = Some c \<Longrightarrow> cmd_ok c"
  using cmd.inv_reachable [of co es] by (simp add: cmd_inv_def)

text \<open>What is taken of an answer depends on its own bytes only.\<close>

lemma hdr_len_prefix: "4 \<le> n \<Longrightarrow> hdr_len (take n m) = hdr_len m"
proof -
  assume n: "4 \<le> n"
  have "take 2 (drop 2 (take n m)) = take 2 (drop 2 m)"
    by (simp only: drop_take take_take) (use n in \<open>simp add: min_def\<close>)
  then show ?thesis unfolding hdr_len_def by (metis from_le16_take)
qed

lemma hdr_len_less: "hdr_len m < 65536"
proof -
  have "unat (w :: u16) < 2 ^ LENGTH(16)" for w by (rule unsigned_less)
  then show ?thesis by (simp add: hdr_len_def)
qed

lemma cut_header_len:
  assumes "4 \<le> length m" and "room < 65536"
  shows "hdr_len (cut_header room m) = min room (hdr_len m)"
  using assms by (simp add: cut_header_def hdr_len_def unat_of_nat)

lemma take_answer_prefix:
  assumes "length b = hdr_len b + 4" and "take (length b) m = b" and "room < 65536"
  shows "\<exists>a m' m''. take_answer room m = Some (a, m') \<and> take_answer room b = Some (a, m'')"
proof -
  have l: "length b \<le> length m" using assms(2) by (metis length_take min.cobounded1)
  have h: "hdr_len m = hdr_len b" using hdr_len_prefix [of "length b" m] assms(1,2) by simp
  let ?n = "min room (hdr_len b)"
  have m4: "4 \<le> length m" "4 \<le> length b" using l assms(1) by simp_all
  have hl: "hdr_len (cut_header room m) = ?n" "hdr_len (cut_header room b) = ?n"
    using cut_header_len [OF m4(1) assms(3)] cut_header_len [OF m4(2) assms(3)] h by simp_all
  have b: "b = take (hdr_len b + 4) m" using assms(1,2) by metis
  have same: "take (4 + ?n) (cut_header room m) = take (4 + ?n) (cut_header room b)"
  proof (cases "room < hdr_len b")
    case True
    have "take room (drop 4 b) = take room (drop 4 m)"
      by (subst b) (use True in \<open>simp add: drop_take min_def\<close>)
    moreover have "take 2 b = take 2 m" by (subst b) (simp add: min_def)
    ultimately show ?thesis using True h m4 by (simp add: cut_header_def le16_def)
  next
    case False
    then have "?n = hdr_len b" by simp
    moreover have "take (4 + hdr_len b) m = b" "take (4 + hdr_len b) b = b" using assms(1,2) by (simp_all add: add.commute)
    ultimately show ?thesis using False h by (simp add: cut_header_def)
  qed
  have len: "4 + ?n \<le> length (cut_header room m)" "4 + ?n \<le> length (cut_header room b)"
    using l assms(1) m4 by (auto simp: cut_header_def le16_def)
  then have g: "get_bytes 0 (4 + ?n) (cut_header room m) = Some (take (4 + ?n) (cut_header room b))"
      "get_bytes 0 (4 + ?n) (cut_header room b) = Some (take (4 + ?n) (cut_header room b))"
    using same by (simp_all add: get_bytes_def)
  have "4 + ?n \<le> length (replicate (4 + room) (0 :: u8))" by simp
  then obtain a where "put_bytes 0 (take (4 + ?n) (cut_header room b)) (replicate (4 + room) 0) = Some a"
    using len by (auto simp: put_bytes_def)
  then show ?thesis using g by (auto simp: take_answer_def Let_def hl)
qed

text \<open>
  C37. An answer that a command takes came after the buffer was cleared for it: a caller of one of
  the three commands with an answer of their own finds, under the lock of the buffer and unless
  the module exit has freed it, a message that was received whole after the caller had cleared
  the buffer of older answers, and returns what that message says.
\<close>

theorem answer_came_after_command:
  assumes "cmd_start co" and "run_steps cmd_step co es = Some c" and "caller_pc c i = Copying k" and "\<not> is_npi k" and "mem c \<noteq> None"
  shows "\<exists>b a m c'. b \<in> set (heard c) \<and> take_answer (answer_room k) b = Some (a, m) \<and>
    cmd_step (Some c) (Copy i) = Some c' \<and> caller_pc c' i = Idle \<and> cmd_lock c' = None \<and>
    returned c' = returned c @ [(i, k, call_result (cp2_status c) k True a)]"
proof -
  have o: "answer_ok c" using reached_ok [OF assms(1,2)] by (simp add: cmd_ok_def)
  have l: "i < length (callers c)" using assms(3) caller_pc_busy by fastforce
  have "fresh c" using o assms(3-5) by (auto simp: answer_ok_def dest!: spec [of _ i])
  then obtain m b where b: "mem c = Some m" "b \<in> set (heard c)" "length b = hdr_len b + 4" "take (length b) m = b"
    unfolding fresh_def by (metis last_in_set)
  have "answer_room k < 65536" using assms(4) by (cases k) simp_all
  then obtain a m' m'' where a: "take_answer (answer_room k) m = Some (a, m')" "take_answer (answer_room k) b = Some (a, m'')"
    using take_answer_prefix [OF b(3,4)] by blast
  have "cmd_step (Some c) (Copy i) = Some (finish i k True a (c\<lparr>mem := Some m', mem_lock := None\<rparr>))"
    using assms(3,4) a(1) b(1) by (cases k) (simp_all add: cmd_step_def cmd_evt_step_def copy_step_def)
  then show ?thesis using b(2) a(2) l by (auto simp: finish_def returns_def wlan_cmd_unlock_def caller_pc_def)
qed

lemma pc_after [simp]:
  "caller_pc (returns j k r c) i = (if i = j then Idle else caller_pc c i)"
  "j < length (callers c) \<Longrightarrow> caller_pc (move_to j p c) i = (if i = j then p else caller_pc c i)"
  "caller_pc (wlan_cmd_unlock c) i = caller_pc c i"
  by (auto simp: caller_pc_def returns_def move_to_def wlan_cmd_unlock_def)

lemma pc_other:
  assumes "cmd_evt_step c e = Some c'" and "caller_pc c i = Waiting k \<or> caller_pc c i = Copying k"
    and "e \<noteq> Wake i" and "e \<noteq> Timeout i" and "e \<noteq> Copy i"
  shows "caller_pc c' i = caller_pc c i"
proof (cases e)
  case (Send_it j)
  then show ?thesis using assms caller_pc_busy [of c j]
    by (auto simp: cmd_evt_step_def clean_step_def sent_step_def wlan_cmd_clean_def split: pc.splits if_splits)
next
  case (Queue_it j)
  then show ?thesis using assms caller_pc_busy [of c j]
    by (auto simp: cmd_evt_step_def queue_step_def sent_step_def split: pc.splits if_splits prod.splits)
next
  case Deinit
  then show ?thesis using assms by (auto simp: cmd_evt_step_def wlan_cmd_deinit_def)
next
  case (Rx msg)
  then show ?thesis using assms by (auto simp: cmd_evt_step_def wlan_rx_rsp_process_def split: if_splits bind_splits)
next
  case (Copy j)
  then show ?thesis using assms
    by (auto simp: cmd_evt_step_def copy_step_def finish_def split: pc.splits call.splits if_splits bind_splits option.splits)
qed (use assms caller_pc_busy [of c] in \<open>auto simp: cmd_evt_step_def enter_step_def lock_step_def wake_step_def timeout_step_def finish_def
    wlan_cmd_lock_enter_def wlan_cmd_lock_take_def Let_def split: pc.splits if_splits call.splits\<close>)

text \<open>
  C19. Success says nothing: once \<open>wlan_cmd_send_recv\<close> has sent its command, it returns success
  when no answer comes at all, and, but for the scan command, however else the wait ends: with
  an answer to something else, with an answer that reports a failure, or with the driver shut
  down.
\<close>

theorem success_says_nothing:
  assumes "caller_pc c i = Waiting (Send_recv vif_id data subtype) \<or> caller_pc c i = Copying (Send_recv vif_id data subtype)"
    and "cmd_step (Some c) e = Some c'" and "caller_pc c' i = Idle" and "subtype \<noteq> WIFI_CMD_SET_SCAN"
  shows "returned c' = returned c @ [(i, Send_recv vif_id data subtype, OK, [])]"
proof -
  have e: "e = Wake i \<or> e = Timeout i \<or> e = Copy i"
  proof (rule ccontr)
    assume "\<not> (e = Wake i \<or> e = Timeout i \<or> e = Copy i)"
    then have "caller_pc c' i = caller_pc c i"
      using pc_other [of c e c' i "Send_recv vif_id data subtype"] assms(1,2) by (auto simp: cmd_step_def)
    then show False using assms(1,3) by auto
  qed
  have r: "returned (finish i (Send_recv vif_id data subtype) got m c1) = returned c1 @ [(i, Send_recv vif_id data subtype, OK, [])]" for got m c1
    using assms(4) by (simp add: finish_def returns_def wlan_cmd_unlock_def)
  have l: "i < length (callers c)" using assms(1) caller_pc_busy by fastforce
  from e assms(1) show ?thesis
  proof (elim disjE)
    assume "e = Wake i" "caller_pc c i = Waiting (Send_recv vif_id data subtype)"
    then show ?thesis using assms(2,3) l by (auto simp: cmd_step_def cmd_evt_step_def wake_step_def r split: if_splits)
  next
    assume "e = Timeout i" "caller_pc c i = Waiting (Send_recv vif_id data subtype)"
    then show ?thesis using assms(2) by (auto simp: cmd_step_def cmd_evt_step_def timeout_step_def r)
  next
    assume "e = Copy i" "caller_pc c i = Copying (Send_recv vif_id data subtype)"
    then show ?thesis using assms(2) by (auto simp: cmd_step_def cmd_evt_step_def copy_step_def r split: bind_splits)
  qed (use assms(2,3) in \<open>auto simp: cmd_step_def cmd_evt_step_def\<close>)
qed

theorem silence_is_success:
  assumes "caller_pc c i = Waiting (Send_recv vif_id data subtype)"
  shows "\<exists>c'. cmd_step (Some c) (Timeout i) = Some c' \<and> caller_pc c' i = Idle \<and>
    returned c' = returned c @ [(i, Send_recv vif_id data subtype, OK, [])]"
proof -
  have l: "i < length (callers c)" using assms caller_pc_busy by fastforce
  have "sint (from_le32 (replicate 4 0)) = 0" by (simp add: numeral_eq_Suc)
  then show ?thesis using assms l
    by (simp add: cmd_step_def cmd_evt_step_def timeout_step_def finish_def returns_def wlan_cmd_unlock_def caller_pc_def)
qed

text \<open>The lock is gone: it is taken, its owner has returned, and the driver is being shut down.\<close>

definition lock_lost :: "nat \<Rightarrow> cmd_ctx \<Rightarrow> bool" where
  "lock_lost i c \<longleftrightarrow> cmd_lock c = Some i \<and> sync_exit c \<and> (\<forall>j. \<not> inside (caller_pc c j)) \<and> 1 \<le> refcnt c"

lemma lock_lost_step:
  assumes "lock_lost i c" and "cmd_evt_step c e = Some c'"
  shows "lock_lost i c' \<and> (\<forall>j k. caller_pc c j = Locking k \<longrightarrow> caller_pc c' j = Locking k)"
proof -
  have n: "caller_pc c j \<noteq> Sending k" "caller_pc c j \<noteq> Queueing k" "caller_pc c j \<noteq> Waiting k" "caller_pc c j \<noteq> Copying k" for j k
    using assms(1) unfolding lock_lost_def by (metis inside.simps)+
  have l: "cmd_lock c = Some i" "sync_exit c" "1 \<le> refcnt c" "\<And>j. \<not> inside (caller_pc c j)" using assms(1) by (simp_all add: lock_lost_def)
  have same: "caller_pc c' = caller_pc c \<and> cmd_lock c' = cmd_lock c \<and> sync_exit c' \<and> refcnt c' = refcnt c" if "\<forall>j k. e \<noteq> Call j k"
    using assms(2) that n l(1,2)
    by (cases e) (auto simp: cmd_evt_step_def wlan_rx_rsp_process_def wlan_cmd_deinit_def fun_eq_iff split: pc.splits if_splits bind_splits)
  show ?thesis
  proof (cases "\<exists>j k. e = Call j k")
    case True
    then obtain j k where e: "e = Call j k" by blast
    have "enter_step j k c = returns j k (call_refused (cp2_status c) k, []) c"
      using l(2) by (simp add: enter_step_def wlan_cmd_lock_enter_def)
    then have "c' = c \<or> (caller_pc c j = Idle \<and> c' = returns j k (call_refused (cp2_status c) k, []) c)"
      using assms(2) unfolding e cmd_evt_step_def by (cases "j < length (callers c) \<and> caller_pc c j = Idle") auto
    then show ?thesis using l by (auto simp: lock_lost_def split: if_splits) (auto simp: returns_def)
  qed (use same l in \<open>simp add: lock_lost_def\<close>)
qed

lemma lock_lost_run:
  assumes "lock_lost i c" and "run_steps cmd_step (Some c) es = Some c'"
  shows "lock_lost i c' \<and> (\<forall>j k. caller_pc c j = Locking k \<longrightarrow> caller_pc c' j = Locking k)"
  using assms
proof (induction es arbitrary: c)
  case (Cons e es)
  have n: "run_steps cmd_step None xs = None" for xs by (induction xs) (simp_all add: cmd_step_def)
  have s: "cmd_step (Some c) e = cmd_evt_step c e" by (simp add: cmd_step_def)
  obtain d where d: "cmd_evt_step c e = Some d" "run_steps cmd_step (Some d) es = Some c'"
    using Cons.prems(2) n [of es] by (cases "cmd_evt_step c e") (simp_all add: s)
  show ?case using Cons.IH [OF _ d(2)] lock_lost_step [OF Cons.prems(1) d(1)] by blast
qed simp

text \<open>
  C16. The lock is lost at the end: when the driver is shut down or the chip reset while a caller
  waits for the lock, that caller returns with the lock taken and counted. Whatever happens
  later, nobody gets the lock again, every caller that was waiting for it waits for ever, and
  the count never falls to zero, so that \<open>wlan_cmd_deinit\<close> waits until its deadline.
\<close>

theorem lock_lost_at_exit:
  assumes "cmd_start co" and "run_steps cmd_step co es = Some c" and "caller_pc c i = Locking k" and "cmd_lock c = None" and "sync_exit c"
    and "run_steps cmd_step (Some c) (Lock i # es') = Some c'"
  shows "cmd_lock c' = Some i \<and> 1 \<le> refcnt c' \<and> (\<forall>j. \<not> inside (caller_pc c' j)) \<and>
    (\<forall>j k. j \<noteq> i \<longrightarrow> caller_pc c j = Locking k \<longrightarrow> caller_pc c' j = Locking k)"
proof -
  note o = reached_ok [OF assms(1,2)]
  have l: "i < length (callers c)" using assms(3) caller_pc_busy by fastforce
  have "callers c ! i \<noteq> Idle" using assms(3) l by (simp add: caller_pc_def)
  then have "1 \<le> under_way (callers c)" by (rule under_way_pos [OF l])
  then have r: "1 \<le> refcnt c" using o by (simp add: cmd_ok_def count_ok_def)
  let ?d = "returns i k (call_refused (cp2_status c) k, []) (c\<lparr>cmd_lock := Some i\<rparr>)"
  have step: "cmd_step (Some c) (Lock i) = Some ?d"
    using assms(3-5) by (simp add: cmd_step_def cmd_evt_step_def lock_step_def wlan_cmd_lock_take_def Let_def)
  have "\<not> inside (caller_pc c j)" for j using o assms(4) unfolding cmd_ok_def locks_ok_def by (metis option.distinct(1))
  then have "lock_lost i ?d" using r assms(5) by (simp add: lock_lost_def) (simp add: returns_def)
  then have "lock_lost i c' \<and> (\<forall>j k. caller_pc ?d j = Locking k \<longrightarrow> caller_pc c' j = Locking k)"
    using assms(6) step by (intro lock_lost_run) simp_all
  then show ?thesis by (auto simp: lock_lost_def)
qed

text \<open>A message arrives while a caller waits, which is woken.\<close>

lemma answer_arrives:
  assumes "cmd_ok c" and "caller_pc c i = Waiting k" and "\<not> sync_exit c"
    and "hdr_len msg + 4 \<le> WLAN_CMD_MEM_LEN" and "hdr_len msg + 4 \<le> length msg"
  obtains m d where "run_steps cmd_step (Some c) [Rx msg, Wake i] = Some d" "mem d = Some m" "length m = WLAN_CMD_MEM_LEN"
    "take (hdr_len msg + 4) m = take (hdr_len msg + 4) msg" "caller_pc d i = Copying k" "returned d = returned c" "cp2_status d = cp2_status c"
proof -
  have l: "i < length (callers c)" using assms(2) caller_pc_busy by fastforce
  have o: "locks_ok c" "answer_ok c" using assms(1) by (simp_all add: cmd_ok_def)
  have u: "mem_lock c = None" using mem_unlocked [OF o(1), of i] assms(2) by simp
  obtain m where m: "mem c = Some m" "length m = WLAN_CMD_MEM_LEN" using buffer_there [OF mem_ok [OF o(2)] assms(3)] by blast
  let ?b = "take (hdr_len msg + 4) msg"
  let ?m = "?b @ drop (hdr_len msg + 4) m"
  let ?c = "c\<lparr>mem := Some ?m, wakeup := True, heard := heard c @ [?b]\<rparr>"
  have "put_bytes 0 ?b m = Some ?m" using assms(4,5) m(2) by (simp add: put_bytes_def min_def)
  moreover have "get_bytes 0 (hdr_len msg + 4) msg = Some ?b" using assms(5) by (simp add: get_bytes_def)
  moreover have "\<not> WLAN_CMD_MEM_LEN < hdr_len msg + 4" using assms(4) by simp
  ultimately have "wlan_rx_rsp_process msg c = Some ?c" using u m(1) unfolding wlan_rx_rsp_process_def by simp
  moreover have "wake_step i k ?c = move_to i (Copying k) (if is_npi k then ?c\<lparr>wakeup := False\<rparr> else ?c\<lparr>mem_lock := Some i, wakeup := False\<rparr>)"
    using assms(3) by (cases k) (simp_all add: wake_step_def)
  ultimately have run: "run_steps cmd_step (Some c) [Rx msg, Wake i] =
      Some (move_to i (Copying k) (if is_npi k then ?c\<lparr>wakeup := False\<rparr> else ?c\<lparr>mem_lock := Some i, wakeup := False\<rparr>))"
    using assms(2) u by (simp add: cmd_step_def cmd_evt_step_def)
  show ?thesis
    by (rule that [OF run, of ?m]) (use l m(2) assms(4,5) in \<open>auto simp: move_to_def caller_pc_def min_def\<close>)
qed

text \<open>
  Between the clearing of the buffer and the queue there is no lock: a late answer to an older
  command that arrives there wakes the caller although its own command is not yet sent.
\<close>

lemma late_answer_is_taken:
  assumes "cmd_ok c" and "caller_pc c i = Queueing (Get_rssi vif_id)" and "\<not> sync_exit c"
    and "hdr_len msg + 4 \<le> WLAN_CMD_MEM_LEN" and "hdr_len msg + 4 \<le> length msg"
  shows "\<exists>d. run_steps cmd_step (Some c) [Rx msg, Queue_it i, Wake i] = Some d \<and> caller_pc d i = Copying (Get_rssi vif_id) \<and>
    last (heard d) = take (hdr_len msg + 4) msg"
proof -
  have l: "i < length (callers c)" using assms(2) caller_pc_busy by fastforce
  have o: "locks_ok c" "answer_ok c" using assms(1) by (simp_all add: cmd_ok_def)
  have u: "mem_lock c = None" using mem_unlocked [OF o(1), of i] assms(2) by simp
  obtain m where m: "mem c = Some m" "length m = WLAN_CMD_MEM_LEN" using buffer_there [OF mem_ok [OF o(2)] assms(3)] by blast
  let ?b = "take (hdr_len msg + 4) msg"
  let ?c = "c\<lparr>mem := Some (?b @ drop (hdr_len msg + 4) m), wakeup := True, heard := heard c @ [?b]\<rparr>"
  have "put_bytes 0 ?b m = Some (?b @ drop (hdr_len msg + 4) m)" using assms(4,5) m(2) by (simp add: put_bytes_def min_def)
  moreover have "get_bytes 0 (hdr_len msg + 4) msg = Some ?b" using assms(5) by (simp add: get_bytes_def)
  moreover have "\<not> WLAN_CMD_MEM_LEN < hdr_len msg + 4" using assms(4) by simp
  ultimately have rx: "wlan_rx_rsp_process msg c = Some ?c" using u m(1) unfolding wlan_rx_rsp_process_def by simp
  obtain ret v where sent: "wlan_cmd_send_to_ic True vif_id None WIFI_CMD_GET_RSSI (cmd_if c) = (ret, v)" by fastforce
  then have q: "queue_step i (Get_rssi vif_id) ?c = move_to i (Waiting (Get_rssi vif_id)) (?c\<lparr>cmd_if := v\<rparr>)"
    by (simp add: queue_step_def sent_step_def)
  show ?thesis
    using assms(2,3) l rx q u
    by (simp add: cmd_step_def cmd_evt_step_def caller_pc_def) (simp add: move_to_def wake_step_def)
qed

text \<open>What a caller finds in its own buffer, when the answer is at least as long as that.\<close>

lemma taken_body:
  assumes "length m = WLAN_CMD_MEM_LEN" and "take (hdr_len msg + 4) m = take (hdr_len msg + 4) msg"
    and "room \<le> hdr_len msg" and "hdr_len msg + 4 \<le> WLAN_CMD_MEM_LEN"
  obtains a where "take_answer room m = Some (a, cut_header room m)" "drop 4 a = take room (drop 4 msg)" "a ! 0 = msg ! 0" "a ! 1 = msg ! 1"
proof -
  have h: "hdr_len m = hdr_len msg"
    using assms(2) hdr_len_prefix [of "hdr_len msg + 4" m] hdr_len_prefix [of "hdr_len msg + 4" msg] by simp
  have "take room (drop 4 m) = take room (drop 4 (take (hdr_len msg + 4) m))" using assms(3) by (simp add: drop_take min_def)
  also have "\<dots> = take room (drop 4 msg)" unfolding assms(2) using assms(3) by (simp add: drop_take min_def)
  finally have body: "take room (drop 4 m) = take room (drop 4 msg)" .
  have hc: "hdr_len (cut_header room m) = room" using cut_header_len [of m room] assms(1,3,4) h by simp
  let ?a = "take (4 + room) (cut_header room m)"
  have len: "length (cut_header room m) = WLAN_CMD_MEM_LEN" using assms(1) cut_header_length [of room m] by simp
  have "drop 4 (cut_header room m) = drop 4 m" using assms(1) by (simp add: cut_header_def le16_def)
  then have "drop 4 ?a = take room (drop 4 msg)" using body by (simp add: drop_take)
  moreover have "take_answer room m = Some (?a, cut_header room m)"
    using assms(3,4) len by (simp add: take_answer_def hc get_bytes_def put_bytes_def Let_def)
  moreover have "m ! 0 = msg ! 0" "m ! 1 = msg ! 1"
    using arg_cong [OF assms(2), of "\<lambda>x. x ! 0"] arg_cong [OF assms(2), of "\<lambda>x. x ! 1"] by simp_all
  moreover have "?a ! 0 = m ! 0" "?a ! 1 = m ! 1" using assms(1) by (simp_all add: cut_header_def nth_append)
  ultimately show ?thesis using that by metis
qed

text \<open>
  The scan command takes any answer: the first answer that arrives while it waits, whatever
  its subtype (the late answer to a command that had timed out, for example), ends the
  wait, and its first four bytes are returned as the result of the scan.
\<close>

lemma scan_takes_any_answer:
  assumes "cmd_start co" and "run_steps cmd_step co es = Some c" and "caller_pc c i = Waiting (Send_recv vif_id data WIFI_CMD_SET_SCAN)"
    and "\<not> sync_exit c" and "hdr_len msg + 4 \<le> WLAN_CMD_MEM_LEN" and "hdr_len msg + 4 \<le> length msg" and "4 \<le> hdr_len msg"
  shows "\<exists>c'. run_steps cmd_step (Some c) [Rx msg, Wake i, Copy i] = Some c' \<and>
    returned c' = returned c @ [(i, Send_recv vif_id data WIFI_CMD_SET_SCAN, sint (from_le32 (take 4 (drop 4 msg))), [])]"
proof -
  obtain m d where d: "run_steps cmd_step (Some c) [Rx msg, Wake i] = Some d" "mem d = Some m" "length m = WLAN_CMD_MEM_LEN"
      "take (hdr_len msg + 4) m = take (hdr_len msg + 4) msg" "caller_pc d i = Copying (Send_recv vif_id data WIFI_CMD_SET_SCAN)"
      "returned d = returned c"
    by (rule answer_arrives [OF reached_ok [OF assms(1,2)] assms(3-6)])
  obtain a where a: "take_answer 4 m = Some (a, cut_header 4 m)" "drop 4 a = take 4 (drop 4 msg)"
    by (rule taken_body [OF d(3,4) assms(7,5)])
  then have "\<exists>c'. cmd_step (Some d) (Copy i) = Some c' \<and>
      returned c' = returned c @ [(i, Send_recv vif_id data WIFI_CMD_SET_SCAN, sint (from_le32 (take 4 (drop 4 msg))), [])]"
    using d(2,5,6) a by (simp add: cmd_step_def cmd_evt_step_def copy_step_def finish_def returns_def wlan_cmd_unlock_def)
  moreover have "run_steps cmd_step (Some c) [Rx msg, Wake i, Copy i] = cmd_step (Some d) (Copy i)"
    using d(1) run_steps_append [of cmd_step "Some c" "[Rx msg, Wake i]" "[Copy i]"] by simp
  ultimately show ?thesis by simp
qed

text \<open>
  C40. The answer to the test tool is copied as long as it says it is: it leaves the buffer of
  \<open>wlan_cmd_npi_send_recv\<close>'s caller (1024 bytes on the stack) exactly when it is longer than that;
  else the caller gets its bytes.
\<close>

theorem test_tool_answer_overrun:
  assumes "cmd_start co" and "run_steps cmd_step co es = Some c" and "caller_pc c i = Waiting (Npi data room)"
    and "\<not> sync_exit c" and "hdr_len msg + 4 \<le> WLAN_CMD_MEM_LEN" and "hdr_len msg + 4 \<le> length msg" and "matches WIFI_CMD_NPI_MSG msg"
  shows "(run_steps cmd_step (Some c) [Rx msg, Wake i, Copy i] = None \<longleftrightarrow> room < hdr_len msg) \<and>
    (hdr_len msg \<le> room \<longrightarrow> (\<exists>c'. run_steps cmd_step (Some c) [Rx msg, Wake i, Copy i] = Some c' \<and>
      returned c' = returned c @ [(i, Npi data room, OK, take (hdr_len msg) (drop 4 msg))]))"
proof -
  obtain m d where d: "run_steps cmd_step (Some c) [Rx msg, Wake i] = Some d" "mem d = Some m" "length m = WLAN_CMD_MEM_LEN"
      "take (hdr_len msg + 4) m = take (hdr_len msg + 4) msg" "caller_pc d i = Copying (Npi data room)"
      "returned d = returned c"
    by (rule answer_arrives [OF reached_ok [OF assms(1,2)] assms(3-6)])
  have h: "hdr_len m = hdr_len msg"
    using d(4) hdr_len_prefix [of "hdr_len msg + 4" m] hdr_len_prefix [of "hdr_len msg + 4" msg] by simp
  have body: "take (hdr_len msg) (drop 4 m) = take (hdr_len msg) (drop 4 msg)"
    using arg_cong [OF d(4), of "drop 4"] by (simp add: drop_take)
  have "m ! 0 = msg ! 0" "m ! 1 = msg ! 1"
    using arg_cong [OF d(4), of "\<lambda>x. x ! 0"] arg_cong [OF d(4), of "\<lambda>x. x ! 1"] by simp_all
  then have mt: "matches WIFI_CMD_NPI_MSG m" using assms(7) by (simp add: matches_def hdr_type_def)
  have run: "run_steps cmd_step (Some c) [Rx msg, Wake i, Copy i] = cmd_step (Some d) (Copy i)"
    using d(1) run_steps_append [of cmd_step "Some c" "[Rx msg, Wake i]" "[Copy i]"] by simp
  have g: "get_bytes 4 (hdr_len m) m = Some (take (hdr_len msg) (drop 4 m))" using d(3) assms(5) h by (simp add: get_bytes_def)
  have len: "length (take (hdr_len msg) (drop 4 m)) = hdr_len msg" using d(3) assms(5) by simp
  have copy: "cmd_step (Some d) (Copy i) = (if room < hdr_len msg then None else Some (finish i (Npi data room) True m d))"
    using d(2,5) mt g len by (simp add: cmd_step_def cmd_evt_step_def copy_step_def put_bytes_def)
  have "\<exists>c'. run_steps cmd_step (Some c) [Rx msg, Wake i, Copy i] = Some c' \<and>
      returned c' = returned c @ [(i, Npi data room, OK, take (hdr_len msg) (drop 4 msg))]" if "hdr_len msg \<le> room"
    unfolding run copy using that mt d(6) body h by (simp add: finish_def returns_def wlan_cmd_unlock_def)
  then show ?thesis unfolding run copy by auto
qed

text \<open>Signal and noise are the first and the third byte of what the chip sends.\<close>

lemma rssi_bytes_of:
  assumes "drop 8 a = take 4 xs" and "4 \<le> length xs"
  shows "rssi_bytes a = [xs ! 0, xs ! 2]"
proof -
  obtain b0 b1 b2 b3 ys where xs: "xs = b0 # b1 # b2 # b3 # ys"
    using assms(2) by (cases xs; cases "tl xs"; cases "tl (tl xs)"; cases "tl (tl (tl xs))") auto
  have w: "from_le32 (take 4 xs) = ucast b0 OR push_bit 8 (ucast b1) OR push_bit 16 (ucast b2) OR push_bit 24 (ucast b3)"
    by (simp add: xs numeral_eq_Suc)
  have hi: "(0xffff0000 :: u32) = push_bit 16 0xffff" "(0xffff0000 :: int) = push_bit 16 0xffff" by (simp_all add: push_bit_eq_mult)
  have no: "\<not> bit (0xffff0000 :: u32) n" "\<not> bit (0xffff0000 :: int) n" if "n < 8" for n
    unfolding hi bit_push_bit_iff using that by simp_all
  have "ucast ((from_le32 (take 4 xs)) OR 0xffff0000) = b0"
    unfolding w by (rule bit_word_eqI) (auto simp: bit_simps no)
  moreover have "ucast (drop_bit 16 (from_le32 (take 4 xs) OR 0x0000ffff)) = b2"
    unfolding w by (rule bit_word_eqI) (auto simp: bit_simps dest: bit_imp_le_length)
  ultimately show ?thesis by (simp add: rssi_bytes_def assms(1) Let_def xs)
qed

subsection \<open>Concrete runs\<close>

definition demo_mem :: "u8 list" where
  "demo_mem = replicate 8192 0"

lemma demo_mem_length: "length demo_mem = 8192"
  unfolding demo_mem_def by (rule length_replicate)

definition demo_cmd :: "net_if \<Rightarrow> cmd_ctx" where
  "demo_cmd v = wlan_cmd_init (Some demo_mem) \<lparr>mem = None, wakeup = True, cmd_lock = None, mem_lock = None, refcnt = 1,
     sync_exit = False, cp2_status = 1, cmd_if = v, callers = [Idle, Idle], returned = [], heard = []\<rparr>"

lemma demo_cmd_start: "cmd_start (Some (demo_cmd v))"
proof -
  let ?c = "\<lparr>mem = None, wakeup = True, cmd_lock = None, mem_lock = None, refcnt = 1,
     sync_exit = False, cp2_status = 1, cmd_if = v, callers = [Idle, Idle], returned = [], heard = []\<rparr>"
  have "callers ?c = replicate 2 Idle" "heard ?c = []" by (simp_all add: numeral_2_eq_2)
  then show ?thesis unfolding cmd_start_def demo_cmd_def using demo_mem_length by blast
qed

text \<open>Caller 0 has sent its command and waits.\<close>

definition demo_wait :: "call \<Rightarrow> cmd_evt list" where
  "demo_wait k = [Call 0 k, Lock 0, Send_it 0, Queue_it 0]"

definition demo_waiting :: "call \<Rightarrow> net_if \<Rightarrow> cmd_ctx" where
  "demo_waiting k v = \<lparr>mem = Some demo_mem, wakeup = False, cmd_lock = Some 0, mem_lock = None, refcnt = 1, sync_exit = False,
     cp2_status = 1, cmd_if = v, callers = [Waiting k, Idle], returned = [], heard = []\<rparr>"

lemma demo_wait_run:
  assumes "call_msg k = (a, b, s)" and "wlan_cmd_send_to_ic True a b s v = (0, v')"
  shows "run_steps cmd_step (Some (demo_cmd v)) (demo_wait k) = Some (demo_waiting k v')"
  by (simp add: demo_wait_def demo_waiting_def demo_cmd_def wlan_cmd_init_def cmd_step_def cmd_evt_step_def enter_step_def lock_step_def
      clean_step_def queue_step_def sent_step_def caller_pc_def wlan_cmd_clean_def assms wlan_cmd_lock_enter_def wlan_cmd_lock_take_def move_to_def Let_def)

lemma demo_waiting_pc: "caller_pc (demo_waiting k v) 0 = Waiting k" "\<not> sync_exit (demo_waiting k v)" "returned (demo_waiting k v) = []"
  by (simp_all add: demo_waiting_def caller_pc_def)

lemma demo_if_sends: "wlan_cmd_send_to_ic True a b s (demo_if w) = (0, snd (wlan_cmd_send_to_ic True a b s (demo_if w)))"
proof -
  have "\<forall>m. \<exists>q. msg_q_in m (queues (demo_if w) ! 4) = Some q"
    by (simp add: demo_if_def msg_q_alloc_def msg_q_in_def)
  from choice [OF this] obtain f where "\<forall>m. msg_q_in m (queues (demo_if w) ! 4) = Some (f m)" ..
  then show ?thesis by (simp add: wlan_cmd_send_to_ic_def Let_def)
qed

text \<open>A run of caller 0 up to where it waits, on the real queues.\<close>

lemma demo_run:
  obtains v where "run_steps cmd_step (Some (demo_cmd (demo_if w))) (demo_wait k) = Some (demo_waiting k v)"
proof -
  obtain a b s where "call_msg k = (a, b, s)" by (rule prod_cases3)
  then show ?thesis using demo_wait_run [OF _ demo_if_sends] that by blast
qed

theorem one_command_at_a_time_witness:
  "\<forall>w. \<exists>c. run_steps cmd_step (Some (demo_cmd (demo_if w))) (demo_wait (Get_rssi False)) = Some c \<and>
     (\<forall>j. inside (caller_pc c j) \<longrightarrow> j = 0) \<and> refcnt c = under_way (callers c)"
proof
  fix w
  obtain v where v: "run_steps cmd_step (Some (demo_cmd (demo_if w))) (demo_wait (Get_rssi False)) = Some (demo_waiting (Get_rssi False) v)"
    by (rule demo_run)
  have "inside (caller_pc (demo_waiting (Get_rssi False) v) 0)" by (simp add: demo_waiting_pc)
  then show "\<exists>c. run_steps cmd_step (Some (demo_cmd (demo_if w))) (demo_wait (Get_rssi False)) = Some c \<and>
     (\<forall>j. inside (caller_pc c j) \<longrightarrow> j = 0) \<and> refcnt c = under_way (callers c)"
    using one_command_at_a_time [OF demo_cmd_start v] v demo_waiting_pc(2) by blast
qed

definition demo_answer :: "u8 list" where
  "demo_answer = [1, 2, 8, 0, 0, 0, 0, 0, 0xC0, 0xFF, 0xA0, 0xFF]"

lemma demo_answer_len: "hdr_len demo_answer = 8" "length demo_answer = 12"
  by (simp_all add: demo_answer_def hdr_len_def)

theorem answer_came_after_command_witness:
  "\<forall>w. \<exists>c c'. run_steps cmd_step (Some (demo_cmd (demo_if w))) (demo_wait (Get_rssi False) @ [Rx demo_answer, Wake 0]) = Some c \<and>
     cmd_step (Some c) (Copy 0) = Some c' \<and> caller_pc c' 0 = Idle \<and> length (returned c') = 1"
proof
  fix w
  obtain v where v: "run_steps cmd_step (Some (demo_cmd (demo_if w))) (demo_wait (Get_rssi False)) = Some (demo_waiting (Get_rssi False) v)"
    by (rule demo_run)
  let ?c = "demo_waiting (Get_rssi False) v"
  have h: "hdr_len demo_answer + 4 \<le> 8192" "hdr_len demo_answer + 4 \<le> length demo_answer" by (simp_all add: demo_answer_len)
  obtain m d where d': "run_steps cmd_step (Some ?c) [Rx demo_answer, Wake 0] = Some d" "mem d = Some m" "length m = 8192"
      "take (hdr_len demo_answer + 4) m = take (hdr_len demo_answer + 4) demo_answer"
      "caller_pc d 0 = Copying (Get_rssi False)" "returned d = returned ?c"
    by (rule answer_arrives [OF reached_ok [OF demo_cmd_start v] demo_waiting_pc(1,2) h])
  then have d: "run_steps cmd_step (Some ?c) [Rx demo_answer, Wake 0] = Some d" "caller_pc d 0 = Copying (Get_rssi False)" "returned d = []"
    by (simp_all only: demo_waiting_pc)
  have run: "run_steps cmd_step (Some (demo_cmd (demo_if w))) (demo_wait (Get_rssi False) @ [Rx demo_answer, Wake 0]) = Some d"
    using d(1) v by (simp only: run_steps_append)
  obtain c' where "cmd_step (Some d) (Copy 0) = Some c'" "caller_pc c' 0 = Idle" "\<exists>r. returned c' = returned d @ [r]"
    using answer_came_after_command [OF demo_cmd_start run d(2)] d'(2) by auto
  then show "\<exists>c c'. run_steps cmd_step (Some (demo_cmd (demo_if w))) (demo_wait (Get_rssi False) @ [Rx demo_answer, Wake 0]) = Some c \<and>
     cmd_step (Some c) (Copy 0) = Some c' \<and> caller_pc c' 0 = Idle \<and> length (returned c') = 1"
    using run d(3) by auto
qed

theorem success_says_nothing_witness:
  "\<forall>v. \<exists>c'. cmd_step (Some (demo_waiting (Send_recv False None 24) v)) (Timeout 0) = Some c' \<and>
     returned c' = [(0, Send_recv False None 24, 0, [])]"
proof
  fix v
  let ?c = "demo_waiting (Send_recv False None 24) v"
  obtain c' where c': "cmd_step (Some ?c) (Timeout 0) = Some c'" "caller_pc c' 0 = Idle"
    using silence_is_success [OF demo_waiting_pc(1)] by blast
  show "\<exists>c'. cmd_step (Some ?c) (Timeout 0) = Some c' \<and> returned c' = [(0, Send_recv False None 24, 0, [])]"
    using success_says_nothing [OF disjI1 [OF demo_waiting_pc(1)] c'] c' by (simp add: demo_waiting_pc)
qed

theorem lock_lost_at_exit_witness:
  "\<forall>v. \<exists>c'. run_steps cmd_step (Some (demo_cmd v)) [Call 0 (Get_rssi False), Call 1 (Get_txrate False), Exit, Lock 0, Lock 1, Lock 1] = Some c' \<and>
     cmd_lock c' = Some 0 \<and> 1 \<le> refcnt c' \<and> caller_pc c' 1 = Locking (Get_txrate False)"
proof
  fix v
  let ?es = "[Call 0 (Get_rssi False), Call 1 (Get_txrate False), Exit]"
  obtain c where c: "run_steps cmd_step (Some (demo_cmd v)) ?es = Some c" "caller_pc c 0 = Locking (Get_rssi False)"
      "caller_pc c 1 = Locking (Get_txrate False)" "cmd_lock c = None" "sync_exit c"
    by (simp add: demo_cmd_def wlan_cmd_init_def cmd_step_def cmd_evt_step_def enter_step_def caller_pc_def wlan_cmd_lock_enter_def move_to_def)
  obtain c' where c': "run_steps cmd_step (Some c) [Lock 0, Lock 1, Lock 1] = Some c'"
    by (simp add: cmd_step_def cmd_evt_step_def)
  have "run_steps cmd_step (Some (demo_cmd v)) (?es @ [Lock 0, Lock 1, Lock 1]) = Some c'"
    using c(1) c' by (simp only: run_steps_append)
  then show "\<exists>c'. run_steps cmd_step (Some (demo_cmd v)) [Call 0 (Get_rssi False), Call 1 (Get_txrate False), Exit, Lock 0, Lock 1, Lock 1] = Some c' \<and>
     cmd_lock c' = Some 0 \<and> 1 \<le> refcnt c' \<and> caller_pc c' 1 = Locking (Get_txrate False)"
    using lock_lost_at_exit [OF demo_cmd_start c(1,2,4,5) c'] c(3) by (intro exI [of _ c']) auto
qed

lemma scan_takes_any_answer_witness:
  "\<forall>w. \<exists>v c'. run_steps cmd_step (Some (demo_waiting (Send_recv False None 4) v)) [Rx [1, 9, 4, 0, 7, 0, 0, 0], Wake 0, Copy 0] = Some c' \<and>
     returned c' = [(0, Send_recv False None 4, 7, [])]"
proof
  fix w
  obtain v where v: "run_steps cmd_step (Some (demo_cmd (demo_if w))) (demo_wait (Send_recv False None 4)) = Some (demo_waiting (Send_recv False None 4) v)"
    by (rule demo_run)
  have h: "hdr_len [1, 9, 4, 0, 7, 0, 0, 0] = 4" by (simp add: hdr_len_def)
  show "\<exists>v c'. run_steps cmd_step (Some (demo_waiting (Send_recv False None 4) v)) [Rx [1, 9, 4, 0, 7, 0, 0, 0], Wake 0, Copy 0] = Some c' \<and>
     returned c' = [(0, Send_recv False None 4, 7, [])]"
    using scan_takes_any_answer [OF demo_cmd_start v demo_waiting_pc(1,2), of "[1, 9, 4, 0, 7, 0, 0, 0]"] h
    by (auto simp: demo_waiting_pc)
qed

theorem test_tool_answer_overrun_witness:
  "\<forall>w. \<exists>v. run_steps cmd_step (Some (demo_waiting (Npi [] 3) v)) [Rx [1, 33, 4, 0, 7, 0, 0, 0], Wake 0, Copy 0] = None"
proof
  fix w
  obtain v where v: "run_steps cmd_step (Some (demo_cmd (demo_if w))) (demo_wait (Npi [] 3)) = Some (demo_waiting (Npi [] 3) v)"
    by (rule demo_run)
  have h: "hdr_len [1, 33, 4, 0, 7, 0, 0, 0] = 4" "matches 33 [1, 33, 4, 0, 7, 0, 0, 0]" by (simp_all add: hdr_len_def matches_def hdr_type_def)
  show "\<exists>v. run_steps cmd_step (Some (demo_waiting (Npi [] 3) v)) [Rx [1, 33, 4, 0, 7, 0, 0, 0], Wake 0, Copy 0] = None"
    using test_tool_answer_overrun [OF demo_cmd_start v demo_waiting_pc(1,2), of "[1, 33, 4, 0, 7, 0, 0, 0]"] h by auto
qed

end
