(* ===== verification/SmartCtrl.thy ===== *)
theory SmartCtrl
  imports Prelude "HOL-Library.Monad_Syntax" "HOL-Library.Signed_Division"
begin

text \<open>
  The smart control of the image processor (\<open>modules/libcamera/isp2.0/smart/smart_ctrl.c\<close>): it
  reads the brightness and the colour temperature of a picture off tables with few samples and
  tells each block of the image processor which of its tunings to use, or which two to mix and
  how. \<open>_pm_check_smart_param\<close> of \<open>isp_blocks_cfg.c\<close> is what the blocks ask of such a result.
  Logging, the debug file and the lock are left out.
\<close>

subsection \<open>Tables\<close>

abbreviation (input) ISP_SUCCESS :: int where "ISP_SUCCESS \<equiv> 0"
abbreviation (input) ISP_ERROR :: int where "ISP_ERROR \<equiv> 6"
abbreviation (input) SMART_WEIGHT_UNIT :: u32 where "SMART_WEIGHT_UNIT \<equiv> 256"

text \<open>The result of an operation on \<open>int\<close>, which must fit.\<close>

definition s32 :: "int \<Rightarrow> int option" where
  "s32 x = (if - (2 ^ 31) \<le> x \<and> x < 2 ^ 31 then Some x else None)"

record isp_sample =
  smp_x :: u16     \<comment> \<open>signed\<close>
  smp_y :: u16     \<comment> \<open>signed\<close>

record isp_piecewise_func =
  fnum :: u32
  samples :: "isp_sample list"     \<comment> \<open>16 entries\<close>

record isp_weight_value =
  value0 :: u16    \<comment> \<open>signed\<close>
  value1 :: u16    \<comment> \<open>signed\<close>
  weight0 :: u16
  weight1 :: u16

definition zero_weight :: isp_weight_value where
  "zero_weight = \<lparr>value0 = 0, value1 = 0, weight0 = 0, weight1 = 0\<rparr>"

text \<open>The first of \<open>k\<close> sections from \<open>i\<close> on that \<open>x\<close> lies in.\<close>

fun section_loop :: "nat \<Rightarrow> nat \<Rightarrow> isp_sample list \<Rightarrow> int \<Rightarrow> (isp_sample \<times> isp_sample) option option" where
  "section_loop 0 i ss x = Some None"
| "section_loop (Suc k) i ss x = do {
     a \<leftarrow> byte_at i ss;
     (if x < sint (smp_x a) then section_loop k (i + 1) ss x
      else do {
        b \<leftarrow> byte_at (i + 1) ss;
        (if x < sint (smp_x b) then Some (Some (a, b)) else section_loop k (i + 1) ss x) }) }"

definition smart_ctl_piecewise_func_v1 ::
    "isp_piecewise_func \<Rightarrow> int \<Rightarrow> u32 \<Rightarrow> isp_weight_value \<Rightarrow> (int \<times> isp_weight_value) option" where
  "smart_ctl_piecewise_func_v1 func x weight_unit result =
    (if fnum func = 0 then Some (ISP_ERROR, result)
     else do {
       a \<leftarrow> byte_at 0 (samples func);
       (if x \<le> sint (smp_x a) then
          Some (ISP_SUCCESS, \<lparr>value0 = smp_y a, value1 = smp_y a, weight0 = ucast weight_unit, weight1 = 0\<rparr>)
        else do {
          z \<leftarrow> byte_at (unat (fnum func - 1)) (samples func);
          (if x \<ge> sint (smp_x z) then
             Some (ISP_SUCCESS, \<lparr>value0 = smp_y z, value1 = smp_y z, weight0 = ucast weight_unit, weight1 = 0\<rparr>)
           else do {
             s \<leftarrow> section_loop (unat (fnum func - 1)) 0 (samples func) x;
             Some (case s of
               None \<Rightarrow> (ISP_ERROR, result)
             | Some (a, b) \<Rightarrow>
                 if sint (smp_x b) - sint (smp_x a) \<noteq> 0 then
                   (let w = ucast ((of_int (sint (smp_x b) - x) * weight_unit)
                               div of_int (sint (smp_x b) - sint (smp_x a)) :: u32) :: u16 in
                    (ISP_SUCCESS, \<lparr>value0 = smp_y a, value1 = smp_y b, weight0 = w,
                       weight1 = ucast (weight_unit - ucast w)\<rparr>))
                 else (ISP_SUCCESS, \<lparr>value0 = smp_y a, value1 = smp_y a, weight0 = ucast weight_unit, weight1 = 0\<rparr>)) }) }) })"

definition smart_ctl_piecewise_func_v0 :: "isp_piecewise_func \<Rightarrow> int \<Rightarrow> int \<Rightarrow> (int \<times> int) option" where
  "smart_ctl_piecewise_func_v0 func x result =
    (if fnum func = 0 then Some (ISP_ERROR, result)
     else do {
       a \<leftarrow> byte_at 0 (samples func);
       (if x \<le> sint (smp_x a) then Some (ISP_SUCCESS, sint (smp_y a))
        else do {
          z \<leftarrow> byte_at (unat (fnum func - 1)) (samples func);
          (if x \<ge> sint (smp_x z) then Some (ISP_SUCCESS, sint (smp_y z))
           else do {
             s \<leftarrow> section_loop (unat (fnum func - 1)) 0 (samples func) x;
             (case s of
               None \<Rightarrow> Some (ISP_ERROR, 0)
             | Some (a, b) \<Rightarrow>
                 if sint (smp_x b) - sint (smp_x a) \<noteq> 0 then do {
                   p \<leftarrow> s32 ((x - sint (smp_x a)) * (sint (smp_y b) - sint (smp_y a)));
                   y \<leftarrow> s32 (sint (smp_y a) + p sdiv (sint (smp_x b) - sint (smp_x a)));
                   Some (ISP_SUCCESS, y) }
                 else Some (ISP_SUCCESS, sint (smp_y a))) }) }) })"

definition smart_crl_calc_func ::
    "isp_piecewise_func \<Rightarrow> u32 \<Rightarrow> int \<Rightarrow> isp_weight_value \<Rightarrow> (int \<times> isp_weight_value) option" where
  "smart_crl_calc_func func y_type x result =
    (if y_type = 0 then do {
       (rtn, v) \<leftarrow> smart_ctl_piecewise_func_v0 func x 0;
       Some (rtn, result\<lparr>value0 := of_int v, weight0 := ucast SMART_WEIGHT_UNIT\<rparr>) }
     else if y_type = 1 then smart_ctl_piecewise_func_v1 func x SMART_WEIGHT_UNIT result
     else Some (ISP_ERROR, result))"

record isp_range =
  rmin :: u16      \<comment> \<open>signed\<close>
  rmax :: u16      \<comment> \<open>signed\<close>

text \<open>The sections before the last one: the indices and the distances to both.\<close>

fun bv_loop :: "nat \<Rightarrow> nat \<Rightarrow> isp_range list \<Rightarrow> int \<Rightarrow> (nat \<times> nat \<times> u16 \<times> u16) option option" where
  "bv_loop 0 i rs bv = Some None"
| "bv_loop (Suc k) i rs bv = do {
     r \<leftarrow> byte_at i rs;
     (if sint (rmin r) \<le> bv \<and> bv \<le> sint (rmax r) then Some (Some (i, i, 0, 1))
      else if bv > sint (rmax r) then do {
        r' \<leftarrow> byte_at (i + 1) rs;
        (if bv < sint (rmin r') then
           Some (Some (i, i + 1, of_int (bv - sint (rmax r)), of_int (sint (rmin r') - bv)))
         else bv_loop k (i + 1) rs bv) }
      else bv_loop k (i + 1) rs bv) }"

definition smart_ctl_calc_bv_section :: "isp_range list \<Rightarrow> u32 \<Rightarrow> int \<Rightarrow> isp_weight_value \<Rightarrow> (int \<times> isp_weight_value) option" where
  "smart_ctl_calc_bv_section bv_range num bv result =
    (if num < 1 then Some (ISP_ERROR, result)
     else do {
       r \<leftarrow> byte_at 0 bv_range;
       s \<leftarrow> (if bv \<le> sint (rmax r) then Some (Some (0, 0, 0, 1))
          else do {
            z \<leftarrow> byte_at (unat (num - 1)) bv_range;
            (if bv \<ge> sint (rmin z) then Some (Some (unat (num - 1), unat (num - 1), 0, 1))
             else bv_loop (unat (num - 1)) 0 bv_range bv) });
       Some (case s of
         None \<Rightarrow> (ISP_ERROR, result)
       | Some (i, j, d0, d1) \<Rightarrow>
           (let w = of_int (uint d1 * 256 div (uint d0 + uint d1)) in
            (ISP_SUCCESS, \<lparr>value0 = of_nat i, value1 = of_nat j, weight0 = w, weight1 = 256 - w\<rparr>))) })"

subsection \<open>Components and blocks\<close>

record component_cfg =
  x_type :: u32
  y_type :: u32
  use_flash_val :: u32
  flash_val :: u32          \<comment> \<open>signed\<close>
  section_num :: u32
  bv_range :: "isp_range list"             \<comment> \<open>8 entries\<close>
  func :: "isp_piecewise_func list"        \<comment> \<open>8 entries\<close>

abbreviation (input) X_TYPE_BV :: u32 where "X_TYPE_BV \<equiv> 0"
abbreviation (input) X_TYPE_BV_GAIN :: u32 where "X_TYPE_BV_GAIN \<equiv> 1"
abbreviation (input) X_TYPE_CT :: u32 where "X_TYPE_CT \<equiv> 2"
abbreviation (input) X_TYPE_BV_CT :: u32 where "X_TYPE_BV_CT \<equiv> 3"
abbreviation (input) Y_TYPE_VALUE :: u32 where "Y_TYPE_VALUE \<equiv> 0"
abbreviation (input) Y_TYPE_WEIGHT_VALUE :: u32 where "Y_TYPE_WEIGHT_VALUE \<equiv> 1"

record component_result =
  ctype :: u32
  csize :: u32
  fix_data :: "u32 list"    \<comment> \<open>4 entries\<close>

text \<open>Data is an \<open>int32_t\<close>, or an \<open>isp_weight_value\<close> laid over the first two entries.\<close>

definition put_value :: "u32 \<Rightarrow> u32 list \<Rightarrow> u32 list" where
  "put_value v d = d[0 := v]"

definition put_weight_value :: "isp_weight_value \<Rightarrow> u32 list \<Rightarrow> u32 list" where
  "put_weight_value w d = d[0 := ucast (value0 w) OR push_bit 16 (ucast (value1 w)),
                           1 := ucast (weight0 w) OR push_bit 16 (ucast (weight1 w))]"

definition get_weight_value :: "u32 list \<Rightarrow> isp_weight_value" where
  "get_weight_value d = \<lparr>value0 = ucast (d ! 0), value1 = ucast (drop_bit 16 (d ! 0)),
                         weight0 = ucast (d ! 1), weight1 = ucast (drop_bit 16 (d ! 1))\<rparr>"

text \<open>One of the two sections the brightness lies between, if it counts.\<close>

definition calc_section :: "component_cfg \<Rightarrow> int \<Rightarrow> u32 \<Rightarrow> u16 \<Rightarrow> (int \<times> isp_weight_value) option" where
  "calc_section cfg ct bv_idx bv_weight =
    (if bv_weight > 0 \<and> bv_idx < section_num cfg then do {
       f \<leftarrow> byte_at (unat bv_idx) (func cfg);
       smart_crl_calc_func f (y_type cfg) ct zero_weight }
     else Some (ISP_SUCCESS, zero_weight))"

definition dominant_value :: "isp_weight_value \<Rightarrow> u16" where
  "dominant_value t = (if weight0 t > weight1 t then value0 t else value1 t)"

definition mix_sections :: "u32 \<Rightarrow> isp_weight_value \<Rightarrow> isp_weight_value \<Rightarrow> isp_weight_value \<Rightarrow> (int \<times> isp_weight_value) option" where
  "mix_sections y bv t0 t1 =
    (if y = Y_TYPE_VALUE then do {
       p0 \<leftarrow> s32 (sint (value0 t0) * uint (weight0 bv));
       p1 \<leftarrow> s32 (sint (value0 t1) * uint (weight1 bv));
       sum \<leftarrow> s32 (p0 + p1);
       (let weight = uint (weight0 bv) + uint (weight1 bv) in
        Some (if weight > 0 then (ISP_SUCCESS, zero_weight\<lparr>value0 := of_int (sum sdiv weight)\<rparr>)
              else (ISP_ERROR, zero_weight))) }
     else if y = Y_TYPE_WEIGHT_VALUE then
       Some (ISP_SUCCESS,
         (if weight1 bv = 0 then t0
          else if weight0 bv = 0 then t1
          else \<lparr>value0 = dominant_value t0, value1 = dominant_value t1, weight0 = weight0 bv, weight1 = weight1 bv\<rparr>))
     else Some (ISP_ERROR, zero_weight))"

definition calc_bv_ct :: "component_cfg \<Rightarrow> int \<Rightarrow> int \<Rightarrow> (int \<times> isp_weight_value) option" where
  "calc_bv_ct cfg bv ct = do {
     (rtn, s) \<leftarrow> smart_ctl_calc_bv_section (bv_range cfg) (section_num cfg) bv zero_weight;
     (if rtn \<noteq> ISP_SUCCESS then Some (rtn, zero_weight)
      else do {
        (rtn, t0) \<leftarrow> calc_section cfg ct (scast (value0 s)) (weight0 s);
        (if rtn \<noteq> ISP_SUCCESS then Some (rtn, zero_weight)
         else do {
           (rtn, t1) \<leftarrow> calc_section cfg ct (scast (value1 s)) (weight1 s);
           (if rtn \<noteq> ISP_SUCCESS then Some (rtn, zero_weight)
            else mix_sections (y_type cfg) s t0 t1) }) }) }"

definition calc_func0 :: "component_cfg \<Rightarrow> int \<Rightarrow> (int \<times> isp_weight_value) option" where
  "calc_func0 cfg x = do { f \<leftarrow> byte_at 0 (func cfg); smart_crl_calc_func f (y_type cfg) x zero_weight }"

definition smart_ctl_calc_component ::
    "component_cfg \<Rightarrow> u32 \<Rightarrow> u32 \<Rightarrow> u32 \<Rightarrow> component_result \<Rightarrow> (int \<times> component_result) option" where
  "smart_ctl_calc_component cfg bv bv_gain ct result = do {
     (rtn, r) \<leftarrow>
       (if x_type cfg = X_TYPE_BV then calc_func0 cfg (sint bv)
        else if x_type cfg = X_TYPE_BV_GAIN then calc_func0 cfg (sint bv_gain)
        else if x_type cfg = X_TYPE_CT then calc_func0 cfg (sint ct)
        else if x_type cfg = X_TYPE_BV_CT then calc_bv_ct cfg (sint bv) (sint ct)
        else Some (ISP_ERROR, zero_weight));
     Some (if rtn \<noteq> ISP_SUCCESS then (ISP_ERROR, result)
       else if y_type cfg = Y_TYPE_VALUE then
         (ISP_SUCCESS, result\<lparr>ctype := y_type cfg, csize := 4, fix_data := put_value (scast (value0 r)) (fix_data result)\<rparr>)
       else if y_type cfg = Y_TYPE_WEIGHT_VALUE then
         (ISP_SUCCESS, result\<lparr>ctype := y_type cfg, csize := 8, fix_data := put_weight_value r (fix_data result)\<rparr>)
       else (ISP_ERROR, result\<lparr>ctype := y_type cfg\<rparr>)) }"

definition smart_ctl_calc_component_flash :: "component_cfg \<Rightarrow> component_result \<Rightarrow> int \<times> component_result" where
  "smart_ctl_calc_component_flash cfg result =
    (if y_type cfg = Y_TYPE_VALUE then
       (ISP_SUCCESS, result\<lparr>ctype := y_type cfg, csize := 4, fix_data := put_value (flash_val cfg) (fix_data result)\<rparr>)
     else if y_type cfg = Y_TYPE_WEIGHT_VALUE then
       (ISP_SUCCESS, result\<lparr>ctype := y_type cfg, csize := 8, fix_data :=
          put_weight_value \<lparr>value0 = ucast (flash_val cfg), value1 = 0, weight0 = 256, weight1 = 0\<rparr> (fix_data result)\<rparr>)
     else (ISP_ERROR, result\<lparr>ctype := y_type cfg\<rparr>))"

record block_cfg =
  enable :: u32
  cfg_smart_id :: u32
  cfg_block_id :: u32
  component_num :: u32
  components :: "component_cfg list"      \<comment> \<open>4 entries\<close>

record block_result =
  block_id :: u32
  smart_id :: u32
  update :: u32
  result_num :: u32
  results :: "component_result list"      \<comment> \<open>4 entries\<close>

fun ranges_check :: "nat \<Rightarrow> nat \<Rightarrow> isp_range list \<Rightarrow> bool option" where
  "ranges_check 0 k rs = Some True"
| "ranges_check (Suc n) k rs = do {
     r \<leftarrow> byte_at k rs;
     (if sint (rmin r) > sint (rmax r) then Some False
      else if n = 0 then Some True
      else do {
        r' \<leftarrow> byte_at (k + 1) rs;
        (if sint (rmax r) > sint (rmin r') then Some False else ranges_check n (k + 1) rs) }) }"

abbreviation (input) ISP_SMART_MAX :: u32 where "ISP_SMART_MAX \<equiv> 25"
abbreviation (input) ISP_BLK_ID_MAX :: u32 where "ISP_BLK_ID_MAX \<equiv> 0x300A"

fun components_check :: "nat \<Rightarrow> nat \<Rightarrow> block_cfg \<Rightarrow> int option" where
  "components_check 0 i blk = Some ISP_SUCCESS"
| "components_check (Suc n) i blk =
     (if cfg_smart_id blk \<ge> ISP_SMART_MAX then Some ISP_ERROR
      else if cfg_block_id blk \<ge> ISP_BLK_ID_MAX then Some ISP_ERROR
      else do {
        c \<leftarrow> byte_at i (components blk);
        ok \<leftarrow> ranges_check (unat (section_num c)) 0 (bv_range c);
        (if ok then components_check n (i + 1) blk else Some ISP_ERROR) })"

definition smart_ctl_check_block_param :: "block_cfg \<Rightarrow> int option" where
  "smart_ctl_check_block_param blk = components_check (unat (component_num blk)) 0 blk"

abbreviation (input) SMART_CTRL_FLASH_MAIN :: u32 where "SMART_CTRL_FLASH_MAIN \<equiv> 2"

definition calc_one :: "component_cfg \<Rightarrow> u32 \<Rightarrow> u32 \<Rightarrow> u32 \<Rightarrow> u32 \<Rightarrow> component_result \<Rightarrow> (int \<times> component_result) option" where
  "calc_one cfg bv bv_gain ct flash_mode c =
    (if flash_mode \<noteq> SMART_CTRL_FLASH_MAIN \<or> use_flash_val cfg \<noteq> 1
     then smart_ctl_calc_component cfg bv bv_gain ct c
     else Some (smart_ctl_calc_component_flash cfg c))"

text \<open>The components from \<open>i\<close> on: \<open>c\<close> is the result they share, \<open>n\<close> counts the successes.\<close>

fun calc_components :: "nat \<Rightarrow> nat \<Rightarrow> block_cfg \<Rightarrow> u32 \<Rightarrow> u32 \<Rightarrow> u32 \<Rightarrow> u32 \<Rightarrow> component_result \<Rightarrow> u32 \<Rightarrow> block_result
    \<Rightarrow> (u32 \<times> block_result) option" where
  "calc_components 0 i blk bv bv_gain ct flash_mode c n result = Some (n, result)"
| "calc_components (Suc k) i blk bv bv_gain ct flash_mode c n result = do {
     cfg \<leftarrow> byte_at i (components blk);
     (rtn, c) \<leftarrow> calc_one cfg bv bv_gain ct flash_mode c;
     (if rtn = ISP_SUCCESS then do {
        rs \<leftarrow> put_bytes i [c] (results result);
        calc_components k (i + 1) blk bv bv_gain ct flash_mode c (n + 1) (result\<lparr>results := rs, update := 1\<rparr>) }
      else calc_components k (i + 1) blk bv bv_gain ct flash_mode c n result) }"

definition zero_component :: component_result where
  "zero_component = \<lparr>ctype = 0, csize = 0, fix_data = [0, 0, 0, 0]\<rparr>"

definition smart_ctl_calc_block ::
    "block_cfg \<Rightarrow> u32 \<Rightarrow> u32 \<Rightarrow> u32 \<Rightarrow> u32 \<Rightarrow> block_result \<Rightarrow> (int \<times> block_result) option" where
  "smart_ctl_calc_block cfg bv bv_gain ct flash_mode result =
    (if enable cfg = 0 then Some (ISP_SUCCESS, result)
     else do {
       rtn \<leftarrow> smart_ctl_check_block_param cfg;
       (if rtn \<noteq> ISP_SUCCESS then Some (rtn, result)
        else do {
          (update_num, result) \<leftarrow> calc_components (unat (if component_num cfg > 4 then 4 else component_num cfg)) 0 cfg
             bv bv_gain ct flash_mode zero_component 0 result;
          Some (ISP_SUCCESS,
            if update_num > 0 then
              result\<lparr>block_id := cfg_block_id cfg, result_num := update_num, update := 1, smart_id := cfg_smart_id cfg\<rparr>
            else result) }) })"

text \<open>What the blocks of the image processor ask of a result.\<close>

fun values_check :: "nat \<Rightarrow> nat \<Rightarrow> component_result list \<Rightarrow> isp_range \<Rightarrow> u32 \<Rightarrow> int option" where
  "values_check 0 i rs rg type = Some ISP_SUCCESS"
| "values_check (Suc n) i rs rg type = do {
     c0 \<leftarrow> byte_at 0 rs;
     (if type \<noteq> ctype c0 then Some ISP_ERROR
      else do {
        c \<leftarrow> byte_at i rs;
        (if type = Y_TYPE_VALUE then
           (let v = sint (fix_data c ! 0) in
            if v < sint (rmin rg) \<or> v > sint (rmax rg) then Some ISP_ERROR
            else values_check n (i + 1) rs rg type)
         else if type = Y_TYPE_WEIGHT_VALUE then
           (let w = get_weight_value (fix_data c) in
            if sint (value0 w) < sint (rmin rg) \<or> sint (value0 w) > sint (rmax rg) then Some ISP_ERROR
            else if sint (value1 w) < sint (rmin rg) \<or> sint (value1 w) > sint (rmax rg) then Some ISP_ERROR
            else values_check n (i + 1) rs rg type)
         else values_check n (i + 1) rs rg type) }) }"

definition pm_check_smart_param :: "block_result option \<Rightarrow> isp_range \<Rightarrow> u32 \<Rightarrow> u32 \<Rightarrow> int option" where
  "pm_check_smart_param block_result rg comp_num type =
    (case block_result of
       None \<Rightarrow> Some ISP_ERROR
     | Some b \<Rightarrow>
         (if comp_num \<noteq> result_num b then Some ISP_ERROR
          else if update b = 0 then Some ISP_ERROR
          else values_check (unat comp_num) 0 (results b) rg type))"

subsection \<open>Reading off a table\<close>

definition table_ok :: "isp_piecewise_func \<Rightarrow> bool" where
  "table_ok f \<longleftrightarrow> 0 < fnum f \<and> unat (fnum f) \<le> length (samples f) \<and> length (samples f) = 16"

definition tab_x :: "isp_piecewise_func \<Rightarrow> nat \<Rightarrow> int" where
  "tab_x f i = sint (smp_x (samples f ! i))"

definition tab_y :: "isp_piecewise_func \<Rightarrow> nat \<Rightarrow> int" where
  "tab_y f i = sint (smp_y (samples f ! i))"

text \<open>No section is so long and steep that the product of its sides leaves \<open>int\<close>.\<close>

definition spans_ok :: "isp_piecewise_func \<Rightarrow> bool" where
  "spans_ok f \<longleftrightarrow> list_all (\<lambda>j. \<bar>(tab_x f (j + 1) - tab_x f j) * (tab_y f (j + 1) - tab_y f j)\<bar> < 2 ^ 31) [0..<unat (fnum f) - 1]"

lemma sint_s16: "- 32768 \<le> sint (w :: u16) \<and> sint w < 32768"
  using sint_range_size [of w] by (simp add: word_size)

lemma sint_of_int_s16: "- 32768 \<le> v \<Longrightarrow> v < 32768 \<Longrightarrow> sint (of_int v :: u16) = v"
  by (simp add: signed_of_int signed_take_bit_int_eq_self)

lemma s32_Some: "- (2 ^ 31) \<le> x \<Longrightarrow> x < 2 ^ 31 \<Longrightarrow> s32 x = Some x"
  by (simp add: s32_def)

lemma section_loop_finds:
  assumes "sint (smp_x (ss ! i)) \<le> x" and "x < sint (smp_x (ss ! (i + k)))" and "i + k < length ss"
  obtains j where "i \<le> j" "j < i + k" "section_loop k i ss x = Some (Some (ss ! j, ss ! (j + 1)))"
    "sint (smp_x (ss ! j)) \<le> x" "x < sint (smp_x (ss ! (j + 1)))"
  using assms
proof (induction k arbitrary: i thesis)
  case (Suc k)
  show ?case
  proof (cases "x < sint (smp_x (ss ! (i + 1)))")
    case True
    then show ?thesis using Suc.prems(1) [of i] Suc.prems(2-) by (simp add: byte_at_def)
  next
    case False
    obtain j where "i + 1 \<le> j" "j < i + 1 + k" "section_loop k (i + 1) ss x = Some (Some (ss ! j, ss ! (j + 1)))"
        "sint (smp_x (ss ! j)) \<le> x" "x < sint (smp_x (ss ! (j + 1)))"
      by (rule Suc.IH [of "i + 1"]) (use False Suc.prems(3,4) in auto)
    then show ?thesis using Suc.prems(1) [of j] Suc.prems(2,4) False by (simp add: byte_at_def)
  qed
qed simp

text \<open>A brightness lies before the table, behind it or in a section, whatever the order of the samples.\<close>

definition in_section :: "isp_piecewise_func \<Rightarrow> int \<Rightarrow> nat \<Rightarrow> bool" where
  "in_section f x j \<longleftrightarrow> j + 1 < unat (fnum f) \<and> tab_x f 0 < x \<and> x < tab_x f (unat (fnum f) - 1) \<and>
     tab_x f j \<le> x \<and> x < tab_x f (j + 1) \<and>
     section_loop (unat (fnum f - 1)) 0 (samples f) x = Some (Some (samples f ! j, samples f ! (j + 1)))"

lemma fnum_pred: "table_ok f \<Longrightarrow> unat (fnum f - 1) = unat (fnum f) - 1"
  by (simp add: table_ok_def unat_minus_one word_neq_0_conv)

lemma table_cases:
  assumes "table_ok f"
  obtains (before) "x \<le> tab_x f 0" | (behind) "tab_x f 0 < x" "tab_x f (unat (fnum f) - 1) \<le> x" | (inside) j where "in_section f x j"
proof -
  have n: "0 < unat (fnum f)" "unat (fnum f) \<le> length (samples f)"
    using assms by (simp_all add: table_ok_def unat_gt_0 word_neq_0_conv)
  consider "x \<le> tab_x f 0" | "tab_x f 0 < x" "tab_x f (unat (fnum f) - 1) \<le> x" | "tab_x f 0 < x" "x < tab_x f (unat (fnum f) - 1)"
    by linarith
  then show ?thesis
  proof cases
    case 3
    obtain j where j: "0 \<le> j" "j < 0 + unat (fnum f - 1)"
        "section_loop (unat (fnum f - 1)) 0 (samples f) x = Some (Some (samples f ! j, samples f ! (j + 1)))"
        "sint (smp_x (samples f ! j)) \<le> x" "x < sint (smp_x (samples f ! (j + 1)))"
      by (rule section_loop_finds [of "samples f" 0 x "unat (fnum f - 1)"])
        (use 3 n fnum_pred [OF assms] in \<open>simp_all add: tab_x_def\<close>)
    then have "in_section f x j"
      using 3 fnum_pred [OF assms] by (simp add: in_section_def tab_x_def)
    then show ?thesis by (rule inside)
  qed (rule before behind; assumption)+
qed

lemma table_reads:
  assumes "table_ok f"
  shows "fnum f \<noteq> 0" "byte_at 0 (samples f) = Some (samples f ! 0)"
    "byte_at (unat (fnum f - 1)) (samples f) = Some (samples f ! (unat (fnum f) - 1))"
  using assms fnum_pred [OF assms] unat_gt_0 [of "fnum f"]
  by (auto simp: table_ok_def byte_at_def word_neq_0_conv)

text \<open>The part of a section up to \<open>t\<close> of \<open>d\<close>, of a rise of \<open>e\<close>.\<close>

lemma sdiv_pos: "0 \<le> (a :: int) \<Longrightarrow> 0 < d \<Longrightarrow> a sdiv d = a div d"
  by (auto simp: signed_divide_int_def sgn_if)

lemma sdiv_neg: "0 \<le> (a :: int) \<Longrightarrow> 0 < d \<Longrightarrow> (- a) sdiv d = - (a div d)"
  by (auto simp: signed_divide_int_def sgn_if)

lemma rise_part:
  assumes "0 \<le> (t :: int)" and "t < d"
  shows "min 0 e \<le> (t * e) sdiv d" and "(t * e) sdiv d \<le> max 0 e" and "\<bar>t * e\<bar> \<le> \<bar>d * e\<bar>"
proof -
  have *: "0 \<le> t * u \<and> (t * u) div d \<le> u" if "0 \<le> u" for u
    using assms that zdiv_mono1 [of "t * u" "d * u" d] by (simp add: mult_right_mono)
  show "min 0 e \<le> (t * e) sdiv d" "(t * e) sdiv d \<le> max 0 e"
  proof -
    have "min 0 e \<le> (t * e) sdiv d \<and> (t * e) sdiv d \<le> max 0 e"
    proof (cases "0 \<le> e")
      case True
      then show ?thesis using * [OF True] assms by (simp add: sdiv_pos pos_imp_zdiv_nonneg_iff)
    next
      case False
      then have "0 \<le> - e" by simp
      note u = * [OF this]
      have "(t * e) sdiv d = - ((t * - e) div d)" using sdiv_neg [of "t * - e" d] u assms by simp
      moreover have "0 \<le> (t * - e) div d" using u assms by (simp add: pos_imp_zdiv_nonneg_iff)
      ultimately show ?thesis using u False by simp
    qed
    then show "min 0 e \<le> (t * e) sdiv d" "(t * e) sdiv d \<le> max 0 e" by simp_all
  qed
  show "\<bar>t * e\<bar> \<le> \<bar>d * e\<bar>" using assms by (simp add: abs_mult mult_right_mono)
qed

text \<open>The weight of the first sample: its share of 256, rounded down.\<close>

lemma weight_words:
  assumes "0 < d" and "d \<le> D" and "D < 65536"
  shows "uint (ucast ((of_int d * 256) div of_int D :: u32) :: u16) = d * 256 div D"
    and "uint (ucast (256 - ucast (ucast ((of_int d * 256) div of_int D :: u32) :: u16) :: u32) :: u16) = 256 - d * 256 div D"
    and "0 \<le> d * 256 div D" and "d * 256 div D \<le> 256"
proof -
  show le: "d * 256 div D \<le> 256"
    using assms zdiv_mono1 [of "d * 256" "D * 256" D] by simp
  show ge: "0 \<le> d * 256 div D" using assms by (simp add: pos_imp_zdiv_nonneg_iff)
  have "uint (of_int d * 256 :: u32) = d * 256" "uint (of_int D :: u32) = D"
    using assms by (simp_all add: uint_word_ariths uint_word_of_int)
  then have w: "uint ((of_int d * 256) div of_int D :: u32) = d * 256 div D" by (simp add: uint_div_distrib)
  show u: "uint (ucast ((of_int d * 256) div of_int D :: u32) :: u16) = d * 256 div D"
    using w le ge by (simp add: unsigned_ucast_eq take_bit_eq_mod)
  have "uint (ucast (ucast ((of_int d * 256) div of_int D :: u32) :: u16) :: u32) = d * 256 div D"
    using u by (simp add: uint_up_ucast is_up)
  then have "uint (256 - ucast (ucast ((of_int d * 256) div of_int D :: u32) :: u16) :: u32) = 256 - d * 256 div D"
    using le ge by (simp add: uint_word_ariths)
  then show "uint (ucast (256 - ucast (ucast ((of_int d * 256) div of_int D :: u32) :: u16) :: u32) :: u16) = 256 - d * 256 div D"
    using le ge by (simp add: unsigned_ucast_eq take_bit_eq_mod)
qed

definition part_y :: "isp_piecewise_func \<Rightarrow> nat \<Rightarrow> int \<Rightarrow> int" where
  "part_y f j x = tab_y f j + ((x - tab_x f j) * (tab_y f (j + 1) - tab_y f j)) sdiv (tab_x f (j + 1) - tab_x f j)"

lemma part_y_between:
  assumes "in_section f x j"
  shows "min (tab_y f j) (tab_y f (j + 1)) \<le> part_y f j x \<and> part_y f j x \<le> max (tab_y f j) (tab_y f (j + 1))"
  using rise_part(1,2) [of "x - tab_x f j" "tab_x f (j + 1) - tab_x f j" "tab_y f (j + 1) - tab_y f j"] assms
  by (auto simp: part_y_def in_section_def)

lemma v0_outside:
  assumes "table_ok f"
  shows "x \<le> tab_x f 0 \<Longrightarrow> smart_ctl_piecewise_func_v0 f x r = Some (ISP_SUCCESS, tab_y f 0)"
    and "tab_x f 0 < x \<Longrightarrow> tab_x f (unat (fnum f) - 1) \<le> x \<Longrightarrow>
      smart_ctl_piecewise_func_v0 f x r = Some (ISP_SUCCESS, tab_y f (unat (fnum f) - 1))"
  using table_reads [OF assms] by (simp_all add: smart_ctl_piecewise_func_v0_def tab_x_def tab_y_def)

lemma v0_inside:
  assumes "table_ok f" and "spans_ok f" and "in_section f x j"
  shows "smart_ctl_piecewise_func_v0 f x r = Some (ISP_SUCCESS, part_y f j x)"
proof -
  note sec = assms(3) [unfolded in_section_def]
  let ?t = "x - tab_x f j" and ?d = "tab_x f (j + 1) - tab_x f j" and ?e = "tab_y f (j + 1) - tab_y f j"
  have "\<bar>?d * ?e\<bar> < 2 ^ 31" using assms(2) sec unfolding spans_ok_def list_all_iff by (elim ballE [of _ _ j]) auto
  then have "s32 (?t * ?e) = Some (?t * ?e)"
    using rise_part(3) [of ?t ?d ?e] sec by (intro s32_Some) auto
  moreover have "s32 (part_y f j x) = Some (part_y f j x)"
    using part_y_between [OF assms(3)] sint_s16 [of "smp_y (samples f ! j)"] sint_s16 [of "smp_y (samples f ! (j + 1))"]
    by (intro s32_Some) (auto simp: tab_y_def)
  ultimately show ?thesis
    using table_reads [OF assms(1)] sec
    by (simp add: smart_ctl_piecewise_func_v0_def part_y_def tab_x_def tab_y_def)
qed

lemma v1_outside:
  assumes "table_ok f"
  shows "x \<le> tab_x f 0 \<Longrightarrow> smart_ctl_piecewise_func_v1 f x 256 r =
      Some (ISP_SUCCESS, \<lparr>value0 = smp_y (samples f ! 0), value1 = smp_y (samples f ! 0), weight0 = 256, weight1 = 0\<rparr>)"
    and "tab_x f 0 < x \<Longrightarrow> tab_x f (unat (fnum f) - 1) \<le> x \<Longrightarrow> smart_ctl_piecewise_func_v1 f x 256 r =
      Some (ISP_SUCCESS, \<lparr>value0 = smp_y (samples f ! (unat (fnum f) - 1)), value1 = smp_y (samples f ! (unat (fnum f) - 1)),
        weight0 = 256, weight1 = 0\<rparr>)"
  using table_reads [OF assms] by (simp_all add: smart_ctl_piecewise_func_v1_def tab_x_def)

lemma v1_inside:
  assumes "table_ok f" and "in_section f x j"
  obtains w where "smart_ctl_piecewise_func_v1 f x 256 r = Some (ISP_SUCCESS, w)"
    "value0 w = smp_y (samples f ! j)" "value1 w = smp_y (samples f ! (j + 1))"
    "uint (weight0 w) = (tab_x f (j + 1) - x) * 256 div (tab_x f (j + 1) - tab_x f j)" "uint (weight0 w) + uint (weight1 w) = 256"
proof -
  note sec = assms(2) [unfolded in_section_def]
  let ?d = "tab_x f (j + 1) - x" and ?D = "tab_x f (j + 1) - tab_x f j"
  have D: "0 < ?d" "?d \<le> ?D" "?D < 65536"
    using sec sint_s16 [of "smp_x (samples f ! j)"] sint_s16 [of "smp_x (samples f ! (j + 1))"] by (auto simp: tab_x_def)
  let ?w = "ucast ((of_int ?d * 256) div of_int ?D :: u32) :: u16"
  have "smart_ctl_piecewise_func_v1 f x 256 r =
      Some (ISP_SUCCESS, \<lparr>value0 = smp_y (samples f ! j), value1 = smp_y (samples f ! (j + 1)), weight0 = ?w, weight1 = ucast (256 - ucast ?w :: u32)\<rparr>)"
    using table_reads [OF assms(1)] sec D by (simp add: smart_ctl_piecewise_func_v1_def tab_x_def Let_def)
  from that [OF this] show ?thesis by (simp only: isp_weight_value.simps weight_words(1,2) [OF D])
qed

lemma table_reading:
  assumes "table_ok f"
  shows "\<exists>i < unat (fnum f). \<exists>j < unat (fnum f). \<exists>w.
    smart_ctl_piecewise_func_v1 f x 256 r = Some (ISP_SUCCESS, w) \<and>
    sint (value0 w) = tab_y f i \<and> sint (value1 w) = tab_y f j \<and> uint (weight0 w) + uint (weight1 w) = 256 \<and>
    (spans_ok f \<longrightarrow> (\<exists>v. smart_ctl_piecewise_func_v0 f x r' = Some (ISP_SUCCESS, v) \<and>
       min (tab_y f i) (tab_y f j) \<le> v \<and> v \<le> max (tab_y f i) (tab_y f j)))"
proof -
  have n: "0 < unat (fnum f)" using assms by (simp add: table_ok_def unat_gt_0 word_neq_0_conv)
  show ?thesis
    using assms
  proof (cases rule: table_cases [where x = x])
    case before
    then show ?thesis
      using v0_outside(1) [OF assms] v1_outside(1) [OF assms]
      by (intro exI [of _ 0] conjI [OF n]) (simp add: tab_y_def)
  next
    case behind
    then show ?thesis
      using v0_outside(2) [OF assms] v1_outside(2) [OF assms] n
      by (intro exI [of _ "unat (fnum f) - 1"] conjI) (auto simp: tab_y_def)
  next
    case (inside j)
    obtain w where w: "smart_ctl_piecewise_func_v1 f x 256 r = Some (ISP_SUCCESS, w)"
        "value0 w = smp_y (samples f ! j)" "value1 w = smp_y (samples f ! (j + 1))" "uint (weight0 w) + uint (weight1 w) = 256"
      by (rule v1_inside [OF assms inside]) (rule that)
    have j: "j < unat (fnum f)" "j + 1 < unat (fnum f)" using inside by (simp_all add: in_section_def)
    show ?thesis
      by (rule exI [of _ j], rule conjI [OF j(1)], rule exI [of _ "j + 1"], rule conjI [OF j(2)], rule exI [of _ w])
        (use w v0_inside [OF assms _ inside] part_y_between [OF inside] in \<open>simp add: tab_y_def\<close>)
  qed
qed

text \<open>
  C22. Reading off a table never fails and never leaves it: for every table of one to sixteen
  samples, in whatever order, and every brightness, there are two samples (the neighbours) such
  that the weighted variant gives their values with weights that add up to 256, and the plain
  variant gives a value between theirs, unless its product overflows. So the error for a
  brightness in no section and the division by zero the code guards against never occur.
\<close>

theorem reading_stays_between_samples:
  assumes "table_ok f"
  shows "\<exists>i < unat (fnum f). \<exists>j < unat (fnum f). \<exists>w.
    smart_ctl_piecewise_func_v1 f x 256 r = Some (ISP_SUCCESS, w) \<and>
    sint (value0 w) = tab_y f i \<and> sint (value1 w) = tab_y f j \<and> uint (weight0 w) + uint (weight1 w) = 256 \<and>
    (spans_ok f \<longrightarrow> (\<exists>v. smart_ctl_piecewise_func_v0 f x r' = Some (ISP_SUCCESS, v) \<and>
       min (tab_y f i) (tab_y f j) \<le> v \<and> v \<le> max (tab_y f i) (tab_y f j)))"
  by (rule table_reading [OF assms])

text \<open>A gain table, from full strength in the dark to none in bright light.\<close>

definition demo_func :: isp_piecewise_func where
  "demo_func = \<lparr>fnum = 3, samples = [\<lparr>smp_x = 0, smp_y = 10\<rparr>, \<lparr>smp_x = 50, smp_y = 30\<rparr>, \<lparr>smp_x = 120, smp_y = 200\<rparr>]
     @ replicate 13 \<lparr>smp_x = 0, smp_y = 0\<rparr>\<rparr>"

lemma demo_func_ok: "table_ok demo_func" "spans_ok demo_func"
  by (simp_all add: demo_func_def table_ok_def spans_ok_def tab_x_def tab_y_def upt_rec)

theorem reading_stays_between_samples_witness:
  "\<exists>i < 3. \<exists>j < 3. \<exists>w. smart_ctl_piecewise_func_v1 demo_func 70 256 zero_weight = Some (0, w) \<and>
     sint (value0 w) = tab_y demo_func i \<and> sint (value1 w) = tab_y demo_func j \<and> uint (weight0 w) + uint (weight1 w) = 256 \<and>
     (\<exists>v. smart_ctl_piecewise_func_v0 demo_func 70 0 = Some (0, v) \<and>
       min (tab_y demo_func i) (tab_y demo_func j) \<le> v \<and> v \<le> max (tab_y demo_func i) (tab_y demo_func j))"
proof -
  have "unat (fnum demo_func) = 3" by (simp add: demo_func_def)
  then show ?thesis
    using reading_stays_between_samples [OF demo_func_ok(1), of 70 zero_weight 0] demo_func_ok(2) by simp
qed

definition table_sorted :: "isp_piecewise_func \<Rightarrow> bool" where
  "table_sorted f \<longleftrightarrow> sorted (map (tab_x f) [0..<unat (fnum f)]) \<and> sorted (map (tab_y f) [0..<unat (fnum f)])"

lemma table_sorted_le: "table_sorted f \<Longrightarrow> i \<le> j \<Longrightarrow> j < unat (fnum f) \<Longrightarrow> tab_x f i \<le> tab_x f j \<and> tab_y f i \<le> tab_y f j"
  by (auto simp: table_sorted_def sorted_iff_nth_mono dest!: spec [of _ i])

lemma part_y_mono:
  assumes "in_section f x j" and "in_section f x' j" and "x \<le> x'" and "tab_y f j \<le> tab_y f (j + 1)"
  shows "part_y f j x \<le> part_y f j x'"
proof -
  let ?d = "tab_x f (j + 1) - tab_x f j" and ?e = "tab_y f (j + 1) - tab_y f j"
  have d: "0 < ?d" "0 \<le> x - tab_x f j" "0 \<le> x' - tab_x f j" "0 \<le> ?e" using assms by (auto simp: in_section_def)
  have "(x - tab_x f j) * ?e \<le> (x' - tab_x f j) * ?e" using assms(3) d(4) by (intro mult_right_mono) auto
  then have "(x - tab_x f j) * ?e div ?d \<le> (x' - tab_x f j) * ?e div ?d" using d(1) by (rule zdiv_mono1)
  then show ?thesis using d by (simp add: part_y_def sdiv_pos)
qed

text \<open>
  The plain variant keeps the order of a table: when neither the brightness nor the value of
  the samples ever falls from one sample to the next, a greater brightness never gives a smaller
  value, in spite of the rounding.
\<close>

lemma reading_keeps_order:
  assumes "table_ok f" and "spans_ok f" and "table_sorted f" and "x \<le> x'"
  shows "\<exists>v v'. smart_ctl_piecewise_func_v0 f x r = Some (ISP_SUCCESS, v) \<and>
    smart_ctl_piecewise_func_v0 f x' r' = Some (ISP_SUCCESS, v') \<and> v \<le> v'"
proof -
  let ?n = "unat (fnum f)"
  have n: "0 < ?n" using assms(1) by (simp add: table_ok_def unat_gt_0 word_neq_0_conv)
  note le = table_sorted_le [OF assms(3)]
  have up: "tab_y f 0 \<le> part_y f j y \<and> part_y f j y \<le> tab_y f (?n - 1)" if "in_section f y j" for j y
  proof -
    have "j + 1 \<le> ?n - 1" "j + 1 < ?n" using that by (auto simp: in_section_def)
    then show ?thesis using part_y_between [OF that] le [of 0 j] le [of j "j + 1"] le [of "j + 1" "?n - 1"] by auto
  qed
  show ?thesis
    using assms(1)
  proof (cases rule: table_cases [where x = x])
    case before
    have "\<exists>v'. smart_ctl_piecewise_func_v0 f x' r' = Some (ISP_SUCCESS, v') \<and> tab_y f 0 \<le> v'"
      using assms(1)
      by (cases rule: table_cases [where x = x'])
        (use v0_outside [OF assms(1)] v0_inside [OF assms(1,2)] up le [of 0 "?n - 1"] n in auto)
    then show ?thesis using v0_outside(1) [OF assms(1) before] by auto
  next
    case behind
    then show ?thesis using assms(4) v0_outside(2) [OF assms(1)] by auto
  next
    case (inside j)
    note j = this
    show ?thesis
      using assms(1)
    proof (cases rule: table_cases [where x = x'])
      case before
      then show ?thesis using j assms(4) by (auto simp: in_section_def)
    next
      case behind
      then show ?thesis using v0_inside [OF assms(1,2) j] v0_outside(2) [OF assms(1)] up [OF j] by auto
    next
      case (inside j')
      have "j \<le> j'"
      proof (rule ccontr)
        assume "\<not> j \<le> j'"
        then have "tab_x f (j' + 1) \<le> tab_x f j" using le [of "j' + 1" j] j by (auto simp: in_section_def)
        then show False using j inside assms(4) by (auto simp: in_section_def)
      qed
      have "part_y f j x \<le> part_y f j' x'"
      proof (cases "j = j'")
        case True
        then show ?thesis using part_y_mono [OF j _ assms(4)] inside le [of j "j + 1"] j by (simp add: in_section_def)
      next
        case False
        then have "tab_y f (j + 1) \<le> tab_y f j'" using le [of "j + 1" j'] \<open>j \<le> j'\<close> inside by (auto simp: in_section_def)
        then show ?thesis
          using part_y_between [OF j] part_y_between [OF inside] le [of j "j + 1"] le [of j' "j' + 1"] j inside
          by (auto simp: in_section_def)
      qed
      then show ?thesis using v0_inside [OF assms(1,2) j] v0_inside [OF assms(1,2) inside] by auto
    qed
  qed
qed

lemma reading_keeps_order_witness:
  "\<exists>v v'. smart_ctl_piecewise_func_v0 demo_func 20 0 = Some (0, v) \<and> smart_ctl_piecewise_func_v0 demo_func 51 0 = Some (0, v') \<and> v \<le> v'"
proof -
  have "table_sorted demo_func"
    by (simp add: table_sorted_def demo_func_def tab_x_def tab_y_def upt_rec)
  then show ?thesis using reading_keeps_order [OF demo_func_ok, of 20 51] by simp
qed

subsection \<open>Sections of brightness\<close>

definition ranges_ok :: "nat \<Rightarrow> nat \<Rightarrow> isp_range list \<Rightarrow> bool" where
  "ranges_ok n k rs \<longleftrightarrow> (\<forall>i. k \<le> i \<and> i < k + n \<longrightarrow> sint (rmin (rs ! i)) \<le> sint (rmax (rs ! i)) \<and>
     (i + 1 < k + n \<longrightarrow> sint (rmax (rs ! i)) \<le> sint (rmin (rs ! (i + 1)))))"

lemma ranges_ok_Suc:
  "ranges_ok n (k + 1) rs \<Longrightarrow> sint (rmin (rs ! k)) \<le> sint (rmax (rs ! k)) \<Longrightarrow>
   (n \<noteq> 0 \<longrightarrow> sint (rmax (rs ! k)) \<le> sint (rmin (rs ! (k + 1)))) \<Longrightarrow> ranges_ok (Suc n) k rs"
  unfolding ranges_ok_def
proof (intro allI impI, goal_cases)
  case (1 i)
  then show ?case by (cases "i = k") auto
qed

lemma ranges_check_ok: "ranges_check n k rs = Some True \<Longrightarrow> ranges_ok n k rs"
proof (induction n arbitrary: k)
  case (Suc n)
  show ?case
  proof (cases "n = 0")
    case True
    then show ?thesis using Suc.prems by (auto simp: ranges_ok_def byte_at_def le_less split: if_splits)
  next
    case False
    have "ranges_check n (k + 1) rs = Some True" "sint (rmin (rs ! k)) \<le> sint (rmax (rs ! k))"
        "sint (rmax (rs ! k)) \<le> sint (rmin (rs ! (k + 1)))"
      using Suc.prems False by (auto simp: byte_at_def split: if_splits)
    then show ?thesis using Suc.IH [of "k + 1"] by (intro ranges_ok_Suc) simp_all
  qed
qed (simp add: ranges_ok_def)

lemma bv_loop_finds:
  assumes "ranges_ok (k + 1) i rs" and "sint (rmin (rs ! i)) \<le> bv" and "bv < sint (rmin (rs ! (i + k)))" and "i + k < length rs"
  obtains (one) a where "i \<le> a" "a < i + k" "bv_loop k i rs bv = Some (Some (a, a, 0, 1))"
  | (two) a where "i \<le> a" "a < i + k" "bv_loop k i rs bv =
      Some (Some (a, a + 1, of_int (bv - sint (rmax (rs ! a))), of_int (sint (rmin (rs ! (a + 1))) - bv)))"
    "sint (rmax (rs ! a)) < bv" "bv < sint (rmin (rs ! (a + 1)))"
  using assms
proof (induction k arbitrary: i thesis)
  case (Suc k)
  have "i < length rs" "i + 1 < length rs" using Suc.prems(6) by simp_all
  show ?case
  proof (cases "bv \<le> sint (rmax (rs ! i))")
    case True
    then show ?thesis using Suc.prems(1) [of i] Suc.prems(4) \<open>i < length rs\<close> by (simp add: byte_at_def)
  next
    case False
    show ?thesis
    proof (cases "bv < sint (rmin (rs ! (i + 1)))")
      case True
      then show ?thesis using Suc.prems(2) [of i] False \<open>i < length rs\<close> \<open>i + 1 < length rs\<close> by (simp add: byte_at_def)
    next
      case F: False
      have step: "bv_loop (Suc k) i rs bv = bv_loop k (i + 1) rs bv"
        using False F \<open>i < length rs\<close> \<open>i + 1 < length rs\<close> by (simp add: byte_at_def)
      have r: "ranges_ok (k + 1) (i + 1) rs" using Suc.prems(3) by (auto simp: ranges_ok_def)
      show ?thesis
      proof (rule Suc.IH [of "i + 1"])
        fix a assume "i + 1 \<le> a" "a < i + 1 + k" "bv_loop k (i + 1) rs bv = Some (Some (a, a, 0, 1))"
        then show ?thesis using Suc.prems(1) [of a] step by simp
      next
        fix a assume "i + 1 \<le> a" "a < i + 1 + k" "bv_loop k (i + 1) rs bv =
            Some (Some (a, a + 1, of_int (bv - sint (rmax (rs ! a))), of_int (sint (rmin (rs ! (a + 1))) - bv)))"
          "sint (rmax (rs ! a)) < bv" "bv < sint (rmin (rs ! (a + 1)))"
        then show ?thesis using Suc.prems(2) [of a] step by simp
      qed (use r F Suc.prems(5,6) in simp_all)
    qed
  qed
qed simp

text \<open>The weights of the two sections.\<close>

lemma distance_weights:
  assumes "0 < a" and "0 < b" and "a + b < 65536"
  shows "uint (of_int (uint (of_int b :: u16) * 256 div (uint (of_int a :: u16) + uint (of_int b :: u16))) :: u16) = b * 256 div (a + b)"
    and "uint (256 - of_int (uint (of_int b :: u16) * 256 div (uint (of_int a :: u16) + uint (of_int b :: u16))) :: u16) = 256 - b * 256 div (a + b)"
proof -
  have "b * 256 div (a + b) \<le> (a + b) * 256 div (a + b)" using assms by (intro zdiv_mono1) simp_all
  also have "\<dots> = 256" using assms by (intro nonzero_mult_div_cancel_left) simp
  finally have le: "b * 256 div (a + b) \<le> 256" .
  have ge: "0 \<le> b * 256 div (a + b)" using assms by (simp add: pos_imp_zdiv_nonneg_iff)
  have ab: "uint (of_int a :: u16) = a" "uint (of_int b :: u16) = b" using assms by (simp_all add: uint_word_of_int)
  show *: "uint (of_int (uint (of_int b :: u16) * 256 div (uint (of_int a :: u16) + uint (of_int b :: u16))) :: u16) = b * 256 div (a + b)"
    unfolding ab using le ge by (simp add: uint_word_of_int)
  show "uint (256 - of_int (uint (of_int b :: u16) * 256 div (uint (of_int a :: u16) + uint (of_int b :: u16))) :: u16) = 256 - b * 256 div (a + b)"
    using * le ge by (simp add: uint_word_ariths)
qed

definition section_result :: "nat \<Rightarrow> nat \<Rightarrow> u16 \<Rightarrow> u16 \<Rightarrow> isp_weight_value" where
  "section_result a b d0 d1 = (let w = of_int (uint d1 * 256 div (uint d0 + uint d1)) in
     \<lparr>value0 = of_nat a, value1 = of_nat b, weight0 = w, weight1 = 256 - w\<rparr>)"

text \<open>One section alone, or two neighbours the brightness lies between.\<close>

lemma bv_section_cases:
  assumes "ranges_check (unat num) 0 rs = Some True" and "0 < num" and "unat num \<le> length rs"
  obtains (one) a where "smart_ctl_calc_bv_section rs num bv r = Some (ISP_SUCCESS, section_result a a 0 1)" "a < unat num"
  | (two) a where "smart_ctl_calc_bv_section rs num bv r = Some (ISP_SUCCESS, section_result a (a + 1)
        (of_int (bv - sint (rmax (rs ! a)))) (of_int (sint (rmin (rs ! (a + 1))) - bv)))"
      "a + 1 < unat num" "sint (rmax (rs ! a)) < bv" "bv < sint (rmin (rs ! (a + 1)))"
proof -
  let ?n = "unat num"
  have n: "0 < ?n" "unat (num - 1) = ?n - 1" using assms(2) by (simp_all add: unat_gt_0 unat_minus_one word_neq_0_conv)
  have ok: "ranges_ok ?n 0 rs" by (rule ranges_check_ok [OF assms(1)])
  have reads: "byte_at 0 rs = Some (rs ! 0)" "byte_at (?n - 1) rs = Some (rs ! (?n - 1))" "\<not> num < 1"
    using n assms(2,3) by (auto simp: byte_at_def word_less_1)
  note def = smart_ctl_calc_bv_section_def section_result_def
  consider "bv \<le> sint (rmax (rs ! 0))" | "sint (rmax (rs ! 0)) < bv" "sint (rmin (rs ! (?n - 1))) \<le> bv"
    | "sint (rmax (rs ! 0)) < bv" "bv < sint (rmin (rs ! (?n - 1)))" by linarith
  then show ?thesis
  proof cases
    case 1
    then show ?thesis using one [of 0] n reads by (simp add: def Let_def)
  next
    case 2
    then show ?thesis using one [of "?n - 1"] n reads by (simp add: def Let_def)
  next
    case 3
    have "ranges_ok (?n - 1 + 1) 0 rs" using ok n by simp
    moreover have "sint (rmin (rs ! 0)) \<le> bv" using ok n 3 by (auto simp: ranges_ok_def)
    ultimately show ?thesis
    proof (rule bv_loop_finds [where k = "?n - 1" and i = 0 and rs = rs and bv = bv])
      fix a assume "a < 0 + (?n - 1)" "bv_loop (?n - 1) 0 rs bv = Some (Some (a, a, 0, 1))"
      then show ?thesis using one [of a] n reads 3 by (simp add: def Let_def)
    next
      fix a assume "a < 0 + (?n - 1)" "bv_loop (?n - 1) 0 rs bv =
            Some (Some (a, a + 1, of_int (bv - sint (rmax (rs ! a))), of_int (sint (rmin (rs ! (a + 1))) - bv)))"
          "sint (rmax (rs ! a)) < bv" "bv < sint (rmin (rs ! (a + 1)))"
      then show ?thesis using two [of a] n reads 3 by (simp add: def Let_def)
    qed (use 3 n assms(3) in simp_all)
  qed
qed

lemma section_one [simp]: "section_result a a 0 1 = \<lparr>value0 = of_nat a, value1 = of_nat a, weight0 = 256, weight1 = 0\<rparr>"
  by (simp add: section_result_def)

lemma section_two:
  assumes "sint p < bv" and "bv < sint (q :: u16)"
  shows "uint (weight0 (section_result a b (of_int (bv - sint (p :: u16))) (of_int (sint q - bv)))) = (sint q - bv) * 256 div (sint q - sint p)"
    and "uint (weight0 (section_result a b (of_int (bv - sint p)) (of_int (sint q - bv)))) +
         uint (weight1 (section_result a b (of_int (bv - sint p)) (of_int (sint q - bv)))) = 256"
proof -
  have "0 < bv - sint p" "0 < sint q - bv" "bv - sint p + (sint q - bv) < 65536"
    using assms sint_s16 [of p] sint_s16 [of q] by auto
  from distance_weights [OF this]
  show "uint (weight0 (section_result a b (of_int (bv - sint (p :: u16))) (of_int (sint q - bv)))) = (sint q - bv) * 256 div (sint q - sint p)"
    "uint (weight0 (section_result a b (of_int (bv - sint p)) (of_int (sint q - bv)))) +
         uint (weight1 (section_result a b (of_int (bv - sint p)) (of_int (sint q - bv)))) = 256"
    by (simp_all only: section_result_def Let_def isp_weight_value.simps) simp_all
qed

subsection \<open>A component\<close>

definition in_range :: "isp_range \<Rightarrow> int \<Rightarrow> bool" where
  "in_range rg v \<longleftrightarrow> sint (rmin rg) \<le> v \<and> v \<le> sint (rmax rg)"

definition good_table :: "isp_range \<Rightarrow> isp_piecewise_func \<Rightarrow> bool" where
  "good_table rg f \<longleftrightarrow> table_ok f \<and> spans_ok f \<and> list_all (\<lambda>i. in_range rg (tab_y f i)) [0..<unat (fnum f)]"

definition used_tables :: "component_cfg \<Rightarrow> nat" where
  "used_tables cfg = (if x_type cfg = X_TYPE_BV_CT then unat (section_num cfg) else 1)"

definition component_ok :: "isp_range \<Rightarrow> component_cfg \<Rightarrow> bool" where
  "component_ok rg cfg \<longleftrightarrow> x_type cfg \<le> X_TYPE_BV_CT \<and> (y_type cfg = Y_TYPE_VALUE \<or> y_type cfg = Y_TYPE_WEIGHT_VALUE) \<and>
     length (func cfg) = 8 \<and> length (bv_range cfg) = 8 \<and> unat (section_num cfg) \<le> 8 \<and> 0 < used_tables cfg \<and>
     list_all (good_table rg) (take (used_tables cfg) (func cfg)) \<and>
     ranges_check (unat (section_num cfg)) 0 (bv_range cfg) = Some True"

text \<open>What a read gives: a value in the range, or two and their weights.\<close>

definition value_in :: "isp_range \<Rightarrow> u32 \<Rightarrow> isp_weight_value \<Rightarrow> bool" where
  "value_in rg y w \<longleftrightarrow> in_range rg (sint (value0 w)) \<and>
     (y = Y_TYPE_WEIGHT_VALUE \<longrightarrow> in_range rg (sint (value1 w)) \<and> uint (weight0 w) + uint (weight1 w) = 256)"

lemma in_range_s16: "in_range rg v \<Longrightarrow> sint (of_int v :: u16) = v"
  using sint_s16 [of "rmin rg"] sint_s16 [of "rmax rg"] by (simp add: in_range_def sint_of_int_s16)

lemma in_range_between: "in_range rg a \<Longrightarrow> in_range rg b \<Longrightarrow> min a b \<le> v \<Longrightarrow> v \<le> max a b \<Longrightarrow> in_range rg v"
  by (auto simp: in_range_def)

lemma calc_func_in:
  assumes "good_table rg f" and "y = Y_TYPE_VALUE \<or> y = Y_TYPE_WEIGHT_VALUE"
  obtains w where "smart_crl_calc_func f y x r = Some (ISP_SUCCESS, w)" "value_in rg y w"
proof -
  have ok: "table_ok f" "spans_ok f" and rg: "\<And>i. i < unat (fnum f) \<Longrightarrow> in_range rg (tab_y f i)"
    using assms(1) by (auto simp: good_table_def list_all_iff)
  obtain i j w v where r: "i < unat (fnum f)" "j < unat (fnum f)"
      "smart_ctl_piecewise_func_v1 f x 256 r = Some (ISP_SUCCESS, w)" "sint (value0 w) = tab_y f i" "sint (value1 w) = tab_y f j"
      "uint (weight0 w) + uint (weight1 w) = 256"
      "smart_ctl_piecewise_func_v0 f x 0 = Some (ISP_SUCCESS, v)" "min (tab_y f i) (tab_y f j) \<le> v" "v \<le> max (tab_y f i) (tab_y f j)"
    using table_reading [OF ok(1), of x r 0] ok(2) by blast
  have "in_range rg v" using in_range_between rg r by blast
  then show ?thesis
    using that assms(2) r(3-7) rg [OF r(1)] rg [OF r(2)] by (auto simp: smart_crl_calc_func_def value_in_def in_range_s16)
qed

lemma sdiv_between:
  assumes "0 < (d :: int)" and "lo * d \<le> s" and "s \<le> hi * d"
  shows "lo \<le> s sdiv d" and "s sdiv d \<le> hi"
proof -
  have "lo \<le> s sdiv d \<and> s sdiv d \<le> hi"
  proof (cases "0 \<le> s")
    case True
    then show ?thesis
      using assms zdiv_mono1 [of "lo * d" s d] zdiv_mono1 [of s "hi * d" d] by (simp add: sdiv_pos)
  next
    case False
    then have "s sdiv d = - ((- s) div d)" using sdiv_neg [of "- s" d] assms(1) by simp
    then show ?thesis
      using assms zdiv_mono1 [of "(- hi) * d" "- s" d] zdiv_mono1 [of "- s" "(- lo) * d" d]
      unfolding nonzero_mult_div_cancel_right [OF assms(1) [THEN less_imp_neq, symmetric]] by simp
  qed
  then show "lo \<le> s sdiv d" "s sdiv d \<le> hi" by simp_all
qed

lemma uint_u16: "0 \<le> uint (w :: u16) \<and> uint w < 65536"
  using unsigned_less [of w, where ?'a = int] by simp

lemma sums_in_range:
  assumes "0 \<le> (w0 :: int)" and "0 \<le> w1" and "w0 \<noteq> 0 \<Longrightarrow> in_range rg v0" and "w1 \<noteq> 0 \<Longrightarrow> in_range rg v1"
  shows "sint (rmin rg) * (w0 + w1) \<le> v0 * w0 + v1 * w1" and "v0 * w0 + v1 * w1 \<le> sint (rmax rg) * (w0 + w1)"
proof -
  have *: "sint (rmin rg) * w \<le> v * w \<and> v * w \<le> sint (rmax rg) * w" if "0 \<le> w" "w \<noteq> 0 \<Longrightarrow> in_range rg v" for v w :: int
    using that by (cases "w = 0") (auto simp: in_range_def mult_right_mono)
  show "sint (rmin rg) * (w0 + w1) \<le> v0 * w0 + v1 * w1" "v0 * w0 + v1 * w1 \<le> sint (rmax rg) * (w0 + w1)"
    using * [OF assms(1,3)] * [OF assms(2,4)] by (simp_all add: distrib_left)
qed

lemma mix_in:
  assumes "uint (weight0 s) + uint (weight1 s) = 256" and "y = Y_TYPE_VALUE \<or> y = Y_TYPE_WEIGHT_VALUE"
    and "weight0 s \<noteq> 0 \<Longrightarrow> value_in rg y t0" and "weight1 s \<noteq> 0 \<Longrightarrow> value_in rg y t1"
  obtains w where "mix_sections y s t0 t1 = Some (ISP_SUCCESS, w)" "value_in rg y w"
proof (cases "y = Y_TYPE_VALUE")
  case True
  let ?w0 = "uint (weight0 s)" and ?w1 = "uint (weight1 s)"
  let ?v0 = "sint (value0 t0)" and ?v1 = "sint (value0 t1)"
  have w: "0 \<le> ?w0" "0 \<le> ?w1" "?w0 \<le> 256" "?w1 \<le> 256"
    using assms(1) uint_u16 [of "weight0 s"] uint_u16 [of "weight1 s"] by linarith+
  have prod: "- 8388608 \<le> v * u \<and> v * u \<le> 8388608" if "- 32768 \<le> v" "v < 32768" "0 \<le> u" "u \<le> 256" for v u :: int
  proof -
    have "\<bar>v * u\<bar> \<le> 32768 * 256" unfolding abs_mult using that by (intro mult_mono) auto
    then show ?thesis by auto
  qed
  have p: "- 8388608 \<le> ?v0 * ?w0" "?v0 * ?w0 \<le> 8388608" "- 8388608 \<le> ?v1 * ?w1" "?v1 * ?w1 \<le> 8388608"
    using prod [of ?v0 ?w0] prod [of ?v1 ?w1] w sint_s16 [of "value0 t0"] sint_s16 [of "value0 t1"] by auto
  have fits: "s32 (?v0 * ?w0) = Some (?v0 * ?w0)" "s32 (?v1 * ?w1) = Some (?v1 * ?w1)" "s32 (?v0 * ?w0 + ?v1 * ?w1) = Some (?v0 * ?w0 + ?v1 * ?w1)"
    using p by (auto intro!: s32_Some)
  have "in_range rg ?v0" if "?w0 \<noteq> 0" using that assms(3) True by (cases "weight0 s = 0") (auto simp: value_in_def)
  moreover have "in_range rg ?v1" if "?w1 \<noteq> 0" using that assms(4) True by (cases "weight1 s = 0") (auto simp: value_in_def)
  ultimately have "in_range rg ((?v0 * ?w0 + ?v1 * ?w1) sdiv (?w0 + ?w1))"
    using sums_in_range [OF w(1,2), of rg ?v0 ?v1] sdiv_between [of "?w0 + ?w1" "sint (rmin rg)" "?v0 * ?w0 + ?v1 * ?w1" "sint (rmax rg)"] assms(1)
    by (simp add: in_range_def)
  then show ?thesis
    using that True fits assms(1) by (simp add: mix_sections_def value_in_def in_range_s16)
next
  case False
  then have y: "y = Y_TYPE_WEIGHT_VALUE" using assms(2) by simp
  have dom: "in_range rg (sint (dominant_value t))" if "value_in rg y t" for t
    using that y by (simp add: value_in_def dominant_value_def)
  have "weight0 s = 0 \<Longrightarrow> weight1 s \<noteq> 0" using assms(1) by auto
  then show ?thesis
    using that y assms(1,3,4) dom [of t0] dom [of t1] by (auto simp: mix_sections_def value_in_def)
qed

lemma index_words: "a < 8 \<Longrightarrow> (scast (of_nat a :: u16) :: u32) = of_nat a" "a < 8 \<Longrightarrow> unat (of_nat a :: u32) = a"
proof -
  show "unat (of_nat a :: u32) = a" if "a < 8" using that by (simp add: unat_of_nat)
  assume "a < 8"
  then have "a = 0 \<or> a = 1 \<or> a = 2 \<or> a = 3 \<or> a = 4 \<or> a = 5 \<or> a = 6 \<or> a = 7" by linarith
  then show "(scast (of_nat a :: u16) :: u32) = of_nat a" by (elim disjE) simp_all
qed

lemma component_table:
  assumes "component_ok rg cfg" and "i < used_tables cfg"
  shows "byte_at i (func cfg) = Some (func cfg ! i)" and "good_table rg (func cfg ! i)"
proof -
  have i: "i < length (func cfg)" "i < 8"
    using assms by (auto simp: component_ok_def used_tables_def split: if_splits)
  then show "byte_at i (func cfg) = Some (func cfg ! i)" by (simp add: byte_at_def)
  show "good_table rg (func cfg ! i)"
    using assms i by (auto simp: component_ok_def list_all_length dest!: spec [of _ i])
qed

lemma calc_section_in:
  assumes "component_ok rg cfg" and "x_type cfg = X_TYPE_BV_CT" and "a < unat (section_num cfg)"
  obtains t where "calc_section cfg ct (scast (of_nat a :: u16)) w = Some (ISP_SUCCESS, t)"
    "w \<noteq> 0 \<Longrightarrow> value_in rg (y_type cfg) t"
proof (cases "w = 0")
  case True
  then show ?thesis using that [of zero_weight] by (simp add: calc_section_def)
next
  case False
  have a: "a < 8" "a < used_tables cfg" using assms by (auto simp: component_ok_def used_tables_def)
  obtain t where "smart_crl_calc_func (func cfg ! a) (y_type cfg) ct zero_weight = Some (ISP_SUCCESS, t)" "value_in rg (y_type cfg) t"
    by (rule calc_func_in [OF component_table(2) [OF assms(1) a(2)], of "y_type cfg" ct zero_weight])
      (use assms(1) in \<open>auto simp: component_ok_def\<close>)
  moreover have "(of_nat a :: u32) < section_num cfg"
    using assms(3) index_words(2) [OF a(1)] by (simp add: word_less_nat_alt)
  ultimately show ?thesis
    using that [of t] False component_table(1) [OF assms(1) a(2)] index_words [OF a(1)]
    by (simp add: calc_section_def word_neq_0_conv)
qed

lemma calc_bv_ct_in:
  assumes "component_ok rg cfg" and "x_type cfg = X_TYPE_BV_CT"
  obtains w where "calc_bv_ct cfg bv ct = Some (ISP_SUCCESS, w)" "value_in rg (y_type cfg) w"
proof -
  have y: "y_type cfg = Y_TYPE_VALUE \<or> y_type cfg = Y_TYPE_WEIGHT_VALUE" and n: "0 < section_num cfg"
      "unat (section_num cfg) \<le> length (bv_range cfg)" "ranges_check (unat (section_num cfg)) 0 (bv_range cfg) = Some True"
    using assms unat_gt_0 [of "section_num cfg"] by (auto simp: component_ok_def used_tables_def word_neq_0_conv)
  note found = that
  have finish: thesis
    if s: "smart_ctl_calc_bv_section (bv_range cfg) (section_num cfg) bv zero_weight = Some (ISP_SUCCESS, s)"
      and ab: "value0 s = of_nat a" "value1 s = of_nat b" "a < unat (section_num cfg)" "b < unat (section_num cfg)"
      and w: "uint (weight0 s) + uint (weight1 s) = 256" for s a b
  proof -
    obtain t0 where t0: "calc_section cfg ct (scast (value0 s)) (weight0 s) = Some (ISP_SUCCESS, t0)" "weight0 s \<noteq> 0 \<Longrightarrow> value_in rg (y_type cfg) t0"
      by (rule calc_section_in [OF assms ab(3), of ct "weight0 s", folded ab(1)]) (rule that)
    obtain t1 where t1: "calc_section cfg ct (scast (value1 s)) (weight1 s) = Some (ISP_SUCCESS, t1)" "weight1 s \<noteq> 0 \<Longrightarrow> value_in rg (y_type cfg) t1"
      by (rule calc_section_in [OF assms ab(4), of ct "weight1 s", folded ab(2)]) (rule that)
    obtain m where "mix_sections (y_type cfg) s t0 t1 = Some (ISP_SUCCESS, m)" "value_in rg (y_type cfg) m"
      by (rule mix_in [OF w y t0(2) t1(2)])
    then show thesis using s t0(1) t1(1) by (intro found [of m]) (simp_all add: calc_bv_ct_def)
  qed
  show ?thesis
    using n(3,1,2)
  proof (cases rule: bv_section_cases [where bv = bv and r = zero_weight])
    case (one a)
    then show ?thesis by (intro finish [of "section_result a a 0 1" a a]) simp_all
  next
    case (two a)
    then show ?thesis by (intro finish [OF two(1), of a "a + 1"] section_two(2)) (simp_all add: section_result_def Let_def)
  qed
qed

lemma weight_value_roundtrip [simp]: "2 \<le> length d \<Longrightarrow> get_weight_value (put_weight_value w d) = w"
proof -
  have "ucast ((ucast a :: u32) OR push_bit 16 (ucast b)) = a" "ucast (drop_bit 16 ((ucast a :: u32) OR push_bit 16 (ucast b))) = b" for a b :: u16
    by (rule bit_word_eqI; auto simp: bit_simps dest: bit_imp_le_length)+
  moreover have "0 < length d" "1 < length d" if "2 \<le> length d" using that by auto
  ultimately show "2 \<le> length d \<Longrightarrow> get_weight_value (put_weight_value w d) = w"
    by (simp add: get_weight_value_def put_weight_value_def)
qed

lemma scast_s16_s32: "sint (scast (v :: u16) :: u32) = sint v"
  by (simp add: sint_up_scast is_up)

text \<open>A result of the type its tag says, within the range.\<close>

definition typed_result :: "isp_range \<Rightarrow> u32 \<Rightarrow> component_result \<Rightarrow> bool" where
  "typed_result rg y c \<longleftrightarrow> ctype c = y \<and> length (fix_data c) = 4 \<and>
     (y = Y_TYPE_VALUE \<and> csize c = 4 \<and> in_range rg (sint (fix_data c ! 0)) \<or>
      y = Y_TYPE_WEIGHT_VALUE \<and> csize c = 8 \<and> value_in rg y (get_weight_value (fix_data c)))"

lemma component_result_typed:
  assumes "component_ok rg cfg" and "length (fix_data c) = 4"
  shows "\<exists>c'. smart_ctl_calc_component cfg bv bv_gain ct c = Some (ISP_SUCCESS, c') \<and> typed_result rg (y_type cfg) c'"
proof -
  have y: "y_type cfg = Y_TYPE_VALUE \<or> y_type cfg = Y_TYPE_WEIGHT_VALUE" and x: "x_type cfg \<le> 3" using assms(1) by (auto simp: component_ok_def)
  have one: "\<exists>w. calc_func0 cfg v = Some (ISP_SUCCESS, w) \<and> value_in rg (y_type cfg) w" for v
  proof -
    have u: "0 < used_tables cfg" using assms(1) by (simp add: component_ok_def)
    obtain w where "smart_crl_calc_func (func cfg ! 0) (y_type cfg) v zero_weight = Some (ISP_SUCCESS, w)" "value_in rg (y_type cfg) w"
      by (rule calc_func_in [OF component_table(2) [OF assms(1) u] y])
    then show ?thesis using component_table(1) [OF assms(1) u] by (simp add: calc_func0_def)
  qed
  let ?r = "if x_type cfg = X_TYPE_BV then calc_func0 cfg (sint bv)
        else if x_type cfg = X_TYPE_BV_GAIN then calc_func0 cfg (sint bv_gain)
        else if x_type cfg = X_TYPE_CT then calc_func0 cfg (sint ct)
        else if x_type cfg = X_TYPE_BV_CT then calc_bv_ct cfg (sint bv) (sint ct)
        else Some (ISP_ERROR, zero_weight)"
  have "x_type cfg = 0 \<or> x_type cfg = 1 \<or> x_type cfg = 2 \<or> x_type cfg = 3" using x by (auto simp: word_le_nat_alt word_unat_eq_iff)
  then obtain w where w: "?r = Some (ISP_SUCCESS, w)" "value_in rg (y_type cfg) w"
    using one calc_bv_ct_in [OF assms(1)] by (elim disjE) (force, force, force, (simp, metis))
  have "smart_ctl_calc_component cfg bv bv_gain ct c = Some (ISP_SUCCESS,
      if y_type cfg = Y_TYPE_VALUE then c\<lparr>ctype := y_type cfg, csize := 4, fix_data := put_value (scast (value0 w)) (fix_data c)\<rparr>
      else c\<lparr>ctype := y_type cfg, csize := 8, fix_data := put_weight_value w (fix_data c)\<rparr>)"
    unfolding smart_ctl_calc_component_def w(1) using y by auto
  moreover have "typed_result rg (y_type cfg)
      (if y_type cfg = Y_TYPE_VALUE then c\<lparr>ctype := y_type cfg, csize := 4, fix_data := put_value (scast (value0 w)) (fix_data c)\<rparr>
      else c\<lparr>ctype := y_type cfg, csize := 8, fix_data := put_weight_value w (fix_data c)\<rparr>)"
    using y w(2) assms(2) by (auto simp: typed_result_def put_value_def value_in_def scast_s16_s32) (simp_all add: put_weight_value_def)
  ultimately show ?thesis by blast
qed

text \<open>
  C29. Every result is of the type its tag says and lies within the range of its tables: for a
  component with sound tables, sections that pass the check of the block, and values within a
  range, whatever brightness, gain and colour temperature, the calculation succeeds; its result is
  tagged as the component is, is an integer of the range, or two such integers with weights that
  add up to 256.
\<close>

theorem component_result_has_its_type:
  assumes "component_ok rg cfg" and "length (fix_data c) = 4"
  shows "\<exists>c'. smart_ctl_calc_component cfg bv bv_gain ct c = Some (ISP_SUCCESS, c') \<and> typed_result rg (y_type cfg) c'"
  by (rule component_result_typed [OF assms])

text \<open>Two sections, dark and bright, between which the tables are mixed.\<close>

definition demo_cfg :: component_cfg where
  "demo_cfg = \<lparr>x_type = X_TYPE_BV_CT, y_type = Y_TYPE_VALUE, use_flash_val = 0, flash_val = 0, section_num = 2,
     bv_range = [\<lparr>rmin = 0, rmax = 40\<rparr>, \<lparr>rmin = 60, rmax = 200\<rparr>] @ replicate 6 \<lparr>rmin = 0, rmax = 0\<rparr>,
     func = replicate 8 demo_func\<rparr>"

lemma demo_cfg_ok: "component_ok \<lparr>rmin = 0, rmax = 255\<rparr> demo_cfg"
proof -
  have "list_all (\<lambda>i. in_range \<lparr>rmin = 0, rmax = 255\<rparr> (tab_y demo_func i)) [0..<unat (fnum demo_func)]"
    by (simp add: in_range_def tab_y_def demo_func_def upt_rec)
  then have "good_table \<lparr>rmin = 0, rmax = 255\<rparr> demo_func" using demo_func_ok by (simp add: good_table_def)
  moreover have "ranges_check 2 0 (bv_range demo_cfg) = Some True" by (simp add: demo_cfg_def byte_at_def numeral_2_eq_2)
  ultimately show ?thesis by (simp add: component_ok_def demo_cfg_def used_tables_def list_all_iff)
qed

theorem component_result_has_its_type_witness:
  "\<exists>c'. smart_ctl_calc_component demo_cfg 45 10 70 zero_component = Some (0, c') \<and> typed_result \<lparr>rmin = 0, rmax = 255\<rparr> 0 c'"
  using component_result_has_its_type [OF demo_cfg_ok, of zero_component 45 10 70]
  by (simp add: zero_component_def demo_cfg_def)

subsection \<open>A block and what it is for\<close>

definition flash_ok :: "isp_range \<Rightarrow> component_cfg \<Rightarrow> bool" where
  "flash_ok rg cfg \<longleftrightarrow> (use_flash_val cfg = 1 \<longrightarrow> in_range rg (sint (flash_val cfg)) \<and>
     (y_type cfg = Y_TYPE_WEIGHT_VALUE \<longrightarrow> in_range rg 0))"

definition block_ok :: "isp_range \<Rightarrow> u32 \<Rightarrow> block_cfg \<Rightarrow> bool" where
  "block_ok rg y blk \<longleftrightarrow> cfg_smart_id blk < ISP_SMART_MAX \<and> cfg_block_id blk < ISP_BLK_ID_MAX \<and> length (components blk) = 4 \<and>
     0 < component_num blk \<and> component_num blk \<le> 4 \<and>
     list_all (\<lambda>cfg. component_ok rg cfg \<and> flash_ok rg cfg \<and> y_type cfg = y) (take (unat (component_num blk)) (components blk))"

lemma ucast_s16: "in_range rg (sint v) \<Longrightarrow> sint (ucast (v :: u32) :: u16) = sint v"
proof -
  assume "in_range rg (sint v)"
  moreover have "(ucast v :: u16) = of_int (sint v)"
    by (rule bit_word_eqI) (auto simp: bit_simps)
  ultimately show ?thesis using in_range_s16 by metis
qed

lemma calc_one_typed:
  assumes "component_ok rg cfg" and "flash_ok rg cfg" and "length (fix_data c) = 4"
  obtains c' where "calc_one cfg bv bv_gain ct flash_mode c = Some (ISP_SUCCESS, c')" "typed_result rg (y_type cfg) c'"
proof (cases "flash_mode \<noteq> SMART_CTRL_FLASH_MAIN \<or> use_flash_val cfg \<noteq> 1")
  case True
  then show ?thesis using component_result_typed [OF assms(1,3)] that by (auto simp: calc_one_def)
next
  case False
  have y: "y_type cfg = Y_TYPE_VALUE \<or> y_type cfg = Y_TYPE_WEIGHT_VALUE" using assms(1) by (auto simp: component_ok_def)
  obtain rtn c' where r: "smart_ctl_calc_component_flash cfg c = (rtn, c')" by (cases "smart_ctl_calc_component_flash cfg c")
  have "rtn = ISP_SUCCESS \<and> typed_result rg (y_type cfg) c'"
    using r y assms False
    by (auto simp: smart_ctl_calc_component_flash_def typed_result_def put_value_def value_in_def flash_ok_def ucast_s16)
      (simp_all add: put_weight_value_def)
  then show ?thesis using False r that by (simp add: calc_one_def)
qed

lemma put_one:
  assumes "i < length xs"
  shows "put_bytes i [x] xs = Some (xs[i := x])"
  using assms by (simp add: put_bytes_def upd_conv_take_nth_drop)

lemma calc_components_typed:
  assumes "list_all (\<lambda>cfg. component_ok rg cfg \<and> flash_ok rg cfg \<and> y_type cfg = y) (take (i + k) (components blk))"
    and "length (components blk) = 4" and "i + k \<le> 4" and "length (fix_data c) = 4" and "length (results result) = 4"
  obtains b where "calc_components k i blk bv bv_gain ct flash_mode c n result = Some (n + of_nat k, b)"
    "length (results b) = 4" "\<And>j. j < i \<Longrightarrow> results b ! j = results result ! j"
    "\<And>j. i \<le> j \<Longrightarrow> j < i + k \<Longrightarrow> typed_result rg y (results b ! j)" "update b = (if k = 0 then update result else 1)"
  using assms
proof (induction k arbitrary: i c n result thesis)
  case 0
  then show ?case by simp
next
  case (Suc k)
  have i: "i < 4" using Suc.prems(4) by simp
  have cfg: "component_ok rg (components blk ! i)" "flash_ok rg (components blk ! i)" "y_type (components blk ! i) = y"
    using Suc.prems(2,3,4) by (auto simp: list_all_length dest!: spec [of _ i])
  obtain c' where c': "calc_one (components blk ! i) bv bv_gain ct flash_mode c = Some (ISP_SUCCESS, c')" "typed_result rg y c'"
    using calc_one_typed [OF cfg(1,2) Suc.prems(5)] cfg(3) by metis
  have len: "length (fix_data c') = 4" using c'(2) by (simp add: typed_result_def)
  let ?r = "result\<lparr>results := (results result)[i := c'], update := 1\<rparr>"
  obtain b where b: "calc_components k (i + 1) blk bv bv_gain ct flash_mode c' (n + 1) ?r = Some (n + 1 + of_nat k, b)"
      "length (results b) = 4" "\<And>j. j < i + 1 \<Longrightarrow> results b ! j = results ?r ! j"
      "\<And>j. i + 1 \<le> j \<Longrightarrow> j < i + 1 + k \<Longrightarrow> typed_result rg y (results b ! j)" "update b = (if k = 0 then update ?r else 1)"
    by (rule Suc.IH [where i = "i + 1" and c = c' and result = ?r and n = "n + 1"]) (use Suc.prems(2-6) len in \<open>simp_all\<close>)
  have step: "calc_components (Suc k) i blk bv bv_gain ct flash_mode c n result = Some (n + of_nat (Suc k), b)"
    using c'(1) b(1) i Suc.prems(3,6) by (simp add: byte_at_def put_one add.assoc add.commute)
  have "typed_result rg y (results b ! j)" if "i \<le> j" "j < i + Suc k" for j
    using b(3) [of i] b(4) [of j] c'(2) that i Suc.prems(6) by (cases "j = i") simp_all
  moreover have "results b ! j = results result ! j" if "j < i" for j using b(3) [of j] that by simp
  ultimately show ?case using Suc.prems(1) [OF step b(2)] b(5) by simp
qed

lemma values_check_typed:
  assumes "\<And>j. j < i + n \<Longrightarrow> typed_result rg y (rs ! j)" and "i + n \<le> length rs"
  shows "values_check n i rs rg y = Some ISP_SUCCESS"
  using assms
proof (induction n arbitrary: i)
  case (Suc n)
  have "typed_result rg y (rs ! 0)" "typed_result rg y (rs ! i)" using Suc.prems(1) by simp_all
  moreover have "byte_at 0 rs = Some (rs ! 0)" "byte_at i rs = Some (rs ! i)" using Suc.prems(2) by (auto simp: byte_at_def)
  moreover have "values_check n (i + 1) rs rg y = Some ISP_SUCCESS" using Suc.prems by (intro Suc.IH) simp_all
  ultimately show ?case by (auto simp: typed_result_def value_in_def in_range_def Let_def)
qed simp

lemma components_check_ok:
  assumes "cfg_smart_id blk < ISP_SMART_MAX" and "cfg_block_id blk < ISP_BLK_ID_MAX" and "i + n \<le> length (components blk)"
    and "\<And>j. i \<le> j \<Longrightarrow> j < i + n \<Longrightarrow>
      ranges_check (unat (section_num (components blk ! j))) 0 (bv_range (components blk ! j)) = Some True"
  shows "components_check n i blk = Some ISP_SUCCESS"
  using assms(3,4)
proof (induction n arbitrary: i)
  case (Suc n)
  have "byte_at i (components blk) = Some (components blk ! i)" using Suc.prems(1) by (simp add: byte_at_def)
  moreover have "components_check n (i + 1) blk = Some ISP_SUCCESS" using Suc.prems by (intro Suc.IH) simp_all
  ultimately show ?case using Suc.prems(2) [of i] assms(1,2) by (simp add: not_le)
qed simp

lemma block_ok_component:
  "block_ok rg y blk \<Longrightarrow> j < unat (component_num blk) \<Longrightarrow> component_ok rg (components blk ! j)"
  "block_ok rg y blk \<Longrightarrow> unat (component_num blk) \<le> 4 \<and> 0 < unat (component_num blk)"
  by (auto simp: block_ok_def list_all_length word_le_nat_alt unat_gt_0 word_neq_0_conv dest!: spec [of _ j])

lemma sound_block:
  assumes "block_ok rg y blk" and "enable blk \<noteq> 0" and "length (results result) = 4"
  shows "\<exists>b. smart_ctl_calc_block blk bv bv_gain ct flash_mode result = Some (ISP_SUCCESS, b) \<and>
    length (results b) = 4 \<and> update b = 1 \<and> smart_id b = cfg_smart_id blk \<and> block_id b = cfg_block_id blk \<and>
    (\<forall>j < unat (component_num blk). typed_result rg y (results b ! j)) \<and> result_num b = component_num blk \<and>
    pm_check_smart_param (Some b) rg (component_num blk) y = Some ISP_SUCCESS"
proof -
  let ?n = "unat (component_num blk)"
  note comp = block_ok_component [OF assms(1)]
  have ids: "cfg_smart_id blk < ISP_SMART_MAX" "cfg_block_id blk < ISP_BLK_ID_MAX" "length (components blk) = 4"
      "component_num blk \<le> 4" "0 < component_num blk"
      "list_all (\<lambda>cfg. component_ok rg cfg \<and> flash_ok rg cfg \<and> y_type cfg = y) (take (0 + ?n) (components blk))"
    using assms(1) by (simp_all add: block_ok_def)
  have check: "smart_ctl_check_block_param blk = Some ISP_SUCCESS"
    unfolding smart_ctl_check_block_param_def
    by (rule components_check_ok) (use ids comp in \<open>simp_all add: component_ok_def\<close>)
  obtain b where b: "calc_components ?n 0 blk bv bv_gain ct flash_mode zero_component 0 result = Some (0 + of_nat ?n, b)"
      "length (results b) = 4" "\<And>j. 0 \<le> j \<Longrightarrow> j < 0 + ?n \<Longrightarrow> typed_result rg y (results b ! j)" "update b = (if ?n = 0 then update result else 1)"
    by (rule calc_components_typed [OF ids(6,3) _ _ assms(3), where c = zero_component and n = 0 and bv = bv and bv_gain = bv_gain and ct = ct and flash_mode = flash_mode])
      (use comp(2) in \<open>simp add: zero_component_def\<close>, use comp(2) in \<open>simp add: zero_component_def\<close>, rule that)
  have "values_check ?n 0 (results b) rg y = Some ISP_SUCCESS"
    by (rule values_check_typed) (use b(2,3) comp(2) in simp_all)
  moreover have "\<not> 4 < component_num blk" using ids(4) by simp
  ultimately show ?thesis
    using check b(1,2,3) assms(2) ids(5) by (simp add: smart_ctl_calc_block_def pm_check_smart_param_def)
qed

definition demo_block :: block_cfg where
  "demo_block = \<lparr>enable = 1, cfg_smart_id = 12, cfg_block_id = 0x200B, component_num = 1, components = replicate 4 demo_cfg\<rparr>"

definition demo_result :: block_result where
  "demo_result = \<lparr>block_id = 0, smart_id = 0, update = 0, result_num = 0, results = replicate 4 zero_component\<rparr>"

text \<open>Whether a component succeeds does not depend on the result it shares with the others.\<close>

lemma calc_one_rtn:
  "map_option fst (calc_one cfg bv bv_gain ct flash_mode c) = map_option fst (calc_one cfg bv bv_gain ct flash_mode zero_component)"
  by (auto simp: calc_one_def smart_ctl_calc_component_def smart_ctl_calc_component_flash_def split: bind_splits prod.splits)

definition component_fails :: "component_cfg \<Rightarrow> u32 \<Rightarrow> u32 \<Rightarrow> u32 \<Rightarrow> u32 \<Rightarrow> bool" where
  "component_fails cfg bv bv_gain ct flash_mode \<longleftrightarrow>
    map_option fst (calc_one cfg bv bv_gain ct flash_mode zero_component) \<noteq> Some ISP_SUCCESS"

lemma calc_components_count:
  assumes "calc_components k i blk bv bv_gain ct flash_mode c n result = Some (n', b)"
  obtains s where "s \<le> k" "n' = n + of_nat s" "s = 0 \<Longrightarrow> b = result" 
    "\<And>j. i \<le> j \<Longrightarrow> j < i + k \<Longrightarrow> component_fails (components blk ! j) bv bv_gain ct flash_mode \<Longrightarrow> s < k"
  using assms
proof (induction k arbitrary: i c n result thesis)
  case 0
  then show ?case by simp
next
  case (Suc k)
  obtain cfg rtn c' where r: "byte_at i (components blk) = Some cfg" "calc_one cfg bv bv_gain ct flash_mode c = Some (rtn, c')"
    using Suc.prems(2) by (auto split: bind_splits)
  have cfg: "cfg = components blk ! i" using r(1) by (auto simp: byte_at_def split: if_splits)
  have "map_option fst (calc_one cfg bv bv_gain ct flash_mode zero_component) = Some rtn"
    using calc_one_rtn [of cfg bv bv_gain ct flash_mode c] r(2) by simp
  then have fails: "component_fails (components blk ! i) bv bv_gain ct flash_mode \<longleftrightarrow> rtn \<noteq> ISP_SUCCESS"
    unfolding component_fails_def cfg by (simp only: option.inject)
  show ?case
  proof (cases "rtn = ISP_SUCCESS")
    case True
    obtain rs where "calc_components k (i + 1) blk bv bv_gain ct flash_mode c' (n + 1) (result\<lparr>results := rs, update := 1\<rparr>) = Some (n', b)"
      using Suc.prems(2) r True by (auto split: bind_splits)
    then obtain s where s: "s \<le> k" "n' = n + 1 + of_nat s"
        "\<And>j. i + 1 \<le> j \<Longrightarrow> j < i + 1 + k \<Longrightarrow> component_fails (components blk ! j) bv bv_gain ct flash_mode \<Longrightarrow> s < k"
      using Suc.IH by metis
    have "Suc s < Suc k" if "i \<le> j" "j < i + Suc k" "component_fails (components blk ! j) bv bv_gain ct flash_mode" for j
      using s(3) [of j] that fails True by (cases "j = i") auto
    then show ?thesis using Suc.prems(1) [of "Suc s"] s(1,2) by (simp add: add.assoc)
  next
    case False
    have "calc_components k (i + 1) blk bv bv_gain ct flash_mode c' n result = Some (n', b)"
      using Suc.prems(2) r False by simp
    then obtain s where s: "s \<le> k" "n' = n + of_nat s" "s = 0 \<Longrightarrow> b = result" using Suc.IH by metis
    show ?thesis using Suc.prems(1) [of s] s by simp
  qed
qed

text \<open>
  Nothing is set by halves: when the calculation of an enabled block returns and one of its
  one to four components failed, the block of the image processor refuses the result, for it counts
  fewer components than were set, and keeps what it had.
\<close>

lemma partial_block_is_rejected:
  assumes "smart_ctl_calc_block blk bv bv_gain ct flash_mode result = Some (rtn, b)" and "update result = 0"
    and "component_num blk \<le> 4" and "i < unat (component_num blk)"
    and "component_fails (components blk ! i) bv bv_gain ct flash_mode"
  shows "pm_check_smart_param (Some b) rg (component_num blk) y = Some ISP_ERROR"
proof (cases "b = result")
  case True
  then show ?thesis using assms(2) by (simp add: pm_check_smart_param_def)
next
  case False
  let ?n = "unat (component_num blk)"
  have n: "?n \<le> 4" "\<not> 4 < component_num blk" using assms(3) by (simp_all add: word_le_nat_alt not_less)
  obtain m b' where c: "calc_components ?n 0 blk bv bv_gain ct flash_mode zero_component 0 result = Some (m, b')"
      "b = (if m > 0 then b'\<lparr>block_id := cfg_block_id blk, result_num := m, update := 1, smart_id := cfg_smart_id blk\<rparr> else b')"
    using assms(1) False n(2) by (auto simp: smart_ctl_calc_block_def split: bind_splits if_splits)
  obtain s where s: "s \<le> ?n" "m = 0 + of_nat s" "s = 0 \<Longrightarrow> b' = result" "s < ?n"
    by (rule calc_components_count [OF c(1)]) (use assms(4,5) in auto)
  have "unat m = s" using s(1,2) n(1) by (simp add: unat_of_nat)
  then have "m \<noteq> component_num blk" "m = 0 \<Longrightarrow> b = result" using s c(2) by auto
  then show ?thesis using c(2) False by (auto simp: pm_check_smart_param_def word_gt_0)
qed

text \<open>The second component has an empty table.\<close>

definition empty_cfg :: component_cfg where
  "empty_cfg = demo_cfg\<lparr>x_type := X_TYPE_BV, func := replicate 8 \<lparr>fnum = 0, samples = []\<rparr>\<rparr>"

lemma partial_block_is_rejected_witness:
  "\<exists>b. smart_ctl_calc_block (demo_block\<lparr>component_num := 2, components := [demo_cfg, empty_cfg, demo_cfg, demo_cfg]\<rparr>) 45 10 70 0 demo_result = Some (0, b) \<and>
     pm_check_smart_param (Some b) \<lparr>rmin = 0, rmax = 255\<rparr> 2 0 = Some ISP_ERROR"
proof -
  let ?blk = "demo_block\<lparr>component_num := 2, components := [demo_cfg, empty_cfg, demo_cfg, demo_cfg]\<rparr>"
  have e: "calc_one empty_cfg 45 10 70 0 c = Some (ISP_ERROR, c)" for c
    by (simp add: calc_one_def smart_ctl_calc_component_def calc_func0_def empty_cfg_def demo_cfg_def byte_at_def
      smart_crl_calc_func_def smart_ctl_piecewise_func_v0_def)
  obtain c' where d: "calc_one demo_cfg 45 10 70 0 zero_component = Some (0, c')"
    using component_result_typed [OF demo_cfg_ok, of zero_component 45 10 70] by (auto simp: calc_one_def zero_component_def)
  have r: "ranges_check 2 0 (bv_range demo_cfg) = Some True" "section_num demo_cfg = 2" "bv_range empty_cfg = bv_range demo_cfg" "section_num empty_cfg = 2"
    by (simp_all add: demo_cfg_def empty_cfg_def byte_at_def numeral_2_eq_2)
  have check: "smart_ctl_check_block_param ?blk = Some 0"
    unfolding smart_ctl_check_block_param_def
  proof (rule components_check_ok)
    fix j :: nat
    assume "j < 0 + unat (component_num ?blk)"
    then have "j = 0 \<or> j = 1" by auto
    then show "ranges_check (unat (section_num (components ?blk ! j))) 0 (bv_range (components ?blk ! j)) = Some True"
      using r by auto
  qed (simp_all add: demo_block_def)
  have "\<exists>b. calc_components (Suc (Suc 0)) 0 ?blk 45 10 70 0 zero_component 0 demo_result = Some (1, b)"
    using d e by (simp add: byte_at_def put_bytes_def demo_result_def)
  then obtain b where "calc_components 2 0 ?blk 45 10 70 0 zero_component 0 demo_result = Some (1, b)"
    unfolding numeral_2_eq_2 by blast
  then have "\<exists>b. smart_ctl_calc_block ?blk 45 10 70 0 demo_result = Some (0, b)"
    using check by (simp add: smart_ctl_calc_block_def demo_block_def)
  then obtain b where b: "smart_ctl_calc_block ?blk 45 10 70 0 demo_result = Some (0, b)" by blast
  have "component_fails (components ?blk ! 1) 45 10 70 0" using e by (simp add: component_fails_def)
  then have "pm_check_smart_param (Some b) \<lparr>rmin = 0, rmax = 255\<rparr> (component_num ?blk) 0 = Some ISP_ERROR"
    by (intro partial_block_is_rejected [OF b, of 1]) (simp_all add: demo_result_def)
  then show ?thesis using b by auto
qed

end
