(* ===== verification/SmartHandle.thy ===== *)
theory SmartHandle
  imports SmartCtrl
begin

text \<open>
  The handle of the smart control (\<open>smart_ctrl.c\<close>): tunings for up to sixteen work modes, the
  commands, the calculation of all blocks for a picture, and switching blocks off and on again.
\<close>

subsection \<open>The handle\<close>

record tuning =
  version :: u32
  bypass :: u32
  block_num :: u32
  blocks :: "block_cfg list"          \<comment> \<open>28 entries\<close>

text \<open>Parameters from the tuning of a sensor: the data, if any, is one whole \<open>isp_smart_param\<close>.\<close>

record tuning_src =
  src_version :: u32
  src_bypass :: u32
  src_data :: "(u32 \<times> block_cfg list) option"

record smart_ctx =
  magic_flag :: u32
  tuning_param :: "tuning list"       \<comment> \<open>16 entries\<close>
  tuning_param_org :: "tuning list"
  cur_param :: nat                    \<comment> \<open>an index of \<open>tuning_param\<close>\<close>
  work_mode :: u32
  flash_mode :: u32
  calc_result :: "block_result list"  \<comment> \<open>28 entries\<close>
  cur_result :: block_result

abbreviation (input) ISP_SMART_MAGIC_FLAG :: u32 where "ISP_SMART_MAGIC_FLAG \<equiv> 0xf7758521"
abbreviation (input) ISP_MODE_ID_COMMON :: u32 where "ISP_MODE_ID_COMMON \<equiv> 0"
abbreviation (input) ISP_MODE_ID_PRV_0 :: u32 where "ISP_MODE_ID_PRV_0 \<equiv> 1"
abbreviation (input) SMART_CTRL_FLASH_END :: u32 where "SMART_CTRL_FLASH_END \<equiv> 3"

definition check_handle_validate :: "smart_ctx option \<Rightarrow> int" where
  "check_handle_validate handle = (case handle of
     None \<Rightarrow> ISP_ERROR
   | Some cxt \<Rightarrow> if magic_flag cxt \<noteq> ISP_SMART_MAGIC_FLAG then ISP_ERROR else ISP_SUCCESS)"

definition smart_ctl_set_workmode :: "smart_ctx \<Rightarrow> u32 \<Rightarrow> (int \<times> smart_ctx) option" where
  "smart_ctl_set_workmode cxt mode = do {
     t \<leftarrow> byte_at (unat mode) (tuning_param cxt);
     Some (ISP_SUCCESS, cxt\<lparr>work_mode := (if block_num t > 0 then mode else ISP_MODE_ID_COMMON)\<rparr>) }"

definition smart_ctl_set_flash :: "smart_ctx \<Rightarrow> u32 option \<Rightarrow> int \<times> smart_ctx" where
  "smart_ctl_set_flash cxt in_param = (case in_param of
     None \<Rightarrow> (ISP_ERROR, cxt)
   | Some mode \<Rightarrow> if mode \<ge> SMART_CTRL_FLASH_END then (ISP_ERROR, cxt) else (ISP_SUCCESS, cxt\<lparr>flash_mode := mode\<rparr>))"

definition smart_ctl_parse_tuning_param :: "tuning_src list \<Rightarrow> tuning list \<Rightarrow> tuning list" where
  "smart_ctl_parse_tuning_param src dst = map2 (\<lambda>s d. case src_data s of
     None \<Rightarrow> d
   | Some (n, bs) \<Rightarrow>
       if src_version s = 0 then d\<lparr>bypass := src_bypass s, version := src_version s, block_num := n, blocks := bs\<rparr> else d) src dst"

definition smart_ctl_get_update_param :: "smart_ctx \<Rightarrow> tuning_src list option \<Rightarrow> int \<times> smart_ctx" where
  "smart_ctl_get_update_param cxt in_param = (case in_param of
     None \<Rightarrow> (ISP_SUCCESS, cxt)
   | Some src \<Rightarrow> (ISP_SUCCESS,
       cxt\<lparr>tuning_param := smart_ctl_parse_tuning_param src (tuning_param cxt), cur_param := unat (work_mode cxt)\<rparr>))"

text \<open>\<open>zeros\<close> is the context \<open>memset\<close> leaves.\<close>

definition smart_ctl_init :: "smart_ctx option \<Rightarrow> tuning_src list option \<Rightarrow> smart_ctx option" where
  "smart_ctl_init zeros param = do {
     src \<leftarrow> param;
     cxt \<leftarrow> zeros;
     (let t = smart_ctl_parse_tuning_param src (tuning_param cxt) in
      Some (cxt\<lparr>tuning_param := t, tuning_param_org := t, magic_flag := ISP_SMART_MAGIC_FLAG,
              work_mode := 0, flash_mode := 0, cur_param := 0\<rparr>)) }"

text \<open>A command with its parameter.\<close>

datatype smart_cmd =
    Set_work_mode u32
  | Set_flash_mode "u32 option"
  | Get_update_param "tuning_src list option"
  | Other_cmd u32

definition smart_ctl_ioctl :: "smart_ctx option \<Rightarrow> smart_cmd \<Rightarrow> (int \<times> smart_ctx option) option" where
  "smart_ctl_ioctl handle cmd =
    (case handle of
       None \<Rightarrow> Some (ISP_ERROR, None)
     | Some cxt \<Rightarrow>
         (if check_handle_validate handle \<noteq> ISP_SUCCESS then Some (ISP_ERROR, handle)
          else (case cmd of
              Set_work_mode mode \<Rightarrow> map_option (map_prod id Some) (smart_ctl_set_workmode cxt mode)
            | Set_flash_mode p \<Rightarrow> Some (map_prod id Some (smart_ctl_set_flash cxt p))
            | Get_update_param p \<Rightarrow> Some (map_prod id Some (smart_ctl_get_update_param cxt p))
            | Other_cmd c \<Rightarrow> Some (ISP_ERROR, handle))))"

text \<open>The tables in use: a preview in mode 0 uses those of the common mode.\<close>

definition cur_index :: "smart_ctx \<Rightarrow> nat" where
  "cur_index cxt = (if work_mode cxt = ISP_MODE_ID_PRV_0 then unat ISP_MODE_ID_COMMON else unat (work_mode cxt))"

fun calc_blocks :: "nat \<Rightarrow> nat \<Rightarrow> block_cfg list \<Rightarrow> u32 \<Rightarrow> u32 \<Rightarrow> u32 \<Rightarrow> int \<Rightarrow> nat \<Rightarrow> smart_ctx \<Rightarrow> (int \<times> nat \<times> smart_ctx) option" where
  "calc_blocks 0 i bs bv bv_gain ct rtn n cxt = Some (rtn, n, cxt)"
| "calc_blocks (Suc k) i bs bv bv_gain ct rtn n cxt = do {
     blk \<leftarrow> byte_at i bs;
     (rtn, r) \<leftarrow> smart_ctl_calc_block blk bv bv_gain ct (flash_mode cxt) ((cur_result cxt)\<lparr>update := 0\<rparr>);
     (if update r = 1 then do {
        rs \<leftarrow> put_bytes n [r] (calc_result cxt);
        calc_blocks k (i + 1) bs bv bv_gain ct rtn (n + 1) (cxt\<lparr>cur_result := r, calc_result := rs\<rparr>) }
      else calc_blocks k (i + 1) bs bv bv_gain ct rtn n (cxt\<lparr>cur_result := r\<rparr>)) }"

text \<open>The results are those of \<open>calc_result\<close>, as many as the count; a bypass gives none.\<close>

definition smart_ctl_calculation :: "smart_ctx option \<Rightarrow> u32 \<Rightarrow> u32 \<Rightarrow> u32 \<Rightarrow> (int \<times> nat option \<times> smart_ctx option) option" where
  "smart_ctl_calculation handle bv bv_gain ct =
    (case handle of
       None \<Rightarrow> Some (ISP_ERROR, None, None)
     | Some cxt \<Rightarrow>
         (if check_handle_validate handle \<noteq> ISP_SUCCESS then Some (ISP_ERROR, None, handle)
          else do {
            t \<leftarrow> byte_at (cur_index cxt) (tuning_param cxt);
            (let cxt = cxt\<lparr>cur_param := cur_index cxt\<rparr> in
             if bypass t = 1 then Some (ISP_SUCCESS, None, Some cxt)
             else do {
               (rtn, n, cxt) \<leftarrow> calc_blocks (unat (block_num t)) 0 (blocks t) bv bv_gain ct ISP_SUCCESS 0 cxt;
               Some (rtn, Some n, Some cxt) }) }))"

definition is_eb_block :: "block_cfg \<Rightarrow> bool" where
  "is_eb_block b \<longleftrightarrow> cfg_smart_id b = 0 \<or> cfg_smart_id b = 2 \<or> cfg_smart_id b = 9"

fun eb_loop :: "nat \<Rightarrow> nat \<Rightarrow> bool \<Rightarrow> block_cfg list \<Rightarrow> u16 list \<Rightarrow> (block_cfg list \<times> u16 list) option" where
  "eb_loop 0 i is_eb bs eb = Some (bs, eb)"
| "eb_loop (Suc k) i is_eb bs eb = do {
     b \<leftarrow> byte_at i bs;
     (if \<not> is_eb_block b then eb_loop k (i + 1) is_eb bs eb
      else if is_eb then do {
        v \<leftarrow> byte_at i eb;
        eb_loop k (i + 1) is_eb (bs[i := b\<lparr>enable := scast v\<rparr>]) eb }
      else do {
        eb \<leftarrow> put_bytes i [ucast (enable b)] eb;
        eb_loop k (i + 1) is_eb (bs[i := b\<lparr>enable := 0\<rparr>]) eb }) }"

text \<open>The operations on the blocks in use, which all return success: \<open>op\<close> gives the blocks and an answer.\<close>

definition on_blocks :: "smart_ctx option \<Rightarrow> 'a \<Rightarrow> (tuning \<Rightarrow> smart_ctx \<Rightarrow> (block_cfg list \<times> 'a) option) \<Rightarrow> (smart_ctx option \<times> 'a) option" where
  "on_blocks handle a op =
    (case handle of
       None \<Rightarrow> Some (handle, a)
     | Some cxt \<Rightarrow>
         (if check_handle_validate handle \<noteq> ISP_SUCCESS then Some (handle, a)
          else do {
            t \<leftarrow> byte_at (cur_index cxt) (tuning_param cxt);
            (let cxt = cxt\<lparr>cur_param := cur_index cxt\<rparr> in
             if bypass t = 1 \<or> ISP_SMART_MAX < block_num t then Some (Some cxt, a)
             else do {
               (bs, a) \<leftarrow> op t cxt;
               Some (Some (cxt\<lparr>tuning_param := (tuning_param cxt)[cur_index cxt := t\<lparr>blocks := bs\<rparr>]\<rparr>), a) }) }))"

definition smart_ctl_block_eb :: "smart_ctx option \<Rightarrow> u16 list \<Rightarrow> bool \<Rightarrow> (smart_ctx option \<times> u16 list) option" where
  "smart_ctl_block_eb handle block_eb is_eb =
    on_blocks handle block_eb (\<lambda>t cxt. eb_loop (unat (block_num t)) 0 is_eb (blocks t) block_eb)"

fun enable_loop :: "nat \<Rightarrow> nat \<Rightarrow> u32 \<Rightarrow> (nat \<Rightarrow> u32 option) \<Rightarrow> block_cfg list \<Rightarrow> block_cfg list option" where
  "enable_loop 0 i id' en bs = Some bs"
| "enable_loop (Suc k) i id' en bs = do {
     b \<leftarrow> byte_at i bs;
     (if id' = cfg_smart_id b then do { e \<leftarrow> en i; Some (bs[i := b\<lparr>enable := e\<rparr>]) }
      else enable_loop k (i + 1) id' en bs) }"

definition org_enable :: "smart_ctx \<Rightarrow> nat \<Rightarrow> u32 option" where
  "org_enable cxt i = do {
     org \<leftarrow> byte_at (cur_index cxt) (tuning_param_org cxt);
     b \<leftarrow> byte_at i (blocks org);
     Some (enable b) }"

definition smart_ctl_block_enable_recover :: "smart_ctx option \<Rightarrow> u32 \<Rightarrow> smart_ctx option option" where
  "smart_ctl_block_enable_recover handle id' = map_option fst (on_blocks handle ()
     (\<lambda>t cxt. map_option (\<lambda>bs. (bs, ())) (enable_loop (unat (block_num t)) 0 id' (org_enable cxt) (blocks t))))"

definition smart_ctl_block_disable :: "smart_ctx option \<Rightarrow> u32 \<Rightarrow> smart_ctx option option" where
  "smart_ctl_block_disable handle id' = map_option fst (on_blocks handle ()
     (\<lambda>t cxt. map_option (\<lambda>bs. (bs, ())) (enable_loop (unat (block_num t)) 0 id' (\<lambda>i. Some 0) (blocks t))))"

definition smart_ctl_deinit :: "smart_ctx option \<Rightarrow> int \<times> smart_ctx option" where
  "smart_ctl_deinit handle =
    (if check_handle_validate handle \<noteq> ISP_SUCCESS then (ISP_ERROR, handle)
     else (ISP_SUCCESS, None))     \<comment> \<open>freed\<close>"

subsection \<open>Switching blocks off and on\<close>

lemma eb_loop_off:
  assumes "i + k \<le> length bs" and "i + k \<le> length eb"
  obtains bs' eb' where "eb_loop k i False bs eb = Some (bs', eb')" "length bs' = length bs" "length eb' = length eb"
    "\<And>j. bs' ! j = (if i \<le> j \<and> j < i + k \<and> is_eb_block (bs ! j) then (bs ! j)\<lparr>enable := 0\<rparr> else bs ! j)"
    "\<And>j. eb' ! j = (if i \<le> j \<and> j < i + k \<and> is_eb_block (bs ! j) then ucast (enable (bs ! j)) else eb ! j)"
  using assms
proof (induction k arbitrary: i bs eb thesis)
  case 0
  show ?case by (rule 0(1) [of bs eb]) auto
next
  case (Suc k)
  have i: "i < length bs" "i < length eb" using Suc.prems(2,3) by simp_all
  let ?bs = "if is_eb_block (bs ! i) then bs[i := (bs ! i)\<lparr>enable := 0\<rparr>] else bs"
  let ?eb = "if is_eb_block (bs ! i) then eb[i := ucast (enable (bs ! i))] else eb"
  obtain bs' eb' where r: "eb_loop k (i + 1) False ?bs ?eb = Some (bs', eb')" "length bs' = length ?bs" "length eb' = length ?eb"
      "\<And>j. bs' ! j = (if i + 1 \<le> j \<and> j < i + 1 + k \<and> is_eb_block (?bs ! j) then (?bs ! j)\<lparr>enable := 0\<rparr> else ?bs ! j)"
      "\<And>j. eb' ! j = (if i + 1 \<le> j \<and> j < i + 1 + k \<and> is_eb_block (?bs ! j) then ucast (enable (?bs ! j)) else ?eb ! j)"
    by (rule Suc.IH [of "i + 1" ?bs ?eb]) (use Suc.prems(2,3) in simp_all)
  show ?case
  proof (rule Suc.prems(1) [of bs' eb'])
    show "eb_loop (Suc k) i False bs eb = Some (bs', eb')"
      using r(1) i by (cases "is_eb_block (bs ! i)") (simp_all add: byte_at_def put_one)
    show "length bs' = length bs" "length eb' = length eb" using r(2,3) by simp_all
    fix j
    show "bs' ! j = (if i \<le> j \<and> j < i + Suc k \<and> is_eb_block (bs ! j) then (bs ! j)\<lparr>enable := 0\<rparr> else bs ! j)"
      using r(4) [of j] i by (cases "j = i") auto
    show "eb' ! j = (if i \<le> j \<and> j < i + Suc k \<and> is_eb_block (bs ! j) then ucast (enable (bs ! j)) else eb ! j)"
      using r(5) [of j] i by (cases "j = i") auto
  qed
qed

lemma eb_loop_on:
  assumes "i + k \<le> length bs" and "i + k \<le> length eb"
  obtains bs' where "eb_loop k i True bs eb = Some (bs', eb)" "length bs' = length bs"
    "\<And>j. bs' ! j = (if i \<le> j \<and> j < i + k \<and> is_eb_block (bs ! j) then (bs ! j)\<lparr>enable := scast (eb ! j)\<rparr> else bs ! j)"
  using assms
proof (induction k arbitrary: i bs thesis)
  case 0
  show ?case by (rule 0(1) [of bs]) auto
next
  case (Suc k)
  have i: "i < length bs" "i < length eb" using Suc.prems(2,3) by simp_all
  let ?bs = "if is_eb_block (bs ! i) then bs[i := (bs ! i)\<lparr>enable := scast (eb ! i)\<rparr>] else bs"
  obtain bs' where r: "eb_loop k (i + 1) True ?bs eb = Some (bs', eb)" "length bs' = length ?bs"
      "\<And>j. bs' ! j = (if i + 1 \<le> j \<and> j < i + 1 + k \<and> is_eb_block (?bs ! j) then (?bs ! j)\<lparr>enable := scast (eb ! j)\<rparr> else ?bs ! j)"
    by (rule Suc.IH [of "i + 1" ?bs]) (use Suc.prems(2,3) in simp_all)
  show ?case
  proof (rule Suc.prems(1) [of bs'])
    show "eb_loop (Suc k) i True bs eb = Some (bs', eb)" 
      using r(1) i by (cases "is_eb_block (bs ! i)") (simp_all add: byte_at_def)
    show "length bs' = length bs" using r(2) by simp
    fix j
    show "bs' ! j = (if i \<le> j \<and> j < i + Suc k \<and> is_eb_block (bs ! j) then (bs ! j)\<lparr>enable := scast (eb ! j)\<rparr> else bs ! j)"
      using r(3) [of j] i by (cases "j = i") auto
  qed
qed

lemma enable_through_s16: "e < 2 ^ 15 \<Longrightarrow> scast (ucast (e :: u32) :: u16) = e"
proof (rule bit_word_eqI)
  fix n
  assume e: "e < 2 ^ 15" and n: "n < LENGTH(32)"
  have "take_bit 15 (unat e) = unat e" using e by (intro take_bit_nat_eq_self) (simp add: word_less_nat_alt)
  then have "\<not> bit (unat e) m" if "15 \<le> m" for m using that by (metis bit_take_bit_iff not_le)
  then have "\<not> bit e m" if "15 \<le> m" for m using that bit_imp_le_length [of e m] by (auto simp: bit_unsigned_iff)
  then show "bit (scast (ucast e :: u16) :: u32) n = bit e n"
    using n by (auto simp: bit_simps min_def)
qed

definition cur_tuning :: "smart_ctx \<Rightarrow> tuning" where
  "cur_tuning cxt = tuning_param cxt ! cur_index cxt"

definition handle_ok :: "smart_ctx \<Rightarrow> bool" where
  "handle_ok cxt \<longleftrightarrow> check_handle_validate (Some cxt) = ISP_SUCCESS \<and> cur_index cxt < length (tuning_param cxt) \<and>
     length (blocks (cur_tuning cxt)) = 28 \<and> unat (block_num (cur_tuning cxt)) \<le> 28 \<and> length (calc_result cxt) = 28 \<and>
     length (results (cur_result cxt)) = 4"

lemma cur_index_cur_param [simp]: "cur_index (cxt\<lparr>cur_param := x\<rparr>) = cur_index cxt"
  by (simp add: cur_index_def)

lemma handle_ok_read: "handle_ok cxt \<Longrightarrow> byte_at (cur_index cxt) (tuning_param cxt) = Some (cur_tuning cxt)"
  by (simp add: handle_ok_def byte_at_def cur_tuning_def)

text \<open>
  C38. Switching the blocks for lens shading, colour and gamma off for a picture and on again
  afterwards restores every block, provided that the enable values fit a signed 16-bit integer
  (which the buffer between has); in between those three are off.
\<close>

theorem blocks_switched_back_on:
  assumes "handle_ok cxt" and "length buf = 28" and "list_all (\<lambda>b. enable b < 2 ^ 15) (blocks (cur_tuning cxt))"
  shows "\<exists>cxt' buf'. smart_ctl_block_eb (Some cxt) buf False = Some (Some cxt', buf') \<and>
    smart_ctl_block_eb (Some cxt') buf' True = Some (Some (cxt\<lparr>cur_param := cur_index cxt\<rparr>), buf') \<and>
    (bypass (cur_tuning cxt) \<noteq> 1 \<and> block_num (cur_tuning cxt) \<le> 25 \<longrightarrow>
      (\<forall>i < unat (block_num (cur_tuning cxt)). is_eb_block (blocks (cur_tuning cxt) ! i) \<longrightarrow> enable (blocks (cur_tuning cxt') ! i) = 0))"
proof -
  let ?t = "cur_tuning cxt" and ?i = "cur_index cxt"
  let ?n = "unat (block_num ?t)"
  note read = handle_ok_read [OF assms(1)]
  have ok: "check_handle_validate (Some cxt) = ISP_SUCCESS" "?i < length (tuning_param cxt)" "length (blocks ?t) = 28" "?n \<le> 28"
    using assms(1) by (simp_all add: handle_ok_def)
  show ?thesis
  proof (cases "bypass ?t = 1 \<or> 25 < block_num ?t")
    case True
    have idx: "cur_index (cxt\<lparr>cur_param := ?i\<rparr>) = ?i" by (simp add: cur_index_def)
    have v: "check_handle_validate (Some (cxt\<lparr>cur_param := ?i\<rparr>)) = ISP_SUCCESS"
      using ok(1) by (simp add: check_handle_validate_def)
    show ?thesis
      by (rule exI [of _ "cxt\<lparr>cur_param := ?i\<rparr>"], rule exI [of _ buf])
        (use True ok(1) read idx v in \<open>auto simp: smart_ctl_block_eb_def on_blocks_def Let_def\<close>)
  next
    case False
    obtain bs eb where off: "eb_loop ?n 0 False (blocks ?t) buf = Some (bs, eb)" "length bs = length (blocks ?t)" "length eb = length buf"
        "\<And>j. bs ! j = (if 0 \<le> j \<and> j < 0 + ?n \<and> is_eb_block (blocks ?t ! j) then (blocks ?t ! j)\<lparr>enable := 0\<rparr> else blocks ?t ! j)"
        "\<And>j. eb ! j = (if 0 \<le> j \<and> j < 0 + ?n \<and> is_eb_block (blocks ?t ! j) then ucast (enable (blocks ?t ! j)) else buf ! j)"
      by (rule eb_loop_off [of 0 ?n "blocks ?t" buf]) (use ok assms(2) in simp_all)
    obtain bs' where on: "eb_loop ?n 0 True bs eb = Some (bs', eb)" "length bs' = length bs"
        "\<And>j. bs' ! j = (if 0 \<le> j \<and> j < 0 + ?n \<and> is_eb_block (bs ! j) then (bs ! j)\<lparr>enable := scast (eb ! j)\<rparr> else bs ! j)"
      by (rule eb_loop_on [of 0 ?n bs eb]) (use ok assms(2) off(2,3) in simp_all)
    have "bs' = blocks ?t"
    proof (rule nth_equalityI)
      show "length bs' = length (blocks ?t)" using on(2) off(2) by simp
      fix j
      assume "j < length bs'"
      then have "enable (blocks ?t ! j) < 2 ^ 15" using assms(3) on(2) off(2) by (simp add: list_all_length)
      then show "bs' ! j = blocks ?t ! j"
        using on(3) [of j] off(4,5) [of j] enable_through_s16 [of "enable (blocks ?t ! j)"] by (auto simp: is_eb_block_def)
    qed
    define cxt' where "cxt' = cxt\<lparr>cur_param := ?i, tuning_param := (tuning_param cxt)[?i := ?t\<lparr>blocks := bs\<rparr>]\<rparr>"
    have idx: "cur_index cxt' = ?i" by (simp add: cxt'_def cur_index_def)
    have c': "check_handle_validate (Some cxt') = ISP_SUCCESS"
      unfolding cxt'_def using ok(1) by (simp add: check_handle_validate_def)
    have tp: "tuning_param cxt' = (tuning_param cxt)[?i := ?t\<lparr>blocks := bs\<rparr>]" by (simp add: cxt'_def)
    have read': "byte_at ?i (tuning_param cxt') = Some (?t\<lparr>blocks := bs\<rparr>)" "cur_tuning cxt' = ?t\<lparr>blocks := bs\<rparr>"
      using ok(2) idx tp by (simp_all add: byte_at_def cur_tuning_def [of cxt'])
    have one: "smart_ctl_block_eb (Some cxt) buf False = Some (Some cxt', eb)"
      using ok(1) read False off(1) by (simp add: smart_ctl_block_eb_def on_blocks_def Let_def cxt'_def)
    have "(tuning_param cxt')[?i := ?t] = tuning_param cxt"
      by (simp add: cxt'_def cur_tuning_def)
    then have two: "smart_ctl_block_eb (Some cxt') eb True = Some (Some (cxt\<lparr>cur_param := ?i\<rparr>), eb)"
      using c' read' idx False on(1) \<open>bs' = _\<close> by (simp add: smart_ctl_block_eb_def on_blocks_def Let_def) (simp add: cxt'_def cur_tuning_def)
    show ?thesis
      by (rule exI [of _ cxt'], rule exI [of _ eb]) (use one two read'(2) off(4) in auto)
  qed
qed

definition demo_tuning :: tuning where
  "demo_tuning = \<lparr>version = 0, bypass = 0, block_num = 2, blocks = replicate 28 demo_block\<rparr>"

definition demo_ctx :: smart_ctx where
  "demo_ctx = \<lparr>magic_flag = ISP_SMART_MAGIC_FLAG, tuning_param = replicate 16 demo_tuning, tuning_param_org = replicate 16 demo_tuning,
     cur_param = 0, work_mode = 0, flash_mode = 0, calc_result = replicate 28 demo_result, cur_result = demo_result\<rparr>"

lemma demo_ctx_ok: "handle_ok demo_ctx" "cur_tuning demo_ctx = demo_tuning"
  by (simp_all add: handle_ok_def demo_ctx_def check_handle_validate_def cur_index_def cur_tuning_def demo_tuning_def demo_result_def)

theorem blocks_switched_back_on_witness:
  "\<exists>cxt' buf'. smart_ctl_block_eb (Some demo_ctx) (replicate 28 0) False = Some (Some cxt', buf') \<and>
    smart_ctl_block_eb (Some cxt') buf' True = Some (Some demo_ctx, buf') \<and>
    (\<forall>i < 2. is_eb_block demo_block \<longrightarrow> enable (blocks (cur_tuning cxt') ! i) = 0)"
proof -
  have l: "list_all (\<lambda>b. enable b < 2 ^ 15) (blocks (cur_tuning demo_ctx))"
    by (simp add: demo_ctx_ok demo_tuning_def demo_block_def list_all_iff)
  have c: "demo_ctx\<lparr>cur_param := cur_index demo_ctx\<rparr> = demo_ctx" by (simp add: demo_ctx_def cur_index_def)
  have b: "blocks demo_tuning ! i = demo_block" if "i < 2" for i using that by (simp add: demo_tuning_def)
  obtain cxt' buf' where r: "smart_ctl_block_eb (Some demo_ctx) (replicate 28 0) False = Some (Some cxt', buf')"
      "smart_ctl_block_eb (Some cxt') buf' True = Some (Some demo_ctx, buf')"
      "bypass demo_tuning \<noteq> 1 \<and> block_num demo_tuning \<le> 25 \<longrightarrow>
        (\<forall>i < unat (block_num demo_tuning). is_eb_block (blocks demo_tuning ! i) \<longrightarrow> enable (blocks (cur_tuning cxt') ! i) = 0)"
    using blocks_switched_back_on [OF demo_ctx_ok(1) _ l, of "replicate 28 0"] unfolding c demo_ctx_ok(2) by auto
  have "bypass demo_tuning \<noteq> 1 \<and> block_num demo_tuning \<le> 25" "unat (block_num demo_tuning) = 2" by (simp_all add: demo_tuning_def)
  with r(3) b have "\<forall>i < 2. is_eb_block demo_block \<longrightarrow> enable (blocks (cur_tuning cxt') ! i) = 0" by simp
  with r(1,2) show ?thesis by blast
qed

subsection \<open>All blocks of a picture\<close>

definition enabled :: "block_cfg \<Rightarrow> bool" where
  "enabled b \<longleftrightarrow> enable b \<noteq> 0"

text \<open>The blocks from \<open>i\<close> on, \<open>k\<close> of them, are sound where enabled, for the ranges and types given.\<close>

definition sound_blocks :: "(block_cfg \<Rightarrow> isp_range) \<Rightarrow> (block_cfg \<Rightarrow> u32) \<Rightarrow> block_cfg list \<Rightarrow> bool" where
  "sound_blocks rg y bs \<longleftrightarrow> list_all (\<lambda>b. enabled b \<longrightarrow> block_ok (rg b) (y b) b) bs"

text \<open>
  A result for a block: its identities, a result of the right type within the range for each of its
  components, and the check of the block of the image processor passed.
\<close>

definition accepted :: "(block_cfg \<Rightarrow> isp_range) \<Rightarrow> (block_cfg \<Rightarrow> u32) \<Rightarrow> block_cfg \<Rightarrow> block_result \<Rightarrow> bool" where
  "accepted rg y b r \<longleftrightarrow> smart_id r = cfg_smart_id b \<and> block_id r = cfg_block_id b \<and> result_num r = component_num b \<and>
     list_all (\<lambda>j. typed_result (rg b) (y b) (results r ! j)) [0..<unat (component_num b)] \<and>
     pm_check_smart_param (Some r) (rg b) (component_num b) (y b) = Some ISP_SUCCESS"

lemma calc_blocks_sound:
  assumes "sound_blocks rg y (take k (drop i bs))" and "i + k \<le> length bs" and "n + k \<le> length (calc_result cxt)"
    and "length (results (cur_result cxt)) = 4"
  obtains new r where "calc_blocks k i bs bv bv_gain ct ISP_SUCCESS n cxt = Some (ISP_SUCCESS, n + length new,
      cxt\<lparr>cur_result := r, calc_result := take n (calc_result cxt) @ new @ drop (n + length new) (calc_result cxt)\<rparr>)"
    "length (results r) = 4" "list_all2 (accepted rg y) (filter enabled (take k (drop i bs))) new" "length new \<le> k"
  using assms
proof (induction k arbitrary: i n cxt thesis)
  case 0
  show ?case by (rule 0(1) [of "[]" "cur_result cxt"]) (use 0(5) in simp_all)
next
  case (Suc k)
  have i: "i < length bs" and read: "byte_at i bs = Some (bs ! i)" using Suc.prems(3) by (simp_all add: byte_at_def)
  have split: "take (Suc k) (drop i bs) = bs ! i # take k (drop (i + 1) bs)" using i by (simp add: Cons_nth_drop_Suc [symmetric])
  have sound: "sound_blocks rg y (take k (drop (i + 1) bs))" "enabled (bs ! i) \<Longrightarrow> block_ok (rg (bs ! i)) (y (bs ! i)) (bs ! i)"
    using Suc.prems(2) unfolding split by (simp_all add: sound_blocks_def)
  let ?res = "(cur_result cxt)\<lparr>update := 0\<rparr>"
  have len: "length (results ?res) = 4" using Suc.prems(5) by simp
  show ?case
  proof (cases "enabled (bs ! i)")
    case True
    then have en: "enable (bs ! i) \<noteq> 0" by (simp add: enabled_def)
    obtain b where b: "smart_ctl_calc_block (bs ! i) bv bv_gain ct (flash_mode cxt) ?res = Some (ISP_SUCCESS, b)"
        "length (results b) = 4" "update b = 1" "accepted rg y (bs ! i) b"
      using sound_block [OF sound(2) [OF True] en len, of bv bv_gain ct "flash_mode cxt"] by (auto simp: accepted_def list_all_iff)
    let ?cxt = "cxt\<lparr>cur_result := b, calc_result := (calc_result cxt)[n := b]\<rparr>"
    obtain new r where r: "calc_blocks k (i + 1) bs bv bv_gain ct ISP_SUCCESS (n + 1) ?cxt = Some (ISP_SUCCESS, n + 1 + length new,
        ?cxt\<lparr>cur_result := r, calc_result := take (n + 1) (calc_result ?cxt) @ new @ drop (n + 1 + length new) (calc_result ?cxt)\<rparr>)"
      "length (results r) = 4" "list_all2 (accepted rg y) (filter enabled (take k (drop (i + 1) bs))) new" "length new \<le> k"
      by (rule Suc.IH [OF _ sound(1), where n = "n + 1" and cxt = ?cxt]) (use Suc.prems(3,4) b(2) in simp_all)
    have n: "n < length (calc_result cxt)" using Suc.prems(4) by simp
    have "take (n + 1) ((calc_result cxt)[n := b]) = take n (calc_result cxt) @ [b]"
      using n by (simp add: take_Suc_conv_app_nth)
    then show ?thesis
      using r b n read True by (intro Suc.prems(1) [of "b # new" r]) (simp_all add: put_one split)
  next
    case False
    then have b: "smart_ctl_calc_block (bs ! i) bv bv_gain ct (flash_mode cxt) ?res = Some (ISP_SUCCESS, ?res)"
      by (simp add: smart_ctl_calc_block_def enabled_def)
    let ?cxt = "cxt\<lparr>cur_result := ?res\<rparr>"
    obtain new r where r: "calc_blocks k (i + 1) bs bv bv_gain ct ISP_SUCCESS n ?cxt = Some (ISP_SUCCESS, n + length new,
        ?cxt\<lparr>cur_result := r, calc_result := take n (calc_result ?cxt) @ new @ drop (n + length new) (calc_result ?cxt)\<rparr>)"
      "length (results r) = 4" "list_all2 (accepted rg y) (filter enabled (take k (drop (i + 1) bs))) new" "length new \<le> k"
      by (rule Suc.IH [OF _ sound(1), where n = n and cxt = ?cxt]) (use Suc.prems(3,4) len in simp_all)
    then show ?thesis using b read False by (intro Suc.prems(1) [of new r]) (simp_all add: split)
  qed
qed

lemma calc_blocks_add:
  "calc_blocks (k + m) i bs bv bv_gain ct rtn n cxt =
    do { (rtn, n, cxt) \<leftarrow> calc_blocks k i bs bv bv_gain ct rtn n cxt; calc_blocks m (i + k) bs bv bv_gain ct rtn n cxt }"
proof (induction k arbitrary: i rtn n cxt)
  case (Suc k)
  show ?case
  proof (cases "byte_at i bs")
    case blk: (Some blk)
    show ?thesis
    proof (cases "smart_ctl_calc_block blk bv bv_gain ct (flash_mode cxt) ((cur_result cxt)\<lparr>update := 0\<rparr>)")
      case r: (Some p)
      obtain rtn' r' where p: "p = (rtn', r')" by (cases p)
      show ?thesis
        using blk r unfolding p by (cases "put_bytes n [r'] (calc_result cxt)") (simp_all add: Suc.IH)
    qed (simp add: blk)
  qed simp
qed simp

lemma handle_calculation:
  assumes "handle_ok cxt" and "bypass (cur_tuning cxt) \<noteq> 1"
  shows "smart_ctl_calculation (Some cxt) bv bv_gain ct = do {
    (rtn, n, cxt) \<leftarrow> calc_blocks (unat (block_num (cur_tuning cxt))) 0 (blocks (cur_tuning cxt)) bv bv_gain ct ISP_SUCCESS 0 (cxt\<lparr>cur_param := cur_index cxt\<rparr>);
    Some (rtn, Some n, Some cxt) }"
  using assms handle_ok_read [OF assms(1)] by (simp add: smart_ctl_calculation_def handle_ok_def Let_def)

text \<open>
  C34. One calculation serves all blocks: with a valid handle, tables in use and not bypassed, and
  every enabled block sound, it succeeds, and its results are, in order, one for each enabled
  block, each with the identities of that block, every component of the type and in the range of the
  block, and accepted by it.
\<close>

theorem picture_serves_enabled_blocks:
  assumes "handle_ok cxt" and "bypass (cur_tuning cxt) \<noteq> 1"
    and "sound_blocks rg y (take (unat (block_num (cur_tuning cxt))) (blocks (cur_tuning cxt)))"
  shows "\<exists>m cxt'. smart_ctl_calculation (Some cxt) bv bv_gain ct = Some (ISP_SUCCESS, Some m, Some cxt') \<and>
    list_all2 (accepted rg y) (filter enabled (take (unat (block_num (cur_tuning cxt))) (blocks (cur_tuning cxt))))
      (take m (calc_result cxt'))"
proof -
  let ?c = "cxt\<lparr>cur_param := cur_index cxt\<rparr>" and ?bs = "blocks (cur_tuning cxt)" and ?n = "unat (block_num (cur_tuning cxt))"
  have ok: "?n \<le> 28" "length ?bs = 28" "length (calc_result cxt) = 28" "length (results (cur_result cxt)) = 4"
    using assms(1) by (simp_all add: handle_ok_def)
  obtain new r where r: "calc_blocks ?n 0 ?bs bv bv_gain ct ISP_SUCCESS 0 ?c = Some (ISP_SUCCESS, 0 + length new,
      ?c\<lparr>cur_result := r, calc_result := take 0 (calc_result ?c) @ new @ drop (0 + length new) (calc_result ?c)\<rparr>)"
    "list_all2 (accepted rg y) (filter enabled (take ?n (drop 0 ?bs))) new"
    by (rule calc_blocks_sound [where n = 0 and i = 0 and cxt = ?c and k = ?n and bs = ?bs and rg = rg and y = y and bv = bv and bv_gain = bv_gain and ct = ct])
      (use assms(3) ok in simp_all)
  then show ?thesis using handle_calculation [OF assms(1,2)] by auto
qed

theorem picture_serves_enabled_blocks_witness:
  "\<exists>m cxt'. smart_ctl_calculation (Some demo_ctx) 45 10 70 = Some (0, Some m, Some cxt') \<and>
    list_all2 (accepted (\<lambda>b. \<lparr>rmin = 0, rmax = 255\<rparr>) (\<lambda>b. 0)) [demo_block, demo_block] (take m (calc_result cxt'))"
proof -
  have b: "block_ok \<lparr>rmin = 0, rmax = 255\<rparr> 0 demo_block"
    using demo_cfg_ok by (simp add: block_ok_def demo_block_def flash_ok_def) (simp add: demo_cfg_def)
  have t: "take (unat (block_num (cur_tuning demo_ctx))) (blocks (cur_tuning demo_ctx)) = [demo_block, demo_block]"
    by (simp add: demo_ctx_ok demo_tuning_def take_replicate) (simp add: numeral_2_eq_2)
  have s: "sound_blocks (\<lambda>b. \<lparr>rmin = 0, rmax = 255\<rparr>) (\<lambda>b. 0) [demo_block, demo_block]"
    using b by (simp add: sound_blocks_def)
  have e: "enabled demo_block" by (simp add: enabled_def demo_block_def)
  have bp: "bypass (cur_tuning demo_ctx) \<noteq> 1" by (simp add: demo_ctx_ok demo_tuning_def)
  show ?thesis
    using picture_serves_enabled_blocks [OF demo_ctx_ok(1) bp, where rg = "\<lambda>b. \<lparr>rmin = 0, rmax = 255\<rparr>" and y = "\<lambda>b. 0" and bv = 45 and bv_gain = 10 and ct = 70] s e
    unfolding t by simp
qed

text \<open>
  The last block decides for all: when the tables of the last block fail its check, the
  calculation reports an error (upon which its caller drops everything), although it has the
  results of all the other blocks, and these are sound; a failure of any other block goes
  unreported.
\<close>

lemma last_block_decides:
  assumes "handle_ok cxt" and "bypass (cur_tuning cxt) \<noteq> 1" and "unat (block_num (cur_tuning cxt)) = Suc k"
    and "sound_blocks rg y (take k (blocks (cur_tuning cxt)))"
    and "enabled (blocks (cur_tuning cxt) ! k)" and "smart_ctl_check_block_param (blocks (cur_tuning cxt) ! k) = Some ISP_ERROR"
  shows "\<exists>m cxt'. smart_ctl_calculation (Some cxt) bv bv_gain ct = Some (ISP_ERROR, Some m, Some cxt') \<and>
    list_all2 (accepted rg y) (filter enabled (take k (blocks (cur_tuning cxt)))) (take m (calc_result cxt'))"
proof -
  let ?c = "cxt\<lparr>cur_param := cur_index cxt\<rparr>" and ?bs = "blocks (cur_tuning cxt)"
  have ok: "k < 28" "length ?bs = 28" "length (calc_result cxt) = 28" "length (results (cur_result cxt)) = 4"
    using assms(1,3) by (simp_all add: handle_ok_def)
  obtain new r where r: "calc_blocks k 0 ?bs bv bv_gain ct ISP_SUCCESS 0 ?c = Some (ISP_SUCCESS, 0 + length new,
      ?c\<lparr>cur_result := r, calc_result := take 0 (calc_result ?c) @ new @ drop (0 + length new) (calc_result ?c)\<rparr>)"
    "list_all2 (accepted rg y) (filter enabled (take k (drop 0 ?bs))) new"
    by (rule calc_blocks_sound [where n = 0 and i = 0 and cxt = ?c and k = k and bs = ?bs and rg = rg and y = y and bv = bv and bv_gain = bv_gain and ct = ct])
      (use assms(4) ok in simp_all)
  have "smart_ctl_calc_block (?bs ! k) bv bv_gain ct fm res = Some (ISP_ERROR, res)" for fm res
    using assms(5,6) by (simp add: smart_ctl_calc_block_def enabled_def)
  moreover have "byte_at k ?bs = Some (?bs ! k)" using ok by (simp add: byte_at_def)
  ultimately have last: "calc_blocks 1 (0 + k) ?bs bv bv_gain ct ISP_SUCCESS (length new) c = Some (ISP_ERROR, length new, c\<lparr>cur_result := (cur_result c)\<lparr>update := 0\<rparr>\<rparr>)" for c
    by (simp add: One_nat_def)
  obtain c' where "calc_blocks (k + 1) 0 ?bs bv bv_gain ct ISP_SUCCESS 0 ?c = Some (ISP_ERROR, length new, c')"
      "calc_result c' = new @ drop (length new) (calc_result cxt)"
    unfolding calc_blocks_add r(1) using last by (simp del: calc_blocks.simps)
  then show ?thesis using handle_calculation [OF assms(1,2)] r(2) assms(3) by (auto simp del: calc_blocks.simps)
qed

text \<open>The brightness range of the last block is upside down.\<close>

definition bad_block :: block_cfg where
  "bad_block = demo_block\<lparr>components := replicate 4 (demo_cfg\<lparr>bv_range := replicate 8 \<lparr>rmin = 1, rmax = 0\<rparr>\<rparr>)\<rparr>"

lemma last_block_decides_witness:
  "\<exists>m cxt'. smart_ctl_calculation (Some (demo_ctx\<lparr>tuning_param := replicate 16 (demo_tuning\<lparr>blocks := demo_block # bad_block # replicate 26 demo_block\<rparr>)\<rparr>)) 45 10 70
      = Some (ISP_ERROR, Some m, Some cxt') \<and>
    list_all2 (accepted (\<lambda>b. \<lparr>rmin = 0, rmax = 255\<rparr>) (\<lambda>b. 0)) [demo_block] (take m (calc_result cxt'))"
proof -
  let ?t = "demo_tuning\<lparr>blocks := demo_block # bad_block # replicate 26 demo_block\<rparr>"
  let ?c = "demo_ctx\<lparr>tuning_param := replicate 16 ?t\<rparr>"
  have t: "cur_tuning ?c = ?t" "cur_index ?c = 0" by (simp_all add: cur_tuning_def cur_index_def demo_ctx_def)
  have h: "handle_ok ?c"
    unfolding handle_ok_def t by (simp add: demo_ctx_def check_handle_validate_def demo_tuning_def demo_result_def)
  have b: "block_ok \<lparr>rmin = 0, rmax = 255\<rparr> 0 demo_block"
    using demo_cfg_ok by (simp add: block_ok_def demo_block_def flash_ok_def) (simp add: demo_cfg_def)
  then have s: "sound_blocks (\<lambda>b. \<lparr>rmin = 0, rmax = 255\<rparr>) (\<lambda>b. 0) (take 1 (blocks ?t))" by (simp add: sound_blocks_def)
  have k: "unat (block_num ?t) = Suc 1" "bypass ?t \<noteq> 1" "enabled (blocks ?t ! 1)" "enabled demo_block"
    by (simp_all add: demo_tuning_def enabled_def bad_block_def demo_block_def)
  have "ranges_check 2 0 (replicate 8 \<lparr>rmin = 1, rmax = 0\<rparr>) = Some False" by (simp add: numeral_2_eq_2 byte_at_def)
  moreover have "components_check 1 0 bad_block = (do {
      ok \<leftarrow> ranges_check 2 0 (replicate 8 \<lparr>rmin = 1, rmax = 0\<rparr>); if ok then Some ISP_SUCCESS else Some ISP_ERROR })"
    by (simp add: One_nat_def bad_block_def demo_block_def demo_cfg_def byte_at_def cong: if_cong)
  ultimately have "components_check 1 0 bad_block = Some ISP_ERROR" by (simp del: components_check.simps)
  moreover have "component_num bad_block = 1" by (simp add: bad_block_def demo_block_def)
  ultimately have c: "smart_ctl_check_block_param (blocks ?t ! 1) = Some ISP_ERROR"
    by (simp add: smart_ctl_check_block_param_def del: components_check.simps)
  show ?thesis
    using last_block_decides [OF h, where k = 1 and rg = "\<lambda>b. \<lparr>rmin = 0, rmax = 255\<rparr>" and y = "\<lambda>b. 0" and bv = 45 and bv_gain = 10 and ct = 70, unfolded t, OF k(2,1) s k(3) c] k(4)
    by simp
qed

end
