(* ===== verification/IspInterp.thy ===== *)
theory IspInterp
  imports SmartCtrl
begin

text \<open>
  Mixing of tunings (\<open>modules/libcamera/isp2.0/param_manager/isp_com_alg.c\<close>) and three blocks of
  \<open>isp_blocks_cfg.c\<close> that mix by the weights of the smart control: gamma curve, colour matrix and
  hue map. An array is a list; a copy or a read past its end is \<open>None\<close>. A pointer into an array
  is the list of what lies from it to the end of the array.
\<close>

subsection \<open>Interpolation\<close>

text \<open>
  With full weight on one side \<open>copy\<close> elements of it are copied, otherwise \<open>num\<close> elements are
  mixed.
\<close>

definition interp :: "(u16 \<Rightarrow> u16 \<Rightarrow> 'a \<Rightarrow> 'a \<Rightarrow> 'a) \<Rightarrow> nat \<Rightarrow> 'a list \<Rightarrow> 'a list \<Rightarrow> 'a list \<Rightarrow> u16 \<Rightarrow> u16 \<Rightarrow> nat \<Rightarrow> 'a list option" where
  "interp mix copy dst s0 s1 w0 w1 num =
    (if w0 = 256 then do { xs \<leftarrow> get_bytes 0 copy s0; put_bytes 0 xs dst }
     else if w1 = 256 then do { xs \<leftarrow> get_bytes 0 copy s1; put_bytes 0 xs dst }
     else do { xs \<leftarrow> get_bytes 0 num s0; ys \<leftarrow> get_bytes 0 num s1; put_bytes 0 (map2 (mix w0 w1) xs ys) dst })"

definition mix32 :: "u16 \<Rightarrow> u16 \<Rightarrow> u32 \<Rightarrow> u32 \<Rightarrow> u32" where
  "mix32 w0 w1 a b = (a * ucast w0 + b * ucast w1) div 256"

definition interp_uint8 :: "u8 list \<Rightarrow> u8 list \<Rightarrow> u8 list \<Rightarrow> u16 \<Rightarrow> u16 \<Rightarrow> nat \<Rightarrow> u8 list option" where
  "interp_uint8 dst s0 s1 w0 w1 num = interp (\<lambda>w0 w1 a b. ucast (mix32 w0 w1 (ucast a) (ucast b))) num dst s0 s1 w0 w1 num"

definition interp_uint16 :: "u16 list \<Rightarrow> u16 list \<Rightarrow> u16 list \<Rightarrow> u16 \<Rightarrow> u16 \<Rightarrow> nat \<Rightarrow> u16 list option" where
  "interp_uint16 dst s0 s1 w0 w1 num = interp (\<lambda>w0 w1 a b. ucast (mix32 w0 w1 (ucast a) (ucast b))) num dst s0 s1 w0 w1 num"

definition interp_uint32 :: "u32 list \<Rightarrow> u32 list \<Rightarrow> u32 list \<Rightarrow> u16 \<Rightarrow> u16 \<Rightarrow> nat \<Rightarrow> u32 list option" where
  "interp_uint32 dst s0 s1 w0 w1 num = interp mix32 num dst s0 s1 w0 w1 num"

text \<open>
  14-bit signed numbers, shifted to the top of 16 bits while they are mixed; the copy counts four
  bytes for each number of two.
\<close>

definition mix_int14 :: "u16 \<Rightarrow> u16 \<Rightarrow> u16 \<Rightarrow> u16 \<Rightarrow> u16" where
  "mix_int14 w0 w1 a b =
    (let v = (of_int ((sint (push_bit 2 a) * uint w0 + sint (push_bit 2 b) * uint w1) sdiv 256) :: u16) in
     drop_bit 2 v AND 0x3fff)"

definition interp_int14 :: "u16 list \<Rightarrow> u16 list \<Rightarrow> u16 list \<Rightarrow> u16 \<Rightarrow> u16 \<Rightarrow> nat \<Rightarrow> u16 list option" where
  "interp_int14 dst s0 s1 w0 w1 num = interp mix_int14 (2 * num) dst s0 s1 w0 w1 num"

definition mix_uint20 :: "u16 \<Rightarrow> u16 \<Rightarrow> u32 \<Rightarrow> u32 \<Rightarrow> u32" where
  "mix_uint20 w0 w1 a b = drop_bit 12 (mix32 w0 w1 (push_bit 12 a) (push_bit 12 b)) AND 0xfffff"

definition interp_uint20 :: "u32 list \<Rightarrow> u32 list \<Rightarrow> u32 list \<Rightarrow> u16 \<Rightarrow> u16 \<Rightarrow> nat \<Rightarrow> u32 list option" where
  "interp_uint20 dst s0 s1 w0 w1 num = interp mix_uint20 num dst s0 s1 w0 w1 num"

text \<open>The destination and the two sources, by the type of the data.\<close>

datatype interp_data =
    Uint8 "u8 list" "u8 list option" "u8 list option"
  | Uint16 "u16 list" "u16 list option" "u16 list option"
  | Uint32 "u32 list" "u32 list option" "u32 list option"
  | Int14 "u16 list" "u16 list option" "u16 list option"
  | Uint20 "u32 list" "u32 list option" "u32 list option"

fun has_sources :: "interp_data \<Rightarrow> bool" where
  "has_sources (Uint8 d (Some s0) (Some s1)) = True"
| "has_sources (Uint16 d (Some s0) (Some s1)) = True"
| "has_sources (Uint32 d (Some s0) (Some s1)) = True"
| "has_sources (Int14 d (Some s0) (Some s1)) = True"
| "has_sources (Uint20 d (Some s0) (Some s1)) = True"
| "has_sources _ = False"

definition isp_interp_data :: "interp_data \<Rightarrow> u16 \<Rightarrow> u16 \<Rightarrow> nat \<Rightarrow> (int \<times> interp_data) option" where
  "isp_interp_data x w0 w1 num =
    (if \<not> has_sources x \<or> num = 0 then Some (ISP_ERROR, x)
     else if uint w0 + uint w1 \<noteq> 256 then Some (ISP_ERROR, x)
     else map_option (Pair ISP_SUCCESS) (case x of
         Uint8 d s0 s1 \<Rightarrow> map_option (\<lambda>d. Uint8 d s0 s1) (interp_uint8 d (the s0) (the s1) w0 w1 num)
       | Uint16 d s0 s1 \<Rightarrow> map_option (\<lambda>d. Uint16 d s0 s1) (interp_uint16 d (the s0) (the s1) w0 w1 num)
       | Uint32 d s0 s1 \<Rightarrow> map_option (\<lambda>d. Uint32 d s0 s1) (interp_uint32 d (the s0) (the s1) w0 w1 num)
       | Int14 d s0 s1 \<Rightarrow> map_option (\<lambda>d. Int14 d s0 s1) (interp_int14 d (the s0) (the s1) w0 w1 num)
       | Uint20 d s0 s1 \<Rightarrow> map_option (\<lambda>d. Uint20 d s0 s1) (interp_uint20 d (the s0) (the s1) w0 w1 num)))"

subsection \<open>Blocks\<close>

record sample_point =
  pt_x0 :: u32     \<comment> \<open>signed\<close>
  pt_x1 :: u32     \<comment> \<open>signed\<close>
  pt_weight0 :: u32
  pt_weight1 :: u32

text \<open>The sixteenths of the weights a block uses, so that it does not follow every small change.\<close>

definition sixteenths :: "isp_weight_value \<Rightarrow> isp_weight_value" where
  "sixteenths w = (let w0 = weight0 w div (256 div 16) * (256 div 16) in w\<lparr>weight0 := w0, weight1 := 256 - w0\<rparr>)"

abbreviation (input) ISP_CMC_NUM :: int where "ISP_CMC_NUM \<equiv> 9"
abbreviation (input) SENSOR_GAMMA_NUM :: u16 where "SENSOR_GAMMA_NUM \<equiv> 9"
abbreviation (input) SENSOR_GAMMA_POINT_NUM :: nat where "SENSOR_GAMMA_POINT_NUM \<equiv> 257"

text \<open>The colour matrix.\<close>

record cmc10_param =
  cmc_idx :: sample_point
  matrix :: "u16 list list"        \<comment> \<open>9 matrices of 9 numbers\<close>
  result_cmc :: "u16 list"         \<comment> \<open>9 numbers\<close>
  reduce_percent :: u32
  cur_matrix :: "u16 list"         \<comment> \<open>9 numbers, what the hardware is set to\<close>

text \<open>
  Less saturation, in percent of 255: to luminance and colour differences, these scaled, and back.
  The percentage is at most 255 when this is called, so that nothing leaves 64 bits.
\<close>

definition r2y :: "int list" where
  "r2y = [299, 587, 114, - 168, - 331, 500, 500, - 419, - 81]"

definition y2r :: "int list" where
  "y2r = [1000, 0, 1402, 1000, - 344, - 714, 1000, 1772, 0]"

definition mat_mult :: "int list \<Rightarrow> int list \<Rightarrow> int list" where
  "mat_mult a b = map (\<lambda>n. let i = 3 * (n div 3); j = n mod 3 in
     a ! i * b ! j + a ! (i + 1) * b ! (j + 3) + a ! (i + 2) * b ! (j + 6)) [0..<9]"

definition s14 :: "u16 \<Rightarrow> int" where
  "s14 v = (if bit v 13 then uint (v AND 0x3fff) - 0x4000 else uint v)"

definition reduce_saturation :: "u16 list \<Rightarrow> u32 \<Rightarrow> u16 list" where
  "reduce_saturation cmc_in p =
    (let percent = uint (if p = 0 then 1 else p) in
     if percent = 255 then cmc_in
     else map (\<lambda>x. of_int (x sdiv 1000 sdiv 1000 sdiv 255) AND 0x3fff)
       (mat_mult (mat_mult (map2 (*) y2r [255, percent, percent, 255, percent, percent, 255, percent, percent]) r2y)
         (map s14 cmc_in)))"

text \<open>The pointer to a row of an array of rows: a copy may run on into the rows behind it.\<close>

definition row_ptr :: "nat \<Rightarrow> 'a list list \<Rightarrow> 'a list option" where
  "row_ptr i rows = (if i < length rows then Some (concat (drop i rows)) else None)"

definition pm_cmc10_adjust :: "cmc10_param \<Rightarrow> bool \<Rightarrow> (int \<times> cmc10_param) option" where
  "pm_cmc10_adjust cmc is_reduce =
    (if sint (pt_x0 (cmc_idx cmc)) \<ge> ISP_CMC_NUM \<or> sint (pt_x1 (cmc_idx cmc)) \<ge> ISP_CMC_NUM then Some (ISP_ERROR, cmc)
     else do {
       m0 \<leftarrow> row_ptr (unat (pt_x0 (cmc_idx cmc))) (matrix cmc);
       m1 \<leftarrow> row_ptr (unat (pt_x1 (cmc_idx cmc))) (matrix cmc);
       (rtn, x) \<leftarrow> isp_interp_data (Int14 (replicate 9 0) (Some m0) (Some m1))
          (ucast (pt_weight0 (cmc_idx cmc))) (ucast (pt_weight1 (cmc_idx cmc))) 9;
       Some (if rtn \<noteq> ISP_SUCCESS then (ISP_ERROR, cmc)
         else (let d = (case x of Int14 d _ _ \<Rightarrow> d | _ \<Rightarrow> []);
                   r = (if is_reduce then reduce_saturation d (reduce_percent cmc) else d) in
               (ISP_SUCCESS, cmc\<lparr>result_cmc := r, cur_matrix := r\<rparr>))) })"

abbreviation (input) ISP_SMART_CMC :: u32 where "ISP_SMART_CMC \<equiv> 2"
abbreviation (input) ISP_SMART_SATURATION_DEPRESS :: u32 where "ISP_SMART_SATURATION_DEPRESS \<equiv> 3"

text \<open>What a block does upon a result of the smart control: its answer, whether the hardware is to be updated, its state.\<close>

definition pm_cmc10_smart :: "cmc10_param \<Rightarrow> block_result option \<Rightarrow> (int \<times> bool \<times> cmc10_param) option" where
  "pm_cmc10_smart m block_result = (case block_result of
     None \<Rightarrow> Some (ISP_ERROR, True, m)
   | Some b \<Rightarrow>
       (if update b = 0 then Some (ISP_SUCCESS, True, m)
        else if smart_id b = ISP_SMART_CMC then do {
          rtn \<leftarrow> pm_check_smart_param block_result \<lparr>rmin = 0, rmax = 8\<rparr> 1 Y_TYPE_WEIGHT_VALUE;
          (if rtn \<noteq> ISP_SUCCESS then Some (rtn, False, m)
           else do {
             c \<leftarrow> byte_at 0 (results b);
             (let v = sixteenths (get_weight_value (fix_data c)) in
              if scast (value0 v) \<noteq> pt_x0 (cmc_idx m) \<or> ucast (weight0 v) \<noteq> pt_weight0 (cmc_idx m) then do {
                (r, m) \<leftarrow> pm_cmc10_adjust (m\<lparr>cmc_idx := \<lparr>pt_x0 = scast (value0 v), pt_x1 = scast (value1 v),
                   pt_weight0 = ucast (weight0 v), pt_weight1 = ucast (weight1 v)\<rparr>\<rparr>) False;
                Some (rtn, True, m) }
              else Some (rtn, False, m)) }) }
        else if smart_id b = ISP_SMART_SATURATION_DEPRESS then do {
          rtn \<leftarrow> pm_check_smart_param block_result \<lparr>rmin = 1, rmax = 255\<rparr> 1 Y_TYPE_VALUE;
          (if rtn \<noteq> ISP_SUCCESS then Some (rtn, False, m)
           else do {
             c \<leftarrow> byte_at 0 (results b);
             (r, m) \<leftarrow> pm_cmc10_adjust (m\<lparr>reduce_percent := fix_data c ! 0\<rparr>) True;
             Some (rtn, True, m) }) }
        else Some (ISP_SUCCESS, False, m)))"

text \<open>The gamma curve: points with two coordinates, laid out as one array of 514 numbers.\<close>

record gamc_param =
  gamc_idx :: sample_point
  curve_tab :: "u16 list list"     \<comment> \<open>9 curves of 514 numbers\<close>
  final_curve :: "u16 list"        \<comment> \<open>514 numbers\<close>
  gamc_nodes :: "u16 list"         \<comment> \<open>what the hardware is set to\<close>

text \<open>The hardware takes the first \<open>nodes\<close> points, a number of the kernel's interface.\<close>

definition pm_frgb_gamc_smart :: "nat \<Rightarrow> gamc_param \<Rightarrow> block_result option \<Rightarrow> (int \<times> bool \<times> gamc_param) option" where
  "pm_frgb_gamc_smart nodes g block_result = do {
     rtn \<leftarrow> pm_check_smart_param block_result \<lparr>rmin = 0, rmax = SENSOR_GAMMA_NUM - 1\<rparr> 1 Y_TYPE_WEIGHT_VALUE;
     (if rtn \<noteq> ISP_SUCCESS then Some (rtn, False, g)
      else do {
        b \<leftarrow> block_result;
        c \<leftarrow> byte_at 0 (results b);
        (let w = get_weight_value (fix_data c); v = sixteenths w in
         if scast (value0 v) \<noteq> pt_x0 (gamc_idx g) \<or> ucast (weight0 v) \<noteq> pt_weight0 (gamc_idx g) then do {
           s0 \<leftarrow> byte_at (unat (value0 v)) (curve_tab g);
           s1 \<leftarrow> byte_at (unat (value1 v)) (curve_tab g);
           (rtn, x) \<leftarrow> isp_interp_data (Uint16 (final_curve g) (Some s0) (Some s1)) (weight0 v) (weight1 v) (2 * SENSOR_GAMMA_POINT_NUM);
           (if rtn = ISP_SUCCESS then
              (let d = (case x of Uint16 d _ _ \<Rightarrow> d | _ \<Rightarrow> []) in do {
                 ns \<leftarrow> get_bytes 0 (2 * nodes) d;
                 Some (rtn, True, g\<lparr>final_curve := d, gamc_nodes := ns,
                   gamc_idx := \<lparr>pt_x0 = scast (value0 w), pt_x1 = scast (value1 w),
                     pt_weight0 = ucast (weight0 w), pt_weight1 = ucast (weight1 w)\<rparr>\<rparr>) })
            else Some (rtn, False, g)) }
         else Some (rtn, False, g)) }) }"

text \<open>The map of hues: 20-bit entries.\<close>

record hsv_param =
  hsv_idx :: sample_point
  hsv_map :: "u32 list list"
  final_map :: "u32 list"

definition pm_hsv_smart :: "hsv_param \<Rightarrow> block_result option \<Rightarrow> (int \<times> bool \<times> hsv_param) option" where
  "pm_hsv_smart h block_result = do {
     rtn \<leftarrow> pm_check_smart_param block_result \<lparr>rmin = 0, rmax = 255\<rparr> 1 Y_TYPE_WEIGHT_VALUE;
     (if rtn \<noteq> ISP_SUCCESS then Some (rtn, False, h)
      else do {
        b \<leftarrow> block_result;
        c \<leftarrow> byte_at 0 (results b);
        (let v = sixteenths (get_weight_value (fix_data c)) in
         if ucast (weight0 v) \<noteq> pt_weight0 (hsv_idx h) \<or> scast (value0 v) \<noteq> pt_x0 (hsv_idx h) then do {
           s0 \<leftarrow> byte_at (unat (value0 v)) (hsv_map h);
           s1 \<leftarrow> byte_at (unat (value1 v)) (hsv_map h);
           (rtn, x) \<leftarrow> isp_interp_data (Uint20 (final_map h) (Some s0) (Some s1)) (weight0 v) (weight1 v) (length (final_map h));
           Some (if rtn = ISP_SUCCESS then
               (rtn, True, h\<lparr>final_map := (case x of Uint20 d _ _ \<Rightarrow> d | _ \<Rightarrow> []),
                  hsv_idx := \<lparr>pt_x0 = scast (value0 v), pt_x1 = scast (value1 v),
                     pt_weight0 = ucast (weight0 v), pt_weight1 = ucast (weight1 v)\<rparr>\<rparr>)
             else (rtn, False, h)) }
         else Some (rtn, False, h)) }) }"

subsection \<open>Between the two sources\<close>

lemma weights_sum:
  assumes "uint (w0 :: u16) + uint (w1 :: u16) = 256"
  shows "w0 = 256 \<longleftrightarrow> w1 = 0" and "w1 = 256 \<longleftrightarrow> w0 = 0" and "0 \<le> uint w0" and "uint w0 \<le> 256" and "0 \<le> uint w1" and "uint w1 \<le> 256"
proof -
  have r: "0 \<le> uint w0" "0 \<le> uint w1" by simp_all
  then show "0 \<le> uint w0" "uint w0 \<le> 256" "0 \<le> uint w1" "uint w1 \<le> 256" using assms by linarith+
  show "w0 = 256 \<longleftrightarrow> w1 = 0" "w1 = 256 \<longleftrightarrow> w0 = 0" using assms by (auto simp: word_uint_eq_iff)
qed

text \<open>A mean with weights that add up to 256.\<close>

lemma weighted_mean:
  fixes a b u v :: int
  assumes "u + v = 256" and "0 \<le> u" and "0 \<le> v"
  shows "256 * min a b \<le> a * u + b * v" and "a * u + b * v \<le> 256 * max a b"
proof -
  have "min a b * u \<le> a * u" "min a b * v \<le> b * v" "a * u \<le> max a b * u" "b * v \<le> max a b * v"
    using assms(2,3) by (intro mult_right_mono; simp)+
  moreover have "min a b * u + min a b * v = 256 * min a b" "max a b * u + max a b * v = 256 * max a b"
    using assms(1) by (metis distrib_left mult.commute)+
  ultimately show "256 * min a b \<le> a * u + b * v" "a * u + b * v \<le> 256 * max a b" by linarith+
qed

lemma mix16_value:
  fixes a b w0 w1 :: u16
  assumes "uint w0 + uint w1 = 256"
  shows "uint (ucast (mix32 w0 w1 (ucast a) (ucast b)) :: u16) = (uint a * uint w0 + uint b * uint w1) div 256"
    and "min (uint a) (uint b) \<le> (uint a * uint w0 + uint b * uint w1) div 256"
    and "(uint a * uint w0 + uint b * uint w1) div 256 \<le> max (uint a) (uint b)"
proof -
  note w = weights_sum [OF assms]
  let ?s = "uint a * uint w0 + uint b * uint w1"
  have m: "256 * min (uint a) (uint b) \<le> ?s" "?s \<le> 256 * max (uint a) (uint b)"
    using weighted_mean [OF assms w(3,5), of "uint a" "uint b"] by simp_all
  then show lo: "min (uint a) (uint b) \<le> ?s div 256" and hi: "?s div 256 \<le> max (uint a) (uint b)" by linarith+
  have s: "0 \<le> ?s" "?s < 16777216" using m uint_u16 [of a] uint_u16 [of b] by linarith+
  have up: "uint (ucast (x :: u16) :: u32) = uint x" for x by (simp add: uint_up_ucast is_up)
  have p: "0 \<le> uint x * uint w \<and> uint x * uint w \<le> 65535 * 256" if "uint w \<le> 256" for x w :: u16
    using that uint_u16 [of x] uint_u16 [of w] mult_mono [of "uint x" 65535 "uint w" 256] by simp
  have "uint (ucast a * ucast w0 + ucast b * ucast w1 :: u32) = ?s"
    using p [OF w(4), of a] p [OF w(6), of b] s by (simp add: uint_word_ariths up)
  then have "uint (mix32 w0 w1 (ucast a) (ucast b)) = ?s div 256" by (simp add: mix32_def uint_div_distrib)
  moreover have "0 \<le> ?s div 256" "?s div 256 < 65536" using lo hi uint_u16 [of a] uint_u16 [of b] by linarith+
  ultimately show "uint (ucast (mix32 w0 w1 (ucast a) (ucast b)) :: u16) = ?s div 256"
    by (simp add: unsigned_ucast_eq take_bit_eq_mod)
qed

definition between :: "('a::len word) list \<Rightarrow> 'a word list \<Rightarrow> 'a word list \<Rightarrow> bool" where
  "between s0 s1 d \<longleftrightarrow> length d = length s0 \<and> length d = length s1 \<and>
     (\<forall>k < length d. min (uint (s0 ! k)) (uint (s1 ! k)) \<le> uint (d ! k) \<and> uint (d ! k) \<le> max (uint (s0 ! k)) (uint (s1 ! k)))"

lemma put_all: "length xs = length d \<Longrightarrow> put_bytes 0 xs d = Some xs"
  by (simp add: put_bytes_def)

lemma get_all: "n = length xs \<Longrightarrow> get_bytes 0 n xs = Some xs"
  by (simp add: get_bytes_def)

lemma interp_uint16_between:
  assumes "uint w0 + uint w1 = 256" and "length d = n" and "length s0 = n" and "length s1 = n"
  obtains d' where "interp_uint16 d s0 s1 w0 w1 n = Some d'" "between s0 s1 d'"
proof -
  let ?m = "map2 (\<lambda>a b. ucast (mix32 w0 w1 (ucast a) (ucast b))) s0 s1"
  let ?d = "if w0 = 256 then s0 else if w1 = 256 then s1 else ?m"
  have "interp_uint16 d s0 s1 w0 w1 n = Some ?d"
    using assms(2-4) by (simp add: interp_uint16_def interp_def put_all get_all)
  moreover have "between s0 s1 ?d"
    using assms(3,4) mix16_value [OF assms(1)] by (auto simp: between_def)
  ultimately show ?thesis by (rule that)
qed

lemma sixteenths_value [simp]: "value0 (sixteenths w) = value0 w" "value1 (sixteenths w) = value1 w"
  by (simp_all add: sixteenths_def Let_def)

lemma sixteenths_weights:
  assumes "uint (weight0 w) \<le> 256"
  shows "uint (weight0 (sixteenths w)) = uint (weight0 w) div 16 * 16"
    and "uint (weight0 (sixteenths w)) + uint (weight1 (sixteenths w)) = 256"
proof -
  have le: "0 \<le> uint (weight0 w) div 16 * 16" "uint (weight0 w) div 16 * 16 \<le> 256"
    using assms uint_u16 [of "weight0 w"] by (simp_all add: pos_imp_zdiv_nonneg_iff)
  have d: "uint (weight0 w div 16) = uint (weight0 w) div 16" by (simp add: uint_div_distrib)
  have "uint (weight0 w div 16 * 16) = uint (weight0 w) div 16 * 16"
    using le d by (simp add: uint_word_ariths)
  then show "uint (weight0 (sixteenths w)) = uint (weight0 w) div 16 * 16" by (simp add: sixteenths_def Let_def)
  then show "uint (weight0 (sixteenths w)) + uint (weight1 (sixteenths w)) = 256"
    using le by (simp add: sixteenths_def Let_def uint_word_ariths)
qed

lemma sint_nonneg_uint:
  assumes "0 \<le> sint (v :: u16)"
  shows "sint v = uint v"
proof (cases "uint v < 32768")
  case True
  then have "sint (of_int (uint v) :: u16) = uint v" using uint_u16 [of v] by (intro sint_of_int_s16; linarith)
  then show ?thesis by simp
next
  case False
  then have "sint (of_int (uint v - 65536) :: u16) = uint v - 65536"
    using uint_u16 [of v] by (intro sint_of_int_s16) simp_all
  moreover have "(of_int (uint v - 65536) :: u16) = v" by simp
  ultimately have "sint v = uint v - 65536" by (simp only:)
  then show ?thesis using assms uint_u16 [of v] by simp
qed

lemma index_in:
  assumes "in_range \<lparr>rmin = 0, rmax = m\<rparr> (sint (v :: u16))" and "sint m \<le> int n" and "n < length xs"
  shows "byte_at (unat v) xs = Some (xs ! unat v)" and "unat v \<le> n"
proof -
  have v: "0 \<le> sint v" "sint v \<le> int n" using assms(1,2) by (auto simp: in_range_def)
  have "sint v = uint v" by (rule sint_nonneg_uint [OF v(1)])
  moreover have "int (unat v) = uint v" by simp
  ultimately show "unat v \<le> n" using v(2) by linarith
  then show "byte_at (unat v) xs = Some (xs ! unat v)" using assms(3) by (simp add: byte_at_def)
qed

lemma weight_in_value:
  assumes "typed_result rg Y_TYPE_WEIGHT_VALUE c"
  shows "in_range rg (sint (value0 (get_weight_value (fix_data c))))" and "in_range rg (sint (value1 (get_weight_value (fix_data c))))"
    and "uint (weight0 (get_weight_value (fix_data c))) + uint (weight1 (get_weight_value (fix_data c))) = 256"
  using assms by (simp_all add: typed_result_def value_in_def)

text \<open>
  C9. From the tables to the gamma curve: with sound tables for the index of the gamma curve, in
  every light, the gamma block accepts the result of the smart control, reads only curves it has,
  and either stays as it is or gets a curve that lies, in every coordinate, between two of the nine
  given ones; the hardware gets the first points of that curve.
\<close>

theorem gamma_curve_between_given_ones:
  assumes "block_ok \<lparr>rmin = 0, rmax = 8\<rparr> Y_TYPE_WEIGHT_VALUE blk" and "enable blk \<noteq> 0" and "component_num blk = 1"
    and "length (results r) = 4" and "smart_ctl_calc_block blk bv bv_gain ct flash_mode r = Some (rtn, b)"
    and "length (curve_tab g) = 9" and "list_all (\<lambda>c. length c = 514) (curve_tab g)" and "length (final_curve g) = 514" and "nodes \<le> 257"
  shows "\<exists>upd g'. pm_frgb_gamc_smart nodes g (Some b) = Some (ISP_SUCCESS, upd, g') \<and>
    (if upd then (\<exists>i < 9. \<exists>j < 9. between (curve_tab g ! i) (curve_tab g ! j) (final_curve g')) \<and>
         gamc_nodes g' = take (2 * nodes) (final_curve g')
     else g' = g)"
proof -
  obtain b' where b': "smart_ctl_calc_block blk bv bv_gain ct flash_mode r = Some (ISP_SUCCESS, b')" "length (results b') = 4"
      "\<forall>j < unat (component_num blk). typed_result \<lparr>rmin = 0, rmax = 8\<rparr> Y_TYPE_WEIGHT_VALUE (results b' ! j)"
      "pm_check_smart_param (Some b') \<lparr>rmin = 0, rmax = 8\<rparr> (component_num blk) Y_TYPE_WEIGHT_VALUE = Some ISP_SUCCESS"
    using sound_block [OF assms(1,2,4), of bv bv_gain ct flash_mode] by blast
  with assms(5) have "b' = b" by simp
  note b = b' [unfolded this assms(3)]
  let ?c = "results b ! 0"
  let ?w = "get_weight_value (fix_data ?c)"
  let ?v = "sixteenths ?w"
  have c: "byte_at 0 (results b) = Some ?c" "typed_result \<lparr>rmin = 0, rmax = 8\<rparr> Y_TYPE_WEIGHT_VALUE ?c"
    using b(2,3) by (simp_all add: byte_at_def)
  note w = weight_in_value [OF c(2)]
  have v: "uint (weight0 ?v) + uint (weight1 ?v) = 256"
    using w(3) weights_sum(4) [OF w(3)] by (intro sixteenths_weights) simp
  have i: "byte_at (unat (value0 ?w)) (curve_tab g) = Some (curve_tab g ! unat (value0 ?w))" "unat (value0 ?w) \<le> 8"
      "byte_at (unat (value1 ?w)) (curve_tab g) = Some (curve_tab g ! unat (value1 ?w))" "unat (value1 ?w) \<le> 8"
    using index_in [OF w(1), of 8 "curve_tab g"] index_in [OF w(2), of 8 "curve_tab g"] assms(6) by simp_all
  have len: "length (curve_tab g ! unat (value0 ?w)) = 514" "length (curve_tab g ! unat (value1 ?w)) = 514"
    using assms(6,7) i(2,4) by (simp_all add: list_all_length)
  obtain d where d: "interp_uint16 (final_curve g) (curve_tab g ! unat (value0 ?w)) (curve_tab g ! unat (value1 ?w)) (weight0 ?v) (weight1 ?v) 514 = Some d"
      "between (curve_tab g ! unat (value0 ?w)) (curve_tab g ! unat (value1 ?w)) d"
    by (rule interp_uint16_between [OF v assms(8) len])
  have "length d = 514" using d(2) len by (simp add: between_def)
  then have n: "get_bytes 0 (2 * nodes) d = Some (take (2 * nodes) d)" using assms(9) by (simp add: get_bytes_def)
  have interp: "isp_interp_data (Uint16 (final_curve g) (Some (curve_tab g ! unat (value0 ?w))) (Some (curve_tab g ! unat (value1 ?w))))
      (weight0 ?v) (weight1 ?v) (2 * SENSOR_GAMMA_POINT_NUM)
      = Some (ISP_SUCCESS, Uint16 d (Some (curve_tab g ! unat (value0 ?w))) (Some (curve_tab g ! unat (value1 ?w))))"
    using v d(1) by (simp add: isp_interp_data_def)
  show ?thesis
  proof (cases "scast (value0 ?v) \<noteq> pt_x0 (gamc_idx g) \<or> ucast (weight0 ?v) \<noteq> pt_weight0 (gamc_idx g)")
    case True
    have "unat (value0 ?w) < 9" "unat (value1 ?w) < 9" using i(2,4) by simp_all
    then show ?thesis
      using True b(4) c(1) i(1,3) interp n d(2) by (auto simp: pm_frgb_gamc_smart_def Let_def)
  next
    case False
    then show ?thesis using b(4) c(1) by (auto simp: pm_frgb_gamc_smart_def Let_def)
  qed
qed

text \<open>What the check says of the value of a single component, and the tables it chooses.\<close>

lemma check_single:
  assumes "pm_check_smart_param (Some b) rg 1 Y_TYPE_WEIGHT_VALUE = Some ISP_SUCCESS" and "byte_at 0 (results b) = Some c"
  shows "in_range rg (sint (value0 (get_weight_value (fix_data c))))" and "in_range rg (sint (value1 (get_weight_value (fix_data c))))"
    and "update b \<noteq> 0"
  using assms by (auto simp: pm_check_smart_param_def Let_def in_range_def split: if_splits)

lemma uint_widen: "uint (ucast (v :: u16) :: u32) = uint v"
  by (simp add: uint_up_ucast is_up)

lemma ucast_narrow: "(ucast (ucast (v :: u16) :: u32) :: u16) = v"
proof (rule word_uint_eqI)
  have "uint (ucast x :: u16) = uint x mod 65536" for x :: u32
    by (simp add: unsigned_ucast_eq take_bit_eq_mod)
  then have "uint (ucast (ucast v :: u32) :: u16) = uint v mod 65536" by (simp only: uint_widen)
  then show "uint (ucast (ucast v :: u32) :: u16) = uint v" using uint_u16 [of v] by (simp only: mod_pos_pos_trivial)
qed

lemma index_wide:
  assumes "0 \<le> sint (v :: u16)"
  shows "unat (scast v :: u32) = unat v"
proof -
  have "(scast v :: u32) = word_of_int (sint v)" by simp
  also have "\<dots> = ucast v" using sint_nonneg_uint [OF assms] by simp
  finally have "(scast v :: u32) = ucast v" .
  moreover have "nat (uint (ucast v :: u32)) = nat (uint v)" by (simp only: uint_widen)
  ultimately show ?thesis by (metis unat_eq_nat_uint)
qed

definition matrices_ok :: "cmc10_param \<Rightarrow> bool" where
  "matrices_ok m \<longleftrightarrow> length (matrix m) = 9 \<and> list_all (\<lambda>x. length x = 9) (matrix m)"

text \<open>The matrix block upon a result it accepts and that is a change.\<close>

lemma row_ptr_row:
  assumes "i < length rows" and "length (rows ! i) = n"
  shows "row_ptr i rows = Some (concat (drop i rows))" and "take n (concat (drop i rows)) = rows ! i" and "n \<le> length (concat (drop i rows))"
  using assms by (simp_all add: row_ptr_def flip: Cons_nth_drop_Suc)

lemma cmc10_smart_step:
  assumes "pm_check_smart_param (Some b) \<lparr>rmin = 0, rmax = 8\<rparr> 1 Y_TYPE_WEIGHT_VALUE = Some ISP_SUCCESS" and "smart_id b = ISP_SMART_CMC"
    and "byte_at 0 (results b) = Some c" and "w = get_weight_value (fix_data c)" and "uint (weight0 w) + uint (weight1 w) = 256"
    and "scast (value0 w) \<noteq> pt_x0 (cmc_idx m) \<or> ucast (weight0 (sixteenths w)) \<noteq> pt_weight0 (cmc_idx m)"
    and "matrices_ok m"
  obtains s0 s1 m' where "9 \<le> length s0" "9 \<le> length s1" "take 9 s0 = matrix m ! unat (value0 w)" "take 9 s1 = matrix m ! unat (value1 w)"
    "length (matrix m ! unat (value0 w)) = 9" "length (matrix m ! unat (value1 w)) = 9"
    "pm_cmc10_smart m (Some b) = map_option (\<lambda>d. (ISP_SUCCESS, True, m'\<lparr>result_cmc := d, cur_matrix := d\<rparr>))
       (interp_int14 (replicate 9 0) s0 s1 (weight0 (sixteenths w)) (weight1 (sixteenths w)) 9)"
proof -
  let ?v = "sixteenths w"
  note c = check_single [OF assms(1,3), folded assms(4)]
  have le: "uint (weight0 w) \<le> 256" by (rule weights_sum(4) [OF assms(5)])
  note s = sixteenths_weights [OF le]
  have ne: "0 \<le> sint (value0 w)" "0 \<le> sint (value1 w)" using c by (simp_all add: in_range_def)
  let ?s0 = "concat (drop (unat (value0 w)) (matrix m))" and ?s1 = "concat (drop (unat (value1 w)) (matrix m))"
  have i: "unat (value0 w) < 9" "unat (value1 w) < 9" "length (matrix m) = 9"
    using index_in(2) [OF c(1), of 8 "matrix m"] index_in(2) [OF c(2), of 8 "matrix m"] assms(7) by (simp_all add: matrices_ok_def)
  then have n: "length (matrix m ! unat (value0 w)) = 9" "length (matrix m ! unat (value1 w)) = 9"
    using assms(7) by (simp_all add: matrices_ok_def list_all_length)
  note p = row_ptr_row [of "unat (value0 w)" "matrix m", OF _ n(1)] row_ptr_row [of "unat (value1 w)" "matrix m", OF _ n(2)]
  have up: "sint (scast v :: u32) = sint v" for v :: u16 by (simp add: sint_up_scast is_up)
  have lt: "\<not> 9 \<le> sint (scast (value0 w) :: u32)" "\<not> 9 \<le> sint (scast (value1 w) :: u32)"
    using c(1,2) unfolding up by (simp_all add: in_range_def)
  let ?m = "m\<lparr>cmc_idx := \<lparr>pt_x0 = scast (value0 ?v), pt_x1 = scast (value1 ?v), pt_weight0 = ucast (weight0 ?v), pt_weight1 = ucast (weight1 ?v)\<rparr>\<rparr>"
  have "pm_cmc10_adjust ?m False = map_option (\<lambda>d. (ISP_SUCCESS, ?m\<lparr>result_cmc := d, cur_matrix := d\<rparr>))
      (interp_int14 (replicate 9 0) ?s0 ?s1 (weight0 ?v) (weight1 ?v) 9)"
    using lt p(1) p(4) i index_wide [OF ne(1)] index_wide [OF ne(2)] s(2) ucast_narrow [of "weight0 ?v"] ucast_narrow [of "weight1 ?v"]
    by (cases "interp_int14 (replicate 9 0) ?s0 ?s1 (weight0 ?v) (weight1 ?v) 9") (simp_all add: pm_cmc10_adjust_def isp_interp_data_def Let_def)
  then have "pm_cmc10_smart m (Some b) = map_option (\<lambda>d. (ISP_SUCCESS, True, ?m\<lparr>result_cmc := d, cur_matrix := d\<rparr>))
      (interp_int14 (replicate 9 0) ?s0 ?s1 (weight0 ?v) (weight1 ?v) 9)"
    using assms(1-4,6) c(3)
    by (cases "interp_int14 (replicate 9 0) ?s0 ?s1 (weight0 ?v) (weight1 ?v) 9") (auto simp: pm_cmc10_smart_def Let_def)
  then show ?thesis using that [of ?s0 ?s1 ?m] p(2,3,5,6) n i by simp
qed

text \<open>
  C20. A colour matrix taken over whole overruns its buffer: when the smart control has full
  weight (to a sixteenth) on one side and this is a change, the copy of the matrix counts four
  bytes for each number of two and leaves the array of nine numbers on the stack.
\<close>

theorem whole_colour_matrix_overruns:
  assumes "pm_check_smart_param (Some b) \<lparr>rmin = 0, rmax = 8\<rparr> 1 Y_TYPE_WEIGHT_VALUE = Some ISP_SUCCESS" and "smart_id b = ISP_SMART_CMC"
    and "byte_at 0 (results b) = Some c" and "w = get_weight_value (fix_data c)" and "uint (weight0 w) + uint (weight1 w) = 256"
    and "scast (value0 w) \<noteq> pt_x0 (cmc_idx m) \<or> ucast (weight0 (sixteenths w)) \<noteq> pt_weight0 (cmc_idx m)"
    and "matrices_ok m" and "weight0 w = 256 \<or> weight0 w < 16"
  shows "pm_cmc10_smart m (Some b) = None"
proof -
  have le: "uint (weight0 w) \<le> 256" by (rule weights_sum(4) [OF assms(5)])
  note s = sixteenths_weights [OF le]
  have full: "weight0 (sixteenths w) = 256 \<or> weight1 (sixteenths w) = 256"
    using assms(8) s by (auto simp: word_uint_eq_iff word_less_def)
  obtain s0 s1 m' where m:
      "pm_cmc10_smart m (Some b) = map_option (\<lambda>d. (ISP_SUCCESS, True, m'\<lparr>result_cmc := d, cur_matrix := d\<rparr>))
       (interp_int14 (replicate 9 0) s0 s1 (weight0 (sixteenths w)) (weight1 (sixteenths w)) 9)"
    by (rule cmc10_smart_step [OF assms(1-7)]) (rule that)
  then show ?thesis using full by (auto simp: interp_int14_def interp_def get_bytes_def put_bytes_def)
qed

subsection \<open>The colour matrix and the hue map, mixed\<close>

text \<open>The 14-bit signed number in the low bits of 16.\<close>

definition num14 :: "u16 \<Rightarrow> int" where
  "num14 v = signed_take_bit 13 (uint v)"

lemma num14_shifted: "sint (push_bit 2 v) = 4 * num14 v"
proof -
  have "signed_take_bit 15 (take_bit 16 (push_bit 2 x)) = push_bit 2 (signed_take_bit 13 x)" for x :: int
    by (rule bit_eqI) (auto simp: bit_simps min_def not_less)
  then have "signed_take_bit 15 (uint (push_bit 2 v)) = push_bit 2 (num14 v)"
    by (simp add: num14_def unsigned_push_bit_eq)
  then show ?thesis by (simp add: sint_uint push_bit_eq_mult)
qed

lemma num14_back:
  assumes "- 32768 \<le> q" and "q < 32768"
  shows "num14 (drop_bit 2 (of_int q) AND 0x3fff) = q div 4"
proof -
  have "signed_take_bit 13 (take_bit 14 (drop_bit 2 (take_bit 16 x))) = drop_bit 2 (signed_take_bit 15 x)" for x :: int
    by (rule bit_eqI) (auto simp: bit_simps min_def not_less)
  moreover have "uint (drop_bit 2 v AND 0x3fff) = take_bit 14 (drop_bit 2 (uint v))" for v :: u16
    by (simp add: unsigned_and_eq unsigned_drop_bit_eq take_bit_eq_mask mask_eq_exp_minus_1)
  moreover have "uint (of_int q :: u16) = take_bit 16 q" by (simp add: unsigned_of_int)
  moreover have "signed_take_bit 15 q = q"
    using assms by (simp add: signed_take_bit_int_eq_self)
  ultimately show ?thesis by (simp only: num14_def) (simp add: drop_bit_eq_div)
qed

lemma num14_bounds: "- 8192 \<le> num14 v" "num14 v < 8192"
  using signed_take_bit_int_greater_eq_minus_exp [of 13 "uint v"] signed_take_bit_int_less_exp [of 13 "uint v"]
  by (simp_all add: num14_def)

lemma twenty_bits: "16 * (s mod 1048576) div 4096 mod 1048576 = s div 256 mod (4096 :: int)"
proof -
  have "s mod 1048576 = 256 * (s div 256 mod 4096) + s mod 256"
    using zmod_zmult2_eq [of 4096 s 256] by simp
  then have "s mod 1048576 div 256 = s div 256 mod 4096" by simp
  moreover have "16 * (s mod 1048576) div 4096 = s mod 1048576 div 256" by simp
  moreover have "0 \<le> s div 256 mod 4096" "s div 256 mod 4096 < 4096" by simp_all
  ultimately show ?thesis by simp
qed

lemma mix_int14_between:
  assumes "uint w0 + uint w1 = 256"
  shows "min (num14 a) (num14 b) \<le> num14 (mix_int14 w0 w1 a b)" and "num14 (mix_int14 w0 w1 a b) \<le> max (num14 a) (num14 b)"
proof -
  note w = weights_sum [OF assms]
  let ?s = "4 * num14 a * uint w0 + 4 * num14 b * uint w1"
  let ?q = "?s sdiv 256"
  have s: "256 * (4 * min (num14 a) (num14 b)) \<le> ?s" "?s \<le> 256 * (4 * max (num14 a) (num14 b))"
    using weighted_mean [OF assms w(3,5), of "4 * num14 a" "4 * num14 b"] by linarith+
  have "?q = (if 0 \<le> ?s then ?s div 256 else - (- ?s div 256))"
    by (simp add: signed_divide_int_def sgn_if)
  then have q: "4 * min (num14 a) (num14 b) \<le> ?q" "?q \<le> 4 * max (num14 a) (num14 b)" using s by (simp_all; linarith)+
  then have "- 32768 \<le> ?q" "?q < 32768" using num14_bounds [of a] num14_bounds [of b] by linarith+
  then have "num14 (mix_int14 w0 w1 a b) = ?q div 4"
    by (simp only: mix_int14_def Let_def num14_shifted num14_back)
  then show "min (num14 a) (num14 b) \<le> num14 (mix_int14 w0 w1 a b)" "num14 (mix_int14 w0 w1 a b) \<le> max (num14 a) (num14 b)"
    using q by linarith+
qed

lemma mix_uint20_value: "uint (mix_uint20 w0 w1 a b) = (uint a * uint w0 + uint b * uint w1) div 256 mod 4096"
proof -
  let ?s = "uint a * uint w0 + uint b * uint w1"
  have p: "uint (push_bit 12 x :: u32) = 4096 * uint x mod 4294967296" for x
    by (simp add: push_bit_eq_mult uint_word_ariths mult.commute)
  have "uint (push_bit 12 a * ucast w0 + push_bit 12 b * ucast w1 :: u32) = (4096 * ?s) mod 4294967296"
    by (simp add: uint_word_ariths uint_widen p mod_simps algebra_simps)
  also have "\<dots> = 4096 * (?s mod 1048576)" using mult_mod_right [of 4096 ?s 1048576] by simp
  finally have s: "uint (push_bit 12 a * ucast w0 + push_bit 12 b * ucast w1 :: u32) = 4096 * (?s mod 1048576)" .
  let ?x = "(push_bit 12 a * ucast w0 + push_bit 12 b * ucast w1 :: u32) div 256"
  have x: "uint ?x = 16 * (?s mod 1048576)" by (simp add: uint_div_distrib s)
  have m: "uint (drop_bit 12 y AND 0xfffff) = take_bit 20 (drop_bit 12 (uint y))" for y :: u32
    by (simp add: unsigned_and_eq unsigned_drop_bit_eq take_bit_eq_mask mask_eq_exp_minus_1)
  have "uint (drop_bit 12 ?x AND 0xfffff) = uint ?x div 4096 mod 1048576"
    unfolding m by (simp only: drop_bit_eq_div take_bit_eq_mod) simp
  also have "\<dots> = ?s div 256 mod 4096" unfolding x by (rule twenty_bits)
  finally show ?thesis by (simp add: mix_uint20_def mix32_def)
qed

lemma interp_mixes:
  assumes "w0 \<noteq> 256" and "w1 \<noteq> 256" and "length d = n" and "n \<le> length s0" and "n \<le> length s1"
  shows "interp mix cp d s0 s1 w0 w1 n = Some (map2 (mix w0 w1) (take n s0) (take n s1))"
  using assms by (simp add: interp_def put_all get_bytes_def)

lemma sixteenths_mix:
  assumes "uint (weight0 w) + uint (weight1 w) = 256" and "16 \<le> weight0 w" and "weight0 w < 256"
  shows "weight0 (sixteenths w) \<noteq> 256" and "weight1 (sixteenths w) \<noteq> 256"
    and "uint (weight0 (sixteenths w)) + uint (weight1 (sixteenths w)) = 256"
proof -
  note s = sixteenths_weights [OF weights_sum(4) [OF assms(1)]]
  have "16 \<le> uint (weight0 w)" "uint (weight0 w) < 256" using assms(2,3) by (simp_all add: word_le_def word_less_def)
  then show "weight0 (sixteenths w) \<noteq> 256" "weight1 (sixteenths w) \<noteq> 256"
    using s by (auto simp: word_uint_eq_iff)
  show "uint (weight0 (sixteenths w)) + uint (weight1 (sixteenths w)) = 256" by (rule s(2))
qed

text \<open>
  A mixed hue map keeps twelve of twenty bits: the entries are shifted to the top of 32 bits
  before they are weighted, so that the sum overflows; what comes out is the weighted mean modulo
  4096, and even a map mixed with itself loses the top eight bits of every entry.
\<close>

lemma mixed_hue_map_keeps_twelve_bits:
  assumes "pm_check_smart_param (Some b) \<lparr>rmin = 0, rmax = 255\<rparr> 1 Y_TYPE_WEIGHT_VALUE = Some ISP_SUCCESS"
    and "byte_at 0 (results b) = Some c" and "w = get_weight_value (fix_data c)"
    and "uint (weight0 w) + uint (weight1 w) = 256" and "16 \<le> weight0 w" and "weight0 w < 256"
    and "ucast (weight0 (sixteenths w)) \<noteq> pt_weight0 (hsv_idx h) \<or> scast (value0 w) \<noteq> pt_x0 (hsv_idx h)"
    and "byte_at (unat (value0 w)) (hsv_map h) = Some s0" and "byte_at (unat (value1 w)) (hsv_map h) = Some s1"
    and "length s0 = length (final_map h)" and "length s1 = length (final_map h)" and "final_map h \<noteq> []"
  shows "\<exists>h'. pm_hsv_smart h (Some b) = Some (ISP_SUCCESS, True, h') \<and> length (final_map h') = length (final_map h) \<and>
    (\<forall>k < length (final_map h).
       uint (final_map h' ! k) = (uint (s0 ! k) * uint (weight0 (sixteenths w)) + uint (s1 ! k) * uint (weight1 (sixteenths w))) div 256 mod 4096) \<and>
    (s0 = s1 \<longrightarrow> final_map h' = map (\<lambda>x. of_int (uint x mod 4096)) s0)"
proof -
  let ?v = "sixteenths w"
  let ?d = "map2 (mix_uint20 (weight0 ?v) (weight1 ?v)) s0 s1"
  note m = sixteenths_mix [OF assms(4-6)]
  have n: "length ?d = length (final_map h)" using assms(10,11) by simp
  have "isp_interp_data (Uint20 (final_map h) (Some s0) (Some s1)) (weight0 ?v) (weight1 ?v) (length (final_map h))
      = Some (ISP_SUCCESS, Uint20 ?d (Some s0) (Some s1))"
    using interp_mixes [OF m(1,2) refl eq_refl [OF assms(10) [symmetric]] eq_refl [OF assms(11) [symmetric]]] m(3) assms(10-12) by (simp add: isp_interp_data_def interp_uint20_def)
  then have step: "\<exists>h'. pm_hsv_smart h (Some b) = Some (ISP_SUCCESS, True, h') \<and> final_map h' = ?d"
    using assms(1,2,7-9) by (auto simp: pm_hsv_smart_def Let_def assms(3) [symmetric])
  have val: "uint (?d ! k) = (uint (s0 ! k) * uint (weight0 ?v) + uint (s1 ! k) * uint (weight1 ?v)) div 256 mod 4096"
    if "k < length (final_map h)" for k
    using that assms(10,11) by (simp add: mix_uint20_value)
  have "?d = map (\<lambda>x. of_int (uint x mod 4096)) s0" if "s0 = s1"
  proof (rule nth_equalityI)
    show "length ?d = length (map (\<lambda>x. of_int (uint x mod 4096)) s0)" using that by simp
    fix k assume k: "k < length ?d"
    then have l: "k < length (final_map h)" "k < length s0" using n assms(10) by simp_all
    have "uint (s0 ! k) * uint (weight0 ?v) + uint (s0 ! k) * uint (weight1 ?v) = 256 * uint (s0 ! k)"
      using m(3) by (metis distrib_left mult.commute)
    then have "uint (?d ! k) = uint (s0 ! k) mod 4096" using val [OF l(1)] that by simp
    then have "of_int (uint (?d ! k)) = (of_int (uint (s0 ! k) mod 4096) :: u32)" by (simp only:)
    then show "?d ! k = map (\<lambda>x. of_int (uint x mod 4096)) s0 ! k" using l(2) by simp
  qed
  then show ?thesis using step val n by auto
qed

text \<open>
  C17. A mixed colour matrix lies between the two it is mixed of: with weight on both sides (to a
  sixteenth) and a change, the block succeeds, the hardware is set to the result, and each of its
  nine 14-bit signed numbers lies between the two it is mixed of.
\<close>

theorem mixed_colour_matrix_between:
  assumes "pm_check_smart_param (Some b) \<lparr>rmin = 0, rmax = 8\<rparr> 1 Y_TYPE_WEIGHT_VALUE = Some ISP_SUCCESS" and "smart_id b = ISP_SMART_CMC"
    and "byte_at 0 (results b) = Some c" and "w = get_weight_value (fix_data c)" and "uint (weight0 w) + uint (weight1 w) = 256"
    and "scast (value0 w) \<noteq> pt_x0 (cmc_idx m) \<or> ucast (weight0 (sixteenths w)) \<noteq> pt_weight0 (cmc_idx m)"
    and "matrices_ok m" and "16 \<le> weight0 w" and "weight0 w < 256"
  shows "\<exists>m'. pm_cmc10_smart m (Some b) = Some (ISP_SUCCESS, True, m') \<and> result_cmc m' = cur_matrix m' \<and> length (cur_matrix m') = 9 \<and>
    (\<forall>k < 9. let x = num14 (matrix m ! unat (value0 w) ! k); y = num14 (matrix m ! unat (value1 w) ! k) in
       min x y \<le> num14 (cur_matrix m' ! k) \<and> num14 (cur_matrix m' ! k) \<le> max x y)"
proof -
  note x = sixteenths_mix [OF assms(5,8,9)]
  let ?s0 = "matrix m ! unat (value0 w)" and ?s1 = "matrix m ! unat (value1 w)"
  obtain s0 s1 m' where m: "9 \<le> length s0" "9 \<le> length s1" "take 9 s0 = ?s0" "take 9 s1 = ?s1" "length ?s0 = 9" "length ?s1 = 9"
      "pm_cmc10_smart m (Some b) = map_option (\<lambda>d. (ISP_SUCCESS, True, m'\<lparr>result_cmc := d, cur_matrix := d\<rparr>))
       (interp_int14 (replicate 9 0) s0 s1 (weight0 (sixteenths w)) (weight1 (sixteenths w)) 9)"
    by (rule cmc10_smart_step [OF assms(1-7)]) (rule that)
  let ?d = "map2 (mix_int14 (weight0 (sixteenths w)) (weight1 (sixteenths w))) ?s0 ?s1"
  have "interp_int14 (replicate 9 0) s0 s1 (weight0 (sixteenths w)) (weight1 (sixteenths w)) 9 = Some ?d"
    unfolding interp_int14_def m(3,4) [symmetric] by (rule interp_mixes [OF x(1,2)]) (simp_all add: m(1,2))
  moreover have "min (num14 (?s0 ! k)) (num14 (?s1 ! k)) \<le> num14 (?d ! k) \<and> num14 (?d ! k) \<le> max (num14 (?s0 ! k)) (num14 (?s1 ! k))" if "k < 9" for k
    using that m(5,6) mix_int14_between [OF x(3), of "?s0 ! k" "?s1 ! k"] by simp
  ultimately show ?thesis using m by (auto simp: Let_def)
qed

subsection \<open>Concrete tunings\<close>

text \<open>A gamma index that grows with the brightness and the colour temperature.\<close>

definition index_func :: isp_piecewise_func where
  "index_func = \<lparr>fnum = 2, samples = [\<lparr>smp_x = 0, smp_y = 1\<rparr>, \<lparr>smp_x = 100, smp_y = 7\<rparr>] @ replicate 14 \<lparr>smp_x = 0, smp_y = 0\<rparr>\<rparr>"

definition index_cfg :: component_cfg where
  "index_cfg = demo_cfg\<lparr>y_type := Y_TYPE_WEIGHT_VALUE, func := replicate 8 index_func\<rparr>"

definition index_block :: block_cfg where
  "index_block = demo_block\<lparr>components := replicate 4 index_cfg\<rparr>"

lemma index_block_ok: "block_ok \<lparr>rmin = 0, rmax = 8\<rparr> Y_TYPE_WEIGHT_VALUE index_block" "enable index_block \<noteq> 0" "component_num index_block = 1"
proof -
  have "list_all (\<lambda>i. in_range \<lparr>rmin = 0, rmax = 8\<rparr> (tab_y index_func i)) [0..<unat (fnum index_func)]"
    by (simp add: in_range_def tab_y_def index_func_def upt_rec)
  moreover have "table_ok index_func" "spans_ok index_func"
    by (simp_all add: index_func_def table_ok_def spans_ok_def tab_x_def tab_y_def upt_rec)
  ultimately have "good_table \<lparr>rmin = 0, rmax = 8\<rparr> index_func" by (simp add: good_table_def)
  moreover have "ranges_check 2 0 (bv_range index_cfg) = Some True"
    by (simp add: index_cfg_def demo_cfg_def byte_at_def numeral_2_eq_2)
  ultimately have "component_ok \<lparr>rmin = 0, rmax = 8\<rparr> index_cfg"
    by (simp add: component_ok_def index_cfg_def demo_cfg_def used_tables_def list_all_iff)
  then show "block_ok \<lparr>rmin = 0, rmax = 8\<rparr> Y_TYPE_WEIGHT_VALUE index_block"
    by (simp add: block_ok_def index_block_def demo_block_def flash_ok_def index_cfg_def demo_cfg_def)
  show "enable index_block \<noteq> 0" "component_num index_block = 1" by (simp_all add: index_block_def demo_block_def)
qed

definition demo_gamma :: gamc_param where
  "demo_gamma = \<lparr>gamc_idx = \<lparr>pt_x0 = 0, pt_x1 = 0, pt_weight0 = 0, pt_weight1 = 0\<rparr>, curve_tab = replicate 9 (replicate 514 5),
     final_curve = replicate 514 0, gamc_nodes = []\<rparr>"

theorem gamma_curve_between_given_ones_witness:
  "\<exists>rtn b upd g'. smart_ctl_calc_block index_block 45 10 70 0 demo_result = Some (rtn, b) \<and>
    pm_frgb_gamc_smart 257 demo_gamma (Some b) = Some (0, upd, g') \<and>
    (if upd then (\<exists>i < 9. \<exists>j < 9. between (curve_tab demo_gamma ! i) (curve_tab demo_gamma ! j) (final_curve g')) \<and>
         gamc_nodes g' = take (2 * 257) (final_curve g')
     else g' = demo_gamma)"
proof -
  have r: "length (results demo_result) = 4" by (simp add: demo_result_def)
  obtain b where b: "smart_ctl_calc_block index_block 45 10 70 0 demo_result = Some (0, b)"
    using sound_block [OF index_block_ok(1,2) r, of 45 10 70 0] by blast
  have "list_all (\<lambda>c. length c = 514) (curve_tab demo_gamma)" "length (curve_tab demo_gamma) = 9" "length (final_curve demo_gamma) = 514"
    by (simp_all add: demo_gamma_def list_all_iff)
  then show ?thesis using gamma_curve_between_given_ones [OF index_block_ok r b, of demo_gamma 257] b by auto
qed

text \<open>What the smart control hands over: one component with a weighted value.\<close>

definition demo_component :: "isp_weight_value \<Rightarrow> component_result" where
  "demo_component w = \<lparr>ctype = Y_TYPE_WEIGHT_VALUE, csize = 8, fix_data = put_weight_value w [0, 0, 0, 0]\<rparr>"

definition demo_handed :: "isp_weight_value \<Rightarrow> block_result" where
  "demo_handed w = \<lparr>block_id = 0, smart_id = ISP_SMART_CMC, update = 1, result_num = 1,
     results = demo_component w # replicate 3 zero_component\<rparr>"

definition demo_weight :: "u16 \<Rightarrow> isp_weight_value" where
  "demo_weight w0 = \<lparr>value0 = 1, value1 = 2, weight0 = w0, weight1 = 256 - w0\<rparr>"

lemma demo_handed_ok:
  "2 \<le> sint n \<Longrightarrow> pm_check_smart_param (Some (demo_handed (demo_weight w0))) \<lparr>rmin = 0, rmax = n\<rparr> 1 Y_TYPE_WEIGHT_VALUE = Some ISP_SUCCESS"
  "smart_id (demo_handed w) = ISP_SMART_CMC"
  "byte_at 0 (results (demo_handed w)) = Some (demo_component w)"
  "w = get_weight_value (fix_data (demo_component w))"
  by (simp_all add: pm_check_smart_param_def demo_handed_def demo_component_def byte_at_def Let_def demo_weight_def)

definition demo_cmc :: cmc10_param where
  "demo_cmc = \<lparr>cmc_idx = \<lparr>pt_x0 = 0, pt_x1 = 0, pt_weight0 = 0, pt_weight1 = 0\<rparr>, matrix = replicate 9 (replicate 9 0x3f00),
     result_cmc = replicate 9 0, reduce_percent = 255, cur_matrix = replicate 9 0\<rparr>"

lemma demo_cmc_ok: "matrices_ok demo_cmc" "pt_x0 (cmc_idx demo_cmc) = 0" "matrix demo_cmc = replicate 9 (replicate 9 0x3f00)"
  by (simp_all add: matrices_ok_def demo_cmc_def list_all_iff)

lemma demo_weight_ok:
  assumes "w0 \<le> 256"
  shows "uint (weight0 (demo_weight w0)) + uint (weight1 (demo_weight w0)) = 256"
    and "scast (value0 (demo_weight w0)) \<noteq> pt_x0 (cmc_idx demo_cmc)"
  using iffD1 [OF uint_minus_simple_alt assms] by (simp_all add: demo_weight_def demo_cmc_ok)

theorem whole_colour_matrix_overruns_witness:
  "pm_cmc10_smart demo_cmc (Some (demo_handed (demo_weight 256))) = None"
  by (rule whole_colour_matrix_overruns [OF demo_handed_ok demo_weight_ok(1) disjI1 [OF demo_weight_ok(2)] demo_cmc_ok(1)])
    (simp_all add: demo_weight_def)

theorem mixed_colour_matrix_between_witness:
  "\<exists>m'. pm_cmc10_smart demo_cmc (Some (demo_handed (demo_weight 128))) = Some (0, True, m') \<and>
    num14 (cur_matrix m' ! 4) = num14 0x3f00"
proof -
  have "(128 :: u16) \<le> 256" "2 \<le> sint (8 :: u16)" "16 \<le> weight0 (demo_weight 128)" "weight0 (demo_weight 128) < 256" by (simp_all add: demo_weight_def)
  then obtain m' where "pm_cmc10_smart demo_cmc (Some (demo_handed (demo_weight 128))) = Some (0, True, m')"
      "let x = num14 (matrix demo_cmc ! unat (value0 (demo_weight 128)) ! 4); y = num14 (matrix demo_cmc ! unat (value1 (demo_weight 128)) ! 4)
       in min x y \<le> num14 (cur_matrix m' ! 4) \<and> num14 (cur_matrix m' ! 4) \<le> max x y"
    using mixed_colour_matrix_between [OF demo_handed_ok demo_weight_ok(1) disjI1 [OF demo_weight_ok(2)] demo_cmc_ok(1), of 128] by auto
  then show ?thesis by (simp add: demo_cmc_ok demo_weight_def Let_def)
qed

definition demo_hsv :: hsv_param where
  "demo_hsv = \<lparr>hsv_idx = \<lparr>pt_x0 = 0, pt_x1 = 0, pt_weight0 = 0, pt_weight1 = 0\<rparr>, hsv_map = replicate 3 [0x12345, 0x10],
     final_map = [0, 0]\<rparr>"

lemma mixed_hue_map_keeps_twelve_bits_witness:
  "\<exists>h'. pm_hsv_smart demo_hsv (Some (demo_handed (demo_weight 128))) = Some (0, True, h') \<and> final_map h' = [0x345, 0x10]"
proof -
  have a: "(128 :: u16) \<le> 256" "2 \<le> sint (255 :: u16)" by simp_all
  have b: "16 \<le> weight0 (demo_weight 128)" "weight0 (demo_weight 128) < 256"
      "ucast (weight0 (sixteenths (demo_weight 128))) \<noteq> pt_weight0 (hsv_idx demo_hsv) \<or> scast (value0 (demo_weight 128)) \<noteq> pt_x0 (hsv_idx demo_hsv)"
      "byte_at (unat (value0 (demo_weight 128))) (hsv_map demo_hsv) = Some [0x12345, 0x10]"
      "byte_at (unat (value1 (demo_weight 128))) (hsv_map demo_hsv) = Some [0x12345, 0x10]"
      "length [0x12345 :: u32, 0x10] = length (final_map demo_hsv)" "final_map demo_hsv \<noteq> []"
    by (simp_all add: demo_weight_def demo_hsv_def byte_at_def)
  obtain h' where "pm_hsv_smart demo_hsv (Some (demo_handed (demo_weight 128))) = Some (0, True, h')"
      "final_map h' = map (\<lambda>x :: u32. of_int (uint x mod 4096)) [0x12345, 0x10]"
    using mixed_hue_map_keeps_twelve_bits [OF demo_handed_ok(1) [OF a(2)] demo_handed_ok(3,4) demo_weight_ok(1) [OF a(1)] b(1-6) b(6,7)] by auto
  then show ?thesis by simp
qed

end
