(* ===== verification/AudioRing.thy ===== *)
theory AudioRing
  imports Prelude
begin

text \<open>
  The byte ring between the capture and the playback thread of the audio loops
  (\<open>modules/audio/whale/ring_buffer.c\<close>), the producer that fills it
  (\<open>producer_proc\<close> of \<open>debug/audio_hw_dev_test.c\<close>) and the sizes the DSP loop gives it
  (\<open>calculation_ring_buffer_size\<close>, \<open>audio_dsp_loop_start\<close> of \<open>debug/dsp_loop.c\<close>). The counters
  \<open>in\<close> and \<open>out\<close> run freely modulo 2^32 and are masked when the buffer is accessed. Every
  operation holds the mutex of the ring, so the operations are steps; logging is left out.
\<close>

subsection \<open>The ring\<close>

record ring_buffer =
  rb_buffer :: "u8 list"
  rb_size :: u32
  rb_in :: u32
  rb_out :: u32

definition is_power_of_2 :: "u32 \<Rightarrow> bool" where
  "is_power_of_2 x \<longleftrightarrow> x \<noteq> 0 \<and> x AND (x - 1) = 0"

definition ring_len :: "ring_buffer \<Rightarrow> u32" where
  "ring_len rb = rb_in rb - rb_out rb"

definition ring_buffer_len :: "ring_buffer \<Rightarrow> u32" where
  "ring_buffer_len rb = ring_len rb"

text \<open>\<open>__ring_buffer_get\<close>: the bytes written to the buffer of the caller, from its start.\<close>

definition ring_get :: "ring_buffer \<Rightarrow> u32 \<Rightarrow> (u32 \<times> u8 list \<times> ring_buffer) option" where
  "ring_get rb sz =
     (let sz = min sz (rb_in rb - rb_out rb);
          len = min sz (rb_size rb - (rb_out rb AND (rb_size rb - 1)))
      in case get_bytes (unat (rb_out rb AND (rb_size rb - 1))) (unat len) (rb_buffer rb) of
        None \<Rightarrow> None
      | Some first \<Rightarrow> (case get_bytes 0 (unat (sz - len)) (rb_buffer rb) of
            None \<Rightarrow> None
          | Some rest \<Rightarrow> Some (sz, first @ rest, rb\<lparr>rb_out := rb_out rb + sz\<rparr>)))"

text \<open>\<open>__ring_buffer_put\<close> with the buffer of the caller.\<close>

definition ring_put :: "ring_buffer \<Rightarrow> u8 list \<Rightarrow> u32 \<Rightarrow> (u32 \<times> ring_buffer) option" where
  "ring_put rb buffer sz =
     (let sz = min sz (rb_size rb - rb_in rb + rb_out rb);
          len = min sz (rb_size rb - (rb_in rb AND (rb_size rb - 1)))
      in case get_bytes 0 (unat len) buffer of
        None \<Rightarrow> None
      | Some first \<Rightarrow> (case put_bytes (unat (rb_in rb AND (rb_size rb - 1))) first (rb_buffer rb) of
            None \<Rightarrow> None
          | Some b1 \<Rightarrow> (case get_bytes (unat len) (unat (sz - len)) buffer of
                None \<Rightarrow> None
              | Some rest \<Rightarrow> (case put_bytes 0 rest b1 of
                    None \<Rightarrow> None
                  | Some b2 \<Rightarrow> Some (sz, rb\<lparr>rb_buffer := b2, rb_in := rb_in rb + sz\<rparr>)))))"

definition ring_buffer_get :: "ring_buffer \<Rightarrow> u32 \<Rightarrow> (u32 \<times> u8 list \<times> ring_buffer) option" where
  "ring_buffer_get rb sz =
     (case ring_get rb sz of
        None \<Rightarrow> None
      | Some (ret, bytes, rb') \<Rightarrow>
          Some (ret, bytes, if rb_in rb' = rb_out rb' then rb'\<lparr>rb_in := 0, rb_out := 0\<rparr> else rb'))"

definition ring_buffer_put :: "ring_buffer \<Rightarrow> u8 list \<Rightarrow> u32 \<Rightarrow> (u32 \<times> ring_buffer) option" where
  "ring_buffer_put rb buffer sz = ring_put rb buffer sz"

text \<open>
  The two blocks of a ring on the heap. \<open>ring_buffer_free\<close> gives both back; \<open>ring_buffer_init\<close>
  gets the answers of the two allocations and of \<open>pthread_mutex_init\<close> and returns the ring and
  the heap. The signed \<open>zero_size\<close> is compared as an unsigned number.
\<close>

datatype rb_block = Bytes | Handle

definition ring_buffer_free :: "ring_buffer option \<Rightarrow> rb_block list \<Rightarrow> rb_block list" where
  "ring_buffer_free ring_buf heap = (case ring_buf of None \<Rightarrow> heap | Some rb \<Rightarrow> remove1 Handle (remove1 Bytes heap))"

definition ring_buffer_init :: "bool \<Rightarrow> bool \<Rightarrow> bool \<Rightarrow> u32 \<Rightarrow> u32 \<Rightarrow> rb_block list \<Rightarrow> ring_buffer option \<times> rb_block list" where
  "ring_buffer_init buffer_ok handle_ok mutex_ok sz zero_size heap =
     (if \<not> is_power_of_2 sz then (None, heap)
      else if zero_size \<ge> sz then (None, heap)
      else if \<not> buffer_ok then (None, ring_buffer_free None heap)
      else let heap = Bytes # heap in
        if \<not> handle_ok then (None, ring_buffer_free None heap)
        else let heap = Handle # heap;
                 rb = \<lparr>rb_buffer = replicate (unat sz) 0, rb_size = sz, rb_in = zero_size, rb_out = 0\<rparr> in
          if \<not> mutex_ok then (None, ring_buffer_free (Some rb) heap)
          else (Some rb, heap))"

subsection \<open>Masking\<close>

lemma nat_power_of_2: "0 < x \<Longrightarrow> x AND (x - 1) = 0 \<Longrightarrow> \<exists>n. x = 2 ^ n" for x :: nat
proof (induction x rule: less_induct)
  case (less x)
  show ?case
  proof (cases "even x")
    case True
    then obtain y where y: "x = 2 * y" by blast
    with less.prems(1) have p: "0 < y" "y < x" by auto
    have d: "(2 * y - Suc 0) div 2 = y - Suc 0" using p(1) by presburger
    have "(2 * y) AND (2 * y - 1) = 2 * (y AND (y - 1))"
      using and_rec [of "2 * y" "2 * y - 1"] by (simp add: d)
    with less.prems(2) have "y AND (y - 1) = 0" by (simp add: y)
    from less.IH [OF p(2,1) this] obtain n where "y = 2 ^ n" by blast
    then have "x = 2 ^ Suc n" by (simp add: y)
    then show ?thesis by blast
  next
    case False
    then obtain y where y: "x = 2 * y + 1" using oddE by blast
    have "(2 * y + 1) AND (2 * y) = 2 * y"
      using and_rec [of "2 * y + 1" "2 * y"] by simp
    with less.prems(2) have "y = 0" by (simp add: y)
    then have "x = 2 ^ 0" by (simp add: y)
    then show ?thesis by blast
  qed
qed

lemma power_of_2_cases:
  assumes "is_power_of_2 s"
  obtains n where "n < 32" and "s = 2 ^ n" and "unat s = 2 ^ n"
proof -
  have "0 < unat s" using assms by (simp add: is_power_of_2_def word_neq_0_conv unat_gt_0)
  moreover have "unat s AND (unat s - 1) = 0"
  proof -
    have "unat (s AND (s - 1)) = unat s AND unat (s - 1)" by (rule unsigned_and_eq)
    then show ?thesis using assms by (simp add: is_power_of_2_def unat_minus_one)
  qed
  ultimately obtain n where n: "unat s = 2 ^ n"
    using nat_power_of_2 [of "unat s"] by blast
  have "n < 32"
  proof (rule ccontr)
    assume "\<not> n < 32"
    then have "(2::nat) ^ 32 \<le> 2 ^ n" by (intro power_increasing) simp_all
    with n unat_u32_lt [of s] show False by simp
  qed
  moreover have "s = 2 ^ n"
  proof -
    have "s = of_nat (unat s)" by simp
    also have "\<dots> = 2 ^ n" by (simp add: n del: of_nat_unat)
    finally show ?thesis .
  qed
  ultimately show thesis using n that by blast
qed

lemma masked:
  assumes "is_power_of_2 s"
  shows "unat (x AND (s - 1)) = unat x mod unat s"
proof -
  obtain n where n: "s = 2 ^ n" "unat s = 2 ^ n" by (rule power_of_2_cases [OF assms])
  have "x AND (s - 1) = take_bit n x" by (simp add: n(1) take_bit_eq_mask mask_eq_exp_minus_1)
  then show ?thesis by (simp add: unat_take_bit n(2))
qed

text \<open>The size divides 2^32, so the counters may wrap.\<close>

lemma unat_add_mod_size:
  fixes x y :: u32
  assumes "is_power_of_2 s"
  shows "unat (x + y) mod unat s = (unat x + unat y) mod unat s"
proof -
  obtain n where n: "n < 32" "unat s = 2 ^ n" by (rule power_of_2_cases [OF assms])
  have "unat s dvd 2 ^ 32" unfolding n(2) by (rule le_imp_power_dvd) (use n(1) in simp)
  then show ?thesis by (simp add: unat_word_ariths mod_mod_cancel)
qed

lemma size_pos: "is_power_of_2 s \<Longrightarrow> 0 < unat s"
  by (simp add: is_power_of_2_def unat_gt_0)

subsection \<open>Copying around the end\<close>

lemma ring_position:
  fixes N :: nat
  assumes "k < N" and "L \<le> N"
  shows "((o' + k) mod N + N - (o' + L) mod N) mod N = (k + N - L) mod N"
proof -
  let ?p = "(o' + L) mod N" and ?a = "(o' + k) mod N"
  have p: "?p < N" using assms by simp
  have "(?p + (?a + N - ?p)) mod N = ?a" using p by simp
  moreover have "(?p + (k + N - L)) mod N = (o' + L + (k + N - L)) mod N" by (simp add: mod_add_left_eq)
  moreover have "o' + L + (k + N - L) = o' + k + N" using assms by simp
  ultimately have "(?p + (?a + N - ?p) mod N) mod N = (?p + (k + N - L) mod N) mod N"
    by (simp add: mod_add_right_eq)
  then show ?thesis by (rule ring_offset_inj) (use assms in simp_all)
qed

lemma ring_copy_in:
  assumes "length buf = N" and "p < N" and "n \<le> N" and "n = length xs" and "l = min n (N - p)"
  obtains b1 b2 where "put_bytes p (take l xs) buf = Some b1" and "put_bytes 0 (drop l xs) b1 = Some b2"
    and "length b2 = N"
    and "\<And>j. j < N \<Longrightarrow> b2 ! j = (if (j + N - p) mod N < n then xs ! ((j + N - p) mod N) else buf ! j)"
proof -
  have l: "length (take l xs) = l" "length (drop l xs) = n - l" using assms by auto
  obtain b1 where b1: "put_bytes p (take l xs) buf = Some b1"
    using put_bytes_eq_None [of p "take l xs" buf] assms l by (cases "put_bytes p (take l xs) buf") auto
  have b1_len: "length b1 = N" using put_bytes_length [OF b1] assms(1) by simp
  obtain b2 where b2: "put_bytes 0 (drop l xs) b1 = Some b2"
    using put_bytes_eq_None [of 0 "drop l xs" b1] assms l b1_len by (cases "put_bytes 0 (drop l xs) b1") auto
  have "b2 ! j = (if (j + N - p) mod N < n then xs ! ((j + N - p) mod N) else buf ! j)" if j: "j < N" for j
  proof (cases "j < p")
    case True
    then have "(j + N - p) mod N = j + N - p" using assms(2) by simp
    with True j assms l b1_len show ?thesis
      by (auto simp: put_bytes_nth [OF b1] put_bytes_nth [OF b2] min_def add.commute)
  next
    case False
    then have "j + N - p = j - p + N" by simp
    then have "(j + N - p) mod N = (j - p + N) mod N" by (simp only:)
    also have "\<dots> = j - p" using j by simp
    finally have "(j + N - p) mod N = j - p" .
    with False j assms l b1_len show ?thesis
      by (auto simp: put_bytes_nth [OF b1] put_bytes_nth [OF b2] min_def)
  qed
  moreover have "length b2 = N" using put_bytes_length [OF b2] b1_len by simp
  ultimately show thesis by (rule that [OF b1 b2, rotated])
qed

lemma ring_copy_out:
  assumes "length buf = N" and "p < N" and "n \<le> N" and "l = min n (N - p)"
  obtains a b where "get_bytes p l buf = Some a" and "get_bytes 0 (n - l) buf = Some b"
    and "a @ b = map (\<lambda>k. buf ! ((p + k) mod N)) [0..<n]"
proof -
  have "take l (drop p buf) @ take (n - l) (drop 0 buf) = map (\<lambda>k. buf ! ((p + k) mod N)) [0..<n]"
  proof (rule nth_equalityI)
    fix i assume "i < length (take l (drop p buf) @ take (n - l) (drop 0 buf))"
    then have i: "i < n" using assms by (auto simp: min_def split: if_splits)
    show "(take l (drop p buf) @ take (n - l) (drop 0 buf)) ! i = map (\<lambda>k. buf ! ((p + k) mod N)) [0..<n] ! i"
    proof (cases "i < l")
      case True
      then show ?thesis using assms i by (simp add: nth_append)
    next
      case False
      then have "l = N - p" "N - p \<le> i" using assms i by auto
      note q = this
      have "p + i = i - (N - p) + N" using q assms(2) by simp
      then have "(p + i) mod N = (i - (N - p)) mod N" by (metis mod_add_self2)
      also have "\<dots> = i - (N - p)" using assms(3) i by simp
      finally have "(p + i) mod N = i - (N - p)" .
      with q show ?thesis using assms i by (simp add: nth_append)
    qed
  qed (use assms in \<open>auto simp: min_def\<close>)
  then show thesis using assms by (intro that) (auto simp: get_bytes_def)
qed

subsection \<open>What the operations do to the contents\<close>

definition rb_ok :: "ring_buffer \<Rightarrow> bool" where
  "rb_ok rb \<longleftrightarrow> is_power_of_2 (rb_size rb) \<and> length (rb_buffer rb) = unat (rb_size rb) \<and> ring_len rb \<le> rb_size rb"

text \<open>The bytes between the counters, oldest first.\<close>

definition ring_contents :: "ring_buffer \<Rightarrow> u8 list" where
  "ring_contents rb = map (\<lambda>k. rb_buffer rb ! ((unat (rb_out rb) + k) mod unat (rb_size rb))) [0..<unat (ring_len rb)]"

lemma length_ring_contents [simp]: "length (ring_contents rb) = unat (ring_len rb)"
  by (simp add: ring_contents_def)

lemma rb_okD:
  assumes "rb_ok rb"
  shows "is_power_of_2 (rb_size rb)" and "length (rb_buffer rb) = unat (rb_size rb)" and "0 < unat (rb_size rb)"
    and "unat (ring_len rb) \<le> unat (rb_size rb)"
    and "unat (rb_size rb - rb_in rb + rb_out rb) = unat (rb_size rb) - unat (ring_len rb)"
    and "unat (rb_in rb) mod unat (rb_size rb) = (unat (rb_out rb) + unat (ring_len rb)) mod unat (rb_size rb)"
proof -
  show p: "is_power_of_2 (rb_size rb)" and "length (rb_buffer rb) = unat (rb_size rb)"
    using assms by (simp_all add: rb_ok_def)
  show "0 < unat (rb_size rb)" by (rule size_pos [OF p])
  show l: "unat (ring_len rb) \<le> unat (rb_size rb)" using assms by (simp add: rb_ok_def word_le_nat_alt)
  have "rb_size rb - rb_in rb + rb_out rb = rb_size rb - ring_len rb" by (simp add: ring_len_def)
  moreover have "unat (rb_size rb - ring_len rb) = unat (rb_size rb) - unat (ring_len rb)"
    by (rule unat_sub) (use assms in \<open>simp add: rb_ok_def\<close>)
  ultimately show "unat (rb_size rb - rb_in rb + rb_out rb) = unat (rb_size rb) - unat (ring_len rb)" by metis
  show "unat (rb_in rb) mod unat (rb_size rb) = (unat (rb_out rb) + unat (ring_len rb)) mod unat (rb_size rb)"
    using unat_add_mod_size [OF p, of "rb_out rb" "ring_len rb"] by (simp add: ring_len_def)
qed

lemma ring_put_contents:
  assumes "rb_ok rb" and "unat n \<le> length buffer"
  obtains rb' where "ring_buffer_put rb buffer n = Some (min n (rb_size rb - ring_len rb), rb')" and "rb_ok rb'"
    and "rb_size rb' = rb_size rb"
    and "ring_contents rb' = ring_contents rb @ take (min (unat n) (unat (rb_size rb) - unat (ring_len rb))) buffer"
proof -
  note o = rb_okD [OF assms(1)]
  let ?N = "unat (rb_size rb)" and ?L = "unat (ring_len rb)"
  define w where "w = min n (rb_size rb - rb_in rb + rb_out rb)"
  define i where "i = rb_in rb AND (rb_size rb - 1)"
  define l where "l = min w (rb_size rb - i)"
  define m where "m = min (unat n) (?N - ?L)"
  have w: "unat w = m" by (simp add: unat_min o(5) m_def w_def)
  have p: "unat i = unat (rb_in rb) mod ?N" by (unfold i_def, rule masked [OF o(1)])
  then have pN: "unat i < ?N" using o(3) by simp
  have l: "unat l = min m (?N - unat i)"
    using pN by (simp add: l_def unat_min w unat_sub word_le_nat_alt)
  have d: "unat (w - l) = m - unat l" using w by (simp add: unat_sub l_def)
  have mb: "m \<le> length buffer" "m \<le> ?N" "m + ?L \<le> ?N" using assms(2) o(4) by (auto simp: m_def)
  obtain b1 b2 where b: "put_bytes (unat i) (take (unat l) (take m buffer)) (rb_buffer rb) = Some b1"
      "put_bytes 0 (drop (unat l) (take m buffer)) b1 = Some b2" "length b2 = ?N"
      "\<And>j. j < ?N \<Longrightarrow> b2 ! j = (if (j + ?N - unat i) mod ?N < m then take m buffer ! ((j + ?N - unat i) mod ?N) else rb_buffer rb ! j)"
    by (rule ring_copy_in [OF o(2) pN mb(2) _ l, of "take m buffer"]) (use mb in auto)
  have g: "get_bytes 0 (unat l) buffer = Some (take (unat l) (take m buffer))"
      "get_bytes (unat l) (unat (w - l)) buffer = Some (drop (unat l) (take m buffer))"
    using mb l d by (auto simp: get_bytes_def drop_take min_def)
  let ?rb = "rb\<lparr>rb_buffer := b2, rb_in := rb_in rb + w\<rparr>"
  have put: "ring_buffer_put rb buffer n = Some (w, ?rb)"
    by (simp add: ring_buffer_put_def ring_put_def Let_def w_def [symmetric] i_def [symmetric] l_def [symmetric] g b(1,2) del: take_take)
  have len: "unat (ring_len ?rb) = ?L + m"
  proof -
    have "ring_len ?rb = ring_len rb + w" by (simp add: ring_len_def)
    moreover have "?L + unat w < 2 ^ 32" using mb(3) unat_u32_lt [of "rb_size rb"] by (simp add: w)
    ultimately show ?thesis by (simp add: unat_word_ariths w)
  qed
  have ok: "rb_ok ?rb" using o(1) b(3) len mb(3) by (simp add: rb_ok_def word_le_nat_alt)
  have "ring_contents ?rb = ring_contents rb @ take m buffer"
  proof (rule nth_equalityI)
    fix k assume "k < length (ring_contents ?rb)"
    then have k: "k < ?L + m" by (simp add: len)
    let ?j = "(unat (rb_out rb) + k) mod ?N"
    have j: "?j < ?N" "(?j + ?N - unat i) mod ?N = (k + ?N - ?L) mod ?N"
      using ring_position [of k ?N ?L "unat (rb_out rb)"] k mb(3) o(3,4,6) by (simp_all add: p)
    show "ring_contents ?rb ! k = (ring_contents rb @ take m buffer) ! k"
    proof (cases "k < ?L")
      case True
      then have "(k + ?N - ?L) mod ?N = k + ?N - ?L" "m \<le> k + ?N - ?L" using mb(3) o(4) by simp_all
      with True k show ?thesis using b(4) [OF j(1)] len by (simp add: ring_contents_def nth_append j(2))
    next
      case False
      then have "k + ?N - ?L = k - ?L + ?N" using o(4) by simp
      then have "(k + ?N - ?L) mod ?N = (k - ?L + ?N) mod ?N" by (simp only:)
      moreover have "k - ?L < m" "k - ?L < ?N" using False k mb(3) by simp_all
      ultimately have "(k + ?N - ?L) mod ?N = k - ?L" "k - ?L < m" by simp_all
      with False k show ?thesis using b(4) [OF j(1)] len by (simp add: ring_contents_def nth_append j(2))
    qed
  qed (use mb len in simp)
  moreover have "rb_size rb - rb_in rb + rb_out rb = rb_size rb - ring_len rb" by (simp add: ring_len_def)
  then have "w = min n (rb_size rb - ring_len rb)" by (simp only: w_def)
  ultimately show thesis using put ok by (intro that [of ?rb]) (simp_all add: m_def)
qed

lemma ring_get_contents:
  assumes "rb_ok rb"
  obtains rb' where "ring_buffer_get rb n = Some (min n (ring_len rb), take (unat n) (ring_contents rb), rb')" and "rb_ok rb'"
    and "rb_size rb' = rb_size rb" and "ring_contents rb' = drop (unat n) (ring_contents rb)"
proof -
  note o = rb_okD [OF assms]
  let ?N = "unat (rb_size rb)" and ?L = "unat (ring_len rb)"
  define w where "w = min n (rb_in rb - rb_out rb)"
  define i where "i = rb_out rb AND (rb_size rb - 1)"
  define l where "l = min w (rb_size rb - i)"
  define m where "m = min (unat n) ?L"
  have w: "unat w = m" "w = min n (ring_len rb)" by (simp_all add: unat_min m_def ring_len_def w_def)
  have p: "unat i = unat (rb_out rb) mod ?N" by (unfold i_def, rule masked [OF o(1)])
  then have pN: "unat i < ?N" using o(3) by simp
  have l: "unat l = min m (?N - unat i)"
    using pN by (simp add: l_def unat_min w(1) unat_sub word_le_nat_alt)
  have d: "unat (w - l) = m - unat l" using w(1) by (simp add: unat_sub l_def)
  have mb: "m \<le> ?L" "m \<le> ?N" using o(4) by (auto simp: m_def)
  obtain a b where ab: "get_bytes (unat i) (unat l) (rb_buffer rb) = Some a" "get_bytes 0 (m - unat l) (rb_buffer rb) = Some b"
      "a @ b = map (\<lambda>k. rb_buffer rb ! ((unat i + k) mod ?N)) [0..<m]"
    by (rule ring_copy_out [OF o(2) pN mb(2) l])
  have bytes: "a @ b = take (unat n) (ring_contents rb)"
    unfolding ab(3) ring_contents_def by (simp add: p mod_add_left_eq take_map m_def min_def)
  let ?rb = "rb\<lparr>rb_out := rb_out rb + w\<rparr>"
  have len: "unat (ring_len ?rb) = ?L - m"
  proof -
    have "ring_len ?rb = ring_len rb - w" by (simp add: ring_len_def)
    moreover have "w \<le> ring_len rb" by (simp add: w(2))
    ultimately show ?thesis by (simp add: unat_sub w(1))
  qed
  have ok: "rb_ok ?rb" using o(1,2,4) len by (simp add: rb_ok_def word_le_nat_alt)
  have "ring_contents ?rb = drop m (ring_contents rb)"
  proof (rule nth_equalityI)
    fix k assume "k < length (ring_contents ?rb)"
    then have "k < ?L - m" "m + k < ?L" by (simp_all add: len)
    moreover have "(unat (rb_out rb + w) + k) mod ?N = (unat (rb_out rb) + (m + k)) mod ?N"
      using unat_add_mod_size [OF o(1), of "rb_out rb" w] w(1) by (metis add.assoc mod_add_left_eq)
    ultimately show "ring_contents ?rb ! k = drop m (ring_contents rb) ! k"
      by (simp add: ring_contents_def len)
  qed (simp add: len)
  moreover have "drop m (ring_contents rb) = drop (unat n) (ring_contents rb)" by (simp add: m_def min_def)
  ultimately have c: "ring_contents ?rb = drop (unat n) (ring_contents rb)" by simp
  let ?rb' = "if rb_in ?rb = rb_out ?rb then ?rb\<lparr>rb_in := 0, rb_out := 0\<rparr> else ?rb"
  have get: "ring_buffer_get rb n = Some (w, a @ b, ?rb')"
    by (simp add: ring_buffer_get_def ring_get_def Let_def w_def [symmetric] i_def [symmetric] l_def [symmetric] d ab(1,2))
  have "rb_ok ?rb' \<and> ring_contents ?rb' = ring_contents ?rb"
    using ok by (auto simp: rb_ok_def ring_contents_def ring_len_def)
  with get bytes c w(2) show thesis by (intro that [of ?rb']) simp_all
qed

subsection \<open>The ring as a bounded queue of bytes\<close>

text \<open>The specification: a list of at most \<open>cap\<close> bytes. Each operation answers a count and bytes.\<close>

datatype ring_op = Rput "u8 list" | Rget u32

fun ring_step :: "ring_buffer \<Rightarrow> ring_op \<Rightarrow> ((nat \<times> u8 list) \<times> ring_buffer) option" where
  "ring_step rb (Rput xs) = map_option (\<lambda>(ret, rb'). ((unat ret, []), rb')) (ring_buffer_put rb xs (of_nat (length xs)))"
| "ring_step rb (Rget n) = map_option (\<lambda>(ret, bytes, rb'). ((unat ret, bytes), rb')) (ring_buffer_get rb n)"

fun bq_step :: "nat \<Rightarrow> u8 list \<Rightarrow> ring_op \<Rightarrow> (nat \<times> u8 list) \<times> u8 list" where
  "bq_step cap q (Rput xs) = ((min (length xs) (cap - length q), []), q @ take (cap - length q) xs)"
| "bq_step cap q (Rget n) = ((min (unat n) (length q), take (unat n) q), drop (unat n) q)"

fun ring_run :: "ring_buffer \<Rightarrow> ring_op list \<Rightarrow> ((nat \<times> u8 list) list \<times> ring_buffer) option" where
  "ring_run rb [] = Some ([], rb)"
| "ring_run rb (op # ops) =
     (case ring_step rb op of
        None \<Rightarrow> None
      | Some (r, rb') \<Rightarrow> map_option (\<lambda>(rs, rb''). (r # rs, rb'')) (ring_run rb' ops))"

fun bq_run :: "nat \<Rightarrow> u8 list \<Rightarrow> ring_op list \<Rightarrow> (nat \<times> u8 list) list \<times> u8 list" where
  "bq_run cap q [] = ([], q)"
| "bq_run cap q (op # ops) =
     (case bq_step cap q op of (r, q') \<Rightarrow> (case bq_run cap q' ops of (rs, q'') \<Rightarrow> (r # rs, q'')))"

definition op_fits :: "ring_op \<Rightarrow> bool" where
  "op_fits op = (case op of Rput xs \<Rightarrow> length xs < 2 ^ 32 | Rget n \<Rightarrow> True)"

lemma ring_step_refines:
  assumes "rb_ok rb" and "op_fits op"
  obtains r rb' where "ring_step rb op = Some (r, rb')" and "rb_ok rb'" and "rb_size rb' = rb_size rb"
    and "bq_step (unat (rb_size rb)) (ring_contents rb) op = (r, ring_contents rb')"
proof (cases op)
  case (Rput xs)
  have n: "unat (of_nat (length xs) :: u32) = length xs"
    using assms(2) Rput by (simp add: op_fits_def unat_of_nat)
  then have le: "unat (of_nat (length xs) :: u32) \<le> length xs" by simp
  obtain rb' where "ring_buffer_put rb xs (of_nat (length xs)) = Some (min (of_nat (length xs)) (rb_size rb - ring_len rb), rb')"
      "rb_ok rb'" "rb_size rb' = rb_size rb"
      "ring_contents rb' = ring_contents rb @ take (min (length xs) (unat (rb_size rb) - unat (ring_len rb))) xs"
    by (rule ring_put_contents [OF assms(1) le, unfolded n])
  moreover have "unat (rb_size rb - ring_len rb) = unat (rb_size rb) - unat (ring_len rb)"
    by (rule unat_sub) (use assms(1) in \<open>simp add: rb_ok_def\<close>)
  moreover have "take (min (length xs) k) xs = take k xs" for k by (simp add: min_def)
  ultimately show thesis using Rput n
    by (intro that [of "(unat (min (of_nat (length xs)) (rb_size rb - ring_len rb)), [])" rb']) (simp_all add: unat_min)
next
  case (Rget n)
  obtain rb' where "ring_buffer_get rb n = Some (min n (ring_len rb), take (unat n) (ring_contents rb), rb')"
      "rb_ok rb'" "rb_size rb' = rb_size rb" "ring_contents rb' = drop (unat n) (ring_contents rb)"
    by (rule ring_get_contents [OF assms(1)])
  with Rget show thesis
    by (intro that [of "(unat (min n (ring_len rb)), take (unat n) (ring_contents rb))" rb']) (simp_all add: unat_min)
qed

lemma ring_run_refines:
  assumes "rb_ok rb" and "list_all op_fits ops"
  shows "\<exists>rs rb'. ring_run rb ops = Some (rs, rb') \<and> rb_ok rb' \<and> rb_size rb' = rb_size rb \<and>
    bq_run (unat (rb_size rb)) (ring_contents rb) ops = (rs, ring_contents rb')"
  using assms
proof (induction ops arbitrary: rb)
  case (Cons op ops)
  then obtain r rb1 where 1: "ring_step rb op = Some (r, rb1)" "rb_ok rb1" "rb_size rb1 = rb_size rb"
      "bq_step (unat (rb_size rb)) (ring_contents rb) op = (r, ring_contents rb1)"
    by (auto elim: ring_step_refines)
  moreover from Cons.IH [OF 1(2)] Cons.prems(2) obtain rs rb2 where "ring_run rb1 ops = Some (rs, rb2)" "rb_ok rb2"
      "rb_size rb2 = rb_size rb1" "bq_run (unat (rb_size rb1)) (ring_contents rb1) ops = (rs, ring_contents rb2)"
    by auto
  ultimately show ?case by simp
qed simp

text \<open>
  C15. The ring is a bounded queue of bytes: from any sound state, under every sequence of puts and
  gets of any sizes (that is, every interleaving of the two threads), it answers each operation as
  a queue of at most \<open>size\<close> bytes would, count by count and byte by byte, no access leaves the
  buffer, and the state stays sound; the counters may wrap, be reset, and the bytes cross the end
  of the buffer.
\<close>

theorem ring_refines_byte_queue:
  assumes "rb_ok rb" and "list_all op_fits ops"
  shows "\<exists>rs rb'. ring_run rb ops = Some (rs, rb') \<and> rb_ok rb' \<and> rb_size rb' = rb_size rb \<and>
    bq_run (unat (rb_size rb)) (ring_contents rb) ops = (rs, ring_contents rb')"
  using assms by (rule ring_run_refines)

text \<open>A ring of four bytes whose counters wrap while a message crosses its end.\<close>

definition demo_ring :: ring_buffer where
  "demo_ring = \<lparr>rb_buffer = [4, 1, 2, 3], rb_size = 4, rb_in = 1, rb_out = 0xFFFFFFFD\<rparr>"

theorem ring_refines_byte_queue_witness:
  "\<exists>rs rb'. ring_run demo_ring [Rget 2, Rput [5, 6, 7], Rget 9] = Some (rs, rb') \<and> rb_ok rb' \<and> rb_size rb' = 4 \<and>
     bq_run 4 [1, 2, 3, 4] [Rget 2, Rput [5, 6, 7], Rget 9] = (rs, ring_contents rb')"
  using ring_refines_byte_queue [of demo_ring "[Rget 2, Rput [5, 6, 7], Rget 9]"]
  by (simp add: demo_ring_def rb_ok_def ring_contents_def ring_len_def is_power_of_2_def op_fits_def upt_conv_Cons)

subsection \<open>The producer\<close>

text \<open>
  \<open>producer_proc\<close> puts until everything is in the ring; between two attempts the playback thread
  runs, which is a list of the sizes it asks for. A list that ends stands for a producer still
  in its loop. The result is what is left to write, what the playback thread was given and the ring.
\<close>

fun drain :: "ring_buffer \<Rightarrow> u32 list \<Rightarrow> (u8 list \<times> ring_buffer) option" where
  "drain rb [] = Some ([], rb)"
| "drain rb (n # ns) =
     (case ring_buffer_get rb n of
        None \<Rightarrow> None
      | Some (ret, bytes, rb') \<Rightarrow> map_option (\<lambda>(bs, rb''). (bytes @ bs, rb'')) (drain rb' ns))"

definition producer_put :: "ring_buffer \<Rightarrow> u8 list \<Rightarrow> nat \<Rightarrow> u32 \<Rightarrow> (nat \<times> u32 \<times> ring_buffer) option" where
  "producer_put rb buf tmp to_write =
     (case ring_buffer_put rb (drop tmp buf) to_write of
        None \<Rightarrow> None
      | Some (ret, rb') \<Rightarrow>
          Some (if sint ret \<le> 0 then (tmp, to_write, rb') else (tmp + unat ret, to_write - ret, rb')))"

fun producer_loop :: "ring_buffer \<Rightarrow> u8 list \<Rightarrow> nat \<Rightarrow> u32 \<Rightarrow> u32 list list \<Rightarrow> (u32 \<times> u8 list \<times> ring_buffer) option" where
  "producer_loop rb buf tmp to_write gets =
     (if to_write = 0 then Some (to_write, [], rb)
      else case producer_put rb buf tmp to_write of
        None \<Rightarrow> None
      | Some (tmp', to_write', rb1) \<Rightarrow>
          (case gets of
             [] \<Rightarrow> Some (to_write', [], rb1)
           | g # gs \<Rightarrow> (case drain rb1 g of
               None \<Rightarrow> None
             | Some (out, rb2) \<Rightarrow>
                 map_option (\<lambda>(left, out', rb3). (left, out @ out', rb3)) (producer_loop rb2 buf tmp' to_write' gs))))"

declare producer_loop.simps [simp del]

definition producer_proc :: "ring_buffer \<Rightarrow> u8 list \<Rightarrow> u32 \<Rightarrow> u32 list list \<Rightarrow> (u32 \<times> u8 list \<times> ring_buffer) option" where
  "producer_proc rb buf sz gets = producer_loop rb buf 0 sz gets"

definition ring_free :: "ring_buffer \<Rightarrow> nat" where
  "ring_free rb = unat (rb_size rb) - length (ring_contents rb)"

lemma drain_ok:
  assumes "rb_ok rb"
  obtains out rb' where "drain rb ns = Some (out, rb')" and "rb_ok rb'" and "ring_contents rb = out @ ring_contents rb'"
    and "rb_size rb' = rb_size rb" and "(\<exists>n \<in> set ns. n \<noteq> 0) \<Longrightarrow> 0 < ring_free rb'"
proof -
  have "\<exists>out rb'. drain rb ns = Some (out, rb') \<and> rb_ok rb' \<and> ring_contents rb = out @ ring_contents rb' \<and>
      rb_size rb' = rb_size rb \<and> ((\<exists>n \<in> set ns. n \<noteq> 0) \<longrightarrow> 0 < ring_free rb')"
    using assms
  proof (induction ns arbitrary: rb)
    case (Cons n ns)
    obtain rb1 where 1: "ring_buffer_get rb n = Some (min n (ring_len rb), take (unat n) (ring_contents rb), rb1)" "rb_ok rb1"
        "rb_size rb1 = rb_size rb" "ring_contents rb1 = drop (unat n) (ring_contents rb)"
      by (rule ring_get_contents [OF Cons.prems])
    obtain out rb2 where 2: "drain rb1 ns = Some (out, rb2)" "rb_ok rb2" "ring_contents rb1 = out @ ring_contents rb2"
        "rb_size rb2 = rb_size rb1" "(\<exists>n \<in> set ns. n \<noteq> 0) \<longrightarrow> 0 < ring_free rb2"
      using Cons.IH [OF 1(2)] by blast
    have len: "length (ring_contents rb2) \<le> length (ring_contents rb) - unat n"
      using arg_cong [OF 2(3), of length] 1(4) by simp
    have "0 < ring_free rb2" if "n \<noteq> 0"
    proof -
      have "0 < unat n" using that by (simp add: unat_gt_0)
      then show ?thesis using len rb_okD(3,4) [OF Cons.prems] 1(3) 2(4) by (simp add: ring_free_def)
    qed
    moreover have "ring_contents rb = take (unat n) (ring_contents rb) @ out @ ring_contents rb2"
      using 1(4) 2(3) by (metis append_take_drop_id)
    moreover have "drain rb (n # ns) = Some (take (unat n) (ring_contents rb) @ out, rb2)" using 1(1) 2(1) by simp
    ultimately have "drain rb (n # ns) = Some (take (unat n) (ring_contents rb) @ out, rb2) \<and> rb_ok rb2 \<and>
        ring_contents rb = (take (unat n) (ring_contents rb) @ out) @ ring_contents rb2 \<and> rb_size rb2 = rb_size rb \<and>
        ((\<exists>n \<in> set (n # ns). n \<noteq> 0) \<longrightarrow> 0 < ring_free rb2)"
      using 1(3) 2(2,4,5) by auto
    then show ?case by blast
  qed simp
  then show thesis using that by blast
qed

lemma producer_put_ok:
  assumes "rb_ok rb" and "tmp + unat tw \<le> length buf" and "unat tw < 2 ^ 31"
  obtains m rb' where "producer_put rb buf tmp tw = Some (tmp + m, tw - of_nat m, rb')" and "m = min (unat tw) (ring_free rb)"
    and "unat (tw - of_nat m) = unat tw - m"
    and "rb_ok rb'" and "rb_size rb' = rb_size rb" and "ring_contents rb' = ring_contents rb @ take m (drop tmp buf)"
proof -
  let ?ret = "min tw (rb_size rb - ring_len rb)"
  obtain rb' where p: "ring_buffer_put rb (drop tmp buf) tw = Some (?ret, rb')" "rb_ok rb'" "rb_size rb' = rb_size rb"
      "ring_contents rb' = ring_contents rb @ take (min (unat tw) (unat (rb_size rb) - unat (ring_len rb))) (drop tmp buf)"
    by (rule ring_put_contents [OF assms(1), of tw "drop tmp buf"]) (use assms(2) in simp)
  have "unat (rb_size rb - ring_len rb) = unat (rb_size rb) - unat (ring_len rb)"
    by (rule unat_sub) (use assms(1) in \<open>simp add: rb_ok_def\<close>)
  then have r: "unat ?ret = min (unat tw) (ring_free rb)" by (simp add: unat_min ring_free_def)
  then have s: "sint ?ret = int (unat ?ret)" using assms(3) by (intro sint_small) simp
  have w: "of_nat (unat ?ret) = ?ret" by simp
  have "unat (tw - ?ret) = unat tw - unat ?ret" by (rule unat_sub) simp
  moreover have "producer_put rb buf tmp tw = Some (tmp + unat ?ret, tw - ?ret, rb')"
  proof (cases "?ret = 0")
    case True
    with p(1) show ?thesis by (simp add: producer_put_def)
  next
    case False
    then have "unat ?ret \<noteq> 0" by (simp only: unat_eq_zero not_False_eq_True)
    then have "\<not> sint ?ret \<le> 0" using s by linarith
    with p(1) show ?thesis by (simp add: producer_put_def)
  qed
  ultimately show thesis using p r w by (intro that [of "unat ?ret" rb']) (simp_all add: ring_free_def)
qed

lemma producer_loop_returns:
  assumes "rb_ok rb" and "tmp + unat tw = length buf" and "unat tw < 2 ^ 31"
    and "list_all (\<lambda>g. \<exists>n \<in> set g. n \<noteq> 0) gets"
    and "unat tw \<le> length gets + (if 0 < ring_free rb then 1 else 0)"
  shows "\<exists>out rb'. producer_loop rb buf tmp tw gets = Some (0, out, rb') \<and> rb_ok rb' \<and>
    ring_contents rb @ drop tmp buf = out @ ring_contents rb'"
  using assms
proof (induction gets arbitrary: rb tmp tw)
  case Nil
  show ?case
  proof (cases "tw = 0")
    case True
    with Nil show ?thesis by (simp add: producer_loop.simps)
  next
    case False
    then have tw: "unat tw = 1" "0 < ring_free rb"
      using Nil.prems(5) unat_gt_0 [of tw] by (auto split: if_splits)
    obtain m rb' where p: "producer_put rb buf tmp tw = Some (tmp + m, tw - of_nat m, rb')" "m = min (unat tw) (ring_free rb)"
        "unat (tw - of_nat m) = unat tw - m" "rb_ok rb'" "ring_contents rb' = ring_contents rb @ take m (drop tmp buf)"
      by (rule producer_put_ok [of rb tmp tw buf]) (use Nil.prems in simp_all)
    have "m = 1" using p(2) tw by simp
    then have "tw - of_nat m = 0" "take m (drop tmp buf) = drop tmp buf" using p(3) tw Nil.prems(2) by (simp_all add: unat_eq_zero)
    with p False show ?thesis by (simp add: producer_loop.simps)
  qed
next
  case (Cons g gs)
  show ?case
  proof (cases "tw = 0")
    case True
    with Cons.prems show ?thesis by (simp add: producer_loop.simps)
  next
    case False
    obtain m rb1 where p: "producer_put rb buf tmp tw = Some (tmp + m, tw - of_nat m, rb1)" "m = min (unat tw) (ring_free rb)"
        "unat (tw - of_nat m) = unat tw - m" "rb_ok rb1" "rb_size rb1 = rb_size rb" "ring_contents rb1 = ring_contents rb @ take m (drop tmp buf)"
      by (rule producer_put_ok [of rb tmp tw buf]) (use Cons.prems in simp_all)
    obtain o1 rb2 where d: "drain rb1 g = Some (o1, rb2)" "rb_ok rb2" "ring_contents rb1 = o1 @ ring_contents rb2"
        "rb_size rb2 = rb_size rb1" "0 < ring_free rb2"
      by (rule drain_ok [OF p(4), of g]) (use Cons.prems(4) in auto)
    have "\<exists>out rb'. producer_loop rb2 buf (tmp + m) (tw - of_nat m) gs = Some (0, out, rb') \<and> rb_ok rb' \<and>
        ring_contents rb2 @ drop (tmp + m) buf = out @ ring_contents rb'"
      by (rule Cons.IH [OF d(2)]) (use Cons.prems p(2,3) d(5) in \<open>auto split: if_splits\<close>)
    then obtain out rb3 where l: "producer_loop rb2 buf (tmp + m) (tw - of_nat m) gs = Some (0, out, rb3)" "rb_ok rb3"
        "ring_contents rb2 @ drop (tmp + m) buf = out @ ring_contents rb3" by blast
    have "ring_contents rb @ drop tmp buf = ring_contents rb1 @ drop (tmp + m) buf"
      by (simp add: p(6)) (metis append_take_drop_id drop_drop add.commute)
    also have "\<dots> = (o1 @ out) @ ring_contents rb3" using d(3) l(3) by simp
    finally have "ring_contents rb @ drop tmp buf = (o1 @ out) @ ring_contents rb3" .
    moreover have "producer_loop rb buf tmp tw (g # gs) = Some (0, o1 @ out, rb3)"
      using False p(1) d(1) l(1) by (subst producer_loop.simps) simp
    ultimately show ?thesis using l(2) by blast
  qed
qed

text \<open>
  The producer returns: when the playback thread asks for some bytes between any two attempts,
  \<open>producer_proc\<close> has put everything after at most one attempt more than there are bytes, and
  what was in the ring and the new bytes are what the playback thread got and the ring holds, in order.
\<close>

lemma producer_returns:
  assumes "rb_ok rb" and "unat n = length buf" and "length buf < 2 ^ 31"
    and "list_all (\<lambda>g. \<exists>k \<in> set g. k \<noteq> 0) gets" and "length buf \<le> length gets"
  shows "\<exists>out rb'. producer_proc rb buf n gets = Some (0, out, rb') \<and> rb_ok rb' \<and> ring_contents rb @ buf = out @ ring_contents rb'"
  using producer_loop_returns [of rb 0 n buf gets] assms by (simp add: producer_proc_def)

lemma producer_returns_witness:
  "\<exists>out rb'. producer_proc demo_ring [5, 6, 7] 3 [[0, 2], [1], [9]] = Some (0, out, rb') \<and> rb_ok rb' \<and>
     [1, 2, 3, 4, 5, 6, 7] = out @ ring_contents rb'"
  using producer_returns [of demo_ring 3 "[5, 6, 7]" "[[0, 2], [1], [9]]"]
  by (simp add: demo_ring_def rb_ok_def ring_contents_def ring_len_def is_power_of_2_def upt_conv_Cons)

text \<open>Once the playback thread has ended, a producer with more than fits never returns.\<close>

lemma producer_loop_stuck:
  assumes "rb_ok rb" and "tmp + unat tw = length buf" and "unat tw < 2 ^ 31" and "ring_free rb < unat tw"
  shows "\<exists>left rb'. producer_loop rb buf tmp tw (replicate k []) = Some (left, [], rb') \<and> left \<noteq> 0"
  using assms
proof (induction k arbitrary: rb tmp tw)
  case (Suc k)
  obtain m rb1 where p: "producer_put rb buf tmp tw = Some (tmp + m, tw - of_nat m, rb1)" "m = min (unat tw) (ring_free rb)"
      "unat (tw - of_nat m) = unat tw - m" "rb_ok rb1" "rb_size rb1 = rb_size rb" "ring_contents rb1 = ring_contents rb @ take m (drop tmp buf)"
    by (rule producer_put_ok [of rb tmp tw buf]) (use Suc.prems in simp_all)
  have "ring_free rb1 = 0" using p(2,5,6) Suc.prems(2,4) by (simp add: ring_free_def)
  then have "\<exists>left rb'. producer_loop rb1 buf (tmp + m) (tw - of_nat m) (replicate k []) = Some (left, [], rb') \<and> left \<noteq> 0"
    by (intro Suc.IH) (use Suc.prems p(2,3,4) in auto)
  with p(1) Suc.prems(4) show ?case by (subst producer_loop.simps) auto
next
  case 0
  obtain m rb1 where p: "producer_put rb buf tmp tw = Some (tmp + m, tw - of_nat m, rb1)" "m = min (unat tw) (ring_free rb)"
      "unat (tw - of_nat m) = unat tw - m"
    by (rule producer_put_ok [of rb tmp tw buf]) (use 0 in simp_all)
  have "unat (tw - of_nat m) \<noteq> 0" using p(2,3) 0(4) by simp
  then have "tw - of_nat m \<noteq> 0" by (simp only: unat_eq_zero not_False_eq_True)
  with p(1) 0(4) show ?case by (subst producer_loop.simps) auto
qed

lemma producer_waits_for_ever:
  assumes "rb_ok rb" and "unat n = length buf" and "length buf < 2 ^ 31" and "ring_free rb < length buf"
  shows "\<exists>left rb'. producer_proc rb buf n (replicate k []) = Some (left, [], rb') \<and> left \<noteq> 0"
  using producer_loop_stuck [of rb 0 n buf k] assms by (simp add: producer_proc_def)

subsection \<open>The DSP loop\<close>

text \<open>
  \<open>ms * rate * channels * 2 / 1000\<close> in unsigned arithmetic, for the rate and the channels of the
  \<open>pcm_config\<close>.
\<close>

definition audio_bytes :: "u32 \<Rightarrow> u32 \<Rightarrow> u32 \<Rightarrow> u32" where
  "audio_bytes ms rate channels = ms * rate * channels * 2 div 1000"

text \<open>The loop that looks for the highest bit above the lowest; a shift into the sign is undefined.\<close>

fun top_bit :: "u32 \<Rightarrow> nat \<Rightarrow> nat" where
  "top_bit sz 0 = 0"
| "top_bit sz (Suc i) = (if sz AND push_bit (Suc i) 1 \<noteq> 0 then Suc i else top_bit sz i)"

definition calculation_ring_buffer_size :: "u32 \<Rightarrow> u32 \<Rightarrow> u32 \<Rightarrow> u32 option" where
  "calculation_ring_buffer_size ms rate channels =
     (let i = top_bit (audio_bytes ms rate channels) 31
      in if i = 0 then Some 0 else if i + 1 \<ge> 31 then None else Some (push_bit (i + 1) 1))"

text \<open>
  The size of the ring and of the silence it starts with. The divided numbers are positive as
  \<open>int\<close> too, so the signed division by the frame size is the unsigned one.
\<close>

definition dsp_loop_sizes :: "u32 \<Rightarrow> u32 \<Rightarrow> u32 \<Rightarrow> (u32 \<times> u32) option" where
  "dsp_loop_sizes loop_delay rate channels =
     (case calculation_ring_buffer_size (loop_delay * 16) rate channels of
        None \<Rightarrow> None
      | Some sz \<Rightarrow>
          let min_buffer_size = audio_bytes 500 rate channels in
          (case (if sint sz < sint min_buffer_size then calculation_ring_buffer_size 500 rate channels else Some sz) of
             None \<Rightarrow> None
           | Some sz \<Rightarrow>
               let delay_size = audio_bytes loop_delay rate channels;
                   dsp_zero_size = (delay_size div 488 + 1) * 488
               in Some (sz, dsp_zero_size)))"

definition dsp_loop_ring ::
  "bool \<Rightarrow> bool \<Rightarrow> bool \<Rightarrow> u32 \<Rightarrow> u32 \<Rightarrow> u32 \<Rightarrow> rb_block list \<Rightarrow> (ring_buffer option \<times> rb_block list) option" where
  "dsp_loop_ring buffer_ok handle_ok mutex_ok loop_delay rate channels heap =
     (case dsp_loop_sizes loop_delay rate channels of
        None \<Rightarrow> None
      | Some (sz, dsp_zero_size) \<Rightarrow> Some (ring_buffer_init buffer_ok handle_ok mutex_ok sz dsp_zero_size heap))"

text \<open>The command that sets the delay: its return value and the delay.\<close>

definition set_dsploop_delay :: "int \<Rightarrow> int \<Rightarrow> int \<times> int" where
  "set_dsploop_delay loop_delay delay = (- 1, if 0 \<le> delay \<and> delay \<le> 20 * 1000 then delay else loop_delay)"

lemma init_sound:
  assumes "ring_buffer_init b h m sz zero heap = (Some rb, heap')"
  shows "rb_ok rb" and "ring_contents rb = replicate (unat zero) 0" and "rb_size rb = sz" and "heap' = Handle # Bytes # heap"
proof -
  have rb: "is_power_of_2 sz" "zero < sz" "heap' = Handle # Bytes # heap"
      "rb = \<lparr>rb_buffer = replicate (unat sz) 0, rb_size = sz, rb_in = zero, rb_out = 0\<rparr>"
    using assms by (auto simp: ring_buffer_init_def Let_def split: if_splits)
  then show "rb_ok rb" "rb_size rb = sz" "heap' = Handle # Bytes # heap" by (simp_all add: rb_ok_def ring_len_def)
  have "k mod unat sz = k" if "k < unat zero" for k
    using that rb(2) by (simp add: word_less_nat_alt)
  then show "ring_contents rb = replicate (unat zero) 0"
    using rb(2) by (intro nth_equalityI) (simp_all add: rb(4) ring_contents_def ring_len_def word_less_nat_alt)
qed

text \<open>When the second allocation fails, the first block is lost: the handle that is freed is NULL.\<close>

lemma init_leaks_buffer:
  assumes "is_power_of_2 sz" and "zero < sz"
  shows "ring_buffer_init True False m sz zero heap = (None, Bytes # heap)"
  using assms by (simp add: ring_buffer_init_def ring_buffer_free_def)

lemma init_free_balanced:
  "ring_buffer_init b h m sz zero heap = (Some rb, heap') \<Longrightarrow> ring_buffer_free (Some rb) heap' = heap"
  using init_sound(4) [of b h m sz zero heap rb heap'] by (simp add: ring_buffer_free_def)

lemma bit_odd_unat: "bit w n \<longleftrightarrow> odd (unat w div 2 ^ n)" for w :: u32
proof -
  have "bit w n = bit (unat w) n" by (simp add: bit_unsigned_iff)
  then show ?thesis by (simp only: bit_iff_odd)
qed

lemma top_bit_bounds:
  assumes "unat w < 2 ^ Suc i" and "i < 32"
  shows "unat w < 2 ^ Suc (top_bit w i) \<and> (top_bit w i \<noteq> 0 \<longrightarrow> 2 ^ top_bit w i \<le> unat w)"
  using assms
proof (induction i)
  case (Suc i)
  have b: "w AND push_bit (Suc i) 1 \<noteq> 0 \<longleftrightarrow> odd (unat w div 2 ^ Suc i)"
    by (simp only: push_bit_of_1 and_exp_eq_0_iff_not_bit bit_odd_unat not_not)
  show ?case
  proof (cases "odd (unat w div 2 ^ Suc i)")
    case True
    then have "2 ^ Suc i \<le> unat w" by (metis div_less even_zero not_le)
    with True b Suc.prems show ?thesis by simp
  next
    case False
    have "unat w div 2 ^ Suc i < 2" using Suc.prems(1) by (simp add: less_mult_imp_div_less mult.commute)
    moreover have "q = 0" if "\<not> odd q" "q < 2" for q :: nat using that by presburger
    ultimately have "unat w div 2 ^ Suc i = 0" using False by blast
    then have "unat w < 2 ^ Suc i" by (simp add: div_eq_0_iff)
    with Suc False b show ?thesis by simp
  qed
qed simp

lemma unat_power_of_2: "n < 32 \<Longrightarrow> unat (2 ^ n :: u32) = 2 ^ n"
proof -
  assume "n < 32"
  then have "(2::nat) ^ n < 2 ^ 32" by (intro power_strict_increasing) simp_all
  then show ?thesis using unat_of_nat [of "2 ^ n", where ?'a = 32] by simp
qed

lemma power_of_2_power:
  assumes "n < 32"
  shows "is_power_of_2 (2 ^ n)"
proof -
  have "(2 ^ n :: u32) AND (2 ^ n - 1) = take_bit n (2 ^ n)" by (simp add: take_bit_eq_mask mask_eq_exp_minus_1)
  moreover have "unat (take_bit n (2 ^ n :: u32)) = 0"
    unfolding unat_take_bit unat_power_of_2 [OF assms] by simp
  moreover have "unat (2 ^ n :: u32) \<noteq> 0" unfolding unat_power_of_2 [OF assms] by simp
  ultimately show ?thesis by (simp only: is_power_of_2_def unat_eq_zero) simp
qed

text \<open>What is rounded is less than 2^23, so the shift is defined and the ring has at most 8 MB.\<close>

lemma audio_bytes_less: "unat (audio_bytes ms rate channels) < 2 ^ 23"
proof -
  have "unat (ms * rate * channels * 2) div 1000 \<le> 4294967295 div 1000"
    using unat_u32_lt [of "ms * rate * channels * 2"] by (intro div_le_mono) simp
  then show ?thesis by (simp add: audio_bytes_def unat_div)
qed

lemma ring_size_rounds_up:
  obtains z where "calculation_ring_buffer_size ms rate channels = Some z" and "unat z \<le> 2 ^ 23"
    and "2 \<le> unat (audio_bytes ms rate channels) \<Longrightarrow>
      is_power_of_2 z \<and> unat (audio_bytes ms rate channels) < unat z \<and> unat z \<le> 2 * unat (audio_bytes ms rate channels)"
proof -
  let ?s = "audio_bytes ms rate channels"
  define i where "i = top_bit ?s 31"
  have s: "unat ?s < 2 ^ 23" by (rule audio_bytes_less)
  have t: "unat ?s < 2 ^ Suc i" "i \<noteq> 0 \<longrightarrow> 2 ^ i \<le> unat ?s"
    using top_bit_bounds [of ?s 31] s by (simp_all add: i_def)
  have "i < 23"
  proof (cases "i = 0")
    case False
    with t(2) s have "(2::nat) ^ i < 2 ^ 23" by linarith
    then show ?thesis by (rule power_less_imp_less_exp [rotated]) simp
  qed simp
  then have e: "unat (push_bit (i + 1) 1 :: u32) = 2 ^ Suc i"
    by (simp add: push_bit_of_1 unat_power_of_2 del: power_Suc)
  have c: "calculation_ring_buffer_size ms rate channels = Some (if i = 0 then 0 else push_bit (i + 1) 1)"
    using \<open>i < 23\<close> by (simp add: calculation_ring_buffer_size_def i_def Let_def)
  have "(2::nat) ^ Suc i \<le> 2 ^ 23" using \<open>i < 23\<close> by (intro power_increasing) simp_all
  moreover have "is_power_of_2 (push_bit (i + 1) 1)"
    using \<open>i < 23\<close> power_of_2_power [of "i + 1"] by (simp add: push_bit_of_1)
  ultimately show thesis using c e t by (intro that [of "if i = 0 then 0 else push_bit (i + 1) 1"]) (auto split: if_splits)
qed

lemma ring_size_small:
  assumes "unat (audio_bytes ms rate channels) < 2"
  shows "calculation_ring_buffer_size ms rate channels = Some 0"
proof -
  let ?i = "top_bit (audio_bytes ms rate channels) 31"
  have "?i \<noteq> 0 \<longrightarrow> 2 ^ ?i \<le> unat (audio_bytes ms rate channels)"
    using top_bit_bounds [of "audio_bytes ms rate channels" 31] audio_bytes_less [of ms rate channels] by simp
  moreover have "(2::nat) \<le> 2 ^ ?i" if "?i \<noteq> 0" using that self_le_power [of 2 ?i] by simp
  ultimately have "?i = 0" using assms by fastforce
  then show ?thesis by (simp add: calculation_ring_buffer_size_def)
qed

lemma dsp_loop_sizes_ok:
  assumes "488 < unat rate * unat channels" and "unat rate * unat channels < 2 ^ 22"
    and "unat loop_delay * unat rate * unat channels * 32 < 2 ^ 32"
  obtains z zero where "dsp_loop_sizes loop_delay rate channels = Some (z, zero)" and "is_power_of_2 z" and "unat z \<le> 2 ^ 23"
    and "zero < z" and "unat zero = (unat loop_delay * unat rate * unat channels * 2 div 1000 div 488 + 1) * 488"
proof -
  let ?B = "unat rate * unat channels"
  define x where "x = unat loop_delay * ?B"
  have x: "x * 32 < 2 ^ 32" using assms(3) by (simp add: x_def mult.assoc)
  have bytes: "unat (audio_bytes ms rate channels) = unat ms * ?B * 2 div 1000" if "unat ms * ?B * 2 < 2 ^ 32" for ms
  proof -
    have "unat (ms * rate * channels * 2) = unat ms * ?B * 2"
      using that by (simp add: unat_word_ariths mod_mult_left_eq mod_mult_right_eq mult.assoc)
    then show ?thesis by (simp add: audio_bytes_def unat_div)
  qed
  have "unat loop_delay * 1 \<le> x" unfolding x_def by (rule mult_le_mono2) (use assms(1) in linarith)
  then have d16: "unat (loop_delay * 16) = unat loop_delay * 16"
    using x by (simp add: unat_word_ariths)
  have b16: "unat (audio_bytes (loop_delay * 16) rate channels) = x * 32 div 1000"
    using bytes [of "loop_delay * 16"] x by (simp add: d16 x_def mult_ac)
  have b1: "unat (audio_bytes loop_delay rate channels) = x * 2 div 1000"
    using bytes [of loop_delay] x by (simp add: x_def)
  have b500: "unat (audio_bytes 500 rate channels) = ?B"
  proof -
    have "unat (500 :: u32) * k * 2 < 2 ^ 32 \<and> unat (500 :: u32) * k * 2 div 1000 = k" if "k < 2 ^ 22" for k
      using that by simp
    then show ?thesis using bytes [of 500] assms(2) by metis
  qed
  obtain z1 where z1: "calculation_ring_buffer_size (loop_delay * 16) rate channels = Some z1" "unat z1 \<le> 2 ^ 23"
      "2 \<le> x * 32 div 1000 \<Longrightarrow> is_power_of_2 z1 \<and> x * 32 div 1000 < unat z1 \<and> unat z1 \<le> 2 * (x * 32 div 1000)"
    using ring_size_rounds_up [of "loop_delay * 16" rate channels] unfolding b16 by metis
  obtain z2 where z2: "calculation_ring_buffer_size 500 rate channels = Some z2" "unat z2 \<le> 2 ^ 23"
      "is_power_of_2 z2" "?B < unat z2"
  proof -
    obtain z where z: "calculation_ring_buffer_size 500 rate channels = Some z" "unat z \<le> 2 ^ 23"
        "2 \<le> ?B \<Longrightarrow> is_power_of_2 z \<and> ?B < unat z \<and> unat z \<le> 2 * ?B"
      using ring_size_rounds_up [of 500 rate channels] unfolding b500 by metis
    have "2 \<le> ?B" using assms(1) by linarith
    from z(3) [OF this] z(1,2) show thesis using that by blast
  qed
  define zero where "zero = (audio_bytes loop_delay rate channels div 488 + 1) * 488"
  define Z where "Z = (x * 2 div 1000 div 488 + 1) * 488"
  have Z: "Z \<le> x * 2 div 1000 + 488" unfolding Z_def by simp
  have "x * 2 div 1000 < 2 ^ 23" using audio_bytes_less [of loop_delay rate channels] by (simp add: b1)
  then have "Z < 2 ^ 32" using Z by simp
  then have zero: "unat zero = Z"
    unfolding zero_def Z_def by (simp add: unat_word_ariths unat_div b1)
  have cmp: "sint z1 < sint (audio_bytes 500 rate channels) \<longleftrightarrow> unat z1 < ?B"
  proof -
    have "sint z1 = int (unat z1)" by (rule sint_small) (use z1(2) in simp)
    moreover have "sint (audio_bytes 500 rate channels) = int ?B"
      unfolding b500 [symmetric] by (rule sint_small) (use assms(2) b500 in simp)
    ultimately show ?thesis by (simp only: of_nat_less_iff)
  qed
  define z where "z = (if unat z1 < ?B then z2 else z1)"
  have sizes: "dsp_loop_sizes loop_delay rate channels = Some (z, zero)"
    by (simp add: dsp_loop_sizes_def z1(1) z2(1) cmp z_def zero_def Let_def)
  have "16 * (x * 2 div 1000) \<le> x * 32 div 1000"
    using div_times_less_eq_dividend [of "x * 2" 1000] by (simp add: less_eq_div_iff_mult_less_eq)
  moreover have z: "is_power_of_2 z \<and> unat z \<le> 2 ^ 23 \<and> ?B \<le> unat z \<and> x * 32 div 1000 < unat z"
  proof (cases "2 \<le> x * 32 div 1000")
    case True
    with z1(2,3) z2 show ?thesis by (auto simp: z_def)
  next
    case False
    then have "z1 = 0" using z1(1) ring_size_small [of "loop_delay * 16" rate channels] by (simp add: b16)
    then have "unat z1 = 0" by simp
    then have "unat z1 < ?B" using assms(1) by linarith
    then have "z = z2" by (simp only: z_def if_True)
    moreover have "x * 32 div 1000 < unat z2" using False z2(4) assms(1) by linarith
    ultimately show ?thesis using z2 by (simp only: less_imp_le simp_thms)
  qed
  moreover have "x * 2 div 1000 < 488 \<Longrightarrow> Z = 488" unfolding Z_def by simp
  ultimately have "Z < unat z" using Z assms(1) by linarith
  then show thesis using that [OF sizes] z zero by (simp add: word_less_nat_alt Z_def x_def mult.assoc)
qed

subsection \<open>From the microphone to the loudspeaker\<close>

text \<open>The bytes that the puts of a run accepted.\<close>

fun rb_accepted :: "ring_op list \<Rightarrow> (nat \<times> u8 list) list \<Rightarrow> u8 list" where
  "rb_accepted (Rput xs # ops) (r # rs) = take (fst r) xs @ rb_accepted ops rs"
| "rb_accepted (Rget n # ops) (r # rs) = rb_accepted ops rs"
| "rb_accepted _ _ = []"

lemma queue_conserves: "bq_run cap q ops = (rs, q') \<Longrightarrow> q @ rb_accepted ops rs = concat (map snd rs) @ q'"
proof (induction ops arbitrary: q rs q')
  case (Cons op ops)
  obtain r q1 where 1: "bq_step cap q op = (r, q1)" by fastforce
  obtain rs1 q2 where 2: "bq_run cap q1 ops = (rs1, q2)" by fastforce
  have "rs = r # rs1" "q' = q2" using Cons.prems 1 2 by simp_all
  moreover have "q1 @ rb_accepted ops rs1 = concat (map snd rs1) @ q2" by (rule Cons.IH [OF 2])
  moreover have "case op of Rput xs \<Rightarrow> q1 = q @ take (fst r) xs \<and> snd r = [] | Rget n \<Rightarrow> q = snd r @ q1"
    using 1 by (cases op) (auto simp: min_def)
  ultimately show ?case by (cases op) auto
qed simp

text \<open>
  C33. The DSP loop delays: when rate times channels lies between 488 and 2^22, the product of the
  delay with it and with 32 stays within 32 bits and the allocations succeed, the computed sizes are
  accepted and make a ring of at most 8 MB; whatever the two threads then put and get, the computed
  silence followed by the bytes the ring accepted is what was taken out followed by what the ring
  holds, byte by byte.
\<close>

theorem dsp_loop_delays:
  assumes "488 < unat rate * unat channels" and "unat rate * unat channels < 2 ^ 22"
    and "unat loop_delay * unat rate * unat channels * 32 < 2 ^ 32" and "list_all op_fits ops"
  shows "\<exists>rb rs rb'. dsp_loop_ring True True True loop_delay rate channels heap = Some (Some rb, Handle # Bytes # heap) \<and>
    unat (rb_size rb) \<le> 2 ^ 23 \<and> ring_run rb ops = Some (rs, rb') \<and>
    replicate ((unat loop_delay * unat rate * unat channels * 2 div 1000 div 488 + 1) * 488) 0 @ rb_accepted ops rs =
      concat (map snd rs) @ ring_contents rb'"
proof -
  obtain z zero where s: "dsp_loop_sizes loop_delay rate channels = Some (z, zero)" "is_power_of_2 z" "unat z \<le> 2 ^ 23"
      "zero < z" "unat zero = (unat loop_delay * unat rate * unat channels * 2 div 1000 div 488 + 1) * 488"
    by (rule dsp_loop_sizes_ok [OF assms(1-3)])
  obtain rb heap' where i: "ring_buffer_init True True True z zero heap = (Some rb, heap')"
    using s(2) s(4) [unfolded not_le [symmetric]] by (simp add: ring_buffer_init_def Let_def)
  note o = init_sound [OF i]
  obtain rs rb' where r: "ring_run rb ops = Some (rs, rb')" "bq_run (unat (rb_size rb)) (ring_contents rb) ops = (rs, ring_contents rb')"
    using ring_run_refines [OF o(1) assms(4)] by blast
  have "replicate (unat zero) 0 @ rb_accepted ops rs = concat (map snd rs) @ ring_contents rb'"
    using queue_conserves [OF r(2)] unfolding o(2) .
  with i r(1) o(3,4) s(1,3,5) show ?thesis by (simp add: dsp_loop_ring_def)
qed

theorem dsp_loop_delays_witness:
  "\<exists>rb rs rb'. dsp_loop_ring True True True 1000 16000 1 [] = Some (Some rb, [Handle, Bytes]) \<and>
    ring_run rb [Rput [1, 2], Rget 5] = Some (rs, rb') \<and>
    replicate 32208 0 @ rb_accepted [Rput [1, 2], Rget 5] rs = concat (map snd rs) @ ring_contents rb'"
  using dsp_loop_delays [of 16000 1 1000 "[Rput [1, 2], Rget 5]" "[]"]
  by (simp add: op_fits_def del: ring_run.simps rb_accepted.simps) blast

text \<open>
  The command accepts delays up to twenty seconds, but the product with sixteen leaves 32 bits before:
  at 48 kHz and two channels a delay of 1399 ms makes a ring smaller than its silence, which is refused.
\<close>

lemma dsp_loop_refuses_set_delay:
  "snd (set_dsploop_delay d 1399) = 1399 \<and> dsp_loop_ring b h m 1399 48000 2 heap = Some (None, heap)"
proof -
  have "dsp_loop_sizes 1399 48000 2 = Some (131072, 268888)" by code_simp
  then show ?thesis by (simp add: set_dsploop_delay_def dsp_loop_ring_def ring_buffer_init_def)
qed

end
