(* ===== verification/Spec2Isabelle.thy ===== *)
theory Spec2Isabelle
  imports Prelude Checksums Crc_Table Hdlc Packet Send WcndSm WcndCmd NvFs NvBuf NvSync CmrMsg Sitm Sms4 Wapi WlanQueue WlanTcp WlanQos WlanCmd
    SmartCtrl SmartHandle IspInterp AudioRing
begin

text \<open>
  A verification development for the vendor package of a Spreadtrum Android device: the
  daemons and libraries between the application processor and its companion chips. The
  repository is large and mostly tables, drivers and vendored code; the theories model the
  C programs that carry protocol and state logic of their own.

  \<^bold>\<open>Target.\<close> 32-bit little-endian ARM: \<open>int\<close>, \<open>long\<close> and pointers have 32 bits and plain
  \<open>char\<close> is unsigned. Machine integers are words; an access that is undefined in C (outside an
  array, a shift by the width) makes an operation return \<open>None\<close>. What the system answers
  (\<open>read\<close>, \<open>write\<close>, \<open>open\<close>, the clock, \<open>rand\<close>) is an argument or a script of results.

  \<^bold>\<open>Theories.\<close>

  \<^item> \<open>Prelude\<close>: integer types, byte order, bounded buffer accesses; the locale
    \<open>transition_system\<close> (an invariant kept by a step function holds after every run) and the
    locale \<open>fifo\<close> (what a queue delivers is what it accepted, in order).

  \<^item> \<open>Checksums\<close>, \<open>Crc_Table\<close>: \<open>wcn/platform/download/crc16.c\<close> and \<open>calc_checksum\<close> of
    \<open>nvitem_fs.c\<close>. The locale \<open>integrity_code\<close> states what a receiver gains from a check code;
    it is interpreted by the HDLC CRC and by the boot checksum. The CRC detects bursts of two
    bytes, the three sums are one function, the table-driven CRC equals its bitwise definition.

  \<^item> \<open>Hdlc\<close>, \<open>Packet\<close>, \<open>Send\<close>: \<open>wcn/platform/download/packet.c\<close> with \<open>cmd_def.h\<close>. Byte
    stuffing and the receiver's three states, \<open>setup_packet\<close> for every command and both
    transports, and the nine exchanges with their write loop, acknowledge loop and deadlines.
    A device is a script (record \<open>port\<close>); a script that ends stands for a call that blocks.

  \<^item> \<open>WcndSm\<close>: \<open>wcn/platform/wcnd/wcnd_sm.c\<close> and the notification functions of \<open>wcnd.c\<close>.
    Record \<open>wcnd\<close> is \<open>WcndManager\<close>; one definition per state handler; outputs (messages to
    clients, commands to itself, AT commands) are logged in \<open>outp\<close>. The step function is an
    interpretation of \<open>transition_system\<close>: CP2 is not stopped while a service is in use, and a
    step leaves clients that wait for nothing alone.

  \<^item> \<open>WcndCmd\<close>: command tokenizer, dispatch, client table, opening, closing and resetting of
    CP2, and the engineering worker of \<open>wcnd.c\<close>, \<open>wcnd_cmd.c\<close>, \<open>wcnd_worker.c\<close>,
    \<open>wcnd_download.c\<close>, \<open>wcnd_eng_cmd_executer.c\<close>. The worker's queue interprets \<open>fifo\<close>.

  \<^item> \<open>NvFs\<close>, \<open>NvBuf\<close>, \<open>NvSync\<close>: \<open>open-source/apps/nvitem\<close>. \<open>NvFs\<close> is the two-image store
    (\<open>nvitem_fs.c\<close>) with short writes and power cuts (one cut keeps the data, two can lose
    it); \<open>NvBuf\<close> the working, backup and disk
    buffers and their dirty tables (\<open>nvitem_buf.c\<close>); \<open>NvSync\<close> the packets, the request
    analyser and the server loop (\<open>nvitem_packet.c\<close>, \<open>nvitem_channe_spipe.c\<close>, \<open>nvitem_sync.c\<close>,
    \<open>nvitem_server.c\<close>), an interpretation of \<open>transition_system\<close>.

  \<^item> \<open>CmrMsg\<close>: \<open>modules/libcamera/common/src/cmr_msg.c\<close>. The ring of message slots interprets
    \<open>fifo\<close>; the consumer thread and its senders are interleaved step by step, and that system
    interprets \<open>transition_system\<close>.

  \<^item> \<open>Sitm\<close>: \<open>wcn/bt/libbt/src/sitm.c\<close>. The framer that cuts the byte streams between the
    Bluetooth stack and the UART into HCI packets; a descriptor is its bytes and a script of
    the sizes its reads deliver. Streams of packets pass unchanged however they are cut; a
    failed read and an oversized ACL packet do not.

  \<^item> \<open>Sms4\<close>, \<open>Wapi\<close>: \<open>wcn/wifi/sc2331/6.0/wlan_wapi.c\<close> with its callers in
    \<open>wlan_core.c\<close>. \<open>Sms4\<close> is the block cipher, proved equal to the cipher of the standard
    (checked against the example the standard gives) and a permutation of the blocks. \<open>Wapi\<close>
    is the two modes of operation, the frames sent and received and the counter of the initial
    vectors (record \<open>wapi_vif\<close>); sealed frames are accepted and delivered, others are not,
    and frames shorter than their overhead leave the buffers.

  \<^item> \<open>WlanQueue\<close>: \<open>wlan_msg_q.c\<close>, \<open>wlan_fifo.c\<close> and \<open>wlan_tx\<close>, \<open>hw_tx\<close> of
    \<open>wlan_core.c\<close> in the same driver. The two rings of slots interpret \<open>fifo\<close>. The byte ring
    (record \<open>txfifo\<close>) is written by the core thread and emptied by the bus thread, whose
    \<open>tx_fifo_out\<close> is split where it waits for the bus; the interleaved system interprets
    \<open>transition_system\<close>. \<open>tx_holds\<close> relates the bytes of the ring to the messages in it.

  \<^item> \<open>WlanTcp\<close>: \<open>wlan_tcp.c\<close> and \<open>wlan_rx_process\<close> of the same driver. Sessions of TCP
    connections (record \<open>tcp_session\<close>) are opened by received data; the acknowledges of a
    session wait in its queue, and \<open>ack_loop\<close> sends or drops them. \<open>rx_loop\<close> takes a received
    block apart.

  \<^item> \<open>WlanQos\<close>: \<open>wlan_qos.c\<close>, \<open>wlan_xmit\<close>, \<open>wlan_cmd_send_to_ic\<close> and one interface's part of
    \<open>wlan_core_thread\<close> (record \<open>net_if\<close>), which joins the queues, the sessions and the ring of
    the two theories before. Everything that happens to an interface without WAPI is an
    interpretation of \<open>transition_system\<close>; the scheduler's shares never exceed the queues.

  \<^item> \<open>WlanCmd\<close>: the commands to the chip and their answers (\<open>wlan_cmd.c\<close>). Callers
    (\<open>callers\<close>, each at its point of the call) share one lock and one buffer with the receiver
    (record \<open>cmd_ctx\<close>). A call enters, takes the lock, clears the buffer, queues its command,
    waits until it is woken or its time is over, and copies the answer. These steps, the receiver,
    the exit of the module with the freeing of the buffer, and reset are interleaved, and that
    system interprets \<open>transition_system\<close>.

  \<^item> \<open>SmartCtrl\<close>, \<open>SmartHandle\<close>: \<open>modules/libcamera/isp2.0/smart/smart_ctrl.c\<close>. \<open>SmartCtrl\<close>
    reads tables (record \<open>isp_piecewise_func\<close>) at the brightness and colour temperature and makes
    the result of a block (\<open>block_result\<close>), each typed by its tag, and what the blocks of the
    image processor ask of such a result (\<open>_pm_check_smart_param\<close>). \<open>SmartHandle\<close> is the
    context (record \<open>smart_ctx\<close>) with the tunings of sixteen work modes and every entry point.

  \<^item> \<open>IspInterp\<close>: \<open>param_manager/isp_com_alg.c\<close> and the smart settings of the colour matrix,
    the gamma curve and the hue map in \<open>isp_blocks_cfg.c\<close>: two tunings are mixed by the weights
    of the smart control. What is mixed lies between the two, a matrix taken over whole leaves
    its buffer, and a mixed hue map loses bits.

  \<^item> \<open>AudioRing\<close>: \<open>modules/audio/whale/ring_buffer.c\<close>, the producer that fills the ring
    (\<open>debug/audio_hw_dev_test.c\<close>) and the sizes of the DSP loop (\<open>debug/dsp_loop.c\<close>,
    \<open>debug/ext_control.c\<close>). The ring (record \<open>ring_buffer\<close>) with its masked counters refines a
    bounded queue of bytes (\<open>bq_step\<close>), which gives the delay of the loop and the end of the
    producer.

  \<^item> This theory joins \<open>WlanTcp\<close> and \<open>WlanCmd\<close>: the answers in a received block on their way
    to the callers.

  \<^bold>\<open>Properties\<close> carry their numbers (C1, C2, ...) in the theory of their component: round
  trips (stuffing, headers, images, quoting), equivalences of routines, invariants and safety of
  state machines, atomicity of NV requests, ordering of queues and refinement of a ring to one,
  delivery of the messages to the Wi-Fi chip, fairness and
  starvation of its scheduler, types and bounds of the tunings of the image processor, and the error behaviours found on the
  way (a message that blocks the ring to the chip, a lock lost at shutdown, a colour matrix copied past
  its buffer);
  further ones (a lost token, a partition erased while reading or lost by two power cuts, a late
  answer taken for that of the next command, a completion taken by another sender) are lemmas of
  their theories.

  \<^bold>\<open>Loops.\<close> Loops over data are structural recursion. The retry loops (\<open>open_attempts\<close>,
  \<open>reset_attempts\<close>), the dirty-table loop (\<open>mark_loop\<close>) and the analyser's inner loop
  (\<open>analyze_loop\<close>) are functions with termination measures; loops that wait for a device run
  over the script of its answers. No fuel is used.

  \<^bold>\<open>Not modelled.\<close> Logging, locks (where all handlers run on one thread), sleeps, memory
  exhaustion where noted, steps within one operation that takes no lock (the writer of the ring
  to the chip, a round of the core thread), system properties and paths, the select loops and supervision
  threads of \<open>wcnd\<close>, and the components listed in the manifest as not modelled: vendored
  programs, kernel and C++ HAL code, sensor tables and thin device glue.
\<close>

subsection \<open>Answers in a received block\<close>

text \<open>
  What \<open>wlan_rx_process\<close> hands to \<open>wlan_rx_rsp_process\<close>: the message with everything behind it
  in the block.
\<close>

definition rx_answers :: "u8 list \<Rightarrow> rx_item list \<Rightarrow> cmd_evt list" where
  "rx_answers buf items = concat (map (\<lambda>it. case it of Rx_rsp vif_id p \<Rightarrow> [Rx (drop p buf)] | _ \<Rightarrow> []) items)"

lemma rx_answers_of:
  assumes "list_all (rx_msg_ok wapi) ms" and "drop (8 + p) buf = concat (map rx_unit ms) @ rest"
  shows "list_all2 (\<lambda>e m. \<exists>t. e = Rx (rx_unit m @ t)) (rx_answers buf (rx_items p ms)) (filter (\<lambda>m. rtype m = SC2331_HOST_RSP) ms)"
  using assms
proof (induction ms arbitrary: p)
  case (Cons m ms)
  have d: "drop (8 + p) buf = rx_unit m @ concat (map rx_unit ms) @ rest" using Cons.prems(2) by simp
  have "drop (length (rx_unit m)) (drop (8 + p) buf) = concat (map rx_unit ms) @ rest" unfolding d by simp
  then have "drop (8 + (p + length (rx_unit m))) buf = concat (map rx_unit ms) @ rest" by (simp add: add_ac)
  then have "list_all2 (\<lambda>e m. \<exists>t. e = Rx (rx_unit m @ t)) (rx_answers buf (rx_items (p + length (rx_unit m)) ms))
      (filter (\<lambda>m. rtype m = SC2331_HOST_RSP) ms)"
    using Cons.IH Cons.prems(1) by simp
  moreover have "rx_answers buf (rx_items_of p m) = (if rtype m = SC2331_HOST_RSP then [Rx (drop (8 + p) buf)] else [])"
    by (simp add: rx_answers_def rx_items_of_def)
  moreover have "rx_answers buf (xs @ ys) = rx_answers buf xs @ rx_answers buf ys" for xs ys by (simp add: rx_answers_def)
  ultimately show ?case using d by auto
qed (simp add: rx_answers_def)

lemma rx_unit_fields:
  assumes "rx_msg_ok wapi m"
  shows "hdr_len (rx_unit m @ t) = length (rbody m)" and "hdr_type (rx_unit m @ t) = rtype m" and "(rx_unit m @ t) ! 1 = rsub m"
    and "drop 4 (rx_unit m @ t) = rbody m @ replicate (ALIGN_4BYTE (length (rbody m)) - length (rbody m)) 0 @ t"
proof -
  have u: "rx_unit m @ t = rx_hdr m @ rbody m @ replicate (ALIGN_4BYTE (length (rbody m)) - length (rbody m)) 0 @ t"
    by (simp add: rx_unit_def)
  note f = rx_hdr_fields [OF assms]
  have "take 4 (rx_unit m @ t) = rx_hdr m" unfolding u by simp
  then show "hdr_len (rx_unit m @ t) = length (rbody m)" using hdr_len_prefix [of 4 "rx_unit m @ t"] f(5) by simp
  show "hdr_type (rx_unit m @ t) = rtype m" using f(1) unfolding u by (simp add: hdr_type_def nth_append)
  show "(rx_unit m @ t) ! 1 = rsub m" using f(3) unfolding u by (simp add: nth_append)
  show "drop 4 (rx_unit m @ t) = rbody m @ replicate (ALIGN_4BYTE (length (rbody m)) - length (rbody m)) 0 @ t" unfolding u by simp
qed

text \<open>
  C28. From the bus to the caller: while a caller waits for the signal strength, a block of messages
  with packets, events and its answer is received; the block is taken apart, the answer put into
  the buffer, the caller woken, and it returns success with the signal and the noise that the chip
  sent.
\<close>

theorem received_answer_reaches_caller:
  assumes "list_all (rx_msg_ok wapi) ms" and "length pre = 8" and "max_len < 2 ^ 32"
    and "8 + length (concat (map rx_unit ms)) = max_len \<or>
         8 + length (concat (map rx_unit ms)) < max_len \<and> 4 \<le> length rest \<and> rx_end (take 4 rest)"
    and "filter (\<lambda>m. rtype m = SC2331_HOST_RSP) ms = [m]" and "rsub m = WIFI_CMD_GET_RSSI"
    and "8 \<le> length (rbody m)" and "length (rbody m) \<le> 8188"
    and "cmd_start co" and "run_steps cmd_step co es = Some c" and "caller_pc c i = Waiting (Get_rssi v)" and "\<not> sync_exit c"
    and "buf = pre @ concat (map rx_unit ms) @ rest"
  shows "\<exists>items c'. wlan_rx_process wapi buf max_len = Some items \<and>
    run_steps cmd_step (Some c) (rx_answers buf items @ [Wake i, Copy i]) = Some c' \<and>
    returned c' = returned c @ [(i, Get_rssi v, OK, [rbody m ! 4, rbody m ! 6])]"
proof -
  have m: "rx_msg_ok wapi m" "rtype m = SC2331_HOST_RSP"
    using assms(1) arg_cong [OF assms(5), of set] by (auto simp: list_all_iff)
  have "drop (8 + 0) buf = concat (map rx_unit ms) @ rest" using assms(2,13) by simp
  then obtain t where t: "rx_answers buf (rx_items 0 ms) = [Rx (rx_unit m @ t)]"
    using rx_answers_of [OF assms(1), of 0 buf rest] unfolding assms(5) by (auto simp: list_all2_Cons2)
  let ?msg = "rx_unit m @ t"
  note f = rx_unit_fields [OF m(1), of t]
  have "hdr_len ?msg + 4 \<le> 8192" "hdr_len ?msg + 4 \<le> length ?msg" "8 \<le> hdr_len ?msg"
    using f(1) assms(7,8) length_rx_unit [of m] ALIGN_4BYTE_ge [of "length (rbody m)"] by simp_all
  note l = this
  obtain b d where d: "run_steps cmd_step (Some c) [Rx ?msg, Wake i] = Some d" "mem d = Some b" "length b = 8192"
      "take (hdr_len ?msg + 4) b = take (hdr_len ?msg + 4) ?msg" "caller_pc d i = Copying (Get_rssi v)" "returned d = returned c"
    by (rule answer_arrives [OF reached_ok [OF assms(9,10)] assms(11,12) l(1,2)])
  obtain a where a: "take_answer 8 b = Some (a, cut_header 8 b)" "drop 4 a = take 8 (drop 4 ?msg)" "a ! 0 = ?msg ! 0" "a ! 1 = ?msg ! 1"
    by (rule taken_body [OF d(3,4) l(3,1)])
  have "matches WIFI_CMD_GET_RSSI a" using a(3,4) f(2,3) m(2) assms(6) by (simp add: matches_def hdr_type_def)
  moreover have s: "drop 4 a = take 8 (rbody m)" using a(2) assms(7) unfolding f(4) by simp
  have "drop 8 a = take 4 (drop 4 (rbody m))" using arg_cong [OF s, of "drop 4"] by (simp add: drop_take)
  then have "rssi_bytes a = [rbody m ! 4, rbody m ! 6]" using rssi_bytes_of [of a] assms(7) by simp
  ultimately have "\<exists>c'. cmd_step (Some d) (Copy i) = Some c' \<and> returned c' = returned c @ [(i, Get_rssi v, OK, [rbody m ! 4, rbody m ! 6])]"
    using d(2,5,6) a(1) by (simp add: cmd_step_def cmd_evt_step_def copy_step_def finish_def returns_def wlan_cmd_unlock_def)
  moreover have "run_steps cmd_step (Some c) (rx_answers buf (rx_items 0 ms) @ [Wake i, Copy i]) = cmd_step (Some d) (Copy i)"
    using d(1) run_steps_append [of cmd_step "Some c" "[Rx ?msg, Wake i]" "[Copy i]"] by (simp add: t)
  moreover have "wlan_rx_process wapi buf max_len = Some (rx_items 0 ms)"
    unfolding assms(13) by (rule rx_block_items [OF assms(1-4)])
  ultimately show ?thesis by auto
qed

text \<open>An event and an answer in one block.\<close>

definition demo_rx_answer :: rx_msg where
  "demo_rx_answer = \<lparr>rmode = False, rtype = 1, rsub = 2, rbody = [0, 0, 0, 0, 200, 0, 160, 0]\<rparr>"

definition demo_rx_block :: "u8 list" where
  "demo_rx_block = replicate 8 0 @ concat (map rx_unit [\<lparr>rmode = False, rtype = 0, rsub = 7, rbody = []\<rparr>, demo_rx_answer]) @ [0x7F, 0, 0, 0]"

theorem received_answer_reaches_caller_witness:
  "\<forall>w. \<exists>v items c'. wlan_rx_process (\<lambda>v. False) demo_rx_block 64 = Some items \<and>
     run_steps cmd_step (Some (demo_waiting (Get_rssi False) v)) (rx_answers demo_rx_block items @ [Wake 0, Copy 0]) = Some c' \<and>
     returned c' = [(0, Get_rssi False, 0, [200, 160])]"
proof
  fix w
  obtain v where v: "run_steps cmd_step (Some (demo_cmd (demo_if w))) (demo_wait (Get_rssi False)) = Some (demo_waiting (Get_rssi False) v)"
    by (rule demo_run)
  have "\<exists>items c'. wlan_rx_process (\<lambda>v. False) demo_rx_block 64 = Some items \<and>
      run_steps cmd_step (Some (demo_waiting (Get_rssi False) v)) (rx_answers demo_rx_block items @ [Wake 0, Copy 0]) = Some c' \<and>
      returned c' = returned (demo_waiting (Get_rssi False) v) @ [(0, Get_rssi False, 0, [rbody demo_rx_answer ! 4, rbody demo_rx_answer ! 6])]"
    by (rule received_answer_reaches_caller [OF _ _ _ _ _ _ _ _ demo_cmd_start v demo_waiting_pc(1,2) demo_rx_block_def])
      (simp_all add: demo_rx_answer_def rx_msg_ok_def length_rx_unit ALIGN_4BYTE_def rx_end_def hdr_type_def)
  then show "\<exists>v items c'. wlan_rx_process (\<lambda>v. False) demo_rx_block 64 = Some items \<and>
      run_steps cmd_step (Some (demo_waiting (Get_rssi False) v)) (rx_answers demo_rx_block items @ [Wake 0, Copy 0]) = Some c' \<and>
      returned c' = [(0, Get_rssi False, 0, [200, 160])]"
    by (auto simp: demo_waiting_pc demo_rx_answer_def)
qed

end
